(* ===== verification/Go_Prelude.thy ===== *)
theory Go_Prelude
  imports Main "HOL-Library.Word"
begin

text \<open>
  Shared vocabulary of the development: the machine integer types of the program, the
  option-valued loop combinators that every component uses (\<open>None\<close> is the result of an
  execution the C++ standard leaves undefined, or of a loop that did not stop), and the
  generic lemmas about them. \<open>wrap16\<close> is the conversion of an \<open>int\<close> to \<open>int16_t\<close>.
\<close>

unbundle bit_operations_syntax

type_synonym u8 = "8 word"
type_synonym u32 = "32 word"
type_synonym u64 = "64 word"

named_theorems loop_simps

text \<open>Conversion to a 16-bit signed integer (two's complement).\<close>

definition wrap16 :: "int \<Rightarrow> int" where
  "wrap16 n = (n + 2 ^ 15) mod 2 ^ 16 - 2 ^ 15"

lemma wrap16_id [simp]: "- (2 ^ 15) \<le> n \<Longrightarrow> n < 2 ^ 15 \<Longrightarrow> wrap16 n = n"
  by (simp add: wrap16_def)

lemma wrap16_bounds: "- (2 ^ 15) \<le> wrap16 n \<and> wrap16 n < 2 ^ 15"
  by (simp add: wrap16_def)

text \<open>The same for 32 and 64 bits.\<close>

definition wrap32 :: "int \<Rightarrow> int" where
  "wrap32 n = (n + 2 ^ 31) mod 2 ^ 32 - 2 ^ 31"

definition wrap64 :: "int \<Rightarrow> int" where
  "wrap64 n = (n + 2 ^ 63) mod 2 ^ 64 - 2 ^ 63"

lemma wrap32_id [simp]: "- (2 ^ 31) \<le> n \<Longrightarrow> n < 2 ^ 31 \<Longrightarrow> wrap32 n = n"
  by (simp add: wrap32_def)

lemma wrap64_id [simp]: "- (2 ^ 63) \<le> n \<Longrightarrow> n < 2 ^ 63 \<Longrightarrow> wrap64 n = n"
  by (simp add: wrap64_def)

lemma wrap32_add [simp]: "wrap32 (wrap32 a + b) = wrap32 (a + b)" "wrap32 (wrap32 a - b) = wrap32 (a - b)"
proof -
  have "(m mod 2 ^ 32 - 2 ^ 31 + b + 2 ^ 31) mod 2 ^ 32 = (m + b) mod 2 ^ 32" for m b :: int
    by (simp add: mod_add_left_eq)
  from this [of "a + 2 ^ 31" b] this [of "a + 2 ^ 31" "- b"]
  show "wrap32 (wrap32 a + b) = wrap32 (a + b)" "wrap32 (wrap32 a - b) = wrap32 (a - b)"
    by (simp_all add: wrap32_def algebra_simps)
qed

lemma wrap32_add_right [simp]: "wrap32 (b + wrap32 a) = wrap32 (b + a)"
  using wrap32_add(1) [of a b] by (simp add: add.commute)

subsection \<open>Loops over a list, with a state and possible failure\<close>

primrec foldo :: "('a \<Rightarrow> 's \<Rightarrow> 's option) \<Rightarrow> 'a list \<Rightarrow> 's \<Rightarrow> 's option" where
  "foldo f [] s = Some s"
| "foldo f (x # xs) s = (case f x s of None \<Rightarrow> None | Some s' \<Rightarrow> foldo f xs s')"

lemma foldo_append:
  "foldo f (xs @ ys) s = (case foldo f xs s of None \<Rightarrow> None | Some s' \<Rightarrow> foldo f ys s')"
  by (induction xs arbitrary: s) (auto split: option.splits)

lemma foldo_Some_fold [loop_simps]: "foldo (\<lambda>x s. Some (f x s)) xs s = Some (fold f xs s)"
  by (induction xs arbitrary: s) auto

text \<open>
  The loop rule: an invariant over the part of the list already done, kept by every
  iteration, gives a result that satisfies it for the whole list.
\<close>

lemma foldo_rule:
  assumes "P [] s"
    and "\<And>done x rest s. xs = done @ x # rest \<Longrightarrow> P done s \<Longrightarrow>
           \<exists>s'. f x s = Some s' \<and> P (done @ [x]) s'"
  shows "\<exists>s'. foldo f xs s = Some s' \<and> P xs s'"
proof -
  have "\<exists>s'. foldo f ys s0 = Some s' \<and> P (dn @ ys) s'"
    if "xs = dn @ ys" "P dn s0" for dn ys s0
    using that
  proof (induction ys arbitrary: dn s0)
    case Nil
    then show ?case by simp
  next
    case (Cons y ys)
    from assms(2) [OF Cons.prems] obtain s1 where "f y s0 = Some s1" "P (dn @ [y]) s1"
      by blast
    with Cons.IH [of "dn @ [y]" s1] Cons.prems(1) show ?case by simp
  qed
  from this [of "[]" xs s] assms(1) show ?thesis by simp
qed

text \<open>The same when the invariant does not speak about the list.\<close>

lemma foldo_inv:
  assumes "P s"
    and "\<And>x s. x \<in> set xs \<Longrightarrow> P s \<Longrightarrow> \<exists>s'. f x s = Some s' \<and> P s'"
  shows "\<exists>s'. foldo f xs s = Some s' \<and> P s'"
  using foldo_rule [where P = "\<lambda>_. P" and f = f and xs = xs and s = s] assms by auto

lemma foldo_cong:
  assumes "xs = ys" and "s = t" and "\<And>x u. x \<in> set ys \<Longrightarrow> f x u = g x u"
  shows "foldo f xs s = foldo g ys t"
proof -
  have "foldo f ys s0 = foldo g ys s0" for s0
    using assms(3) by (induction ys arbitrary: s0) (auto split: option.splits)
  with assms(1,2) show ?thesis by simp
qed

lemma fold_rule:
  assumes "P [] s"
    and "\<And>done x rest s. xs = done @ x # rest \<Longrightarrow> P done s \<Longrightarrow> P (done @ [x]) (f x s)"
  shows "P xs (fold f xs s)"
  using foldo_rule [where f = "\<lambda>x s. Some (f x s)" and P = P and xs = xs and s = s] assms
  by (simp add: foldo_Some_fold)

lemma fold_invariant_list:
  assumes "P s" and "\<And>x s. x \<in> set xs \<Longrightarrow> P s \<Longrightarrow> P (f x s)"
  shows "P (fold f xs s)"
  using assms by (induction xs arbitrary: s) auto

text \<open>A fold that writes one entry of a table per element.\<close>

lemma fold_upd_other:
  "k \<notin> g ` set xs \<Longrightarrow> fold (\<lambda>x t. t(g x := h x)) xs t k = t k"
  by (induction xs arbitrary: t) auto

lemma fold_upd_inj:
  "x \<in> set xs \<Longrightarrow> inj_on g (set xs) \<Longrightarrow> fold (\<lambda>x t. t(g x := h x)) xs t (g x) = h x"
proof (induction xs arbitrary: t)
  case Nil
  then show ?case by simp
next
  case (Cons y ys)
  show ?case
  proof (cases "x \<in> set ys")
    case True
    with Cons show ?thesis by simp
  next
    case False
    with Cons.prems have xy: "x = y" by simp
    have "g x \<notin> g ` set ys"
    proof
      assume "g x \<in> g ` set ys"
      then obtain z where "z \<in> set ys" "g z = g x" by auto
      then have "z = x" using Cons.prems(2) xy by (intro inj_onD [OF Cons.prems(2)]) auto
      with False \<open>z \<in> set ys\<close> show False by simp
    qed
    then show ?thesis
      unfolding fold_simps xy by (subst fold_upd_other) (simp_all add: xy)
  qed
qed

lemma takeWhile_stop:
  "\<forall>v\<in>set xs. P v \<Longrightarrow> \<not> P u \<Longrightarrow> takeWhile P (xs @ u # ys) = xs"
  by (induction xs) auto

subsection \<open>Bits of words\<close>

lemma bit_push_one [simp]:
  "bit (push_bit n (1 :: 'a::len word)) m \<longleftrightarrow> m = n \<and> n < LENGTH('a)"
  by (auto simp: bit_simps)

lemma xor_word_cancel [simp]: "(a :: 'a::len word) XOR (a XOR b) = b"
  by (simp flip: xor.assoc)

lemma unat_less_iff_bits:
  fixes w :: "'a::len word"
  shows "unat w < 2 ^ n \<longleftrightarrow> (\<forall>k. bit w k \<longrightarrow> k < n)"
proof -
  have "unat w < 2 ^ n \<longleftrightarrow> unat (take_bit n w) = unat w"
    by (simp add: unsigned_take_bit_eq take_bit_nat_eq_self_iff)
  also have "\<dots> \<longleftrightarrow> take_bit n w = w" by (simp add: word_unat_eq_iff)
  also have "\<dots> \<longleftrightarrow> (\<forall>k. bit w k \<longrightarrow> k < n)"
    by (auto simp: bit_eq_iff bit_simps dest: bit_imp_le_length)
  finally show ?thesis .
qed

text \<open>The exclusive or of \<open>f\<close> over a finite set.\<close>

interpretation xor_set: comm_monoid_set "(XOR) :: u64 \<Rightarrow> u64 \<Rightarrow> u64" 0
  by unfold_locales (simp_all add: ac_simps)

definition xsum :: "('a \<Rightarrow> u64) \<Rightarrow> 'a set \<Rightarrow> u64" where
  "xsum f S = xor_set.F f S"

lemma xsum_empty [simp]: "xsum f {} = 0"
  by (simp add: xsum_def)

lemma xsum_insert [simp]: "finite S \<Longrightarrow> x \<notin> S \<Longrightarrow> xsum f (insert x S) = f x XOR xsum f S"
  by (simp add: xsum_def)

lemma xsum_Un: "finite S \<Longrightarrow> finite T \<Longrightarrow> S \<inter> T = {} \<Longrightarrow> xsum f (S \<union> T) = xsum f S XOR xsum f T"
  by (simp add: xsum_def xor_set.union_disjoint)

lemma xsum_cong: "S = T \<Longrightarrow> (\<And>x. x \<in> T \<Longrightarrow> f x = g x) \<Longrightarrow> xsum f S = xsum g T"
  by (simp add: xsum_def cong: xor_set.cong)

lemma foldo_xor: "distinct xs \<Longrightarrow> fold (\<lambda>x h. h XOR f x) xs h = h XOR xsum f (set xs)"
  by (induction xs arbitrary: h) (simp_all add: ac_simps)

end
