(* ===== verification/Cpp_String.thy ===== *)
theory Cpp_String
  imports Go_Prelude
begin

text \<open>
  The string operations of the C++ standard library that the program uses
  (\<open>std::to_string\<close>, \<open>std::stoi\<close>, \<open>operator[]\<close> on a const string, \<open>substr\<close>) and
  \<open>SplitStr\<close> of str_utils.cc. Strings are lists of bytes; a C++ exception is a value of
  \<open>cpp_error\<close>.
\<close>

datatype cpp_error = InvalidArgument | OutOfRange

subsection \<open>Characters\<close>

text \<open>\<open>char\<close> is signed on the platforms the program is built for.\<close>

definition schar :: "char \<Rightarrow> int" where
  "schar c = (let n = int (of_char c :: nat) in if n < 128 then n else n - 256)"

text \<open>Conversion of an \<open>int\<close> to \<open>char\<close>.\<close>

definition to_char :: "int \<Rightarrow> char" where
  "to_char n = char_of (nat (n mod 256))"

lemma schar_to_char: "- 128 \<le> n \<Longrightarrow> n < 128 \<Longrightarrow> schar (to_char n) = n"
proof -
  assume a: "- 128 \<le> n" "n < 128"
  have m: "of_char (char_of (nat (n mod 256)) :: char) = nat (n mod 256)"
    by (simp add: of_char_of nat_less_iff)
  have "n mod 256 = (if 0 \<le> n then n else n + 256)"
    using a mod_pos_pos_trivial [of n 256] mod_pos_pos_trivial [of "n + 256" 256] by simp
  with m a show ?thesis by (auto simp: schar_def to_char_def Let_def)
qed

text \<open>Reading a character of a \<open>const std::string\<close>: the position \<open>size()\<close> holds a zero
  byte, a position beyond it is undefined behaviour.\<close>

definition str_at :: "string \<Rightarrow> nat \<Rightarrow> int option" where
  "str_at s i = (if i < length s then Some (schar (s ! i))
                 else if i = length s then Some 0 else None)"

text \<open>\<open>substr(pos, n)\<close> clamps the length and throws when the position is past the end.\<close>

definition substr :: "string \<Rightarrow> nat \<Rightarrow> nat \<Rightarrow> cpp_error + string" where
  "substr s pos n = (if pos > length s then Inl OutOfRange else Inr (take n (drop pos s)))"

definition tolower :: "char \<Rightarrow> char" where
  "tolower c = (let n = of_char c :: nat in if 65 \<le> n \<and> n \<le> 90 then char_of (n + 32) else c)"

subsection \<open>Decimal numbers\<close>

definition digit :: "nat \<Rightarrow> char" where
  "digit d = char_of (48 + d)"

definition isdigit :: "char \<Rightarrow> bool" where
  "isdigit c \<longleftrightarrow> 48 \<le> (of_char c :: nat) \<and> (of_char c :: nat) \<le> 57"

definition digit_val :: "char \<Rightarrow> nat" where
  "digit_val c = of_char c - 48"

definition isspace :: "char \<Rightarrow> bool" where
  "isspace c \<longleftrightarrow> (let n = of_char c :: nat in n = 32 \<or> 9 \<le> n \<and> n \<le> 13)"

fun nat_digits :: "nat \<Rightarrow> string" where
  "nat_digits n = (if n < 10 then [digit n] else nat_digits (n div 10) @ [digit (n mod 10)])"

declare nat_digits.simps [simp del]

definition to_string :: "int \<Rightarrow> string" where
  "to_string n = (if n < 0 then CHR ''-'' # nat_digits (nat (- n)) else nat_digits (nat n))"

fun parse_digits :: "nat \<Rightarrow> string \<Rightarrow> nat" where
  "parse_digits acc [] = acc"
| "parse_digits acc (c # cs) =
     (if isdigit c then parse_digits (10 * acc + digit_val c) cs else acc)"

text \<open>\<open>std::stoi\<close>: leading white space, a sign, then the longest run of digits.\<close>

definition stoi :: "string \<Rightarrow> cpp_error + int" where
  "stoi s =
     (let t = dropWhile isspace s;
          neg = (t \<noteq> [] \<and> hd t = CHR ''-'');
          u = (if t \<noteq> [] \<and> (hd t = CHR ''-'' \<or> hd t = CHR ''+'') then tl t else t)
      in if u = [] \<or> \<not> isdigit (hd u) then Inl InvalidArgument
         else let m = int (parse_digits 0 u); n = (if neg then - m else m)
              in if - (2 ^ 31) \<le> n \<and> n < 2 ^ 31 then Inr n else Inl OutOfRange)"

lemma of_char_digit [simp]: "d < 10 \<Longrightarrow> of_char (digit d) = 48 + d"
  by (simp add: digit_def of_char_of)

lemma isdigit_digit [simp]: "d < 10 \<Longrightarrow> isdigit (digit d)"
  by (simp add: isdigit_def)

lemma digit_val_digit [simp]: "d < 10 \<Longrightarrow> digit_val (digit d) = d"
  by (simp add: digit_val_def)

lemma nat_digits_isdigit: "c \<in> set (nat_digits n) \<Longrightarrow> isdigit c"
proof (induction n rule: nat_digits.induct)
  case (1 n)
  show ?case
  proof (cases "n < 10")
    case True
    with 1 show ?thesis by (subst (asm) (2) nat_digits.simps) simp
  next
    case False
    with 1 show ?thesis by (subst (asm) (2) nat_digits.simps) auto
  qed
qed

lemma nat_digits_nonempty [simp]: "nat_digits n \<noteq> []"
  by (subst nat_digits.simps) simp

lemma parse_digits_append:
  "(\<And>c. c \<in> set xs \<Longrightarrow> isdigit c) \<Longrightarrow>
   parse_digits a (xs @ ys) = parse_digits (parse_digits a xs) ys"
  by (induction xs arbitrary: a) auto

lemma parse_nat_digits: "parse_digits 0 (nat_digits n) = n"
proof (induction n rule: nat_digits.induct)
  case (1 n)
  show ?case
  proof (cases "n < 10")
    case True
    then show ?thesis by (subst nat_digits.simps) simp
  next
    case False
    with 1 have "parse_digits 0 (nat_digits (n div 10)) = n div 10" by simp
    with False show ?thesis
      by (subst nat_digits.simps) (simp add: parse_digits_append nat_digits_isdigit)
  qed
qed

lemma isdigit_not_space: "isdigit c \<Longrightarrow> \<not> isspace c"
  by (auto simp: isdigit_def isspace_def Let_def)

lemma isdigit_not_sign: "isdigit c \<Longrightarrow> c \<noteq> CHR ''-'' \<and> c \<noteq> CHR ''+''"
  by (auto simp: isdigit_def)

lemma hd_nat_digits: "isdigit (hd (nat_digits n))"
  by (rule nat_digits_isdigit [of _ n]) simp

lemma stoi_nat_digits: "n < 2 ^ 31 \<Longrightarrow> stoi (nat_digits n) = Inr (int n)"
proof -
  assume n: "n < 2 ^ 31"
  have "dropWhile isspace (nat_digits n) = nat_digits n"
    using hd_nat_digits [of n] by (cases "nat_digits n") (auto simp: isdigit_not_space)
  with n show ?thesis
    using hd_nat_digits [of n] isdigit_not_sign [OF hd_nat_digits [of n]]
    by (simp add: stoi_def Let_def parse_nat_digits)
qed

lemma stoi_to_string: "0 \<le> n \<Longrightarrow> n < 2 ^ 31 \<Longrightarrow> stoi (to_string n) = Inr n"
  by (simp add: to_string_def stoi_nat_digits nat_less_iff)

subsection \<open>SplitStr\<close>

text \<open>\<open>SplitStr\<close> of str_utils.cc: a fold over the characters whose state is the vector
  of pieces, the last one growing.\<close>

fun split_step :: "char \<Rightarrow> char \<Rightarrow> string list \<Rightarrow> string list" where
  "split_step delim c ret =
     (if c = delim then ret @ [[]] else butlast ret @ [last ret @ [c]])"

definition SplitStr :: "string \<Rightarrow> char \<Rightarrow> string list" where
  "SplitStr str delim = fold (split_step delim) str [[]]"

text \<open>The inverse: joining the pieces with the delimiter.\<close>

fun join_with :: "char \<Rightarrow> string list \<Rightarrow> string" where
  "join_with d [] = []"
| "join_with d [p] = p"
| "join_with d (p # q # ps) = p @ d # join_with d (q # ps)"

lemma join_with_snoc: "ps \<noteq> [] \<Longrightarrow> join_with d (ps @ [p]) = join_with d ps @ d # p"
  by (induction d ps rule: join_with.induct) auto

lemma join_with_last:
  "ps \<noteq> [] \<Longrightarrow> join_with d (butlast ps @ [last ps @ [c]]) = join_with d ps @ [c]"
proof (induction d ps rule: join_with.induct)
  case (3 d p q ps)
  then show ?case by (cases "butlast (q # ps)") (auto split: if_splits)
qed auto

lemma split_step_nonempty [simp]: "ret \<noteq> [] \<Longrightarrow> split_step d c ret \<noteq> []"
  by simp

lemma join_split_step:
  "ret \<noteq> [] \<Longrightarrow> join_with d (split_step d c ret) = join_with d ret @ [c]"
  by (simp add: join_with_snoc join_with_last)

lemma fold_split_step:
  "ret \<noteq> [] \<Longrightarrow> join_with d (fold (split_step d) s ret) = join_with d ret @ s
     \<and> fold (split_step d) s ret \<noteq> []"
proof (induction s arbitrary: ret)
  case Nil
  then show ?case by simp
next
  case (Cons c s)
  have "split_step d c ret \<noteq> []" using Cons.prems by simp
  from Cons.IH [OF this] show ?case
    using join_split_step [OF Cons.prems, of d c] by (simp del: split_step.simps)
qed

lemma split_pieces_no_delim:
  "(\<forall>p\<in>set ret. d \<notin> set p) \<Longrightarrow> ret \<noteq> [] \<Longrightarrow>
   \<forall>p\<in>set (fold (split_step d) s ret). d \<notin> set p"
proof (induction s arbitrary: ret)
  case Nil
  then show ?case by simp
next
  case (Cons c s)
  have "\<forall>p\<in>set (split_step d c ret). d \<notin> set p"
    using Cons.prems by (auto dest: in_set_butlastD)
  from Cons.IH [OF this split_step_nonempty [OF Cons.prems(2)]] show ?case
    by (simp del: split_step.simps)
qed

lemma fold_split_piece:
  "d \<notin> set p \<Longrightarrow> ret \<noteq> [] \<Longrightarrow> fold (split_step d) p ret = butlast ret @ [last ret @ p]"
  by (induction p arbitrary: ret) auto

lemma fold_split_join:
  "ps \<noteq> [] \<Longrightarrow> \<forall>p\<in>set ps. d \<notin> set p \<Longrightarrow> fold (split_step d) (join_with d ps) (qs @ [[]]) = qs @ ps"
proof (induction d ps arbitrary: qs rule: join_with.induct)
  case (2 d p)
  then show ?case by (simp add: fold_split_piece del: split_step.simps)
next
  case (3 d p q ps)
  then have "fold (split_step d) (join_with d (p # q # ps)) (qs @ [[]]) =
      fold (split_step d) (join_with d (q # ps)) ((qs @ [p]) @ [[]])"
    by (simp add: fold_split_piece split_step.simps [of d d] del: split_step.simps)
  also have "\<dots> = (qs @ [p]) @ (q # ps)" by (rule "3.IH") (use 3 in simp_all)
  finally show ?case by (simp only: append.assoc append.simps)
qed simp

lemma SplitStr_join: "ps \<noteq> [] \<Longrightarrow> \<forall>p\<in>set ps. d \<notin> set p \<Longrightarrow> SplitStr (join_with d ps) d = ps"
  using fold_split_join [of ps d "[]"] by (simp add: SplitStr_def)

lemma join_SplitStr: "join_with d (SplitStr s d) = s" "SplitStr s d \<noteq> []"
  using fold_split_step [of "[[]]" d s] by (simp_all add: SplitStr_def)

text \<open>Splitting undoes joining and joining undoes splitting: the pieces of a string joined
  with the delimiter are the string, no piece contains the delimiter, and at least one piece,
  possibly empty, is returned; pieces without the delimiter are recovered from their join.\<close>

theorem split_join_inverse:
  assumes "ps \<noteq> []" and "\<forall>p\<in>set ps. d \<notin> set p"
  shows "SplitStr (join_with d ps) d = ps \<and> join_with d (SplitStr s d) = s \<and> SplitStr s d \<noteq> [] \<and>
    (\<forall>p\<in>set (SplitStr s d). d \<notin> set p)"
  using SplitStr_join [OF assms] join_SplitStr [where d = d and s = s] split_pieces_no_delim [of "[[]]" d s]
  by (simp add: SplitStr_def)

theorem split_join_inverse_witness:
  "SplitStr ''0,,12'' (CHR '','') = [''0'', '''', ''12'']"
proof -
  have "[''0'', '''', ''12''] \<noteq> []" "\<forall>p\<in>set [''0'', '''', ''12'']. CHR '','' \<notin> set p" by simp_all
  from split_join_inverse [OF this] show ?thesis by simp
qed

end
