(* ===== verification/Go_Comm.thy ===== *)
theory Go_Comm
  imports Cpp_String
begin

text \<open>
  go_comm.h and go_comm.cc: board constants, point identifiers and their conversions, and
  the tables that \<open>CreateGlobalVariables\<close> fills once at start-up (hash weights,
  neighbour cache, the discrete logarithm table of the bit scan, the Zobrist weights).
  \<open>GoCoordId\<close>, \<open>GoBlockId\<close> and \<open>GoSize\<close> are \<open>int16_t\<close>: every value the code computes here is far
  inside its range, so they are integers, and \<open>wrap16\<close> stands where a counter can grow.
\<close>

type_synonym GoStoneColor = "8 word"
type_synonym GoCoordId = int
type_synonym GoBlockId = int
type_synonym GoSize = int

subsection \<open>Constants\<close>

definition BORDER_SIZE :: GoCoordId where [simp]: "BORDER_SIZE = 19"
definition GOBOARD_SIZE :: GoCoordId where [simp]: "GOBOARD_SIZE = 361"
definition COORD_UNSET :: GoCoordId where [simp]: "COORD_UNSET = -2"
definition COORD_PASS :: GoCoordId where [simp]: "COORD_PASS = -1"
definition COORD_RESIGN :: GoCoordId where [simp]: "COORD_RESIGN = -3"
definition SIZE_NONE :: GoSize where [simp]: "SIZE_NONE = 0"
definition MAX_BLOCK_SIZE :: GoBlockId where [simp]: "MAX_BLOCK_SIZE = 256"
definition BLOCK_UNSET :: GoBlockId where [simp]: "BLOCK_UNSET = -1"
definition EMPTY :: GoStoneColor where [simp]: "EMPTY = 0"
definition BLACK :: GoStoneColor where [simp]: "BLACK = 1"
definition WHITE :: GoStoneColor where [simp]: "WHITE = 2"
definition COLOR_UNKNOWN :: GoStoneColor where [simp]: "COLOR_UNKNOWN = -1"
definition LIBERTY_STATE_SIZE :: GoSize where [simp]: "LIBERTY_STATE_SIZE = 6"
definition DELTA_X :: "GoCoordId list" where [simp]: "DELTA_X = [0, 1, 0, -1]"
definition DELTA_Y :: "GoCoordId list" where [simp]: "DELTA_Y = [-1, 0, 1, 0]"
definition SIZE_HISTORYEACHSIDE :: int where [simp]: "SIZE_HISTORYEACHSIDE = 16"

lemma board_size_square: "GOBOARD_SIZE = BORDER_SIZE * BORDER_SIZE"
  by simp

lemma state_words: "LIBERTY_STATE_SIZE = (GOBOARD_SIZE + 64 - 1) div 64"
  by simp

text \<open>\<open>FOR_EACHCOORD\<close> runs over these ids in this order.\<close>

definition coords :: "GoCoordId list" where
  "coords = [0..GOBOARD_SIZE - 1]"

lemma set_coords [simp]: "set coords = {0..<361}"
  by (auto simp: coords_def)

lemma distinct_coords [simp]: "distinct coords"
  by (simp add: coords_def)

lemma length_coords [simp]: "length coords = 361"
  by (simp add: coords_def)

subsection \<open>Point identifiers\<close>

definition InBoard :: "GoCoordId \<Rightarrow> bool" where
  "InBoard p \<longleftrightarrow> 0 \<le> p \<and> p < GOBOARD_SIZE"

definition InBoardXY :: "GoCoordId \<Rightarrow> GoCoordId \<Rightarrow> bool" where
  "InBoardXY x y \<longleftrightarrow> 0 \<le> x \<and> x < BORDER_SIZE \<and> 0 \<le> y \<and> y < BORDER_SIZE"

definition IdToCoord :: "GoCoordId \<Rightarrow> GoCoordId \<times> GoCoordId" where
  "IdToCoord p =
     (if COORD_PASS = p then (COORD_PASS, COORD_PASS)
      else if COORD_RESIGN = p then (COORD_RESIGN, COORD_RESIGN)
      else if \<not> InBoard p then (COORD_UNSET, COORD_UNSET)
      else (p div BORDER_SIZE, p mod BORDER_SIZE))"

definition CoordToId :: "GoCoordId \<Rightarrow> GoCoordId \<Rightarrow> GoCoordId" where
  "CoordToId x y =
     (if COORD_PASS = x \<and> COORD_PASS = y then COORD_PASS
      else if COORD_RESIGN = x \<and> COORD_RESIGN = y then COORD_RESIGN
      else if \<not> InBoardXY x y then COORD_UNSET
      else x * BORDER_SIZE + y)"

definition IsPass :: "GoCoordId \<Rightarrow> bool" where
  "IsPass p \<longleftrightarrow> COORD_PASS = p"

definition IsPassXY :: "GoCoordId \<Rightarrow> GoCoordId \<Rightarrow> bool" where
  "IsPassXY x y \<longleftrightarrow> COORD_PASS = CoordToId x y"

definition IsUnset :: "GoCoordId \<Rightarrow> bool" where
  "IsUnset p \<longleftrightarrow> COORD_UNSET = p"

definition IsUnsetXY :: "GoCoordId \<Rightarrow> GoCoordId \<Rightarrow> bool" where
  "IsUnsetXY x y \<longleftrightarrow> COORD_UNSET = CoordToId x y"

definition IsResign :: "GoCoordId \<Rightarrow> bool" where
  "IsResign p \<longleftrightarrow> COORD_RESIGN = p"

definition IsResignXY :: "GoCoordId \<Rightarrow> GoCoordId \<Rightarrow> bool" where
  "IsResignXY x y \<longleftrightarrow> COORD_RESIGN = CoordToId x y"

text \<open>\<open>StrToCoord\<close> reads the first two characters; on the empty string the second read is
  past the end (\<open>None\<close>).\<close>

definition StrToCoord :: "string \<Rightarrow> (GoCoordId \<times> GoCoordId) option" where
  "StrToCoord str =
     (case (str_at str 0, str_at str 1) of
        (Some c0, Some c1) \<Rightarrow>
          (let x = c0 - 97; y = c1 - 97
           in if str = ''zz'' then Some (COORD_PASS, COORD_PASS)
              else if \<not> InBoardXY x y then Some (COORD_UNSET, COORD_UNSET)
              else Some (x, y))
      | _ \<Rightarrow> None)"

definition CoordToStr :: "GoCoordId \<Rightarrow> GoCoordId \<Rightarrow> string" where
  "CoordToStr x y =
     (if \<not> InBoardXY x y then ''zz'' else [to_char (x + 97), to_char (y + 97)])"

definition IdToStr :: "GoCoordId \<Rightarrow> string" where
  "IdToStr p = (let (x, y) = IdToCoord p in CoordToStr x y)"

definition StrToId :: "string \<Rightarrow> GoCoordId option" where
  "StrToId str = (case StrToCoord str of None \<Rightarrow> None | Some (x, y) \<Rightarrow> Some (CoordToId x y))"

text \<open>The human notation skips the letter I.\<close>

definition CoordToMoveStr :: "GoCoordId \<Rightarrow> GoCoordId \<Rightarrow> string" where
  "CoordToMoveStr x y =
     (if \<not> InBoardXY x y then ''PASS''
      else (if x > 7 then to_char (66 + x) else to_char (65 + x)) # to_string (y + 1))"

definition IdToMoveStr :: "GoCoordId \<Rightarrow> string" where
  "IdToMoveStr p = (let (x, y) = IdToCoord p in CoordToMoveStr x y)"

lemmas point_defs =
  InBoard_def InBoardXY_def IdToCoord_def CoordToId_def IsPass_def IsPassXY_def IsUnset_def
  IsUnsetXY_def IsResign_def IsResignXY_def

lemma InBoardXY_IdToCoord:
  "InBoard p \<Longrightarrow> InBoardXY (fst (IdToCoord p)) (snd (IdToCoord p))"
  by (auto simp: point_defs)

lemma CoordToId_IdToCoord_board:
  "InBoard p \<Longrightarrow> CoordToId (p div 19) (p mod 19) = p"
  by (auto simp: point_defs)

lemma CoordToId_InBoard: "InBoardXY x y \<Longrightarrow> CoordToId x y = x * 19 + y"
  by (auto simp: point_defs)

lemma InBoard_CoordToId: "InBoardXY x y \<Longrightarrow> InBoard (CoordToId x y)"
  by (auto simp: point_defs)

lemma IdToCoord_CoordToId_board: "InBoardXY x y \<Longrightarrow> IdToCoord (CoordToId x y) = (x, y)"
  by (auto simp: point_defs)

lemma CoordToId_inj:
  "InBoardXY x y \<Longrightarrow> InBoardXY x' y' \<Longrightarrow> CoordToId x y = CoordToId x' y' \<Longrightarrow> x = x' \<and> y = y'"
  by (metis IdToCoord_CoordToId_board prod.inject)

lemma str_at_pair [simp]: "str_at [c, d] 0 = Some (schar c)" "str_at [c, d] 1 = Some (schar d)"
  "str_at [c, d] (Suc 0) = Some (schar d)"
  by (simp_all add: str_at_def)

lemma board_char_not_z: "0 \<le> n \<Longrightarrow> n < 19 \<Longrightarrow> to_char (n + 97) \<noteq> CHR ''z''"
proof
  assume n: "0 \<le> n" "n < 19" and "to_char (n + 97) = CHR ''z''"
  then have "schar (to_char (n + 97)) = schar (CHR ''z'')" by simp
  with n schar_to_char [of "n + 97"] show False by (simp add: schar_def)
qed

text \<open>On every identifier the program uses (the 361 points, pass, resign and
  unset) converting to coordinates and back is the identity, and for coordinates on the
  board, pass and resign the other direction is the identity too.\<close>

theorem coord_id_roundtrip:
  "(InBoard p \<or> p \<in> {COORD_PASS, COORD_RESIGN, COORD_UNSET} \<longrightarrow>
      CoordToId (fst (IdToCoord p)) (snd (IdToCoord p)) = p) \<and>
   (InBoardXY x y \<or> (x, y) \<in> {(-1, -1), (-3, -3)} \<longrightarrow> IdToCoord (CoordToId x y) = (x, y))"
  by (auto simp: point_defs)

theorem coord_id_roundtrip_witness:
  "CoordToId (fst (IdToCoord 72)) (snd (IdToCoord 72)) = 72 \<and> IdToCoord (CoordToId 3 15) = (3, 15)"
  using coord_id_roundtrip [of 72 3 15] by (simp add: InBoard_def InBoardXY_def)

lemma str_id_back:
  "StrToId (IdToStr p) = Some (if InBoard p then p else COORD_PASS)"
proof (cases "InBoard p")
  case False
  then have "IdToStr p = ''zz''" by (auto simp: IdToStr_def CoordToStr_def point_defs)
  with False show ?thesis by (simp add: StrToId_def StrToCoord_def point_defs Let_def)
next
  case True
  define x y where "x = p div 19" and "y = p mod 19"
  from True have xy: "IdToCoord p = (x, y)" "InBoardXY x y" "CoordToId x y = p"
    by (auto simp: point_defs x_def y_def)
  then have b: "0 \<le> x" "x < 19" "0 \<le> y" "y < 19" by (auto simp: InBoardXY_def)
  have ne: "[to_char (x + 97), to_char (y + 97)] \<noteq> ''zz''"
    using board_char_not_z [of x] b by simp
  have "StrToCoord [to_char (x + 97), to_char (y + 97)] = Some (x, y)"
    using b xy(2) ne schar_to_char [of "x + 97"] schar_to_char [of "y + 97"]
    by (simp add: StrToCoord_def Let_def)
  with xy True show ?thesis by (simp add: IdToStr_def CoordToStr_def StrToId_def)
qed

text \<open>The two-letter notation of a point is read back to the same point, and pass
  is read back as pass; the resign and unset identifiers are printed as pass.\<close>

theorem str_id_roundtrip:
  "StrToId (IdToStr p) = Some (if InBoard p then p else COORD_PASS)"
  by (rule str_id_back)

subsection \<open>The neighbour cache\<close>

text \<open>
  The three tables of \<open>CreateNeighbourCache\<close>: neighbours by coordinates, their number, and
  neighbours by identifier in a row of five entries closed by \<open>COORD_UNSET\<close>, which is what
  the macro \<open>FOR_NEI\<close> walks along.
\<close>

record neighbour_tables =
  by_coord :: "GoCoordId \<Rightarrow> GoCoordId \<Rightarrow> (GoCoordId \<times> GoCoordId) list"
  neighbour_size :: "GoCoordId \<Rightarrow> GoSize"
  by_id :: "GoCoordId \<Rightarrow> int \<Rightarrow> GoCoordId"

definition push_neighbour :: "GoCoordId \<Rightarrow> GoCoordId \<Rightarrow> nat \<Rightarrow>
    (GoCoordId \<times> GoCoordId) list \<Rightarrow> (GoCoordId \<times> GoCoordId) list" where
  "push_neighbour x y i l =
     (let nx = x + DELTA_X ! i; ny = y + DELTA_Y ! i
      in if InBoardXY nx ny then l @ [(nx, ny)] else l)"

definition neighbour_cell :: "GoCoordId \<times> GoCoordId \<Rightarrow> neighbour_tables \<Rightarrow> neighbour_tables" where
  "neighbour_cell xy t =
     (let x = fst xy; y = snd xy; p = CoordToId x y;
          row0 = fold (\<lambda>i r. r(i := COORD_UNSET)) [0..4] (by_id t p);
          l = fold (push_neighbour x y) [0..<4] [];
          row = fold (\<lambda>i r. r(int i := CoordToId (fst (l ! i)) (snd (l ! i)))) [0..<length l] row0
      in t\<lparr>by_coord := (by_coord t)(x := (by_coord t x)(y := l)),
           neighbour_size := (neighbour_size t)(p := int (length l)),
           by_id := (by_id t)(p := row)\<rparr>)"

definition CreateNeighbourCache :: "neighbour_tables \<Rightarrow> neighbour_tables" where
  "CreateNeighbourCache t =
     fold neighbour_cell (List.product [0..BORDER_SIZE - 1] [0..BORDER_SIZE - 1]) t"

text \<open>Globals start zeroed.\<close>

definition g_neighbours :: neighbour_tables where
  "g_neighbours = CreateNeighbourCache
     \<lparr>by_coord = (\<lambda>_ _. []), neighbour_size = (\<lambda>_. 0), by_id = (\<lambda>_ _. 0)\<rparr>"

text \<open>\<open>FOR_NEI\<close> visits the entries of a row up to the first \<open>COORD_UNSET\<close>.\<close>

definition nei :: "GoCoordId \<Rightarrow> GoCoordId list" where
  "nei p = takeWhile (\<lambda>nb. COORD_UNSET \<noteq> nb) (map (by_id g_neighbours p) [0..4])"

subsection \<open>What the neighbour cache holds\<close>

text \<open>Two points are adjacent when they differ by one in exactly one coordinate.\<close>

definition adj :: "GoCoordId \<Rightarrow> GoCoordId \<Rightarrow> bool" where
  "adj p q \<longleftrightarrow> InBoard p \<and> InBoard q \<and>
     \<bar>p div 19 - q div 19\<bar> + \<bar>p mod 19 - q mod 19\<bar> = 1"

definition neighbour_list :: "GoCoordId \<Rightarrow> GoCoordId \<Rightarrow> (GoCoordId \<times> GoCoordId) list" where
  "neighbour_list x y = filter (\<lambda>(a, b). InBoardXY a b) [(x, y - 1), (x + 1, y), (x, y + 1), (x - 1, y)]"

lemma push_neighbours: "fold (push_neighbour x y) [0..<4] [] = neighbour_list x y"
  by (simp add: push_neighbour_def neighbour_list_def Let_def upt_rec numeral_eq_Suc)

lemma row_fill:
  "fold (\<lambda>i r. r(int i := f i)) [0..<n] r k = (if 0 \<le> k \<and> k < int n then f (nat k) else r k)"
proof (induction n)
  case 0
  then show ?case by auto
next
  case (Suc n)
  have "k = int n \<or> k < int n \<or> \<not> k < int (Suc n)" by linarith
  with Suc show ?case by auto
qed

lemma neighbour_list_length: "length (neighbour_list x y) \<le> 4"
  by (simp add: neighbour_list_def)

text \<open>The row that a cell's iteration leaves, whatever the table held before.\<close>

definition final_row :: "GoCoordId \<Rightarrow> GoCoordId \<Rightarrow> int \<Rightarrow> GoCoordId" where
  "final_row x y k =
     (if 0 \<le> k \<and> k < int (length (neighbour_list x y))
      then CoordToId (fst (neighbour_list x y ! nat k)) (snd (neighbour_list x y ! nat k))
      else COORD_UNSET)"

lemma neighbour_cell_row:
  "0 \<le> k \<Longrightarrow> k \<le> 4 \<Longrightarrow> by_id (neighbour_cell (x, y) t) (CoordToId x y) k = final_row x y k"
  by (auto simp: neighbour_cell_def Let_def push_neighbours row_fill final_row_def upto_rec1)

lemma neighbour_cell_other:
  "p \<noteq> CoordToId (fst xy) (snd xy) \<Longrightarrow> by_id (neighbour_cell xy t) p = by_id t p"
  by (simp add: neighbour_cell_def Let_def)

lemma neighbour_cells:
  assumes "\<forall>xy\<in>set l. InBoardXY (fst xy) (snd xy)" and "(x, y) \<in> set l" and "0 \<le> k" and "k \<le> 4"
  shows "by_id (fold neighbour_cell l t) (CoordToId x y) k = final_row x y k"
  using assms
proof (induction l rule: rev_induct)
  case Nil
  then show ?case by simp
next
  case (snoc a l)
  show ?case
  proof (cases "a = (x, y)")
    case True
    with snoc.prems show ?thesis by (simp add: neighbour_cell_row)
  next
    case False
    with snoc.prems have "CoordToId x y \<noteq> CoordToId (fst a) (snd a)"
      using CoordToId_inj [of x y "fst a" "snd a"] by (cases a) auto
    with False snoc show ?thesis by (simp add: neighbour_cell_other)
  qed
qed

lemma CoordToId_not_unset: "InBoardXY x y \<Longrightarrow> CoordToId x y \<noteq> COORD_UNSET"
  by (auto simp: point_defs)

lemma takeWhile_final_row:
  "takeWhile (\<lambda>nb. COORD_UNSET \<noteq> nb) (map (final_row x y) [0..4]) =
   map (\<lambda>(a, b). CoordToId a b) (neighbour_list x y)"
proof -
  let ?l = "map (\<lambda>(a, b). CoordToId a b) (neighbour_list x y)"
  have ne: "\<forall>v\<in>set ?l. v \<noteq> -2" by (auto simp: neighbour_list_def point_defs)
  have len: "length ?l \<le> 4" by (simp add: neighbour_list_length)
  have "map (final_row x y) [0..4] = ?l @ replicate (5 - length ?l) COORD_UNSET"
    by (rule nth_equalityI)
      (use len in \<open>auto simp: nth_append final_row_def case_prod_beta nat_less_iff\<close>)
  moreover have "5 - length ?l = Suc (4 - length ?l)" using len by simp
  ultimately have "map (final_row x y) [0..4] =
      ?l @ COORD_UNSET # replicate (4 - length ?l) COORD_UNSET" by simp
  then show ?thesis
    by (simp only:) (rule takeWhile_stop, use ne in auto)
qed

lemma nei_eq:
  assumes "InBoard p"
  shows "nei p = map (\<lambda>(a, b). CoordToId a b) (neighbour_list (p div 19) (p mod 19))"
proof -
  let ?x = "p div 19" and ?y = "p mod 19"
  have xy: "InBoardXY ?x ?y" and id: "CoordToId ?x ?y = p"
    using assms by (auto simp: point_defs)
  have "by_id g_neighbours p k = final_row ?x ?y k" if "0 \<le> k" "k \<le> 4" for k
    using neighbour_cells [of "List.product [0..BORDER_SIZE - 1] [0..BORDER_SIZE - 1]" ?x ?y k] xy id that
    by (auto simp: g_neighbours_def CreateNeighbourCache_def InBoardXY_def)
  then have "map (by_id g_neighbours p) [0..4] = map (final_row ?x ?y) [0..4]"
    by (intro map_cong) auto
  then show ?thesis unfolding nei_def by (simp only: takeWhile_final_row)
qed

lemma coord_div_mod [simp]:
  "0 \<le> y \<Longrightarrow> y < 19 \<Longrightarrow> (x * 19 + y) div 19 = (x :: int)"
  "0 \<le> y \<Longrightarrow> y < 19 \<Longrightarrow> (x * 19 + y) mod 19 = y"
  by simp_all

lemma InBoard_coord: "0 \<le> y \<Longrightarrow> y < 19 \<Longrightarrow> InBoard (x * 19 + y) \<longleftrightarrow> InBoardXY x y"
  by (auto simp: InBoard_def InBoardXY_def)

lemma adj_coord:
  assumes "0 \<le> y" "y < 19" "0 \<le> y'" "y' < 19"
  shows "adj (x * 19 + y) (x' * 19 + y') \<longleftrightarrow>
    InBoardXY x y \<and> InBoardXY x' y' \<and> \<bar>x - x'\<bar> + \<bar>y - y'\<bar> = 1"
  unfolding adj_def InBoard_coord [OF assms(1,2)] InBoard_coord [OF assms(3,4)]
    coord_div_mod [OF assms(1,2)] coord_div_mod [OF assms(3,4)] by simp

lemma adj_steps:
  assumes "0 \<le> y" "y < 19" "0 \<le> x" "x < 19"
  shows "adj (x * 19 + y) (x * 19 + y - 1) \<longleftrightarrow> InBoardXY x (y - 1)"
    and "adj (x * 19 + y) (x * 19 + y + 19) \<longleftrightarrow> InBoardXY (x + 1) y"
    and "adj (x * 19 + y) (x * 19 + y + 1) \<longleftrightarrow> InBoardXY x (y + 1)"
    and "adj (x * 19 + y) (x * 19 + y - 19) \<longleftrightarrow> InBoardXY (x - 1) y"
proof -
  have r: "x * 19 + y - 1 = (if y = 0 then (x - 1) * 19 + 18 else x * 19 + (y - 1))"
    "x * 19 + y + 19 = (x + 1) * 19 + y"
    "x * 19 + y + 1 = (if y = 18 then (x + 1) * 19 + 0 else x * 19 + (y + 1))"
    "x * 19 + y - 19 = (x - 1) * 19 + y"
    by auto
  show "adj (x * 19 + y) (x * 19 + y - 1) \<longleftrightarrow> InBoardXY x (y - 1)"
    unfolding r using assms adj_coord [of y 18 x "x - 1"] adj_coord [of y "y - 1" x x]
    by (cases "y = 0") (auto simp: InBoardXY_def)
  show "adj (x * 19 + y) (x * 19 + y + 19) \<longleftrightarrow> InBoardXY (x + 1) y"
    unfolding r using assms adj_coord [of y y x "x + 1"] by (auto simp: InBoardXY_def)
  show "adj (x * 19 + y) (x * 19 + y + 1) \<longleftrightarrow> InBoardXY x (y + 1)"
    unfolding r using assms adj_coord [of y 0 x "x + 1"] adj_coord [of y "y + 1" x x]
    by (cases "y = 18") (auto simp: InBoardXY_def)
  show "adj (x * 19 + y) (x * 19 + y - 19) \<longleftrightarrow> InBoardXY (x - 1) y"
    unfolding r using assms adj_coord [of y y x "x - 1"] by (auto simp: InBoardXY_def)
qed

lemma nei_filter:
  assumes "InBoard p"
  shows "nei p = filter (adj p) [p - 1, p + 19, p + 1, p - 19]"
proof -
  define x y where "x = p div 19" and "y = p mod 19"
  have p: "p = x * 19 + y" and b: "0 \<le> y" "y < 19" "0 \<le> x" "x < 19"
    using assms by (auto simp: x_def y_def InBoard_def)
  have "nei p = map (\<lambda>(a, b). CoordToId a b) (neighbour_list x y)"
    unfolding nei_eq [OF assms] x_def [symmetric] y_def [symmetric] ..
  also have "\<dots> = map (\<lambda>(a, b). a * 19 + b) (neighbour_list x y)"
    by (auto simp: neighbour_list_def CoordToId_InBoard)
  also have "\<dots> = filter (adj p) [p - 1, p + 19, p + 1, p - 19]"
    unfolding p neighbour_list_def filter.simps adj_steps [OF b]
    by (simp add: algebra_simps)
  finally show ?thesis .
qed

text \<open>\<open>adj\<close> is the symmetric grid relation, and a point is never its own neighbour.\<close>

lemma adj_sym: "adj p q \<longleftrightarrow> adj q p"
  by (auto simp: adj_def abs_minus_commute)

lemma adj_irrefl [simp]: "\<not> adj p p"
  by (simp add: adj_def)

lemma adj_InBoard: "adj p q \<Longrightarrow> InBoard p \<and> InBoard q"
  by (simp add: adj_def)

lemma one_step:
  fixes a b c d :: int
  assumes "\<bar>a - c\<bar> + \<bar>b - d\<bar> = 1"
  shows "c * 19 + d \<in> {a * 19 + b - 1, a * 19 + b + 19, a * 19 + b + 1, a * 19 + b - 19}"
proof (cases "a = c")
  case True
  with assms have "b - d = 1 \<or> d - b = 1" by (auto simp: abs_if split: if_splits)
  with True show ?thesis by auto
next
  case False
  then have "1 \<le> \<bar>a - c\<bar>" by simp
  with assms have "b = d" "\<bar>a - c\<bar> = 1" by auto
  then have "b = d" "a - c = 1 \<or> c - a = 1" by (auto simp: abs_if split: if_splits)
  then show ?thesis by auto
qed

lemma adj_cases: "adj p q \<Longrightarrow> q \<in> {p - 1, p + 19, p + 1, p - 19}"
  using one_step [of "p div 19" "q div 19" "p mod 19" "q mod 19"]
  unfolding adj_def div_mult_mod_eq by blast

lemma set_nei [simp]: "InBoard p \<Longrightarrow> set (nei p) = {q. adj p q}"
  using adj_cases by (auto simp: nei_filter)

lemma distinct_nei [simp]: "InBoard p \<Longrightarrow> distinct (nei p)"
  by (simp add: nei_filter)

lemma length_nei: "InBoard p \<Longrightarrow> length (nei p) \<le> 4"
  by (simp add: nei_filter)

lemma nei_length: "InBoard p \<Longrightarrow> 2 \<le> length (nei p) \<and> length (nei p) \<le> 4"
proof -
  assume p: "InBoard p"
  define x y where "x = p div 19" and "y = p mod 19"
  have "2 \<le> length (neighbour_list x y)"
    using p by (auto simp: x_def y_def neighbour_list_def InBoardXY_def InBoard_def)
  then show ?thesis using length_nei [OF p] by (simp add: nei_eq [OF p] x_def y_def)
qed

text \<open>The neighbour row of every board point lists, without repetition, exactly the
  points one step away along a line (two to four of them), and no sentinel is ever read as
  a neighbour; adjacency is symmetric.\<close>

theorem neighbour_cache_correct:
  "InBoard p \<Longrightarrow>
     set (nei p) = {q. adj p q} \<and> distinct (nei p) \<and> length (nei p) \<in> {2..4} \<and>
     (\<forall>q\<in>set (nei p). InBoard q \<and> p \<in> set (nei q))"
proof -
  assume p: "InBoard p"
  have "InBoard q \<and> p \<in> set (nei q)" if "q \<in> set (nei p)" for q
    using that p adj_InBoard [of p q] by (simp add: adj_sym [of q p])
  then show ?thesis using p nei_length [OF p] set_nei [OF p] distinct_nei [OF p]
    by (auto simp: adj_sym [of _ p])
qed

theorem neighbour_cache_correct_witness:
  "InBoard 0 \<and> set (nei 0) = {q. adj 0 q} \<and> length (nei 0) \<in> {2..4}"
  using neighbour_cache_correct [of 0] by (simp add: InBoard_def)

subsection \<open>The discrete logarithm table\<close>

text \<open>\<open>CreateQuickLog2Table\<close>: 2 generates the multiplicative group modulo 67, so the 64
  powers of two below \<open>2 ^ 64\<close> have distinct residues, which index their exponents.\<close>

definition CreateQuickLog2Table :: "int \<Rightarrow> GoCoordId" where
  "CreateQuickLog2Table =
     fst (fold (\<lambda>i (t, tmp). (t(tmp := i), (tmp * 2) mod 67)) [0..63] (\<lambda>_. -1, 1))"

definition g_log2_table :: "int \<Rightarrow> GoCoordId" where
  "g_log2_table = CreateQuickLog2Table"

lemma pow2_residues: "distinct (map (\<lambda>i. (2 :: int) ^ i mod 67) [0..<64])"
  by (simp add: upt_rec)

lemma log2_loop:
  "fold (\<lambda>i (t, tmp). (t(tmp := i), (tmp * 2) mod 67)) (map int [0..<n]) (t0, 1) =
   (fold (\<lambda>i t. t((2 :: int) ^ i mod 67 := int i)) [0..<n] t0, 2 ^ n mod 67)"
  by (induction n) (simp_all add: mod_mult_right_eq mult.commute)

lemma log2_table_entry: "i < 64 \<Longrightarrow> g_log2_table (2 ^ i mod 67) = int i"
proof -
  assume i: "i < 64"
  have "inj_on (\<lambda>i. (2 :: int) ^ i mod 67) (set [0..<64])"
    using pow2_residues by (simp only: distinct_map)
  moreover have "[0..63] = map int [0..<64]" by (simp add: list_eq_iff_nth_eq)
  ultimately show ?thesis
    using i log2_loop [of 64 "\<lambda>_. -1"]
      fold_upd_inj [of i "[0..<64]" "\<lambda>i. (2 :: int) ^ i mod 67" int "\<lambda>_. -1"]
    by (simp add: g_log2_table_def CreateQuickLog2Table_def)
qed

text \<open>The table maps the residue modulo 67 of every power of two that fits in 64
  bits to its exponent.\<close>

theorem log2_table_correct: "i < 64 \<Longrightarrow> g_log2_table (2 ^ i mod 67) = int i"
  by (rule log2_table_entry)

theorem log2_table_correct_witness: "g_log2_table (2 ^ 63 mod 67) = 63"
  using log2_table_correct [of 63] by simp

subsection \<open>Hash weights\<close>

definition g_hash_unit :: "u64 \<times> u64" where
  "g_hash_unit = (3, 7)"

definition CreateHashWeights ::
    "(GoCoordId \<Rightarrow> GoCoordId \<Rightarrow> u64 \<times> u64) \<Rightarrow> GoCoordId \<Rightarrow> GoCoordId \<Rightarrow> u64 \<times> u64" where
  "CreateHashWeights w =
     fold (\<lambda>i t. t(i div BORDER_SIZE := (t (i div BORDER_SIZE))(i mod BORDER_SIZE :=
             (fst (t ((i - 1) div BORDER_SIZE) ((i - 1) mod BORDER_SIZE)) * fst g_hash_unit,
              snd (t ((i - 1) div BORDER_SIZE) ((i - 1) mod BORDER_SIZE)) * snd g_hash_unit))))
       [1..GOBOARD_SIZE - 1] (w(0 := (w 0)(0 := (1, 1))))"

definition g_hash_weight :: "GoCoordId \<Rightarrow> GoCoordId \<Rightarrow> u64 \<times> u64" where
  "g_hash_weight = CreateHashWeights (\<lambda>_ _. (0, 0))"

subsection \<open>Zobrist weights\<close>

text \<open>
  On Windows the file brings its own \<open>rand_r\<close>; elsewhere it is the C library's, a parameter
  here. \<open>CreateZobristHash\<close> combines two calls in one expression and C++ does not say which
  is made first: \<open>lhs_first\<close> is that choice of the compiler.
\<close>

definition rand_r :: "u32 \<Rightarrow> u32 \<times> u32" where
  "rand_r seed =
     (let n1 = seed * 1103515245 + 12345;
          r1 = (n1 div 65536) mod 2048;
          n2 = n1 * 1103515245 + 12345;
          r2 = push_bit 10 r1 XOR ((n2 div 65536) mod 1024);
          n3 = n2 * 1103515245 + 12345;
          r3 = push_bit 10 r2 XOR ((n3 div 65536) mod 1024)
      in (r3, n3))"

record zobrist =
  z_player :: "GoStoneColor \<Rightarrow> u64"
  z_board :: "GoStoneColor \<Rightarrow> GoCoordId \<Rightarrow> u64"
  z_ko :: "GoCoordId \<Rightarrow> u64"

definition rand64 :: "(u32 \<Rightarrow> u32 \<times> u32) \<Rightarrow> bool \<Rightarrow> u32 \<Rightarrow> u64 \<times> u32" where
  "rand64 rnd lhs_first seed =
     (let (a, s1) = rnd seed; (b, s2) = rnd s1; (l, r) = (if lhs_first then (a, b) else (b, a))
      in (push_bit 32 (scast l) OR scast r, s2))"

definition CreateZobristHash :: "(u32 \<Rightarrow> u32 \<times> u32) \<Rightarrow> bool \<Rightarrow> zobrist" where
  "CreateZobristHash rnd lf =
     (let z0 = \<lparr>z_player = (\<lambda>_. 0), z_board = (\<lambda>_ _. 0), z_ko = (\<lambda>_. 0)\<rparr>;
          cell = (\<lambda>i j (z, s). let (v, s') = rand64 rnd lf s
                   in (z\<lparr>z_board := (z_board z)(of_int i := (z_board z (of_int i))(j := v))\<rparr>, s'));
          row = (\<lambda>i (z, s). let (v, s') = rand64 rnd lf s
                   in fold (cell i) coords (z\<lparr>z_player := (z_player z)(of_int i := v)\<rparr>, s'));
          ko = (\<lambda>i (z, s). let (v, s') = rand64 rnd lf s
                   in (z\<lparr>z_ko := (z_ko z)(i := v)\<rparr>, s'))
      in fst (fold ko coords (fold row [0..3] (z0, 0xdeadbeaf))))"

lemma shifted_xor_bound:
  fixes a b :: u32
  assumes "unat a < 2 ^ n" and "unat b < 2 ^ 10"
  shows "unat (push_bit 10 a XOR b) < 2 ^ (n + 10)"
  using assms unfolding unat_less_iff_bits by (fastforce simp: bit_simps)

lemma mod_1024_bound: "unat ((w :: u32) mod 1024) < 2 ^ 10"
  by (simp add: unat_mod)

text \<open>The bundled generator returns a value below \<open>2 ^ 31\<close> for every seed, so it is
  a non-negative \<open>int\<close> and the two halves of a 64-bit weight never overlap.\<close>

theorem rand_r_range: "unat (fst (rand_r seed)) < 2 ^ 31"
proof -
  have "unat ((w :: u32) mod 2048) < 2 ^ 11" for w by (simp add: unat_mod)
  note b = shifted_xor_bound [OF shifted_xor_bound [OF this mod_1024_bound] mod_1024_bound]
  show ?thesis using b by (simp add: rand_r_def Let_def)
qed

end
