(* ===== verification/Go_Block.thy ===== *)
theory Go_Block
  imports Go_Comm
begin

text \<open>
  \<open>GoStone\<close> and \<open>GoBlock\<close> of go_state.h. A block keeps three bitmaps of six 64-bit words
  (liberties, virtual liberties, stones): here functions from the word index, whose value at
  an index outside 0..5 stands for whatever lies beside the array. \<open>bits\<close> is the set of
  points a bitmap holds; the lemmas give every operation its meaning on these sets. The
  pointer \<open>stones\<close> of a block always is the stone array of the state the block belongs to
  (\<open>FixBlockInfo\<close> restores this after a copy), so operations that follow it take the array.
\<close>

record GoStone =
  stone_self_id :: GoCoordId
  block_id :: GoBlockId
  next_id :: GoCoordId
  parent_id :: GoCoordId

record GoBlock =
  block_self_id :: GoBlockId
  color :: GoStoneColor
  liberty :: GoSize
  b_head :: GoCoordId
  b_tail :: GoCoordId
  stone_count :: GoSize
  in_use :: bool
  liberty_state :: "int \<Rightarrow> u64"
  virtual_liberty_state :: "int \<Rightarrow> u64"
  stone_state :: "int \<Rightarrow> u64"

type_synonym stones = "GoCoordId \<Rightarrow> GoStone"

definition StoneReset :: "GoBlockId \<Rightarrow> GoStone \<Rightarrow> GoStone" where
  "StoneReset b s = s\<lparr>next_id := stone_self_id s, parent_id := stone_self_id s, block_id := b\<rparr>"

definition BlockReset :: "GoBlock \<Rightarrow> GoBlock" where
  "BlockReset b = b\<lparr>liberty_state := (\<lambda>_. 0), virtual_liberty_state := (\<lambda>_. 0),
     stone_state := (\<lambda>_. 0), in_use := False, b_head := COORD_UNSET, b_tail := COORD_UNSET,
     liberty := SIZE_NONE, stone_count := SIZE_NONE\<rparr>"

subsection \<open>Bitmaps\<close>

definition set_bit_at :: "GoCoordId \<Rightarrow> (int \<Rightarrow> u64) \<Rightarrow> int \<Rightarrow> u64" where
  "set_bit_at p f = f(p div 64 := f (p div 64) OR push_bit (nat (p mod 64)) 1)"

definition reset_bit_at :: "GoCoordId \<Rightarrow> (int \<Rightarrow> u64) \<Rightarrow> int \<Rightarrow> u64" where
  "reset_bit_at p f = f(p div 64 := f (p div 64) AND NOT (push_bit (nat (p mod 64)) 1))"

definition SetLiberty :: "GoCoordId \<Rightarrow> GoBlock \<Rightarrow> GoBlock" where
  "SetLiberty p b = b\<lparr>liberty_state := set_bit_at p (liberty_state b)\<rparr>"

definition SetVirtLiberty :: "GoCoordId \<Rightarrow> GoBlock \<Rightarrow> GoBlock" where
  "SetVirtLiberty p b = b\<lparr>virtual_liberty_state := set_bit_at p (virtual_liberty_state b)\<rparr>"

definition SetStoneState :: "GoCoordId \<Rightarrow> GoBlock \<Rightarrow> GoBlock" where
  "SetStoneState p b = b\<lparr>stone_state := set_bit_at p (stone_state b)\<rparr>"

definition ResetLiberty :: "GoCoordId \<Rightarrow> GoBlock \<Rightarrow> GoBlock" where
  "ResetLiberty p b = b\<lparr>liberty_state := reset_bit_at p (liberty_state b)\<rparr>"

definition ResetVirtLiberty :: "GoCoordId \<Rightarrow> GoBlock \<Rightarrow> GoBlock" where
  "ResetVirtLiberty p b = b\<lparr>virtual_liberty_state := reset_bit_at p (virtual_liberty_state b)\<rparr>"

definition ResetStoneState :: "GoCoordId \<Rightarrow> GoBlock \<Rightarrow> GoBlock" where
  "ResetStoneState p b = b\<lparr>stone_state := reset_bit_at p (stone_state b)\<rparr>"

definition GetLiberty :: "GoBlock \<Rightarrow> GoCoordId \<Rightarrow> bool" where
  "GetLiberty b p \<longleftrightarrow> liberty_state b (p div 64) AND push_bit (nat (p mod 64)) 1 \<noteq> 0"

text \<open>\<open>__builtin_popcountll\<close>: the number of one bits.\<close>

definition popcount :: "u64 \<Rightarrow> int" where
  "popcount w = int (length (filter (bit w) [0..<64]))"

text \<open>\<open>CountLiberty\<close> stores the number it returns in the field \<open>liberty\<close>.\<close>

definition liberty_total :: "GoBlock \<Rightarrow> GoSize" where
  "liberty_total b = popcount (liberty_state b 0) + popcount (liberty_state b 1) +
     popcount (liberty_state b 2) + popcount (liberty_state b 3) +
     popcount (liberty_state b 4) + popcount (liberty_state b 5)"

definition CountLiberty :: "GoBlock \<Rightarrow> GoBlock \<times> GoSize" where
  "CountLiberty b = (let n = liberty_total b in (b\<lparr>liberty := n\<rparr>, n))"

definition IsNoLiberty :: "GoBlock \<Rightarrow> GoBlock \<times> bool" where
  "IsNoLiberty b = (let (b', n) = CountLiberty b in (b', SIZE_NONE = n))"

definition bits :: "(int \<Rightarrow> u64) \<Rightarrow> GoCoordId set" where
  "bits f = {p. 0 \<le> p \<and> p < 384 \<and> bit (f (p div 64)) (nat (p mod 64))}"

lemma in_bits: "p \<in> bits f \<longleftrightarrow> 0 \<le> p \<and> p < 384 \<and> bit (f (p div 64)) (nat (p mod 64))"
  by (simp add: bits_def)

lemma finite_bits [simp]: "finite (bits f)"
  by (rule finite_subset [of _ "{0..<384}"]) (auto simp: bits_def)

lemma same_bit: "p div 64 = q div 64 \<Longrightarrow> nat (p mod 64) = nat (q mod 64) \<Longrightarrow> p = (q :: int)"
  by (metis eq_nat_nat_iff mod_div_decomp pos_mod_sign zero_less_numeral)

lemma bits_zero [simp]: "bits (\<lambda>_. 0) = {}"
  by (simp add: bits_def)

lemma nat_mod_64 [simp]: "nat (p mod 64) < 64"
  by (simp add: nat_less_iff)

lemma bits_set_bit [simp]:
  "0 \<le> p \<Longrightarrow> p < 384 \<Longrightarrow> bits (set_bit_at p f) = insert p (bits f)"
  by (auto simp: bits_def set_bit_at_def bit_simps dest: same_bit)

lemma bits_reset_bit [simp]: "0 \<le> p \<Longrightarrow> p < 384 \<Longrightarrow> bits (reset_bit_at p f) = bits f - {p}"
  by (auto simp: bits_def reset_bit_at_def bit_simps dest: same_bit)

lemma GetLiberty_bits: "0 \<le> p \<Longrightarrow> p < 384 \<Longrightarrow> GetLiberty b p \<longleftrightarrow> p \<in> bits (liberty_state b)"
  by (simp add: GetLiberty_def in_bits bit_iff_and_push_bit_not_eq_0)

lemma card_bits_word:
  "popcount w = int (card {k. k < 64 \<and> bit w k})"
proof -
  have "card {k. k < 64 \<and> bit w k} = card (set (filter (bit w) [0..<64]))"
    by (rule arg_cong [where f = card]) auto
  then show ?thesis by (simp add: popcount_def distinct_card del: set_filter)
qed

lemma bits_by_word:
  "bits f = (\<Union>i\<in>{0..5}. (\<lambda>k. 64 * i + int k) ` {k. k < 64 \<and> bit (f i) k})"
  (is "_ = ?U")
proof (intro set_eqI iffI)
  fix p assume p: "p \<in> bits f"
  have "p = 64 * (p div 64) + int (nat (p mod 64))" by simp
  with p show "p \<in> ?U"
    by (intro UN_I [of "p div 64"] image_eqI [of _ _ "nat (p mod 64)"]) (auto simp: in_bits)
next
  fix p assume "p \<in> ?U"
  then obtain i k where "0 \<le> i" "i \<le> 5" "k < 64" "bit (f i) k" "p = 64 * i + int k" by auto
  then show "p \<in> bits f" by (simp add: in_bits)
qed

lemma liberty_total_card: "liberty_total b = int (card (bits (liberty_state b)))"
proof -
  let ?S = "\<lambda>i. (\<lambda>k. 64 * i + int k) ` {k. k < 64 \<and> bit (liberty_state b i) k}"
  have "card (bits (liberty_state b)) = (\<Sum>i\<in>{0..5::int}. card (?S i))"
    unfolding bits_by_word
  proof (rule card_UN_disjoint)
    show "\<forall>i\<in>{0..5}. \<forall>j\<in>{0..5}. i \<noteq> j \<longrightarrow> ?S i \<inter> ?S j = {}"
    proof (intro ballI impI equals0I)
      fix i j p :: int assume "i \<noteq> j" "p \<in> ?S i \<inter> ?S j"
      then have "p div 64 = i" "p div 64 = j" by auto
      with \<open>i \<noteq> j\<close> show False by simp
    qed
  qed auto
  also have "\<dots> = (\<Sum>i\<in>{0..5::int}. card {k. k < 64 \<and> bit (liberty_state b i) k})"
    by (intro sum.cong refl card_image) (auto simp: inj_on_def)
  finally have "int (card (bits (liberty_state b))) =
      (\<Sum>i\<in>{0..5::int}. popcount (liberty_state b i))"
    by (simp add: card_bits_word)
  also have "{0..5::int} = {0, 1, 2, 3, 4, 5}" by auto
  finally show ?thesis by (simp add: liberty_total_def)
qed

subsection \<open>The bit scan\<close>

definition Lowbit :: "u64 \<Rightarrow> u64" where
  "Lowbit x = x AND (- x)"

definition log2_low :: "u64 \<Rightarrow> GoCoordId" where
  "log2_low w = g_log2_table (uint (Lowbit w mod 67))"

lemma Lowbit_lowest:
  assumes "bit w k" and "\<forall>j<k. \<not> bit w j"
  shows "Lowbit w = push_bit k 1"
proof -
  let ?z = "w AND NOT (mask (Suc k))"
  have k: "k < 64" using assms(1) bit_imp_le_length [of w k] by simp
  have "?z AND push_bit k 1 = 0" "?z AND mask k = 0"
    by (auto intro!: bit_word_eqI simp: bit_simps)
  note add = this [THEN disjunctive_add_eq_or]
  have "w = ?z OR push_bit k 1"
  proof (rule bit_word_eqI)
    fix n assume "n < LENGTH(64)"
    with assms show "bit w n \<longleftrightarrow> bit (?z OR push_bit k 1) n"
      by (cases n k rule: linorder_cases) (auto simp: bit_simps)
  qed
  then have "w = ?z + push_bit k 1" by (simp only: add(1))
  then have "w - 1 = ?z + (push_bit k 1 - 1)" by (metis add_diff_eq)
  also have "push_bit k 1 - 1 = (mask k :: u64)" by (simp add: mask_eq_exp_minus_1 push_bit_eq_mult)
  finally have "w - 1 = ?z OR mask k" by (simp only: add(2))
  then have "- w = NOT (?z OR mask k)" by (simp add: minus_eq_not_minus_1)
  then have m: "- w = NOT ?z AND NOT (mask k)" by (auto intro!: bit_word_eqI simp: bit_simps)
  show ?thesis
  proof (rule bit_word_eqI)
    fix n assume "n < LENGTH(64)"
    with assms k show "bit (Lowbit w) n \<longleftrightarrow> bit (push_bit k 1 :: u64) n"
      unfolding Lowbit_def m by (cases n k rule: linorder_cases) (auto simp: bit_simps)
  qed
qed

lemma log2_low_lowest:
  assumes "bit w k" and "\<forall>j<k. \<not> bit w j"
  shows "log2_low w = int k"
proof -
  have k: "k < 64" using assms(1) bit_imp_le_length [of w k] by simp
  have "uint (push_bit k 1 :: u64) = 2 ^ k"
    unfolding unsigned_push_bit_eq
    using k power_strict_increasing [of k 64 "2 :: int"] by (simp add: take_bit_eq_mod)
  then have "uint (Lowbit w mod 67) = 2 ^ k mod 67"
    by (simp only: uint_mod Lowbit_lowest [OF assms]) simp
  with log2_table_entry [OF k] show ?thesis by (simp add: log2_low_def)
qed

definition LibEnd :: GoCoordId where
  "LibEnd = GOBOARD_SIZE"

definition LibBegin :: "GoBlock \<Rightarrow> GoCoordId" where
  "LibBegin b =
     (case find (\<lambda>i. liberty_state b i \<noteq> 0) [0..LIBERTY_STATE_SIZE - 1] of
        Some i \<Rightarrow> log2_low (liberty_state b i) + push_bit 6 i
      | None \<Rightarrow> LibEnd)"

text \<open>
  The loop of \<open>LibNext\<close>: when the rest of word \<open>i\<close> is empty it reads word \<open>i + 1\<close> before it
  tests the bound, so its last read is of index 6, one past the array.
\<close>

function LibNext_loop :: "(int \<Rightarrow> u64) \<Rightarrow> int \<Rightarrow> u64 \<Rightarrow> GoCoordId" where
  "LibNext_loop f i val =
     (if i < LIBERTY_STATE_SIZE then
        if val = 0 then LibNext_loop f (i + 1) (f (i + 1)) else log2_low val + push_bit 6 i
      else LibEnd)"
  by pat_completeness auto
termination
  by (relation "measure (\<lambda>(f, i, val). nat (LIBERTY_STATE_SIZE - i))") auto

declare LibNext_loop.simps [simp del]

definition LibNext :: "GoBlock \<Rightarrow> GoCoordId \<Rightarrow> GoCoordId" where
  "LibNext b p =
     (let val = (if 63 \<noteq> p mod 64
                 then liberty_state b (p div 64) AND push_bit (nat (p mod 64) + 1) (- 1)
                 else 0)
      in LibNext_loop (liberty_state b) (p div 64) val)"

definition GetLowestLiberty :: "GoBlock \<Rightarrow> GoCoordId" where
  "GetLowestLiberty b =
     (case find (\<lambda>i. liberty_state b i \<noteq> 0) [0..LIBERTY_STATE_SIZE - 1] of
        Some i \<Rightarrow> log2_low (liberty_state b i) + push_bit 6 i
      | None \<Rightarrow> COORD_UNSET)"

text \<open>\<open>FOR_BLOCKLIB\<close>: the points the loop visits, in order, within \<open>n\<close> iterations.\<close>

primrec lib_walk :: "GoBlock \<Rightarrow> nat \<Rightarrow> GoCoordId \<Rightarrow> GoCoordId list option" where
  "lib_walk b 0 p = (if LibEnd \<noteq> p then None else Some [])"
| "lib_walk b (Suc n) p =
     (if LibEnd \<noteq> p then map_option (Cons p) (lib_walk b n (LibNext b p)) else Some [])"

text \<open>The least element of a bitmap from position \<open>m\<close> on, or \<open>LibEnd\<close>.\<close>

definition next_in :: "GoCoordId set \<Rightarrow> GoCoordId \<Rightarrow> GoCoordId" where
  "next_in S m = (if \<exists>q\<in>S. m \<le> q then Min {q \<in> S. m \<le> q} else LibEnd)"

lemma next_in_eqI:
  "finite S \<Longrightarrow> p \<in> S \<Longrightarrow> m \<le> p \<Longrightarrow> (\<And>q. q \<in> S \<Longrightarrow> m \<le> q \<Longrightarrow> p \<le> q) \<Longrightarrow> next_in S m = p"
  unfolding next_in_def by (auto intro!: Min_eqI)

lemma word_nonzero_bit:
  "(w :: u64) \<noteq> 0 \<Longrightarrow> \<exists>k<64. bit w k \<and> (\<forall>j<k. \<not> bit w j)"
proof -
  assume "w \<noteq> 0"
  then obtain n where "bit w n" by (auto simp: bit_eq_iff)
  then have "bit w (LEAST k. bit w k)" by (rule LeastI)
  moreover from this have "(LEAST k. bit w k) < 64"
    using bit_imp_le_length [of w "LEAST k. bit w k"] by simp
  ultimately show ?thesis
    by (intro exI [of _ "LEAST k. bit w k"]) (auto dest: not_less_Least)
qed

lemma LibNext_loop_next:
  assumes "0 \<le> i" "i \<le> 6" "m \<le> 64" and "bits f \<subseteq> {0..<361}"
    and "i < 6 \<Longrightarrow> \<forall>k. bit val k \<longleftrightarrow> bit (f i) k \<and> m \<le> k"
  shows "LibNext_loop f i val = next_in (bits f) (64 * i + int m)"
  using assms
proof (induction f i val arbitrary: m rule: LibNext_loop.induct)
  case (1 f i val)
  consider "i = 6" | "i < 6" "val = 0" | "i < 6" "val \<noteq> 0" using 1(3) by linarith
  then show ?case
  proof cases
    case 1
    then have "next_in (bits f) (64 * i + int m) = LibEnd"
      by (auto simp: next_in_def in_bits)
    with 1 show ?thesis by (simp add: LibNext_loop.simps)
  next
    case 2
    have "LibNext_loop f (i + 1) (f (i + 1)) = next_in (bits f) (64 * (i + 1) + int 0)"
      using 2 "1.prems" by (intro "1.IH") auto
    also have "\<dots> = next_in (bits f) (64 * i + int m)"
    proof -
      have "64 * (i + 1) \<le> q \<longleftrightarrow> 64 * i + int m \<le> q" if "q \<in> bits f" for q
      proof
        assume q: "64 * i + int m \<le> q"
        show "64 * (i + 1) \<le> q"
        proof (rule ccontr)
          assume "\<not> ?thesis"
          with q "1.prems"(3) have "q div 64 = i" by auto
          moreover from this q have "m \<le> nat (q mod 64)"
            using mult_div_mod_eq [of 64 q] by (simp add: le_nat_iff)
          ultimately have "bit val (nat (q mod 64))"
            using that 2 "1.prems"(5) by (auto simp: in_bits)
          with 2 show False by simp
        qed
      qed (use "1.prems"(3) in auto)
      then show ?thesis by (auto simp: next_in_def intro!: arg_cong [where f = Min])
    qed
    finally show ?thesis using 2 by (simp add: LibNext_loop.simps [of f i])
  next
    case 3
    then obtain k where k: "k < 64" "bit val k" "\<forall>j<k. \<not> bit val j"
      using word_nonzero_bit by blast
    have r: "LibNext_loop f i val = 64 * i + int k"
      using 3 by (simp add: LibNext_loop.simps [of f i] log2_low_lowest [OF k(2,3)] push_bit_eq_mult)
    have "next_in (bits f) (64 * i + int m) = 64 * i + int k"
    proof (rule next_in_eqI)
      show "64 * i + int k \<in> bits f" "64 * i + int m \<le> 64 * i + int k"
        using 3 k "1.prems" by (auto simp: in_bits)
      fix q assume q: "q \<in> bits f" "64 * i + int m \<le> q"
      show "64 * i + int k \<le> q"
      proof (rule ccontr)
        assume lt: "\<not> ?thesis"
        with q k have "q div 64 = i" by auto
        with lt q have "nat (q mod 64) < k" "m \<le> nat (q mod 64)"
          using mult_div_mod_eq [of 64 q] by (simp_all add: nat_less_iff le_nat_iff)
        then show False using k(3) q(1) \<open>q div 64 = i\<close> 3 "1.prems"(5) by (auto simp: in_bits)
      qed
    qed simp
    with r show ?thesis by simp
  qed
qed

lemma LibBegin_next:
  assumes "bits (liberty_state b) \<subseteq> {0..<361}"
  shows "LibBegin b = next_in (bits (liberty_state b)) 0"
proof -
  have "LibBegin b = LibNext_loop (liberty_state b) 0 (liberty_state b 0)"
    by (simp add: LibBegin_def upto_rec1 LibNext_loop.simps)
  with LibNext_loop_next [of 0 0 "liberty_state b" "liberty_state b 0"] assms show ?thesis by simp
qed

lemma LibNext_next:
  assumes "bits (liberty_state b) \<subseteq> {0..<361}" and "0 \<le> p" and "p < 361"
  shows "LibNext b p = next_in (bits (liberty_state b)) (p + 1)"
proof (cases "p mod 64 = 63")
  case True
  then have "LibNext b p = LibNext_loop (liberty_state b) (p div 64) 0"
    by (simp add: LibNext_def)
  also have "\<dots> = next_in (bits (liberty_state b)) (64 * (p div 64) + int 64)"
    using assms by (intro LibNext_loop_next) (auto dest: bit_imp_le_length)
  also have "64 * (p div 64) + int 64 = p + 1"
    using True mult_div_mod_eq [of 64 p] by simp
  finally show ?thesis .
next
  case False
  let ?n = "nat (p mod 64)"
  from False have "LibNext b p =
      LibNext_loop (liberty_state b) (p div 64) (liberty_state b (p div 64) AND push_bit (?n + 1) (- 1))"
    by (simp add: LibNext_def)
  also have "\<dots> = next_in (bits (liberty_state b)) (64 * (p div 64) + int (?n + 1))"
    using assms by (intro LibNext_loop_next) (auto simp: bit_simps dest: bit_imp_le_length)
  also have "64 * (p div 64) + int (?n + 1) = p + 1"
    using mult_div_mod_eq [of 64 p] by simp
  finally show ?thesis .
qed

lemma lib_walk_next:
  assumes "bits (liberty_state b) \<subseteq> {0..<361}" and "0 \<le> m"
    and "card {q \<in> bits (liberty_state b). m \<le> q} \<le> n"
  shows "lib_walk b n (next_in (bits (liberty_state b)) m) =
    Some (sorted_list_of_set {q \<in> bits (liberty_state b). m \<le> q})"
  using assms(2,3)
proof (induction n arbitrary: m)
  case 0
  then have none: "{q \<in> bits (liberty_state b). m \<le> q} = {}" "\<not> (\<exists>q\<in>bits (liberty_state b). m \<le> q)"
    by auto
  then show ?case unfolding none(1) by (simp add: next_in_def LibEnd_def)
next
  case (Suc n)
  let ?S = "bits (liberty_state b)" and ?T = "\<lambda>m. {q \<in> bits (liberty_state b). m \<le> q}"
  show ?case
  proof (cases "?T m = {}")
    case True
    then have "next_in ?S m = LibEnd" by (auto simp: next_in_def)
    then show ?thesis unfolding True by simp
  next
    case False
    define p where "p = Min (?T m)"
    have fin: "finite (?T m)" by simp
    have p: "p \<in> ?T m" "\<And>q. q \<in> ?T m \<Longrightarrow> p \<le> q"
      using Min_in [OF fin False] Min_le [OF fin] by (auto simp: p_def)
    from False have nx: "next_in ?S m = p" by (auto simp: next_in_def p_def)
    have range: "0 \<le> p" "p < 361" using p(1) assms(1) by auto
    have split: "?T m = insert p (?T (p + 1))"
    proof (rule set_eqI)
      fix q
      have "q \<in> ?T m \<Longrightarrow> q = p \<or> p + 1 \<le> q" using p(2) [of q] by linarith
      then show "q \<in> ?T m \<longleftrightarrow> q \<in> insert p (?T (p + 1))" using p(1) by auto
    qed
    have "card (?T (p + 1)) \<le> n" using Suc.prems(2) unfolding split by simp
    then have "lib_walk b n (LibNext b p) = Some (sorted_list_of_set (?T (p + 1)))"
      using Suc.IH [of "p + 1"] range LibNext_next [OF assms(1) range] by simp
    moreover have "sorted_list_of_set (?T m) = p # sorted_list_of_set (?T (p + 1))"
      unfolding split by (subst sorted_list_of_set.sorted_key_list_of_set_insert) (auto intro!: insort_is_Cons)
    ultimately show ?thesis using range by (simp add: nx LibEnd_def)
  qed
qed

lemma card_bits_le: "bits f \<subseteq> {0..<361} \<Longrightarrow> card (bits f) \<le> 361"
  using card_mono [of "{0..<361::int}" "bits f"] by simp

text \<open>\<open>FOR_BLOCKLIB\<close> (from \<open>LibBegin\<close>, by \<open>LibNext\<close>, to \<open>LibEnd\<close>) visits exactly the
  liberties of a block, each once and in increasing order, and stops within 361 steps,
  whatever the word beside the bitmap holds.\<close>

theorem liberty_scan_correct:
  assumes "bits (liberty_state b) \<subseteq> {0..<361}"
  shows "lib_walk b 361 (LibBegin b) = Some (sorted_list_of_set (bits (liberty_state b)))"
proof -
  have "{q \<in> bits (liberty_state b). 0 \<le> q} = bits (liberty_state b)" by (auto simp: in_bits)
  with lib_walk_next [OF assms, of 0 361] card_bits_le [OF assms] LibBegin_next [OF assms]
  show ?thesis by simp
qed

text \<open>A block with the liberties 5 and 200 (word 3, bit 8).\<close>

definition scan_example :: GoBlock where
  "scan_example = \<lparr>block_self_id = 0, color = BLACK, liberty = 2, b_head = 0, b_tail = 0,
     stone_count = 1, in_use = True, liberty_state = set_bit_at 200 (set_bit_at 5 (\<lambda>_. 0)),
     virtual_liberty_state = (\<lambda>_. 0), stone_state = (\<lambda>_. 0)\<rparr>"

lemma scan_example_bits: "bits (liberty_state scan_example) = {5, 200}"
  by (auto simp: scan_example_def)

theorem liberty_scan_correct_witness: "lib_walk scan_example 361 (LibBegin scan_example) = Some [5, 200]"
  using liberty_scan_correct [of scan_example] by (simp add: scan_example_bits)

subsection \<open>Merging blocks\<close>

definition merge_word :: "GoBlock \<Rightarrow> int \<Rightarrow> GoBlock \<Rightarrow> GoBlock" where
  "merge_word a i b =
     (let st = stone_state b i OR stone_state a i;
          vl = (virtual_liberty_state b i OR virtual_liberty_state a i) AND NOT st;
          ll = (liberty_state b i OR liberty_state a i) AND vl
      in b\<lparr>stone_state := (stone_state b)(i := st),
           virtual_liberty_state := (virtual_liberty_state b)(i := vl),
           liberty_state := (liberty_state b)(i := ll)\<rparr>)"

definition TryMergeBlocks :: "GoBlock \<Rightarrow> GoBlock \<Rightarrow> GoBlock" where
  "TryMergeBlocks b a =
     fold (merge_word a) [0..LIBERTY_STATE_SIZE - 1] (b\<lparr>stone_count := stone_count b + stone_count a\<rparr>)"

text \<open>\<open>MergeBlocks\<close> puts the stones of \<open>a\<close> before those of \<open>b\<close> in the linked list and hangs the
  tail of \<open>a\<close> under the tail of \<open>b\<close>.\<close>

definition MergeBlocks :: "GoBlock \<Rightarrow> GoBlock \<Rightarrow> stones \<Rightarrow> GoBlock \<times> stones" where
  "MergeBlocks b a ss =
     (let ss1 = ss(b_tail a := (ss (b_tail a))\<lparr>next_id := stone_self_id (ss (b_head b))\<rparr>);
          b1 = b\<lparr>b_head := b_head a\<rparr>;
          ss2 = ss1(b_tail a := (ss1 (b_tail a))\<lparr>parent_id := stone_self_id (ss1 (b_tail b1))\<rparr>)
      in (b1, ss2))"

definition in_words :: "int \<Rightarrow> bool" where
  "in_words i \<longleftrightarrow> 0 \<le> i \<and> i \<le> 5"

lemma TryMergeBlocks_words:
  assumes "in_words i"
  shows "stone_state (TryMergeBlocks b a) i = stone_state b i OR stone_state a i"
    and "virtual_liberty_state (TryMergeBlocks b a) i =
      (virtual_liberty_state b i OR virtual_liberty_state a i) AND NOT (stone_state b i OR stone_state a i)"
    and "liberty_state (TryMergeBlocks b a) i = (liberty_state b i OR liberty_state a i) AND
      ((virtual_liberty_state b i OR virtual_liberty_state a i) AND NOT (stone_state b i OR stone_state a i))"
proof -
  have "i \<in> {0, 1, 2, 3, 4, 5}" using assms by (auto simp: in_words_def)
  then show "stone_state (TryMergeBlocks b a) i = stone_state b i OR stone_state a i"
    "virtual_liberty_state (TryMergeBlocks b a) i =
      (virtual_liberty_state b i OR virtual_liberty_state a i) AND NOT (stone_state b i OR stone_state a i)"
    "liberty_state (TryMergeBlocks b a) i = (liberty_state b i OR liberty_state a i) AND
      ((virtual_liberty_state b i OR virtual_liberty_state a i) AND NOT (stone_state b i OR stone_state a i))"
    unfolding TryMergeBlocks_def
    by (auto simp: upto_rec1 merge_word_def Let_def)
qed

lemma TryMergeBlocks_fields [simp]:
  "color (TryMergeBlocks b a) = color b" "b_head (TryMergeBlocks b a) = b_head b"
  "b_tail (TryMergeBlocks b a) = b_tail b" "in_use (TryMergeBlocks b a) = in_use b"
  "liberty (TryMergeBlocks b a) = liberty b"
  "block_self_id (TryMergeBlocks b a) = block_self_id b"
  "stone_count (TryMergeBlocks b a) = stone_count b + stone_count a"
  unfolding TryMergeBlocks_def by (simp_all add: upto_rec1 merge_word_def Let_def)

lemma bits_in_words: "p \<in> bits f \<longleftrightarrow> 0 \<le> p \<and> p < 384 \<and> in_words (p div 64) \<and> bit (f (p div 64)) (nat (p mod 64))"
  by (auto simp: in_bits in_words_def)

lemma bits_cong: "(\<And>i. in_words i \<Longrightarrow> f i = g i) \<Longrightarrow> bits f = bits g"
  by (auto simp: bits_in_words)

lemma bits_or: "bits (\<lambda>i. f i OR g i) = bits f \<union> bits g"
  by (auto simp: in_bits bit_simps)

lemma bits_and: "bits (\<lambda>i. f i AND g i) = bits f \<inter> bits g"
  by (auto simp: in_bits bit_simps)

lemma bits_and_not: "bits (\<lambda>i. f i AND NOT (g i)) = bits f - bits g"
  by (auto simp: in_bits bit_simps)

text \<open>The meaning of a trial merge on the three sets.\<close>

lemma TryMergeBlocks_bits [simp]:
  "bits (stone_state (TryMergeBlocks b a)) = bits (stone_state b) \<union> bits (stone_state a)"
  "bits (virtual_liberty_state (TryMergeBlocks b a)) =
     bits (virtual_liberty_state b) \<union> bits (virtual_liberty_state a)
       - (bits (stone_state b) \<union> bits (stone_state a))"
  "bits (liberty_state (TryMergeBlocks b a)) =
     (bits (liberty_state b) \<union> bits (liberty_state a)) \<inter>
     (bits (virtual_liberty_state b) \<union> bits (virtual_liberty_state a)
       - (bits (stone_state b) \<union> bits (stone_state a)))"
proof -
  let ?st = "\<lambda>i. stone_state b i OR stone_state a i"
  let ?vl = "\<lambda>i. (virtual_liberty_state b i OR virtual_liberty_state a i) AND NOT (?st i)"
  have "bits (stone_state (TryMergeBlocks b a)) = bits ?st"
    "bits (virtual_liberty_state (TryMergeBlocks b a)) = bits ?vl"
    "bits (liberty_state (TryMergeBlocks b a)) =
       bits (\<lambda>i. (liberty_state b i OR liberty_state a i) AND ?vl i)"
    by (rule bits_cong, erule TryMergeBlocks_words)+
  moreover have "bits ?st = bits (stone_state b) \<union> bits (stone_state a)"
    "bits ?vl = bits (virtual_liberty_state b) \<union> bits (virtual_liberty_state a) - bits ?st"
    "bits (\<lambda>i. (liberty_state b i OR liberty_state a i) AND ?vl i) =
       (bits (liberty_state b) \<union> bits (liberty_state a)) \<inter> bits ?vl"
    by (simp_all only: bits_and_not bits_or bits_and [of _ ?vl])
  ultimately show
    "bits (stone_state (TryMergeBlocks b a)) = bits (stone_state b) \<union> bits (stone_state a)"
    "bits (virtual_liberty_state (TryMergeBlocks b a)) =
       bits (virtual_liberty_state b) \<union> bits (virtual_liberty_state a)
         - (bits (stone_state b) \<union> bits (stone_state a))"
    "bits (liberty_state (TryMergeBlocks b a)) =
       (bits (liberty_state b) \<union> bits (liberty_state a)) \<inter>
       (bits (virtual_liberty_state b) \<union> bits (virtual_liberty_state a)
         - (bits (stone_state b) \<union> bits (stone_state a)))"
    by simp_all
qed

end
