(* ===== verification/Go_State.thy ===== *)
theory Go_State
  imports Go_Block "HOL-Library.Monad_Syntax"
begin

text \<open>
  The class \<open>GoState\<close> of go_state.h and go_state.cc: its fields as a record and its
  operations as functions on it, in the order of the source. An operation returns
  \<open>None\<close> where the C++ program would read or write outside an array or run forever
  (the union-find chains and the stone lists are followed with fuel
  \<open>GOBOARD_SIZE\<close>, which Go_Inv proves to be enough); \<open>Move\<close> reports the error codes of the source
  otherwise. The Zobrist weights are an argument \<open>Z\<close>. A block reference \<open>GoBlock \<And>\<close> of the
  source is the index of the block in \<open>block_pool\<close>; the arrays \<open>nbId\<close> and \<open>dieId\<close>, whose
  entry 0 holds their length, are lists.
\<close>

type_synonym stone_array = "GoCoordId \<Rightarrow> GoStone"

record GoState =
  block_pool :: "GoBlockId \<Rightarrow> GoBlock"
  recycled_blocks :: "GoBlockId list"
  block_in_use :: GoSize
  stones :: stone_array
  board_state :: "GoCoordId \<Rightarrow> GoStoneColor"
  current_player :: GoStoneColor
  last_position :: GoCoordId
  ko_position :: GoCoordId
  is_double_pass :: bool
  positional_superko :: bool
  board_hash_states :: "u64 set"
  zobrist_hash_value :: u64
  timestamp :: GoSize
  visited_positions :: "GoBlockId \<Rightarrow> GoSize"
  legal_move_map :: "GoCoordId \<Rightarrow> bool"
  liberty_count :: "GoCoordId \<Rightarrow> GoSize"
  move_count :: "GoCoordId \<Rightarrow> GoSize"
  feature_history_list :: "string list"

abbreviation (input) pool_upd :: "GoBlockId \<Rightarrow> GoBlock \<Rightarrow> GoState \<Rightarrow> GoState" where
  "pool_upd b blk s \<equiv> s\<lparr>block_pool := (block_pool s)(b := blk)\<rparr>"

definition upd_block :: "GoBlockId \<Rightarrow> (GoBlock \<Rightarrow> GoBlock) \<Rightarrow> GoState \<Rightarrow> GoState" where
  "upd_block b f s = s\<lparr>block_pool := (block_pool s)(b := f (block_pool s b))\<rparr>"

text \<open>\<open>FOR_BLOCKSTONE\<close>: the body runs on the head, then along \<open>next_id\<close> until a stone that
  is its own successor. \<open>nxt\<close> reads \<open>stones[p].next_id\<close> in the current state.\<close>

primrec for_blockstone ::
    "nat \<Rightarrow> ('s \<Rightarrow> GoCoordId \<Rightarrow> GoCoordId) \<Rightarrow> (GoCoordId \<Rightarrow> 's \<Rightarrow> 's option) \<Rightarrow>
     GoCoordId \<Rightarrow> 's \<Rightarrow> 's option" where
  "for_blockstone 0 nxt f p s = None"
| "for_blockstone (Suc n) nxt f p s =
     do { s' \<leftarrow> f p s;
          if p = nxt s' p then Some s' else for_blockstone n nxt f (nxt s' p) s' }"

definition next_stone :: "GoState \<Rightarrow> GoCoordId \<Rightarrow> GoCoordId" where
  "next_stone s p = next_id (stones s p)"

definition board_fuel :: nat where
  "board_fuel = 361"

subsection \<open>Construction and copying\<close>

text \<open>The constructor leaves the remaining fields of stones and blocks as it found them in
  \<open>raw\<close> memory.\<close>

definition GoState_new :: "bool \<Rightarrow> GoState \<Rightarrow> GoState" where
  "GoState_new superko raw =
     raw\<lparr>positional_superko := superko,
         stones := fold (\<lambda>i ss. ss(i := (ss i)\<lparr>stone_self_id := i\<rparr>)) coords (stones raw),
         block_pool := fold (\<lambda>i bp. bp(i := (bp i)\<lparr>in_use := False, block_self_id := i\<rparr>))
           [0..MAX_BLOCK_SIZE - 1] (block_pool raw),
         recycled_blocks := [],
         feature_history_list := [],
         board_state := (\<lambda>_. 0),
         visited_positions := (\<lambda>_. 0),
         legal_move_map := (\<lambda>_. True),
         liberty_count := (\<lambda>_. 0),
         move_count := (\<lambda>_. 0),
         timestamp := SIZE_NONE,
         block_in_use := SIZE_NONE,
         current_player := BLACK,
         ko_position := COORD_UNSET,
         last_position := COORD_UNSET,
         is_double_pass := False,
         board_hash_states := {},
         zobrist_hash_value := 0\<rparr>"

text \<open>The copy constructor and \<open>CopyFrom\<close>: all fields are copied, and \<open>FixBlockInfo\<close> points the blocks at
  the copy's own stones.\<close>

definition CopyFrom :: "GoState \<Rightarrow> GoState \<Rightarrow> GoState" where
  "CopyFrom src this = src"

subsection \<open>Queries\<close>

definition Opponent :: "GoStoneColor \<Rightarrow> GoState \<Rightarrow> GoStoneColor" where
  "Opponent c s = BLACK + WHITE - (if COLOR_UNKNOWN \<noteq> c then c else current_player s)"

definition Self :: "GoState \<Rightarrow> GoStoneColor" where
  "Self s = current_player s"

definition HandOff :: "GoState \<Rightarrow> GoState" where
  "HandOff s = s\<lparr>current_player := Opponent COLOR_UNKNOWN s\<rparr>"

text \<open>\<open>IsLegal\<close> indexes the legality map with any identifier that is not a pass.\<close>

definition IsLegal :: "GoState \<Rightarrow> GoCoordId \<Rightarrow> bool option" where
  "IsLegal s p =
     (if IsPass p then Some True
      else if InBoard p then Some (legal_move_map s p) else None)"

definition IsMovable :: "GoState \<Rightarrow> bool" where
  "IsMovable s = list_ex (legal_move_map s) coords"

definition GetLastMoveXY :: "GoState \<Rightarrow> GoCoordId \<times> GoCoordId" where
  "GetLastMoveXY s = IdToCoord (last_position s)"

definition GetLibertyById :: "GoState \<Rightarrow> GoCoordId \<Rightarrow> GoSize" where
  "GetLibertyById s p = liberty_count s p"

subsection \<open>Union-find\<close>

text \<open>\<open>FindCoord\<close> compresses the path it has followed.\<close>

primrec FindCoord :: "nat \<Rightarrow> GoCoordId \<Rightarrow> stone_array \<Rightarrow> (GoCoordId \<times> stone_array) option" where
  "FindCoord 0 p ss = None"
| "FindCoord (Suc n) p ss =
     (if parent_id (ss p) = stone_self_id (ss p) then Some (stone_self_id (ss p), ss)
      else do { (r, ss') \<leftarrow> FindCoord n (parent_id (ss p)) ss;
                Some (r, ss'(p := (ss' p)\<lparr>parent_id := r\<rparr>)) })"

definition GetBlockIdByCoord :: "GoCoordId \<Rightarrow> GoState \<Rightarrow> (GoBlockId \<times> GoState) option" where
  "GetBlockIdByCoord p s =
     (if EMPTY = board_state s p then Some (BLOCK_UNSET, s)
      else do { (r, ss) \<leftarrow> FindCoord board_fuel p (stones s);
                Some (block_id (ss r), s\<lparr>stones := ss\<rparr>) })"

text \<open>\<open>nbId\<close> is sorted and freed of duplicates (\<open>std::sort\<close>, \<open>std::unique\<close>).\<close>

definition GetNeighbourBlocks ::
    "GoBlockId \<Rightarrow> GoCoordId \<Rightarrow> GoState \<Rightarrow> (GoBlockId list \<times> GoState) option" where
  "GetNeighbourBlocks blk to s =
     do { (ids, s') \<leftarrow> foldo (\<lambda>nb (ids, s).
            let s1 = upd_block blk (SetVirtLiberty nb) s
            in if EMPTY = board_state s1 nb then Some (ids, upd_block blk (SetLiberty nb) s1)
               else do { (b, s2) \<leftarrow> GetBlockIdByCoord nb s1; Some (ids @ [b], s2) })
          (nei to) ([], upd_block blk (SetStoneState to) s);
          Some (remdups_adj (sort ids), s') }"

subsection \<open>The block pool\<close>

text \<open>Taking a block resets it; an index outside the pool of 256 blocks is out of bounds
  (the check in the source is commented out).\<close>

definition GetNewBlock :: "GoState \<Rightarrow> (GoBlockId \<times> GoState) option" where
  "GetNewBlock s =
     (let (b, s1) = (case recycled_blocks s of
            r # rs \<Rightarrow> (r, s\<lparr>recycled_blocks := rs\<rparr>)
          | [] \<Rightarrow> (block_in_use s, s\<lparr>block_in_use := wrap16 (block_in_use s + 1)\<rparr>))
      in if 0 \<le> b \<and> b < MAX_BLOCK_SIZE then Some (b, upd_block b BlockReset s1) else None)"

definition RecycleBlock :: "GoBlockId \<Rightarrow> GoState \<Rightarrow> GoState" where
  "RecycleBlock b s =
     (upd_block b (\<lambda>blk. blk\<lparr>in_use := False\<rparr>) s)\<lparr>recycled_blocks := b # recycled_blocks s\<rparr>"

subsection \<open>TryMove\<close>

definition try_neighbour ::
    "GoBlockId \<Rightarrow> GoBlockId \<Rightarrow> GoSize \<times> GoBlockId list \<times> GoState \<Rightarrow> GoSize \<times> GoBlockId list \<times> GoState" where
  "try_neighbour blk i st =
     (let (cnt, die, s) = st; tmp = block_pool s i
      in if Self s \<noteq> color tmp then
           let (tmp', n) = CountLiberty tmp; s' = pool_upd i tmp' s
           in if 1 = n then (cnt + stone_count tmp', die @ [i], s') else (cnt, die, s')
         else (cnt, die, upd_block blk (\<lambda>b. TryMergeBlocks b tmp) s))"

text \<open>The stones about to die become liberties of the new block, word by word.\<close>

definition die_word :: "GoBlock \<Rightarrow> int \<Rightarrow> GoBlock \<Rightarrow> GoBlock" where
  "die_word tmp k b =
     b\<lparr>liberty_state := (liberty_state b)(k := (liberty_state b k OR stone_state tmp k) AND virtual_liberty_state b k)\<rparr>"

definition add_dead :: "GoBlock \<Rightarrow> GoBlock \<Rightarrow> GoBlock" where
  "add_dead tmp b = fold (die_word tmp) [0..LIBERTY_STATE_SIZE - 1] b"

definition TryMove ::
    "GoBlockId \<Rightarrow> GoCoordId \<Rightarrow> GoSize \<Rightarrow> GoState \<Rightarrow>
     (GoSize \<times> (GoBlockId list \<times> GoBlockId list) option \<times> GoState) option" where
  "TryMove blk to libNeed s =
     (if \<not> legal_move_map s to then Some (- 1, None, s)
      else do {
        let s1 = upd_block blk (\<lambda>b. (BlockReset b)\<lparr>stone_count := 1, color := Self s\<rparr>) s;
        (nb, s2) \<leftarrow> GetNeighbourBlocks blk to s1;
        let (cnt, die, s3) = fold (try_neighbour blk) nb (0, [], s2);
        let s4 = upd_block blk (ResetLiberty to) s3;
        let (b', n) = CountLiberty (block_pool s4 blk);
        let s5 = pool_upd blk b' s4;
        if n \<ge> libNeed then Some (cnt, Some (nb, die), s5)
        else Some (cnt, Some (nb, die),
               if die \<noteq> [] then fold (\<lambda>i s. upd_block blk (add_dead (block_pool s i)) s) die s5 else s5)
      })"

subsection \<open>GetSensibleMove\<close>

definition color_plane :: "GoStoneColor \<Rightarrow> GoState \<Rightarrow> string" where
  "color_plane c s = map (\<lambda>p. if board_state s p = c then CHR ''1'' else CHR ''0'') coords"

definition player_flip :: "zobrist \<Rightarrow> GoState \<Rightarrow> u64 \<Rightarrow> u64" where
  "player_flip Z s h = h XOR z_player Z (Self s) XOR z_player Z (Opponent COLOR_UNKNOWN s)"

text \<open>The hash of the position after a move: the placed stone and the stones of the dying
  blocks, read along their lists.\<close>

definition dead_hash :: "zobrist \<Rightarrow> GoState \<Rightarrow> GoBlockId list \<Rightarrow> u64 \<Rightarrow> u64 option" where
  "dead_hash Z s die h =
     foldo (\<lambda>d h. for_blockstone board_fuel (\<lambda>_. next_stone s)
        (\<lambda>tid h. Some (h XOR z_board Z (Opponent COLOR_UNKNOWN s) tid)) (b_head (block_pool s d)) h)
       die h"

definition sensible_point :: "zobrist \<Rightarrow> GoBlockId \<Rightarrow> GoCoordId \<Rightarrow> GoState \<Rightarrow> GoState option" where
  "sensible_point Z blk i s =
     (if EMPTY \<noteq> board_state s i then Some s
      else if ko_position s = i then Some s
      else do {
        let libCnt = (if list_ex (\<lambda>nb. EMPTY = board_state s nb) (nei i) then 1 else 0 :: GoSize);
        let s1 = s\<lparr>legal_move_map := (legal_move_map s)(i := True)\<rparr>;
        if libCnt > 0 then Some s1
        else do {
          (_, res, s2) \<leftarrow> TryMove blk i GOBOARD_SIZE s1;
          (_, die) \<leftarrow> res;
          let (b', n) = CountLiberty (block_pool s2 blk);
          let s3 = pool_upd blk b' s2;
          if n \<le> 0 then Some (s3\<lparr>legal_move_map := (legal_move_map s3)(i := False)\<rparr>)
          else if positional_superko s3 then do {
            h \<leftarrow> dead_hash Z s3 die
                  (player_flip Z s3 (zobrist_hash_value s3) XOR z_board Z (Self s3) i);
            if h \<in> board_hash_states s3
            then Some (s3\<lparr>legal_move_map := (legal_move_map s3)(i := False)\<rparr>)
            else Some s3 }
          else Some s3 } })"

definition GetSensibleMove :: "zobrist \<Rightarrow> GoState \<Rightarrow> GoState option" where
  "GetSensibleMove Z s =
     do {
       let s1 = s\<lparr>feature_history_list := feature_history_list s @ [color_plane BLACK s]\<rparr>;
       let s2 = s1\<lparr>feature_history_list := feature_history_list s1 @ [color_plane WHITE s1]\<rparr>;
       let s3 = s2\<lparr>legal_move_map := (\<lambda>_. False)\<rparr>;
       (blk, s4) \<leftarrow> GetNewBlock s3;
       s5 \<leftarrow> foldo (sensible_point Z blk) coords s4;
       Some (RecycleBlock blk s5) }"

subsection \<open>Move\<close>

text \<open>The opening of \<open>Move\<close>: counters, the double-pass flag, the ko point and the player
  and stone parts of the hash.\<close>

definition move_header :: "zobrist \<Rightarrow> GoCoordId \<Rightarrow> GoState \<Rightarrow> GoState" where
  "move_header Z to s =
     (let s1 = s\<lparr>timestamp := wrap16 (timestamp s + 1)\<rparr>;
          s2 = s1\<lparr>is_double_pass := IsPass (last_position s1) \<and> IsPass to\<rparr>;
          s3 = s2\<lparr>last_position := to\<rparr>;
          s4 = s3\<lparr>ko_position := COORD_UNSET\<rparr>;
          s5 = s4\<lparr>zobrist_hash_value := player_flip Z s4 (zobrist_hash_value s4)\<rparr>
      in if \<not> IsPass to
         then s5\<lparr>zobrist_hash_value := zobrist_hash_value s5 XOR z_board Z (Self s5) to\<rparr>
         else s5)"

definition visit_block :: "GoBlockId \<Rightarrow> GoState \<Rightarrow> GoState" where
  "visit_block b s = s\<lparr>visited_positions := (visited_positions s)(b := timestamp s)\<rparr>"

text \<open>The loop over the neighbouring blocks: they lose the liberty \<open>to\<close>; the player's own are
  merged into the new block and recycled.\<close>

definition join_neighbour :: "GoBlockId \<Rightarrow> GoCoordId \<Rightarrow> GoBlockId \<Rightarrow> GoState \<Rightarrow> GoState" where
  "join_neighbour blkId to i s =
     (let s1 = upd_block i (ResetLiberty to) (visit_block i s)
      in if Self s1 = color (block_pool s1 i) then
           let (b', ss) = MergeBlocks (block_pool s1 blkId) (block_pool s1 i) (stones s1)
           in RecycleBlock i ((pool_upd blkId b' s1)\<lparr>stones := ss\<rparr>)
         else s1)"

text \<open>A captured stone becomes a liberty of the player's blocks around it.\<close>

definition free_neighbour :: "GoCoordId \<Rightarrow> GoCoordId \<Rightarrow> GoState \<Rightarrow> GoState option" where
  "free_neighbour tid nb s =
     (if Self s = board_state s nb then
        do { (bid, s1) \<leftarrow> GetBlockIdByCoord nb s;
             Some (upd_block bid (SetLiberty tid) (visit_block bid s1)) }
      else Some s)"

definition remove_stone :: "zobrist \<Rightarrow> GoCoordId \<Rightarrow> GoState \<Rightarrow> GoState option" where
  "remove_stone Z tid s =
     do { s1 \<leftarrow> foldo (free_neighbour tid) (nei tid) s;
          Some (s1\<lparr>board_state := (board_state s1)(tid := EMPTY),
                   liberty_count := (liberty_count s1)(tid := SIZE_NONE),
                   zobrist_hash_value := zobrist_hash_value s1 XOR z_board Z (Opponent COLOR_UNKNOWN s1) tid\<rparr>) }"

definition capture_block :: "zobrist \<Rightarrow> GoBlockId \<Rightarrow> GoBlockId \<Rightarrow> GoState \<Rightarrow> GoState option" where
  "capture_block Z blkId d s =
     (let s1 = (if 1 = stone_count (block_pool s d) \<and> 1 = stone_count (block_pool s blkId) then
                  let (b', n) = CountLiberty (block_pool s blkId); s' = pool_upd blkId b' s
                  in if 1 = n then s'\<lparr>ko_position := b_head (block_pool s' d)\<rparr> else s'
                else s)
      in do { s2 \<leftarrow> for_blockstone board_fuel next_stone (remove_stone Z) (b_head (block_pool s1 d)) s1;
              Some (RecycleBlock d s2) })"

text \<open>The loop that refreshes the liberty counts of the visited blocks.\<close>

definition recount_block :: "GoBlockId \<Rightarrow> GoState \<Rightarrow> GoState option" where
  "recount_block i s =
     (if in_use (block_pool s i) \<and> timestamp s = visited_positions s i then
        let (b', n) = CountLiberty (block_pool s i); s1 = pool_upd i b' s
        in for_blockstone board_fuel next_stone
             (\<lambda>tid s. Some (s\<lparr>liberty_count := (liberty_count s)(tid := liberty (block_pool s i))\<rparr>))
             (b_head (block_pool s1 i)) s1
      else Some s)"

definition record_hash :: "GoState \<Rightarrow> GoState" where
  "record_hash s = (if positional_superko s
     then s\<lparr>board_hash_states := insert (zobrist_hash_value s) (board_hash_states s)\<rparr> else s)"

definition place_block :: "GoBlockId \<Rightarrow> GoCoordId \<Rightarrow> GoState \<Rightarrow> GoState" where
  "place_block blkId to s =
     upd_block blkId (\<lambda>b. b\<lparr>in_use := True, b_head := to, b_tail := to\<rparr>)
       (s\<lparr>stones := (stones s)(to := StoneReset blkId (stones s to))\<rparr>)"

definition Move :: "zobrist \<Rightarrow> GoCoordId \<Rightarrow> GoState \<Rightarrow> (int \<times> GoState) option" where
  "Move Z to s =
     do {
       legal \<leftarrow> IsLegal s to;
       if \<not> legal then Some (- 1, s)
       else do {
         let s1 = move_header Z to s;
         if IsPass to then do { s2 \<leftarrow> GetSensibleMove Z (HandOff s1); Some (0, record_hash s2) }
         else do {
           (blkId, s2) \<leftarrow> GetNewBlock s1;
           (cnt, res, s3) \<leftarrow> TryMove blkId to GOBOARD_SIZE s2;
           if cnt < 0 then Some (- 2, s3)
           else do {
             (nb, die) \<leftarrow> res;
             let s5 = fold (join_neighbour blkId to) nb (place_block blkId to s3);
             let s6 = visit_block blkId s5;
             s7 \<leftarrow> foldo (capture_block Z blkId) die s6;
             s8 \<leftarrow> foldo recount_block [0..block_in_use s7 - 1] s7;
             let s9 = s8\<lparr>move_count := (move_count s8)(to := wrap16 (move_count s8 to + 1)),
                         board_state := (board_state s8)(to := Self s8)\<rparr>;
             s10 \<leftarrow> GetSensibleMove Z (HandOff s9);
             Some (0, record_hash s10) } } } }"

definition MoveXY :: "zobrist \<Rightarrow> GoCoordId \<Rightarrow> GoCoordId \<Rightarrow> GoState \<Rightarrow> (int \<times> GoState) option" where
  "MoveXY Z x y s = Move Z (CoordToId x y) s"

text \<open>When \<open>TryMove\<close> refuses, \<open>dieId\<close> is read uninitialised.\<close>

definition GetNewHashValue :: "zobrist \<Rightarrow> GoCoordId \<Rightarrow> GoState \<Rightarrow> (u64 \<times> GoState) option" where
  "GetNewHashValue Z to s =
     (if to = COORD_PASS then Some (player_flip Z s (zobrist_hash_value s), s)
      else do {
        (blk, s1) \<leftarrow> GetNewBlock s;
        (_, res, s2) \<leftarrow> TryMove blk to GOBOARD_SIZE s1;
        (_, die) \<leftarrow> res;
        h \<leftarrow> dead_hash Z s2 die
              (player_flip Z s2 (zobrist_hash_value s2) XOR z_board Z (Self s2) to);
        Some (h, RecycleBlock blk s2) })"

text \<open>A concrete memory image for the examples.\<close>

definition raw_memory :: GoState where
  "raw_memory = \<lparr>
     block_pool = (\<lambda>_. \<lparr>block_self_id = 0, color = 0, liberty = 0, b_head = 0, b_tail = 0, stone_count = 0,
       in_use = False, liberty_state = (\<lambda>_. 0), virtual_liberty_state = (\<lambda>_. 0), stone_state = (\<lambda>_. 0)\<rparr>),
     recycled_blocks = [], block_in_use = 0,
     stones = (\<lambda>_. \<lparr>stone_self_id = 0, block_id = 0, next_id = 0, parent_id = 0\<rparr>),
     board_state = (\<lambda>_. 0), current_player = 0, last_position = 0, ko_position = 0, is_double_pass = False,
     positional_superko = False, board_hash_states = {}, zobrist_hash_value = 0, timestamp = 0,
     visited_positions = (\<lambda>_. 0), legal_move_map = (\<lambda>_. False), liberty_count = (\<lambda>_. 0),
     move_count = (\<lambda>_. 0), feature_history_list = []\<rparr>"

end
