(* ===== verification/Go_Rules.thy ===== *)
theory Go_Rules
  imports Go_Comm
begin

text \<open>
  The rules of Go on a board, as a specification independent of the program's data
  structures: groups of connected stones of one colour, their liberties, and what playing
  a stone does. The lemmas say how groups and liberties change when a stone is placed and
  when whole groups are taken off, which is what the block pool has to follow.
\<close>

type_synonym board = "GoCoordId \<Rightarrow> GoStoneColor"

definition linked :: "board \<Rightarrow> GoCoordId \<Rightarrow> GoCoordId \<Rightarrow> bool" where
  "linked B p q \<longleftrightarrow> adj p q \<and> B p = B q"

definition grp :: "board \<Rightarrow> GoCoordId \<Rightarrow> GoCoordId set" where
  "grp B p = {q. (linked B)\<^sup>*\<^sup>* p q}"

definition frontier :: "GoCoordId set \<Rightarrow> GoCoordId set" where
  "frontier S = {q. q \<notin> S \<and> (\<exists>p\<in>S. adj p q)}"

definition libs :: "board \<Rightarrow> GoCoordId set \<Rightarrow> GoCoordId set" where
  "libs B S = {q \<in> frontier S. B q = EMPTY}"

definition other :: "GoStoneColor \<Rightarrow> GoStoneColor" where
  "other c = BLACK + WHITE - c"

text \<open>The stones that a move of colour \<open>c\<close> at \<open>p\<close> captures, and the board after it.\<close>

definition captured :: "board \<Rightarrow> GoStoneColor \<Rightarrow> GoCoordId \<Rightarrow> GoCoordId set" where
  "captured B c p = \<Union> {grp B q |q. adj p q \<and> B q = other c \<and> libs B (grp B q) = {p}}"

definition play :: "board \<Rightarrow> GoStoneColor \<Rightarrow> GoCoordId \<Rightarrow> board" where
  "play B c p = (\<lambda>q. if q \<in> captured B c p then EMPTY else (B(p := c)) q)"

definition colors_ok :: "board \<Rightarrow> bool" where
  "colors_ok B \<longleftrightarrow> (\<forall>p. InBoard p \<longrightarrow> B p \<in> {EMPTY, BLACK, WHITE})"

lemma other_simps [simp]: "other BLACK = WHITE" "other WHITE = BLACK" "other 1 = 2" "other 2 = 1"
  by (simp_all add: other_def)

lemma player_cases: "c \<in> {BLACK, WHITE} \<Longrightarrow> c \<noteq> EMPTY \<and> other c \<noteq> EMPTY \<and> other c \<noteq> c \<and> other (other c) = c"
  by auto

subsection \<open>Groups are equivalence classes\<close>

lemma linked_sym: "linked B p q \<Longrightarrow> linked B q p"
  by (auto simp: linked_def adj_sym)

lemma group_refl [simp]: "p \<in> grp B p"
  by (simp add: grp_def)

lemma group_sym: "q \<in> grp B p \<Longrightarrow> p \<in> grp B q"
proof -
  assume "q \<in> grp B p"
  then have "(linked B)\<^sup>*\<^sup>* p q" by (simp add: grp_def)
  then have "(linked B)\<^sup>*\<^sup>* q p"
    by induction (auto intro: converse_rtranclp_into_rtranclp linked_sym)
  then show ?thesis by (simp add: grp_def)
qed

lemma group_trans: "q \<in> grp B p \<Longrightarrow> r \<in> grp B q \<Longrightarrow> r \<in> grp B p"
  by (auto simp: grp_def)

lemma group_eq: "q \<in> grp B p \<Longrightarrow> grp B q = grp B p"
  using group_sym group_trans by blast

lemma group_step: "q \<in> grp B p \<Longrightarrow> adj q r \<Longrightarrow> B q = B r \<Longrightarrow> r \<in> grp B p"
  by (auto simp: grp_def linked_def intro: rtranclp.rtrancl_into_rtrancl)

lemma group_induct [consumes 1, case_names start step]:
  assumes "q \<in> grp B p" and "P p"
    and "\<And>q r. q \<in> grp B p \<Longrightarrow> P q \<Longrightarrow> adj q r \<Longrightarrow> B q = B r \<Longrightarrow> P r"
  shows "P q"
proof -
  from assms(1) have "(linked B)\<^sup>*\<^sup>* p q" by (simp add: grp_def)
  then show ?thesis
    by induction (auto simp: grp_def linked_def intro: assms)
qed

lemma group_color: "q \<in> grp B p \<Longrightarrow> B q = B p"
  by (induction rule: group_induct) auto

lemma group_InBoard: "q \<in> grp B p \<Longrightarrow> InBoard p \<Longrightarrow> InBoard q"
  by (induction rule: group_induct) (auto dest: adj_InBoard)

text \<open>A set closed under links that contains a point contains its group.\<close>

lemma group_subset:
  assumes "p \<in> S" and "\<And>q r. q \<in> S \<Longrightarrow> adj q r \<Longrightarrow> B q = B r \<Longrightarrow> r \<in> S"
  shows "grp B p \<subseteq> S"
proof
  fix q assume "q \<in> grp B p"
  then show "q \<in> S" by (induction rule: group_induct) (use assms in auto)
qed

lemma group_mono_links:
  assumes "\<And>q r. q \<in> grp B p \<Longrightarrow> adj q r \<Longrightarrow> B q = B r \<Longrightarrow> B' q = B' r"
  shows "grp B p \<subseteq> grp B' p"
proof
  fix q assume "q \<in> grp B p"
  then show "q \<in> grp B' p"
    by (induction rule: group_induct) (auto intro: group_step assms)
qed

text \<open>Two boards that agree on a group and on what surrounds it, as far as its colour is
  concerned, have the same group there.\<close>

lemma group_cong:
  assumes "\<And>q. q \<in> grp B p \<Longrightarrow> B' q = B q"
    and "\<And>q r. q \<in> grp B p \<Longrightarrow> adj q r \<Longrightarrow> r \<notin> grp B p \<Longrightarrow> B' r \<noteq> B q"
  shows "grp B' p = grp B p"
proof
  show "grp B p \<subseteq> grp B' p"
    by (rule group_mono_links) (metis assms(1) group_step)
  show "grp B' p \<subseteq> grp B p"
    by (rule group_subset) (use assms in fastforce)+
qed

subsection \<open>Liberties\<close>

lemma frontier_board: "q \<in> frontier S \<Longrightarrow> InBoard q"
  by (auto simp: frontier_def dest: adj_InBoard)

lemma libs_board: "q \<in> libs B S \<Longrightarrow> InBoard q"
  by (auto simp: libs_def dest: frontier_board)

lemma board_finite: "S \<subseteq> {q. InBoard q} \<Longrightarrow> finite S"
  by (rule finite_subset [of _ "{0..<361}"]) (auto simp: InBoard_def)

lemma finite_libs [simp]: "finite (libs B S)"
  by (rule board_finite) (auto dest: libs_board)

lemma frontier_Un: "frontier (S \<union> T) = (frontier S \<union> frontier T) - (S \<union> T)"
  by (auto simp: frontier_def)

lemma libs_stones: "(\<And>p. p \<in> S \<Longrightarrow> B p \<noteq> EMPTY) \<Longrightarrow> libs B S = {q. B q = EMPTY \<and> (\<exists>p\<in>S. adj p q)}"
  by (auto simp: libs_def frontier_def)

subsection \<open>Placing a stone\<close>

lemma place_other_group:
  assumes empty: "B p = EMPTY" and player: "c \<in> {BLACK, WHITE}"
    and "B q \<noteq> EMPTY" and "B q \<noteq> c \<or> (\<forall>n. adj p n \<longrightarrow> n \<notin> grp B q)"
  shows "grp (B(p := c)) q = grp B q"
proof (rule group_cong)
  fix r assume r: "r \<in> grp B q"
  then have "B r = B q" by (rule group_color)
  with assms(3) empty show "(B(p := c)) r = B r" by auto
  fix t assume t: "adj r t" "t \<notin> grp B q"
  show "(B(p := c)) t \<noteq> B r"
  proof (cases "t = p")
    case True
    with assms(4) r t \<open>B r = B q\<close> show ?thesis by (auto simp: adj_sym)
  next
    case False
    with t r group_step [of r B q t] show ?thesis by auto
  qed
qed

lemma place_own_group:
  assumes empty: "B p = EMPTY" and player: "c \<in> {BLACK, WHITE}"
  shows "grp (B(p := c)) p = insert p (\<Union> {grp B n |n. adj p n \<and> B n = c})" (is "_ = ?U")
proof
  show "grp (B(p := c)) p \<subseteq> ?U"
  proof (rule group_subset)
    fix q r assume q: "q \<in> ?U" and a: "adj q r" and e: "(B(p := c)) q = (B(p := c)) r"
    show "r \<in> ?U"
    proof (cases "r = p")
      case False
      show ?thesis
      proof (cases "q = p")
        case True
        with False a e have "r \<in> grp B r" "adj p r" "B r = c" by auto
        then show ?thesis by blast
      next
        case qp: False
        with q obtain n where n: "q \<in> grp B n" "adj p n" "B n = c" by auto
        with qp False e a have "r \<in> grp B n" using group_step [of q B n r] by simp
        with n show ?thesis by blast
      qed
    qed simp
  qed simp
  show "?U \<subseteq> grp (B(p := c)) p"
  proof
    fix q assume "q \<in> ?U"
    then consider "q = p" | n where "adj p n" "B n = c" "q \<in> grp B n" by blast
    then show "q \<in> grp (B(p := c)) p"
    proof cases
      case 2
      have np: "n \<noteq> p" using 2(1) by auto
      have sub: "grp B n \<subseteq> grp (B(p := c)) n"
      proof (rule group_mono_links)
        fix x y assume "x \<in> grp B n" "adj x y" "B x = B y"
        moreover have "B x = c" using calculation(1) 2(2) group_color by metis
        ultimately show "(B(p := c)) x = (B(p := c)) y" using empty player by auto
      qed
      have "n \<in> grp (B(p := c)) p" by (rule group_step [of p]) (use 2 np in auto)
      with sub 2(3) show ?thesis using group_eq by blast
    qed simp
  qed
qed

subsection \<open>Removing whole groups\<close>

definition remove :: "board \<Rightarrow> GoCoordId set \<Rightarrow> board" where
  "remove B D = (\<lambda>q. if q \<in> D then EMPTY else B q)"

lemma remove_group:
  assumes "\<And>q r. q \<in> D \<Longrightarrow> r \<in> grp B q \<Longrightarrow> r \<in> D" and "p \<notin> D" and "B p \<noteq> EMPTY"
  shows "grp (remove B D) p = grp B p"
proof (rule group_cong)
  fix q assume q: "q \<in> grp B p"
  with assms(1,2) have "q \<notin> D" using group_sym by blast
  then show "remove B D q = B q" by (simp add: remove_def)
  fix r assume r: "adj q r" "r \<notin> grp B p"
  show "remove B D r \<noteq> B q"
    using assms(3) group_color [OF q] group_step [OF q r(1)] r(2) by (auto simp: remove_def)
qed

end
