(* ===== verification/Go_Score.thy ===== *)
theory Go_Score
  imports Go_State Go_Rules Complex_Main
begin

text \<open>
  Scoring (\<open>CalcRegionScore\<close>, \<open>CalcScoreWithColor\<close>, \<open>CalcScore\<close>, \<open>GetWinner\<close> of go_state.cc): a
  flood fill with an explicit stack over the empty regions, whose points count for a colour
  when every stone around the region has it. The stack's top is the head of the list; the
  loop is a partial function, and the lemmas show that it returns.
\<close>

type_synonym fill = "GoCoordId list \<times> (GoCoordId \<Rightarrow> bool) \<times> GoSize \<times> GoStoneColor"

definition region_step :: "board \<Rightarrow> GoCoordId \<Rightarrow> fill \<Rightarrow> fill" where
  "region_step B np f =
     (let (q, vis, cnt, cs) = f
      in if vis np then f
         else if EMPTY = B np then (np # q, vis(np := True), cnt + 1, cs OR B np)
         else (q, vis, cnt, cs OR B np))"

partial_function (option) region_loop :: "board \<Rightarrow> fill \<Rightarrow> fill option" where
  "region_loop B f =
     (case f of ([], vis, cnt, cs) \<Rightarrow> Some f
      | (p # q, vis, cnt, cs) \<Rightarrow> region_loop B (fold (region_step B) (nei p) (q, vis, cnt, cs)))"

definition CalcRegionScore ::
    "board \<Rightarrow> GoCoordId \<Rightarrow> GoStoneColor \<Rightarrow> (GoCoordId \<Rightarrow> bool) \<Rightarrow> (GoSize \<times> (GoCoordId \<Rightarrow> bool)) option" where
  "CalcRegionScore B xy col vis =
     map_option (\<lambda>(q, vis', cnt, cs). (if col \<noteq> cs then SIZE_NONE else cnt, vis'))
       (region_loop B ([xy], vis(xy := True), SIZE_NONE + 1, EMPTY))"

definition CalcScoreWithColor :: "board \<Rightarrow> GoStoneColor \<Rightarrow> GoSize option" where
  "CalcScoreWithColor B col =
     map_option fst (foldo (\<lambda>i (cnt, vis).
         if vis i then Some (cnt, vis)
         else if col = B i then Some (cnt + 1, vis)
         else if EMPTY = B i then map_option (\<lambda>(n, vis'). (cnt + n, vis')) (CalcRegionScore B i col vis)
         else Some (cnt, vis))
       coords (SIZE_NONE, \<lambda>_. False))"

text \<open>The difference, then the three counts the caller receives.\<close>

definition CalcScore :: "GoState \<Rightarrow> (GoSize \<times> GoSize \<times> GoSize \<times> GoSize) option" where
  "CalcScore s =
     do { black \<leftarrow> CalcScoreWithColor (board_state s) BLACK;
          white \<leftarrow> CalcScoreWithColor (board_state s) WHITE;
          Some (black - white, black, white, GOBOARD_SIZE - black - white) }"

definition GetWinner :: "GoState \<Rightarrow> (GoStoneColor \<times> GoSize) option" where
  "GetWinner s =
     do { (score, black, white, empty) \<leftarrow> CalcScore s;
          Some (if real_of_int score > 7.5 then BLACK else WHITE, score) }"

subsection \<open>Colour sets\<close>

definition cset :: "GoStoneColor set \<Rightarrow> GoStoneColor" where
  "cset S = (if BLACK \<in> S then 1 else 0) OR (if WHITE \<in> S then 2 else 0)"

lemma cset_insert: "c \<in> {EMPTY, BLACK, WHITE} \<Longrightarrow> cset S OR c = cset (insert c S)"
  by (auto simp: cset_def)

lemma cset_single: "c \<in> {BLACK, WHITE} \<Longrightarrow> c = cset S \<longleftrightarrow> c \<in> S \<and> other c \<notin> S"
  by (auto simp: cset_def)

subsection \<open>The flood fill\<close>

text \<open>\<open>V\<close> are the points marked before the fill, \<open>N\<close> those it has marked, \<open>C\<close> those it is done with,
  \<open>S\<close> the colours seen.\<close>

definition filling :: "board \<Rightarrow> GoCoordId \<Rightarrow> (GoCoordId \<Rightarrow> bool) \<Rightarrow> GoCoordId set \<Rightarrow> GoCoordId set \<Rightarrow>
    GoStoneColor set \<Rightarrow> fill \<Rightarrow> bool" where
  "filling B xy V C N S f \<longleftrightarrow> (case f of (q, vis, cnt, cs) \<Rightarrow>
     N = C \<union> set q \<and> N \<subseteq> grp B xy \<and> xy \<in> N \<and> cnt = int (card N) \<and>
     vis = (\<lambda>p. V p \<or> p \<in> N) \<and> cs = cset S)"

lemma region_step_filling:
  assumes f: "filling B xy V C N S f" and E: "B xy = EMPTY" "InBoard xy" and col: "colors_ok B"
    and V: "\<And>p. V p \<Longrightarrow> B p = EMPTY \<and> p \<notin> grp B xy"
    and p: "p \<in> grp B xy" "adj p n"
  shows "filling B xy V C (if B n = EMPTY then insert n N else N) (insert (B n) S) (region_step B n f)"
proof -
  obtain q vis cnt cs where fq: "f = (q, vis, cnt, cs)" by (cases f)
  note F = f [unfolded filling_def fq prod.case]
  have fin: "finite N" using F E(2) group_InBoard by (intro board_finite) auto
  have Bp: "B p = EMPTY" using group_color [OF p(1)] E by simp
  have bn: "B n \<in> {EMPTY, BLACK, WHITE}" using col p(2) adj_InBoard [of p n] by (auto simp: colors_ok_def)
  show ?thesis
  proof (cases "B n = EMPTY")
    case True
    then have n: "n \<in> grp B xy" using group_step [OF p] Bp by simp
    then have "\<not> V n" using V by blast
    have cs: "cset (insert (B n) S) = cset S" using True by (simp add: cset_def)
    show ?thesis
    proof (cases "n \<in> N")
      case True
      then show ?thesis
        using F \<open>B n = EMPTY\<close> cs by (auto simp: filling_def fq region_step_def insert_absorb)
    next
      case False
      then show ?thesis
        using F \<open>B n = EMPTY\<close> \<open>\<not> V n\<close> cs n fin by (auto simp: filling_def fq region_step_def fun_eq_iff)
    qed
  next
    case False
    then have "\<not> V n" using V by blast
    moreover have "n \<notin> N" using F False group_color [of n B xy] E by auto
    ultimately show ?thesis
      using F False cset_insert [OF bn] by (auto simp: filling_def fq region_step_def)
  qed
qed

text \<open>One pop: all neighbours of the point are marked or seen, and every push is a new mark.\<close>

lemma region_fold_filling:
  assumes f: "filling B xy V C N S f" and E: "B xy = EMPTY" "InBoard xy" and col: "colors_ok B"
    and V: "\<And>p. V p \<Longrightarrow> B p = EMPTY \<and> p \<notin> grp B xy" and p: "p \<in> grp B xy"
    and ns: "\<And>n. n \<in> set ns \<Longrightarrow> adj p n"
  shows "filling B xy V C (N \<union> {n \<in> set ns. B n = EMPTY}) (S \<union> B ` set ns) (fold (region_step B) ns f)"
proof (rule fold_rule [where P = "\<lambda>dn f. filling B xy V C (N \<union> {n \<in> set dn. B n = EMPTY}) (S \<union> B ` set dn) f"])
  show "filling B xy V C (N \<union> {n \<in> set []. B n = EMPTY}) (S \<union> B ` set []) f" using f by simp
next
  fix dn n rest g
  assume l: "ns = dn @ n # rest" and g: "filling B xy V C (N \<union> {n \<in> set dn. B n = EMPTY}) (S \<union> B ` set dn) g"
  have e1: "(if B n = EMPTY then insert n (N \<union> {n \<in> set dn. B n = EMPTY}) else N \<union> {n \<in> set dn. B n = EMPTY}) =
      N \<union> {m \<in> set (dn @ [n]). B m = EMPTY}" by auto
  have e2: "insert (B n) (S \<union> B ` set dn) = S \<union> B ` set (dn @ [n])" by auto
  have "adj p n" using ns [of n] l by simp
  from region_step_filling [OF g E col V p this, unfolded e1 e2]
  show "filling B xy V C (N \<union> {m \<in> set (dn @ [n]). B m = EMPTY}) (S \<union> B ` set (dn @ [n])) (region_step B n g)" .
qed

lemma region_fold_stack:
  "\<exists>new. fst (fold (region_step B) ns (q, vis, cnt, cs)) = new @ q \<and>
     fst (snd (snd (fold (region_step B) ns (q, vis, cnt, cs)))) = cnt + int (length new)"
proof (rule fold_rule [where P = "\<lambda>_ f. \<exists>new. fst f = new @ q \<and> fst (snd (snd f)) = cnt + int (length new)"])
  show "\<exists>new. fst (q, vis, cnt, cs) = new @ q \<and> fst (snd (snd (q, vis, cnt, cs))) = cnt + int (length new)"
    by (intro exI [of _ "[]"]) simp
next
  fix dn n rest and f :: fill
  assume "\<exists>new. fst f = new @ q \<and> fst (snd (snd f)) = cnt + int (length new)"
  then obtain new vis' cs' where "f = (new @ q, vis', cnt + int (length new), cs')" by (metis prod.collapse)
  then show "\<exists>new. fst (region_step B n f) = new @ q \<and>
      fst (snd (snd (region_step B n f))) = cnt + int (length new)"
    by (cases "vis' n"; cases "B n = EMPTY")
      (auto simp: region_step_def intro: exI [of _ new] exI [of _ "n # new"])
qed

text \<open>The colours around a region.\<close>

definition rim :: "board \<Rightarrow> GoCoordId \<Rightarrow> GoStoneColor set" where
  "rim B xy = B ` frontier (grp B xy)"

lemma rim_stone: "B xy = EMPTY \<Longrightarrow> c \<in> rim B xy \<Longrightarrow> c \<noteq> EMPTY"
proof
  assume E: "B xy = EMPTY" and c: "c \<in> rim B xy" and "c = EMPTY"
  then obtain p q where "p \<in> grp B xy" "adj p q" "q \<notin> grp B xy" "B q = EMPTY" by (auto simp: rim_def frontier_def)
  then show False using group_step [of p B xy q] group_color [of p B xy] E by auto
qed

lemma rim_neighbour: "p \<in> grp B xy \<Longrightarrow> B xy = EMPTY \<Longrightarrow> adj p n \<Longrightarrow> B n \<noteq> EMPTY \<Longrightarrow> B n \<in> rim B xy"
  using group_color [of n B xy] by (auto simp: rim_def frontier_def intro!: imageI bexI [of _ p])

lemma region_loop_spec:
  assumes E: "B xy = EMPTY" "InBoard xy" and col: "colors_ok B"
    and V: "\<And>p. V p \<Longrightarrow> B p = EMPTY \<and> p \<notin> grp B xy"
    and f: "filling B xy V C N S f" and C: "\<And>p n. p \<in> C \<Longrightarrow> adj p n \<Longrightarrow> (B n = EMPTY \<longrightarrow> n \<in> N) \<and> B n \<in> S"
    and S: "S \<subseteq> insert EMPTY (rim B xy)"
  shows "\<exists>S'. region_loop B f = Some ([], \<lambda>p. V p \<or> p \<in> grp B xy, int (card (grp B xy)), cset S') \<and>
    rim B xy \<subseteq> S' \<and> S' \<subseteq> insert EMPTY (rim B xy)"
  using f C S
proof (induction "2 * (361 - card N) + length (fst f)" arbitrary: f C N S rule: less_induct)
  case less
  obtain q vis cnt cs where fq: "f = (q, vis, cnt, cs)" by (cases f)
  note F = less.prems(1) [unfolded filling_def fq prod.case]
  show ?case
  proof (cases q)
    case Nil
    have "grp B xy \<subseteq> N"
    proof (rule group_subset)
      show "xy \<in> N" using F by blast
      show "r \<in> N" if "p \<in> N" "adj p r" "B p = B r" for p r
      proof -
        have "B p = EMPTY" using F that(1) group_color [of p B xy] E by auto
        with less.prems(2) [of p r] F Nil that show ?thesis by simp
      qed
    qed
    with F have N: "N = grp B xy" "C = N" using Nil by auto
    have "rim B xy \<subseteq> S"
      using less.prems(2) N by (auto simp: rim_def frontier_def)
    with less.prems(3) F N Nil show ?thesis
      by (intro exI [of _ S]) (simp add: fq region_loop.simps)
  next
    case (Cons p q')
    let ?g = "fold (region_step B) (nei p) (q', vis, cnt, cs)"
    let ?N = "N \<union> {n \<in> set (nei p). B n = EMPTY}" and ?S = "S \<union> B ` set (nei p)"
    have p: "p \<in> grp B xy" using F Cons by auto
    have ib: "InBoard p" by (rule group_InBoard [OF p E(2)])
    have "filling B xy V (insert p C) N S (q', vis, cnt, cs)"
      using F Cons by (auto simp: filling_def)
    from region_fold_filling [OF this E col V p, of "nei p"] set_nei [OF ib]
    have g: "filling B xy V (insert p C) ?N ?S ?g" by simp
    from region_fold_stack [of B "nei p" q' vis cnt cs] obtain new where
      new: "fst ?g = new @ q'" "fst (snd (snd ?g)) = cnt + int (length new)" by blast
    obtain g1 g2 g3 g4 where g4: "?g = (g1, g2, g3, g4)" by (metis prod_cases4)
    have cards: "card ?N = card N + length new"
    proof -
      have "g3 = int (card ?N)" using g unfolding filling_def g4 prod.case by blast
      moreover have "g3 = cnt + int (length new)" using new(2) by (simp only: g4 fst_conv snd_conv)
      moreover have "cnt = int (card N)" using F by blast
      ultimately show ?thesis by linarith
    qed
    have "?N \<subseteq> grp B xy" using g unfolding filling_def g4 prod.case by blast
    then have "?N \<subseteq> {q. InBoard q}" using group_InBoard E(2) by blast
    then have "?N \<subseteq> {0..<361}" by (auto simp: InBoard_def)
    from card_mono [OF _ this] have le: "card ?N \<le> 361" by simp
    have lt: "2 * (361 - card ?N) + length (fst ?g) < 2 * (361 - card N) + length (fst f)"
      using cards le new(1) Cons by (simp add: fq)
    have closed: "(B n = EMPTY \<longrightarrow> n \<in> ?N) \<and> B n \<in> ?S" if "x \<in> insert p C" "adj x n" for x n
      using that less.prems(2) [of x n] set_nei [OF ib] by auto
    have "?S \<subseteq> insert EMPTY (rim B xy)"
      using less.prems(3) rim_neighbour [OF p E(1)] set_nei [OF ib] by auto
    from less.hyps [OF lt g closed this]
    show ?thesis by (simp add: fq Cons region_loop.simps)
  qed
qed

lemma CalcRegionScore_spec:
  assumes E: "B xy = EMPTY" "InBoard xy" and ok: "colors_ok B" and col: "col \<in> {BLACK, WHITE}"
    and V: "\<And>p. V p \<Longrightarrow> B p = EMPTY \<and> p \<notin> grp B xy"
  shows "CalcRegionScore B xy col V =
    Some (if rim B xy = {col} then int (card (grp B xy)) else 0, \<lambda>p. V p \<or> p \<in> grp B xy)"
proof -
  have "filling B xy V {} {xy} {} ([xy], V(xy := True), SIZE_NONE + 1, EMPTY)"
    by (auto simp: filling_def cset_def fun_eq_iff)
  from region_loop_spec [OF E ok V this] obtain S' where
    run: "region_loop B ([xy], V(xy := True), SIZE_NONE + 1, EMPTY) =
      Some ([], \<lambda>p. V p \<or> p \<in> grp B xy, int (card (grp B xy)), cset S')"
    and S': "rim B xy \<subseteq> S'" "S' \<subseteq> insert EMPTY (rim B xy)" by auto
  have rim: "rim B xy \<subseteq> {BLACK, WHITE}"
  proof
    fix c assume c: "c \<in> rim B xy"
    then obtain q where "q \<in> frontier (grp B xy)" "c = B q" by (auto simp: rim_def)
    then have "c \<in> {EMPTY, BLACK, WHITE}" using ok frontier_board by (auto simp: colors_ok_def)
    with rim_stone [of B xy c] E(1) c show "c \<in> {BLACK, WHITE}" by auto
  qed
  have "col = cset S' \<longleftrightarrow> rim B xy = {col}"
    unfolding cset_single [OF col] using S' rim col player_cases [OF col] by auto
  with run show ?thesis by (auto simp: CalcRegionScore_def)
qed

text \<open>The points that count for a colour: its stones, and the empty points whose region has stones
  of that colour only around it.\<close>

definition area :: "board \<Rightarrow> GoStoneColor \<Rightarrow> GoCoordId set" where
  "area B col = {p. InBoard p \<and> (B p = col \<or> B p = EMPTY \<and> rim B p = {col})}"

lemma finite_area [simp]: "finite (area B col)"
  by (rule board_finite) (auto simp: area_def)

definition scored :: "board \<Rightarrow> GoStoneColor \<Rightarrow> GoCoordId list \<Rightarrow> GoSize \<times> (GoCoordId \<Rightarrow> bool) \<Rightarrow> bool" where
  "scored B col dn st \<longleftrightarrow> snd st = (\<lambda>p. \<exists>i\<in>set dn. B i = EMPTY \<and> p \<in> grp B i) \<and>
     fst st = int (card {p \<in> area B col. B p = col \<and> p \<in> set dn \<or> snd st p})"

lemma score_step:
  assumes ok: "colors_ok B" and col: "col \<in> {BLACK, WHITE}" and i: "InBoard i" "i \<notin> set dn"
    and st: "scored B col dn (cnt, vis)"
  shows "\<exists>st'. (if vis i then Some (cnt, vis)
         else if col = B i then Some (cnt + 1, vis)
         else if EMPTY = B i then map_option (\<lambda>(n, vis'). (cnt + n, vis')) (CalcRegionScore B i col vis)
         else Some (cnt, vis)) = Some st' \<and> scored B col (dn @ [i]) st'"
proof -
  let ?A = "\<lambda>dn vis. {p \<in> area B col. B p = col \<and> p \<in> set dn \<or> vis p}"
  from st have vis: "vis = (\<lambda>p. \<exists>i\<in>set dn. B i = EMPTY \<and> p \<in> grp B i)" and cnt: "cnt = int (card (?A dn vis))"
    by (simp_all add: scored_def)
  have visE: "B p = EMPTY" if "vis p" for p
  proof -
    from that obtain j where "B j = EMPTY" "p \<in> grp B j" by (auto simp: vis)
    then show ?thesis using group_color [of p B j] by simp
  qed
  have col0: "col \<noteq> EMPTY" using col by auto
  consider (seen) "vis i" | (own) "\<not> vis i" "B i = col" | (empty) "\<not> vis i" "B i = EMPTY"
    | (opp) "\<not> vis i" "B i \<noteq> col" "B i \<noteq> EMPTY" by blast
  then show ?thesis
  proof cases
    case seen
    then obtain j where j: "j \<in> set dn" "B j = EMPTY" "i \<in> grp B j" by (auto simp: vis)
    have "grp B i = grp B j" using group_eq [OF j(3)] .
    then have "vis = (\<lambda>p. \<exists>i\<in>set (dn @ [i]). B i = EMPTY \<and> p \<in> grp B i)" using j by (auto simp: vis fun_eq_iff)
    moreover have "?A (dn @ [i]) vis = ?A dn vis" using visE [OF seen] col0 by auto
    ultimately have "scored B col (dn @ [i]) (cnt, vis)" by (simp add: scored_def cnt)
    with seen show ?thesis by simp
  next
    case own
    then have "vis = (\<lambda>p. \<exists>i\<in>set (dn @ [i]). B i = EMPTY \<and> p \<in> grp B i)" using col0 by (auto simp: vis fun_eq_iff)
    moreover have "?A (dn @ [i]) vis = insert i (?A dn vis)" using own i by (auto simp: area_def)
    moreover have "i \<notin> ?A dn vis" using own i by simp
    ultimately have "scored B col (dn @ [i]) (cnt + 1, vis)" by (simp add: scored_def cnt)
    with own show ?thesis by auto
  next
    case empty
    let ?vis = "\<lambda>p. vis p \<or> p \<in> grp B i"
    have V: "B p = EMPTY \<and> p \<notin> grp B i" if "vis p" for p
    proof
      show "B p = EMPTY" by (rule visE [OF that])
      from that obtain j where j: "j \<in> set dn" "B j = EMPTY" "p \<in> grp B j" by (auto simp: vis)
      show "p \<notin> grp B i"
      proof
        assume "p \<in> grp B i"
        then have "i \<in> grp B j" using j(3) group_trans group_sym by blast
        with j empty(1) show False by (auto simp: vis)
      qed
    qed
    let ?n = "if rim B i = {col} then int (card (grp B i)) else 0"
    have run: "CalcRegionScore B i col vis = Some (?n, ?vis)"
      by (rule CalcRegionScore_spec [OF empty(2) i(1) ok col V])
    have "?vis = (\<lambda>p. \<exists>i\<in>set (dn @ [i]). B i = EMPTY \<and> p \<in> grp B i)" using empty by (auto simp: vis fun_eq_iff)
    moreover have "cnt + ?n = int (card (?A (dn @ [i]) ?vis))"
    proof -
      have G: "B p = EMPTY \<and> InBoard p \<and> rim B p = rim B i" if "p \<in> grp B i" for p
        using that empty(2) group_color [OF that] group_InBoard [OF that i(1)] group_eq [OF that] by (simp add: rim_def)
      have eq: "?A (dn @ [i]) ?vis = ?A dn vis \<union> (if rim B i = {col} then grp B i else {})"
      proof (rule set_eqI)
        fix p
        show "p \<in> ?A (dn @ [i]) ?vis \<longleftrightarrow> p \<in> ?A dn vis \<union> (if rim B i = {col} then grp B i else {})"
        proof (cases "p \<in> grp B i")
          case True
          then have "\<not> vis p" using V by blast
          with True G [OF True] col0 show ?thesis by (simp add: area_def)
        next
          case False
          then have "p \<noteq> i" by auto
          with False show ?thesis by simp
        qed
      qed
      have "?A dn vis \<inter> grp B i = {}" using V G col0 by fastforce
      moreover have "finite (grp B i)" using G by (intro board_finite) auto
      ultimately show ?thesis unfolding eq by (auto simp: cnt card_Un_disjoint)
    qed
    ultimately have "scored B col (dn @ [i]) (cnt + ?n, ?vis)" unfolding scored_def fst_conv snd_conv by blast
    with empty run col0 show ?thesis by auto
  next
    case opp
    then have "vis = (\<lambda>p. \<exists>i\<in>set (dn @ [i]). B i = EMPTY \<and> p \<in> grp B i)" by (auto simp: vis fun_eq_iff)
    moreover have "?A (dn @ [i]) vis = ?A dn vis" using opp by auto
    ultimately have "scored B col (dn @ [i]) (cnt, vis)" by (simp add: scored_def cnt)
    with opp show ?thesis by auto
  qed
qed

lemma CalcScoreWithColor_spec:
  assumes ok: "colors_ok B" and col: "col \<in> {BLACK, WHITE}"
  shows "CalcScoreWithColor B col = Some (int (card (area B col)))"
proof -
  let ?f = "\<lambda>i (cnt, vis). if vis i then Some (cnt, vis)
         else if col = B i then Some (cnt + 1, vis)
         else if EMPTY = B i then map_option (\<lambda>(n, vis'). (cnt + n, vis')) (CalcRegionScore B i col vis)
         else Some (cnt, vis)"
  have "\<exists>st. foldo ?f coords (SIZE_NONE, \<lambda>_. False) = Some st \<and> scored B col coords st"
  proof (rule foldo_rule)
    show "scored B col [] (SIZE_NONE, \<lambda>_. False)" by (simp add: scored_def)
  next
    fix dn i rest st
    assume l: "coords = dn @ i # rest" and st: "scored B col dn st"
    have "i \<in> set (dn @ i # rest)" "distinct (dn @ i # rest)" by (simp, simp only: l [symmetric] distinct_coords)
    then have "i \<in> set coords" and "i \<notin> set dn" by (simp_all only: l) simp
    then have "InBoard i" "i \<notin> set dn" by (simp_all add: InBoard_def)
    from score_step [OF ok col this, of "fst st" "snd st"] st
    show "\<exists>st'. ?f i st = Some st' \<and> scored B col (dn @ [i]) st'" by (simp add: case_prod_beta)
  qed
  then obtain cnt vis where run: "foldo ?f coords (SIZE_NONE, \<lambda>_. False) = Some (cnt, vis)"
    and s: "scored B col coords (cnt, vis)" by auto
  have "{p \<in> area B col. B p = col \<and> p \<in> set coords \<or> vis p} = area B col"
    using s by (auto simp: scored_def area_def InBoard_def)
  with s have "cnt = int (card (area B col))" by (simp add: scored_def)
  with run show ?thesis by (simp add: CalcScoreWithColor_def)
qed

lemma area_scores:
  assumes "colors_ok (board_state s)"
  shows "\<exists>b w. CalcScore s = Some (b - w, b, w, 361 - b - w) \<and>
    b = int (card (area (board_state s) BLACK)) \<and> w = int (card (area (board_state s) WHITE)) \<and>
    0 \<le> b \<and> 0 \<le> w \<and> b + w \<le> 361 \<and>
    GetWinner s = Some (if 8 \<le> b - w then BLACK else WHITE, b - w)"
proof -
  let ?B = "board_state s"
  have cs: "CalcScore s = Some (int (card (area ?B BLACK)) - int (card (area ?B WHITE)), int (card (area ?B BLACK)),
      int (card (area ?B WHITE)), 361 - int (card (area ?B BLACK)) - int (card (area ?B WHITE)))"
    using CalcScoreWithColor_spec [OF assms, of BLACK] CalcScoreWithColor_spec [OF assms, of WHITE]
    by (simp add: CalcScore_def)
  have "area ?B BLACK \<inter> area ?B WHITE = {}" by (auto simp: area_def)
  then have "card (area ?B BLACK) + card (area ?B WHITE) = card (area ?B BLACK \<union> area ?B WHITE)"
    by (simp add: card_Un_disjoint)
  also have "\<dots> \<le> card {0..<361::int}" by (rule card_mono) (auto simp: area_def InBoard_def)
  finally have "card (area ?B BLACK) + card (area ?B WHITE) \<le> 361" by simp
  moreover have "real_of_int n > 7.5 \<longleftrightarrow> 8 \<le> n" for n by linarith
  ultimately show ?thesis using cs by (simp add: GetWinner_def)
qed

text \<open>Claim C8. Scoring returns on every board, and counts by area: each side gets its stones and the
  empty points of the regions bounded by its stones alone, the rest is neutral, and Black
  wins exactly when ahead by at least eight points (komi 7.5).\<close>

theorem scoring_is_area:
  assumes "colors_ok (board_state s)"
  shows "\<exists>b w. CalcScore s = Some (b - w, b, w, 361 - b - w) \<and>
    b = int (card (area (board_state s) BLACK)) \<and> w = int (card (area (board_state s) WHITE)) \<and>
    0 \<le> b \<and> 0 \<le> w \<and> b + w \<le> 361 \<and>
    GetWinner s = Some (if 8 \<le> b - w then BLACK else WHITE, b - w)"
  using assms by (rule area_scores)

theorem scoring_is_area_witness:
  "CalcScore raw_memory = Some (0, 0, 0, 361) \<and> GetWinner raw_memory = Some (WHITE, 0)"
proof -
  have "rim (\<lambda>_. 0) p \<noteq> {c}" if "c \<noteq> 0" for p c using that by (auto simp: rim_def)
  then have a: "area (\<lambda>_. 0) c = {}" if "c \<noteq> 0" for c using that by (auto simp: area_def)
  show ?thesis
    using scoring_is_area [of raw_memory] by (simp add: raw_memory_def colors_ok_def a)
qed

end
