(* ===== verification/Go_Links.thy ===== *)
theory Go_Links
  imports Go_State Go_Rules
begin

text \<open>
  The two linked structures inside the stone array. A block's stones form a list: along
  \<open>next_id\<close> from head to tail (the tail is its own successor), and with \<open>parent_id\<close> pointing to a
  later element, the tail being its own parent, hence the root of the union-find tree. The
  lemmas give the meaning of \<open>FindCoord\<close> (the root is the tail, and only parents change,
  to the tail) and of \<open>FOR_BLOCKSTONE\<close> (a loop over the list).
\<close>

fun next_ok :: "stone_array \<Rightarrow> GoCoordId list \<Rightarrow> bool" where
  "next_ok ss [] = True"
| "next_ok ss [p] \<longleftrightarrow> next_id (ss p) = p"
| "next_ok ss (p # q # xs) \<longleftrightarrow> next_id (ss p) = q \<and> next_ok ss (q # xs)"

fun parent_ok :: "stone_array \<Rightarrow> GoCoordId list \<Rightarrow> bool" where
  "parent_ok ss [] = True"
| "parent_ok ss (p # xs) \<longleftrightarrow>
     (if xs = [] then parent_id (ss p) = p else parent_id (ss p) \<in> set xs) \<and> parent_ok ss xs"

definition self_ok :: "stone_array \<Rightarrow> bool" where
  "self_ok ss \<longleftrightarrow> (\<forall>p. InBoard p \<longrightarrow> stone_self_id (ss p) = p)"

definition chain :: "stone_array \<Rightarrow> GoBlockId \<Rightarrow> GoCoordId list \<Rightarrow> bool" where
  "chain ss b xs \<longleftrightarrow> xs \<noteq> [] \<and> distinct xs \<and> (\<forall>p\<in>set xs. InBoard p) \<and>
     next_ok ss xs \<and> parent_ok ss xs \<and> block_id (ss (last xs)) = b"

lemma chain_length: "chain ss b xs \<Longrightarrow> length xs \<le> 361"
proof -
  assume "chain ss b xs"
  then have "set xs \<subseteq> {0..<361}" "distinct xs" by (auto simp: chain_def InBoard_def)
  then show ?thesis using card_mono [of "{0..<361::int}" "set xs"] by (simp add: distinct_card)
qed

subsection \<open>Updates outside a list\<close>

lemma next_ok_cong: "(\<And>p. p \<in> set xs \<Longrightarrow> next_id (ss p) = next_id (ss' p)) \<Longrightarrow> next_ok ss xs = next_ok ss' xs"
  by (induction ss xs rule: next_ok.induct) auto

lemma parent_ok_cong:
  "(\<And>p. p \<in> set xs \<Longrightarrow> parent_id (ss p) = parent_id (ss' p)) \<Longrightarrow> parent_ok ss xs = parent_ok ss' xs"
  by (induction ss xs rule: parent_ok.induct) auto

lemma chain_cong: "(\<And>p. p \<in> set xs \<Longrightarrow> ss p = ss' p) \<Longrightarrow> chain ss b xs = chain ss' b xs"
  unfolding chain_def using next_ok_cong [of xs ss ss'] parent_ok_cong [of xs ss ss'] by auto

subsection \<open>Path compression\<close>

text \<open>\<open>ss'\<close> differs from \<open>ss\<close> only in parents redirected to the tail of their own list.\<close>

definition compressed :: "GoCoordId list set \<Rightarrow> stone_array \<Rightarrow> stone_array \<Rightarrow> bool" where
  "compressed F ss ss' \<longleftrightarrow>
     (\<forall>q. ss' q = ss q \<or> (\<exists>xs\<in>F. q \<in> set (butlast xs) \<and> ss' q = (ss q)\<lparr>parent_id := last xs\<rparr>))"

lemma compressed_refl [simp]: "compressed F ss ss"
  by (simp add: compressed_def)

lemma compressed_trans:
  assumes "compressed F ss ss'" and "compressed F ss' ss''"
  shows "compressed F ss ss''"
  unfolding compressed_def
proof
  fix q
  show "ss'' q = ss q \<or> (\<exists>xs\<in>F. q \<in> set (butlast xs) \<and> ss'' q = (ss q)\<lparr>parent_id := last xs\<rparr>)"
    using assms [unfolded compressed_def, THEN spec, of q] by (elim disjE bexE conjE) auto
qed

lemma compressed_mono: "compressed F ss ss' \<Longrightarrow> F \<subseteq> G \<Longrightarrow> compressed G ss ss'"
  by (fastforce simp: compressed_def)

lemma compressed_fields:
  assumes "compressed F ss ss'"
  shows "next_id (ss' p) = next_id (ss p)" "block_id (ss' p) = block_id (ss p)"
    "stone_self_id (ss' p) = stone_self_id (ss p)"
  using assms [unfolded compressed_def, THEN spec, of p] by auto

lemma compressed_self_ok: "compressed F ss ss' \<Longrightarrow> self_ok ss \<Longrightarrow> self_ok ss'"
  by (simp add: self_ok_def compressed_fields)

lemma parent_ok_compress:
  assumes "parent_ok ss xs" and "distinct xs"
    and "\<forall>q\<in>set xs. parent_id (ss' q) = parent_id (ss q) \<or>
           (q \<in> set (butlast xs) \<and> parent_id (ss' q) = last xs)"
  shows "parent_ok ss' xs"
  using assms
proof (induction xs)
  case Nil
  then show ?case by simp
next
  case (Cons p xs)
  show ?case
  proof (cases "xs = []")
    case True
    with Cons.prems show ?thesis by simp
  next
    case False
    have "\<forall>q\<in>set xs. parent_id (ss' q) = parent_id (ss q) \<or>
        q \<in> set (butlast xs) \<and> parent_id (ss' q) = last xs"
      using Cons.prems(2,3) False by auto
    then have "parent_ok ss' xs" using Cons.IH Cons.prems(1,2) False by simp
    then show ?thesis using Cons.prems(1,3) False by auto
  qed
qed

text \<open>Lists of a family that share no point.\<close>

definition separate :: "GoCoordId list set \<Rightarrow> bool" where
  "separate F \<longleftrightarrow> (\<forall>xs\<in>F. \<forall>ys\<in>F. xs = ys \<or> set xs \<inter> set ys = {})"

lemma chain_compressed:
  assumes "compressed F ss ss'" and "separate F" and "xs \<in> F" and "chain ss b xs"
  shows "chain ss' b xs"
proof -
  have "\<forall>q\<in>set xs. parent_id (ss' q) = parent_id (ss q) \<or>
           (q \<in> set (butlast xs) \<and> parent_id (ss' q) = last xs)"
  proof
    fix q assume q: "q \<in> set xs"
    show "parent_id (ss' q) = parent_id (ss q) \<or> (q \<in> set (butlast xs) \<and> parent_id (ss' q) = last xs)"
    proof (cases "ss' q = ss q")
      case False
      with assms(1) obtain ys where ys: "ys \<in> F" "q \<in> set (butlast ys)"
        "ss' q = (ss q)\<lparr>parent_id := last ys\<rparr>"
        unfolding compressed_def by blast
      with q assms(2,3) have "ys = xs" unfolding separate_def by (blast dest: in_set_butlastD)
      with ys show ?thesis by simp
    qed simp
  qed
  with assms(1,4) parent_ok_compress [of ss xs ss'] show ?thesis
    unfolding chain_def by (auto simp: compressed_fields [OF assms(1)] cong: next_ok_cong)
qed

subsection \<open>FindCoord\<close>

lemma parent_ok_suffix: "parent_ok ss (ys @ xs) \<Longrightarrow> parent_ok ss xs"
  by (induction ys) (auto split: if_splits)

lemma FindCoord_list:
  assumes "parent_ok ss xs" and "self_ok ss" and "\<forall>p\<in>set xs. InBoard p" and "distinct xs"
    and "p \<in> set xs" and "length xs \<le> n"
  shows "\<exists>ss'. FindCoord n p ss = Some (last xs, ss') \<and> compressed {xs} ss ss'"
  using assms
proof (induction xs arbitrary: n p)
  case Nil
  then show ?case by simp
next
  case (Cons x xs)
  then obtain m where n: "n = Suc m" by (cases n) auto
  show ?case
  proof (cases "xs = []")
    case True
    with Cons.prems n show ?thesis by (auto simp: self_ok_def)
  next
    case False
    have rec: "\<exists>ss'. FindCoord k q ss = Some (last xs, ss') \<and> compressed {xs} ss ss'"
      if "q \<in> set xs" "length xs \<le> k" for k q
      by (rule Cons.IH) (use Cons.prems False that in auto)
    have widen: "compressed {xs} ss ss' \<Longrightarrow> compressed {x # xs} ss ss'" for ss'
      using False by (auto simp: compressed_def)
    show ?thesis
    proof (cases "p = x")
      case False
      with Cons.prems rec [of p n] widen \<open>xs \<noteq> []\<close> show ?thesis by auto
    next
      case True
      from Cons.prems False have par: "parent_id (ss x) \<in> set xs" by simp
      have ne: "parent_id (ss x) \<noteq> stone_self_id (ss x)"
        using par Cons.prems by (auto simp: self_ok_def)
      obtain ss' where ss': "FindCoord m (parent_id (ss x)) ss = Some (last xs, ss')"
        "compressed {xs} ss ss'"
        using rec [OF par, of m] Cons.prems(6) n by auto
      have "ss' x = ss x"
        using ss'(2) Cons.prems(4) by (auto simp: compressed_def dest: in_set_butlastD)
      then have "compressed {x # xs} ss (ss'(x := (ss' x)\<lparr>parent_id := last xs\<rparr>))"
        using widen [OF ss'(2)] False by (auto simp: compressed_def)
      then show ?thesis using ss'(1) ne n True False by simp
    qed
  qed
qed

lemma FindCoord_chain:
  assumes "chain ss b xs" and "self_ok ss" and "p \<in> set xs"
  shows "\<exists>ss'. FindCoord board_fuel p ss = Some (last xs, ss') \<and> compressed {xs} ss ss' \<and>
           block_id (ss' (last xs)) = b"
proof -
  have "length xs \<le> board_fuel" using chain_length [OF assms(1)] by (simp add: board_fuel_def)
  with assms FindCoord_list [of ss xs p board_fuel] obtain ss'
    where "FindCoord board_fuel p ss = Some (last xs, ss')" "compressed {xs} ss ss'"
    by (auto simp: chain_def)
  with assms(1) show ?thesis by (auto simp: chain_def compressed_fields)
qed

subsection \<open>FOR_BLOCKSTONE\<close>

text \<open>When the body keeps the successor links of the remaining stones, the loop visits the
  list in order and ends at the tail.\<close>

lemma for_blockstone_rule:
  assumes "length xs \<le> n" and "xs \<noteq> []" and "distinct xs"
    and "P [] s"
    and step: "\<And>done p rest s. xs = done @ p # rest \<Longrightarrow> P done s \<Longrightarrow>
           \<exists>s'. f p s = Some s' \<and> P (done @ [p]) s' \<and> nxt s' p = (if rest = [] then p else hd rest)"
  shows "\<exists>s'. for_blockstone n nxt f (hd xs) s = Some s' \<and> P xs s'"
proof -
  have "\<exists>s'. for_blockstone n nxt f (hd ys) s0 = Some s' \<and> P xs s'"
    if "xs = dn @ ys" "ys \<noteq> []" "length ys \<le> n" "P dn s0" for dn ys s0 n
    using that
  proof (induction ys arbitrary: dn s0 n)
    case Nil
    then show ?case by simp
  next
    case (Cons p ys)
    then obtain m where n: "n = Suc m" by (cases n) auto
    from step [OF Cons.prems(1) Cons.prems(4)] obtain s1 where
      s1: "f p s0 = Some s1" "P (dn @ [p]) s1" "nxt s1 p = (if ys = [] then p else hd ys)" by blast
    show ?case
    proof (cases "ys = []")
      case True
      with s1 n Cons.prems(1) show ?thesis by simp
    next
      case False
      then have "p \<noteq> hd ys" using assms(3) Cons.prems(1) by auto
      moreover have "\<exists>s'. for_blockstone m nxt f (hd ys) s1 = Some s' \<and> P xs s'"
        by (rule Cons.IH [of "dn @ [p]"]) (use Cons.prems n s1 False in auto)
      ultimately show ?thesis using s1 n False by simp
    qed
  qed
  from this [of "[]" xs n s] assms show ?thesis by simp
qed

lemma next_ok_at:
  "next_ok ss (done @ p # rest) \<Longrightarrow> next_id (ss p) = (if rest = [] then p else hd rest)"
proof (induction "done")
  case Nil
  then show ?case by (cases rest) auto
next
  case (Cons a d)
  then show ?case by (cases d) auto
qed

subsection \<open>Joining two lists\<close>

lemma next_ok_join:
  assumes "xs \<noteq> []" and "ys \<noteq> []" and "next_ok ss xs" and "next_ok ss ys"
    and "\<forall>q. q \<in> set (butlast xs) \<union> set ys \<longrightarrow> next_id (ss' q) = next_id (ss q)"
    and "next_id (ss' (last xs)) = hd ys"
  shows "next_ok ss' (xs @ ys)"
  using assms
proof (induction ss xs rule: next_ok.induct)
  case (2 ss p)
  then have "next_ok ss' ys" by (auto cong: next_ok_cong)
  with 2 show ?case by (cases ys) auto
qed auto

lemma parent_ok_join:
  assumes "xs \<noteq> []" and "parent_ok ss xs" and "parent_ok ss ys"
    and "\<forall>q. q \<in> set (butlast xs) \<union> set ys \<longrightarrow> parent_id (ss' q) = parent_id (ss q)"
    and "parent_id (ss' (last xs)) \<in> set ys"
  shows "parent_ok ss' (xs @ ys)"
  using assms
proof (induction xs)
  case (Cons p xs)
  show ?case
  proof (cases "xs = []")
    case True
    with Cons.prems have "parent_ok ss' ys" by (auto cong: parent_ok_cong)
    with True Cons.prems show ?thesis by auto
  next
    case False
    with Cons show ?thesis by auto
  qed
qed simp

text \<open>\<open>MergeBlocks\<close> concatenates the lists of the two blocks.\<close>

lemma MergeBlocks_chain:
  assumes "chain ss b xs" and "chain ss b' ys" and "set xs \<inter> set ys = {}" and "self_ok ss"
    and "b_head blk = hd ys" "b_tail blk = last ys" "b_head a = hd xs" "b_tail a = last xs"
  shows "chain (snd (MergeBlocks blk a ss)) b' (xs @ ys)"
    and "fst (MergeBlocks blk a ss) = blk\<lparr>b_head := hd xs\<rparr>"
    and "\<And>q. q \<noteq> last xs \<Longrightarrow> snd (MergeBlocks blk a ss) q = ss q"
    and "self_ok (snd (MergeBlocks blk a ss))"
proof -
  let ?ss = "snd (MergeBlocks blk a ss)"
  have ne: "xs \<noteq> []" "ys \<noteq> []" using assms(1,2) by (auto simp: chain_def)
  have last_in: "last ys \<in> set ys" "hd ys \<in> set ys" "last xs \<in> set xs" using ne by simp_all
  have self: "stone_self_id (ss (hd ys)) = hd ys" "stone_self_id (ss (last ys)) = last ys"
    using assms(2,4) last_in by (auto simp: chain_def self_ok_def)
  have diff: "last ys \<noteq> last xs" using last_in assms(3) by auto
  have eq: "?ss = ss(last xs := (ss (last xs))\<lparr>next_id := hd ys, parent_id := last ys\<rparr>)"
    using assms(5-8) self diff by (simp add: MergeBlocks_def Let_def)
  have "distinct (butlast xs @ [last xs])" using assms(1) ne by (simp add: chain_def)
  then have nl: "last xs \<notin> set (butlast xs)" "last xs \<notin> set ys"
    using last_in(3) assms(3) by auto
  have same: "\<forall>q. q \<in> set (butlast xs) \<union> set ys \<longrightarrow> ?ss q = ss q"
    using nl by (auto simp: eq)
  show "fst (MergeBlocks blk a ss) = blk\<lparr>b_head := hd xs\<rparr>"
    using assms(7) by (simp add: MergeBlocks_def Let_def)
  show "\<And>q. q \<noteq> last xs \<Longrightarrow> ?ss q = ss q" by (simp add: eq)
  show "self_ok ?ss" using assms(4) by (auto simp: eq self_ok_def)
  have "next_ok ?ss (xs @ ys)"
    using assms(1,2) ne same by (intro next_ok_join [of xs ys ss]) (auto simp: chain_def eq)
  moreover have "parent_ok ?ss (xs @ ys)"
    using assms(1,2) ne same last_in by (intro parent_ok_join [of xs ss ys]) (auto simp: chain_def eq)
  ultimately show "chain ?ss b' (xs @ ys)"
    using assms(1-3) ne last_in same by (auto simp: chain_def)
qed

end
