(* ===== verification/Go_Inv.thy ===== *)
theory Go_Inv
  imports Go_Links
begin

text \<open>
  The representation invariant of the block pool. \<open>core bp ss E V L\<close> says that the blocks \<open>V\<close> of the
  pool \<open>bp\<close> with the stone array \<open>ss\<close> represent the board \<open>E\<close>: \<open>L b\<close> is the list of stones of block
  \<open>b\<close>, the lists partition the stones of \<open>E\<close> into its groups, and the bitmaps of a block are its
  stones, the points around it, and its liberties; \<open>shape\<close> says the same except for the
  liberties, which lag behind while stones are being captured. \<open>near\<close> relates two states between which
  only parents were compressed, cached liberty counts refreshed and one block that is not
  in use was rewritten; \<open>core\<close> survives that.
\<close>

definition maps_ok :: "GoBlock \<Rightarrow> GoCoordId list \<Rightarrow> bool" where
  "maps_ok blk xs \<longleftrightarrow> b_head blk = hd xs \<and> b_tail blk = last xs \<and>
     stone_count blk = int (length xs) \<and> bits (stone_state blk) = set xs \<and>
     bits (virtual_liberty_state blk) = frontier (set xs)"

definition shape ::
    "(GoBlockId \<Rightarrow> GoBlock) \<Rightarrow> stone_array \<Rightarrow> board \<Rightarrow> GoBlockId set \<Rightarrow>
     (GoBlockId \<Rightarrow> GoCoordId list) \<Rightarrow> bool" where
  "shape bp ss E V L \<longleftrightarrow> self_ok ss \<and> colors_ok E \<and>
     (\<forall>b\<in>V. chain ss b (L b) \<and> maps_ok (bp b) (L b) \<and> color (bp b) \<noteq> EMPTY \<and>
        (\<forall>p\<in>set (L b). E p = color (bp b) \<and> grp E p = set (L b))) \<and>
     (\<forall>p. InBoard p \<longrightarrow> E p \<noteq> EMPTY \<longrightarrow> (\<exists>b\<in>V. p \<in> set (L b)))"

definition core ::
    "(GoBlockId \<Rightarrow> GoBlock) \<Rightarrow> stone_array \<Rightarrow> board \<Rightarrow> GoBlockId set \<Rightarrow>
     (GoBlockId \<Rightarrow> GoCoordId list) \<Rightarrow> bool" where
  "core bp ss E V L \<longleftrightarrow> shape bp ss E V L \<and>
     (\<forall>b\<in>V. bits (liberty_state (bp b)) = libs E (set (L b)))"

lemma core_shape: "core bp ss E V L \<Longrightarrow> shape bp ss E V L"
  by (simp add: core_def)

lemma shapeD:
  assumes "shape bp ss E V L" and "b \<in> V"
  shows "chain ss b (L b)" "maps_ok (bp b) (L b)" "color (bp b) \<noteq> EMPTY"
    "\<And>p. p \<in> set (L b) \<Longrightarrow> E p = color (bp b)" "\<And>p. p \<in> set (L b) \<Longrightarrow> grp E p = set (L b)"
    "L b \<noteq> []" "distinct (L b)" "\<And>p. p \<in> set (L b) \<Longrightarrow> InBoard p"
  using assms by (auto simp: shape_def chain_def)

lemma coreD:
  assumes "core bp ss E V L" and "b \<in> V"
  shows "chain ss b (L b)" "maps_ok (bp b) (L b)" "color (bp b) \<noteq> EMPTY"
    "\<And>p. p \<in> set (L b) \<Longrightarrow> E p = color (bp b)" "\<And>p. p \<in> set (L b) \<Longrightarrow> grp E p = set (L b)"
    "bits (liberty_state (bp b)) = libs E (set (L b))"
    "L b \<noteq> []" "distinct (L b)" "\<And>p. p \<in> set (L b) \<Longrightarrow> InBoard p"
  using assms shapeD [OF core_shape [OF assms(1)] assms(2)] by (auto simp: core_def)

lemma shape_self_ok: "shape bp ss E V L \<Longrightarrow> self_ok ss"
  and shape_colors: "shape bp ss E V L \<Longrightarrow> colors_ok E"
  and shape_cover: "shape bp ss E V L \<Longrightarrow> InBoard p \<Longrightarrow> E p \<noteq> EMPTY \<Longrightarrow> \<exists>b\<in>V. p \<in> set (L b)"
  by (simp_all add: shape_def)

lemmas core_cover = shape_cover [OF core_shape]

text \<open>Two blocks with a common stone have the same tail, hence the same identifier.\<close>

lemma shape_disjoint:
  assumes c: "shape bp ss E V L" and b: "b \<in> V" "b' \<in> V" and p: "p \<in> set (L b)" "p \<in> set (L b')"
  shows "b = b'"
proof -
  from chain_length [OF shapeD(1) [OF c b(1)]] chain_length [OF shapeD(1) [OF c b(2)]]
  obtain ss1 ss2 where "FindCoord board_fuel p ss = Some (last (L b), ss1)" "block_id (ss1 (last (L b))) = b"
    "FindCoord board_fuel p ss = Some (last (L b'), ss2)" "block_id (ss2 (last (L b'))) = b'"
    using FindCoord_chain [OF shapeD(1) [OF c b(1)] shape_self_ok [OF c] p(1)]
      FindCoord_chain [OF shapeD(1) [OF c b(2)] shape_self_ok [OF c] p(2)] by blast
  then show ?thesis by simp
qed

lemma shape_separate: "shape bp ss E V L \<Longrightarrow> separate (L ` V)"
  using shape_disjoint by (fastforce simp: separate_def)

lemmas core_disjoint = shape_disjoint [OF core_shape]
  and core_separate = shape_separate [OF core_shape]
  and core_grp = coreD(5)

lemma shape_tail_color:
  "shape bp ss E V L \<Longrightarrow> b \<in> V \<Longrightarrow> color (bp b) = E (last (L b)) \<and> color (bp b) \<in> {BLACK, WHITE}"
proof -
  assume c: "shape bp ss E V L" and b: "b \<in> V"
  have l: "last (L b) \<in> set (L b)" using shapeD(6) [OF c b] by simp
  have "E (last (L b)) = color (bp b)" by (rule shapeD(4) [OF c b l])
  with shapeD(3) [OF c b] shapeD(8) [OF c b l] shape_colors [OF c] show ?thesis
    by (auto simp: colors_ok_def)
qed

lemmas core_tail_color = shape_tail_color [OF core_shape]

subsection \<open>Harmless changes\<close>

definition recounted :: "GoBlock \<Rightarrow> GoBlock \<Rightarrow> bool" where
  "recounted b b' \<longleftrightarrow> (\<exists>n. b' = b\<lparr>liberty := n\<rparr>)"

lemma recounted_refl [simp]: "recounted b b"
  unfolding recounted_def by (rule exI [of _ "liberty b"]) simp

lemma recounted_fields:
  assumes "recounted b b'"
  shows "block_self_id b' = block_self_id b" "color b' = color b" "b_head b' = b_head b"
    "b_tail b' = b_tail b" "stone_count b' = stone_count b" "in_use b' = in_use b"
    "liberty_state b' = liberty_state b" "virtual_liberty_state b' = virtual_liberty_state b"
    "stone_state b' = stone_state b"
  using assms by (auto simp: recounted_def)

lemma recounted_trans: "recounted b b' \<Longrightarrow> recounted b' b'' \<Longrightarrow> recounted b b''"
  unfolding recounted_def by auto

lemma recounted_CountLiberty [simp]: "recounted b (fst (CountLiberty b))"
  by (auto simp: recounted_def CountLiberty_def Let_def)

lemma shape_cong:
  assumes "shape bp ss E V L" and "compressed (L ` V) ss ss'"
    and "\<And>b. b \<in> V \<Longrightarrow> maps_ok (bp' b) (L b) \<and> color (bp' b) = color (bp b)"
  shows "shape bp' ss' E V L"
proof -
  have "chain ss' b (L b)" if "b \<in> V" for b
    using chain_compressed [OF assms(2) shape_separate [OF assms(1)] imageI [OF that]] shapeD(1) [OF assms(1) that]
    by blast
  then show ?thesis
    using assms(1,3) compressed_self_ok [OF assms(2)] unfolding shape_def by simp
qed

lemma core_cong:
  assumes "core bp ss E V L" and "compressed (L ` V) ss ss'" and "\<And>b. b \<in> V \<Longrightarrow> recounted (bp b) (bp' b)"
  shows "core bp' ss' E V L"
proof -
  have "maps_ok (bp' b) (L b) \<and> color (bp' b) = color (bp b)"
    "liberty_state (bp' b) = liberty_state (bp b)" if "b \<in> V" for b
    using coreD(2) [OF assms(1) that] by (simp_all add: maps_ok_def recounted_fields [OF assms(3) [OF that]])
  with shape_cong [OF core_shape [OF assms(1)] assms(2), of bp'] show ?thesis
    using assms(1) unfolding core_def by simp
qed

definition near :: "(GoBlockId \<Rightarrow> GoCoordId list) \<Rightarrow> GoBlockId set \<Rightarrow> GoBlockId \<Rightarrow> GoState \<Rightarrow> GoState \<Rightarrow> bool" where
  "near L V blk s s' \<longleftrightarrow>
     (\<exists>ss bp. s' = s\<lparr>stones := ss, block_pool := bp\<rparr> \<and> compressed (L ` V) (stones s) ss \<and>
        (\<forall>b. b \<noteq> blk \<longrightarrow> recounted (block_pool s b) (bp b)))"

lemma nearI:
  "s' = s\<lparr>stones := ss, block_pool := bp\<rparr> \<Longrightarrow> compressed (L ` V) (stones s) ss \<Longrightarrow>
   (\<And>b. b \<noteq> blk \<Longrightarrow> recounted (block_pool s b) (bp b)) \<Longrightarrow> near L V blk s s'"
  by (auto simp: near_def)

lemma near_refl [simp]: "near L V blk s s"
  by (rule nearI [where ss = "stones s" and bp = "block_pool s"]) simp_all

lemma near_trans:
  assumes "near L V blk s s'" and "near L V blk s' s''"
  shows "near L V blk s s''"
proof -
  from assms obtain ss bp ss' bp' where
    1: "s' = s\<lparr>stones := ss, block_pool := bp\<rparr>" "compressed (L ` V) (stones s) ss"
      "\<forall>b. b \<noteq> blk \<longrightarrow> recounted (block_pool s b) (bp b)" and
    2: "s'' = s'\<lparr>stones := ss', block_pool := bp'\<rparr>" "compressed (L ` V) (stones s') ss'"
      "\<forall>b. b \<noteq> blk \<longrightarrow> recounted (block_pool s' b) (bp' b)"
    unfolding near_def by blast
  show ?thesis
  proof (rule nearI [where ss = ss' and bp = bp'])
    show "s'' = s\<lparr>stones := ss', block_pool := bp'\<rparr>" using 1(1) 2(1) by simp
    show "compressed (L ` V) (stones s) ss'"
      using 1(2) 2(2) unfolding 1(1) by (auto intro: compressed_trans)
    fix b assume "b \<noteq> blk"
    with 1(3) 2(3) show "recounted (block_pool s b) (bp' b)"
      unfolding 1(1) by (auto intro: recounted_trans)
  qed
qed

lemma near_fields:
  assumes "near L V blk s s'"
  shows "recycled_blocks s' = recycled_blocks s" "block_in_use s' = block_in_use s"
    "board_state s' = board_state s" "current_player s' = current_player s"
    "last_position s' = last_position s" "ko_position s' = ko_position s"
    "is_double_pass s' = is_double_pass s" "positional_superko s' = positional_superko s"
    "board_hash_states s' = board_hash_states s" "zobrist_hash_value s' = zobrist_hash_value s"
    "timestamp s' = timestamp s" "visited_positions s' = visited_positions s"
    "legal_move_map s' = legal_move_map s" "liberty_count s' = liberty_count s"
    "move_count s' = move_count s" "feature_history_list s' = feature_history_list s"
    "Self s' = Self s" "Opponent c s' = Opponent c s"
    "compressed (L ` V) (stones s) (stones s')"
    "b \<noteq> blk \<Longrightarrow> recounted (block_pool s b) (block_pool s' b)"
  using assms by (auto simp: near_def Self_def Opponent_def)

lemma near_core:
  "core (block_pool s) (stones s) E V L \<Longrightarrow> near L V blk s s' \<Longrightarrow> blk \<notin> V \<Longrightarrow>
   core (block_pool s') (stones s') E V L"
  by (rule core_cong) (auto dest: near_fields)

lemma near_pool_upd:
  "i \<noteq> blk \<Longrightarrow> recounted (block_pool s i) b' \<Longrightarrow> near L V blk s (pool_upd i b' s)"
  by (rule nearI [where ss = "stones s" and bp = "(block_pool s)(i := b')"]) simp_all

lemma near_upd_block: "near L V blk s (upd_block blk f s)"
  by (rule nearI [where ss = "stones s" and bp = "(block_pool s)(blk := f (block_pool s blk))"])
    (simp_all add: upd_block_def)

lemma near_stones: "compressed (L ` V) (stones s) ss \<Longrightarrow> near L V blk s (s\<lparr>stones := ss\<rparr>)"
  by (rule nearI [where ss = ss and bp = "block_pool s"]) simp_all

lemma upd_block_same [simp]: "block_pool (upd_block b f s) b = f (block_pool s b)"
  and upd_block_other: "b' \<noteq> b \<Longrightarrow> block_pool (upd_block b f s) b' = block_pool s b'"
  by (simp_all add: upd_block_def)

lemma upd_block_fields [simp]:
  "recycled_blocks (upd_block b f s) = recycled_blocks s" "block_in_use (upd_block b f s) = block_in_use s"
  "stones (upd_block b f s) = stones s" "board_state (upd_block b f s) = board_state s"
  "current_player (upd_block b f s) = current_player s" "last_position (upd_block b f s) = last_position s"
  "ko_position (upd_block b f s) = ko_position s" "is_double_pass (upd_block b f s) = is_double_pass s"
  "positional_superko (upd_block b f s) = positional_superko s"
  "board_hash_states (upd_block b f s) = board_hash_states s"
  "zobrist_hash_value (upd_block b f s) = zobrist_hash_value s" "timestamp (upd_block b f s) = timestamp s"
  "visited_positions (upd_block b f s) = visited_positions s"
  "legal_move_map (upd_block b f s) = legal_move_map s" "liberty_count (upd_block b f s) = liberty_count s"
  "move_count (upd_block b f s) = move_count s"
  "feature_history_list (upd_block b f s) = feature_history_list s"
  "Self (upd_block b f s) = Self s" "Opponent c (upd_block b f s) = Opponent c s"
  by (simp_all add: upd_block_def Self_def Opponent_def)

subsection \<open>Finding the block of a stone\<close>

lemma GetBlockIdByCoord_shape:
  assumes c: "shape (block_pool s) (stones s) E V L" and b: "b \<in> V" and p: "p \<in> set (L b)"
    and ne: "board_state s p \<noteq> EMPTY"
  shows "\<exists>ss. GetBlockIdByCoord p s = Some (b, s\<lparr>stones := ss\<rparr>) \<and> compressed (L ` V) (stones s) ss"
proof -
  from FindCoord_chain [OF shapeD(1) [OF c b] shape_self_ok [OF c] p] obtain ss'
    where "FindCoord board_fuel p (stones s) = Some (last (L b), ss')"
      "compressed {L b} (stones s) ss'" "block_id (ss' (last (L b))) = b" by blast
  with ne b show ?thesis
    by (auto simp: GetBlockIdByCoord_def intro: compressed_mono)
qed

lemmas GetBlockIdByCoord_core = GetBlockIdByCoord_shape [OF core_shape]

end
