(* ===== verification/Go_Try.thy ===== *)
theory Go_Try
  imports Go_Inv
begin

text \<open>
  What \<open>TryMove\<close> computes on a pool that represents the board: the sorted list of the blocks
  around the point, those of them that die, and in the block it is given the group the new
  stone would form, with the liberties this group has once the dead stones are off the
  board.
\<close>

definition touching :: "(GoBlockId \<Rightarrow> GoCoordId list) \<Rightarrow> GoBlockId set \<Rightarrow> GoCoordId \<Rightarrow> GoBlockId set" where
  "touching L V to = {b \<in> V. \<exists>n\<in>set (L b). adj to n}"

definition dying :: "board \<Rightarrow> (GoBlockId \<Rightarrow> GoCoordId list) \<Rightarrow> GoStoneColor \<Rightarrow> GoCoordId \<Rightarrow> GoBlockId \<Rightarrow> bool" where
  "dying B L c to b \<longleftrightarrow> B (last (L b)) \<noteq> c \<and> libs B (set (L b)) = {to}"

lemma distinct_remdups_adj: "sorted (xs :: int list) \<Longrightarrow> distinct (remdups_adj xs)"
  by (induction xs rule: remdups_adj.induct) (auto simp: less_le_not_le)

lemma sorted_unique: "remdups_adj (sort (xs :: int list)) = sorted_list_of_set (set xs)"
  by (rule sorted_distinct_set_unique) (simp_all add: distinct_remdups_adj)

lemma finite_touching [simp]:
  assumes "core bp ss E V L" shows "finite (touching L V to)"
proof (rule finite_subset)
  show "touching L V to \<subseteq> (\<lambda>p. THE b. b \<in> V \<and> p \<in> set (L b)) ` {0..<361}"
  proof
    fix b assume b: "b \<in> touching L V to"
    then obtain n where n: "n \<in> set (L b)" "b \<in> V" by (auto simp: touching_def)
    have "(THE b. b \<in> V \<and> n \<in> set (L b)) = b"
      using n core_disjoint [OF assms] by (intro the_equality) auto
    with coreD(9) [OF assms n(2,1)] show "b \<in> (\<lambda>p. THE b. b \<in> V \<and> p \<in> set (L b)) ` {0..<361}"
      by (intro image_eqI [of _ _ n]) (auto simp: InBoard_def)
  qed
qed simp

subsection \<open>The neighbouring blocks\<close>

definition scanned :: "(GoBlockId \<Rightarrow> GoCoordId list) \<Rightarrow> GoBlockId set \<Rightarrow> GoBlockId \<Rightarrow> GoCoordId \<Rightarrow> GoState \<Rightarrow>
    GoCoordId list \<Rightarrow> GoBlockId list \<times> GoState \<Rightarrow> bool" where
  "scanned L V blk to s dn st \<longleftrightarrow>
     (case st of (ids, s') \<Rightarrow> near L V blk s s' \<and>
        set ids = {b \<in> V. \<exists>n\<in>set dn. n \<in> set (L b)} \<and>
        (\<exists>f g h. block_pool s' blk = (block_pool s blk)\<lparr>liberty_state := f,
            virtual_liberty_state := g, stone_state := h\<rparr> \<and>
          bits f = {n \<in> set dn. board_state s n = EMPTY} \<and> bits g = set dn \<and> bits h = {to}))"

lemma InBoard_bits: "InBoard p \<Longrightarrow> 0 \<le> p \<and> p < 384"
  by (simp add: InBoard_def)

lemma GetNeighbourBlocks_spec:
  assumes c: "core (block_pool s) (stones s) (board_state s) V L" and blk: "blk \<notin> V" and to: "InBoard to"
    and clear: "liberty_state (block_pool s blk) = (\<lambda>_. 0)" "virtual_liberty_state (block_pool s blk) = (\<lambda>_. 0)"
      "stone_state (block_pool s blk) = (\<lambda>_. 0)"
  shows "\<exists>s' f g h. GetNeighbourBlocks blk to s = Some (sorted_list_of_set (touching L V to), s') \<and>
     near L V blk s s' \<and>
     block_pool s' blk = (block_pool s blk)\<lparr>liberty_state := f, virtual_liberty_state := g, stone_state := h\<rparr> \<and>
     bits f = libs (board_state s) {to} \<and> bits g = frontier {to} \<and> bits h = {to}"
proof -
  let ?s0 = "upd_block blk (SetStoneState to) s"
  let ?body = "\<lambda>nb (ids, s).
            let s1 = upd_block blk (SetVirtLiberty nb) s
            in if EMPTY = board_state s1 nb then Some (ids, upd_block blk (SetLiberty nb) s1)
               else do { (b, s2) \<leftarrow> GetBlockIdByCoord nb s1; Some (ids @ [b], s2) }"
  have "\<exists>st. foldo ?body (nei to) ([], ?s0) = Some st \<and> scanned L V blk to s (nei to) st"
  proof (rule foldo_rule)
    show "scanned L V blk to s [] ([], ?s0)"
      unfolding scanned_def prod.case
    proof (intro conjI exI)
      show "near L V blk s ?s0" by (rule near_upd_block)
      show "block_pool ?s0 blk = (block_pool s blk)\<lparr>liberty_state := (\<lambda>_. 0),
          virtual_liberty_state := (\<lambda>_. 0), stone_state := set_bit_at to (\<lambda>_. 0)\<rparr>"
        using clear by (cases "block_pool s blk") (simp add: SetStoneState_def)
    qed (use InBoard_bits [OF to] in auto)
  next
    fix dn nb rest st
    assume nei: "nei to = dn @ nb # rest" and "scanned L V blk to s dn st"
    then obtain ids s1 f g h where st: "st = (ids, s1)" and near: "near L V blk s s1"
      and ids: "set ids = {b \<in> V. \<exists>n\<in>set dn. n \<in> set (L b)}"
      and blk1: "block_pool s1 blk = (block_pool s blk)\<lparr>liberty_state := f, virtual_liberty_state := g, stone_state := h\<rparr>"
      and bits: "bits f = {n \<in> set dn. board_state s n = EMPTY}" "bits g = set dn" "bits h = {to}"
      by (auto simp: scanned_def)
    have nb: "InBoard nb" using nei set_nei [OF to] adj_InBoard [of to nb] by auto
    let ?s2 = "upd_block blk (SetVirtLiberty nb) s1"
    have near2: "near L V blk s ?s2" by (rule near_trans [OF near near_upd_block])
    have B: "board_state ?s2 = board_state s" using near_fields(3) [OF near] by simp
    show "\<exists>st'. ?body nb st = Some st' \<and> scanned L V blk to s (dn @ [nb]) st'"
    proof (cases "board_state s nb = EMPTY")
      case True
      have no: "\<not> (\<exists>b\<in>V. nb \<in> set (L b))"
        using True coreD(3,4) [OF c] by force
      let ?s3 = "upd_block blk (SetLiberty nb) ?s2"
      have "scanned L V blk to s (dn @ [nb]) (ids, ?s3)"
        unfolding scanned_def prod.case
      proof (intro conjI exI)
        show "near L V blk s ?s3" by (rule near_trans [OF near2 near_upd_block])
        show "set ids = {b \<in> V. \<exists>n\<in>set (dn @ [nb]). n \<in> set (L b)}" using ids no by auto
        show "block_pool ?s3 blk = (block_pool s blk)\<lparr>liberty_state := set_bit_at nb f,
            virtual_liberty_state := set_bit_at nb g, stone_state := h\<rparr>"
          by (simp add: blk1 SetLiberty_def SetVirtLiberty_def)
      qed (use True bits InBoard_bits [OF nb] in auto)
      with True B show ?thesis by (simp add: st)
    next
      case False
      from core_cover [OF c nb False] obtain b where b: "b \<in> V" "nb \<in> set (L b)" by blast
      have c2: "core (block_pool ?s2) (stones ?s2) (board_state s) V L" by (rule near_core [OF c near2 blk])
      from GetBlockIdByCoord_core [OF c2 b] False B obtain ss
        where ss: "GetBlockIdByCoord nb ?s2 = Some (b, ?s2\<lparr>stones := ss\<rparr>)" "compressed (L ` V) (stones ?s2) ss"
        by auto
      have "scanned L V blk to s (dn @ [nb]) (ids @ [b], ?s2\<lparr>stones := ss\<rparr>)"
        unfolding scanned_def prod.case
      proof (intro conjI exI)
        show "near L V blk s (?s2\<lparr>stones := ss\<rparr>)" by (rule near_trans [OF near2 near_stones [OF ss(2)]])
        show "set (ids @ [b]) = {b \<in> V. \<exists>n\<in>set (dn @ [nb]). n \<in> set (L b)}"
          using ids b core_disjoint [OF c] by auto
        show "block_pool (?s2\<lparr>stones := ss\<rparr>) blk = (block_pool s blk)\<lparr>liberty_state := f,
            virtual_liberty_state := set_bit_at nb g, stone_state := h\<rparr>"
          by (simp add: blk1 SetVirtLiberty_def)
      qed (use False bits InBoard_bits [OF nb] in auto)
      with False B ss(1) show ?thesis by (simp add: st)
    qed
  qed
  then obtain ids s' f g h where run: "foldo ?body (nei to) ([], ?s0) = Some (ids, s')"
    and near: "near L V blk s s'" and ids: "set ids = {b \<in> V. \<exists>n\<in>set (nei to). n \<in> set (L b)}"
    and blk': "block_pool s' blk = (block_pool s blk)\<lparr>liberty_state := f, virtual_liberty_state := g, stone_state := h\<rparr>"
    and bits: "bits f = {n \<in> set (nei to). board_state s n = EMPTY}" "bits g = set (nei to)" "bits h = {to}"
    by (auto simp: scanned_def)
  have "set ids = touching L V to" using ids set_nei [OF to] by (auto simp: touching_def)
  moreover have "bits f = libs (board_state s) {to}" "bits g = frontier {to}"
    using bits set_nei [OF to] by (auto simp: libs_def frontier_def)
  ultimately show ?thesis
    using run near blk' bits(3) unfolding GetNeighbourBlocks_def by (auto simp: sorted_unique)
qed

subsection \<open>Trial merge and the dying blocks\<close>

definition own_stones :: "board \<Rightarrow> (GoBlockId \<Rightarrow> GoCoordId list) \<Rightarrow> GoStoneColor \<Rightarrow> GoCoordId \<Rightarrow>
    GoBlockId list \<Rightarrow> GoCoordId set" where
  "own_stones B L c to bs = {to} \<union> (\<Union>b\<in>{b \<in> set bs. B (last (L b)) = c}. set (L b))"

definition own_count :: "board \<Rightarrow> (GoBlockId \<Rightarrow> GoCoordId list) \<Rightarrow> GoStoneColor \<Rightarrow> GoBlockId list \<Rightarrow> int" where
  "own_count B L c bs = 1 + (\<Sum>b\<leftarrow>filter (\<lambda>b. B (last (L b)) = c) bs. int (length (L b)))"

definition tried :: "board \<Rightarrow> (GoBlockId \<Rightarrow> GoCoordId list) \<Rightarrow> GoBlockId set \<Rightarrow> GoBlockId \<Rightarrow> GoStoneColor \<Rightarrow>
    GoCoordId \<Rightarrow> GoState \<Rightarrow> GoBlockId list \<Rightarrow> GoSize \<times> GoBlockId list \<times> GoState \<Rightarrow> bool" where
  "tried B L V blk c to s dn st \<longleftrightarrow>
     (case st of (cnt, die, s') \<Rightarrow> near L V blk s s' \<and>
        die = filter (dying B L c to) dn \<and> cnt = (\<Sum>b\<leftarrow>die. int (length (L b))) \<and>
        (\<exists>f g h. block_pool s' blk = (block_pool s blk)\<lparr>liberty_state := f, virtual_liberty_state := g,
            stone_state := h, stone_count := own_count B L c dn\<rparr> \<and>
          bits f = libs B (own_stones B L c to dn) \<and> bits g = frontier (own_stones B L c to dn) \<and>
          bits h = own_stones B L c to dn))"

lemma libs_merge: "(libs B S \<union> libs B T) \<inter> (frontier S \<union> frontier T - (S \<union> T)) = libs B (S \<union> T)"
  by (auto simp: libs_def frontier_def)

lemma TryMergeBlocks_only:
  "\<exists>f g h. TryMergeBlocks b a = b\<lparr>liberty_state := f, virtual_liberty_state := g, stone_state := h,
     stone_count := stone_count b + stone_count a\<rparr>"
proof (intro exI)
  show "TryMergeBlocks b a = b\<lparr>liberty_state := liberty_state (TryMergeBlocks b a),
      virtual_liberty_state := virtual_liberty_state (TryMergeBlocks b a),
      stone_state := stone_state (TryMergeBlocks b a), stone_count := stone_count b + stone_count a\<rparr>"
    by (rule GoBlock.equality) simp_all
qed

lemma CountLiberty_block: "CountLiberty b = (b\<lparr>liberty := int (card (bits (liberty_state b)))\<rparr>,
    int (card (bits (liberty_state b))))"
  by (simp add: CountLiberty_def liberty_total_card Let_def)

lemma libs_single:
  assumes "adj to n" "n \<in> S" "to \<notin> S" "B to = EMPTY"
  shows "card (libs B S) = 1 \<longleftrightarrow> libs B S = {to}"
proof -
  have "to \<in> libs B S" using assms by (auto simp: libs_def frontier_def adj_sym)
  then show ?thesis by (auto simp: card_1_singleton_iff)
qed

lemma try_neighbour_step:
  assumes c: "core (block_pool s) (stones s) B V L" and blk: "blk \<notin> V" and to: "InBoard to" "B to = EMPTY"
    and self: "Self s = c" and col: "color (block_pool s blk) = c"
    and b: "b \<in> touching L V to" "b \<notin> set dn" and t: "tried B L V blk c to s dn st"
  shows "tried B L V blk c to s (dn @ [b]) (try_neighbour blk b st)"
proof -
  from t obtain cnt die s1 f g h where st: "st = (cnt, die, s1)" and near: "near L V blk s s1"
    and die: "die = filter (dying B L c to) dn" and cnt: "cnt = (\<Sum>b\<leftarrow>die. int (length (L b)))"
    and blk1: "block_pool s1 blk = (block_pool s blk)\<lparr>liberty_state := f, virtual_liberty_state := g,
            stone_state := h, stone_count := own_count B L c dn\<rparr>"
    and bits: "bits f = libs B (own_stones B L c to dn)" "bits g = frontier (own_stones B L c to dn)"
      "bits h = own_stones B L c to dn"
    by (auto simp: tried_def)
  from b obtain n where bV: "b \<in> V" and n: "n \<in> set (L b)" "adj to n" by (auto simp: touching_def)
  have ne: "b \<noteq> blk" using bV blk by auto
  have c1: "core (block_pool s1) (stones s1) B V L" by (rule near_core [OF c near blk])
  note D = coreD [OF c1 bV]
  have colb: "color (block_pool s1 b) = B (last (L b))" using D(4,7) by simp
  have toL: "to \<notin> set (L b)" using D(3,4) to(2) by force
  have self1: "Self s1 = c" using near_fields(17) [OF near] self by simp
  have len: "stone_count (block_pool s1 b) = int (length (L b))" using D(2) by (simp add: maps_ok_def)
  show ?thesis
  proof (cases "B (last (L b)) = c")
    case False
    let ?s2 = "pool_upd b (fst (CountLiberty (block_pool s1 b))) s1"
    have near2: "near L V blk s ?s2"
      by (rule near_trans [OF near near_pool_upd [OF ne recounted_CountLiberty]])
    have one: "snd (CountLiberty (block_pool s1 b)) = 1 \<longleftrightarrow> dying B L c to b"
      using libs_single [of to n "set (L b)" B] n toL to(2) False D(6)
      by (simp add: CountLiberty_block dying_def)
    have same: "own_stones B L c to (dn @ [b]) = own_stones B L c to dn"
      "own_count B L c (dn @ [b]) = own_count B L c dn"
      using False by (auto simp: own_stones_def own_count_def)
    have "stone_count (fst (CountLiberty (block_pool s1 b))) = int (length (L b))"
      using len by (simp add: CountLiberty_block)
    then have "try_neighbour blk b st =
        (if dying B L c to b then cnt + int (length (L b)) else cnt,
         if dying B L c to b then die @ [b] else die, ?s2)"
      using False colb self1 one by (simp add: try_neighbour_def st case_prod_beta)
    then show ?thesis
      unfolding tried_def same using near2 die cnt blk1 bits ne by (auto simp: CountLiberty_def Let_def)
  next
    case True
    let ?s2 = "upd_block blk (\<lambda>x. TryMergeBlocks x (block_pool s1 b)) s1"
    have near2: "near L V blk s ?s2" by (rule near_trans [OF near near_upd_block])
    have same: "own_stones B L c to (dn @ [b]) = own_stones B L c to dn \<union> set (L b)"
      "own_count B L c (dn @ [b]) = own_count B L c dn + int (length (L b))"
      using True by (auto simp: own_stones_def own_count_def)
    have nd: "filter (dying B L c to) (dn @ [b]) = die" using True by (simp add: dying_def die)
    obtain f' g' h' where m: "TryMergeBlocks (block_pool s1 blk) (block_pool s1 b) =
        (block_pool s1 blk)\<lparr>liberty_state := f', virtual_liberty_state := g', stone_state := h',
          stone_count := stone_count (block_pool s1 blk) + stone_count (block_pool s1 b)\<rparr>"
      using TryMergeBlocks_only by blast
    have D2: "bits (stone_state (block_pool s1 b)) = set (L b)"
      "bits (virtual_liberty_state (block_pool s1 b)) = frontier (set (L b))"
      using D(2) by (simp_all add: maps_ok_def)
    have "bits h' = own_stones B L c to (dn @ [b])" "bits g' = frontier (own_stones B L c to (dn @ [b]))"
      "bits f' = libs B (own_stones B L c to (dn @ [b]))"
      using TryMergeBlocks_bits [of "block_pool s1 blk" "block_pool s1 b"] bits D(6) D2
      unfolding m same by (simp_all add: blk1 frontier_Un libs_merge)
    moreover have "block_pool ?s2 blk = (block_pool s blk)\<lparr>liberty_state := f', virtual_liberty_state := g',
        stone_state := h', stone_count := own_count B L c (dn @ [b])\<rparr>"
      unfolding same by (simp add: m [unfolded blk1] blk1 len)
    moreover have "try_neighbour blk b st = (cnt, die, ?s2)"
      using True colb self1 by (simp add: try_neighbour_def st)
    ultimately show ?thesis
      unfolding tried_def using near2 nd cnt by auto
  qed
qed

subsection \<open>The groups around a point\<close>

lemma touching_own_stones:
  assumes c: "core bp ss B V L" and to: "InBoard to" "B to = EMPTY" and col: "c \<in> {BLACK, WHITE}"
    and nb: "set nb = touching L V to"
  shows "own_stones B L c to nb = grp (B(to := c)) to"
proof -
  have "(\<Union>b\<in>{b \<in> set nb. B (last (L b)) = c}. set (L b)) = \<Union> {grp B n |n. adj to n \<and> B n = c}"
  proof (intro subset_antisym subsetI)
    fix q assume "q \<in> (\<Union>b\<in>{b \<in> set nb. B (last (L b)) = c}. set (L b))"
    then obtain b n where b: "b \<in> V" "B (last (L b)) = c" "q \<in> set (L b)" "n \<in> set (L b)" "adj to n"
      by (auto simp: nb touching_def)
    have "B n = c" using coreD(4) [OF c b(1,4)] core_tail_color [OF c b(1)] b(2) by simp
    moreover have "q \<in> grp B n" using b(3) core_grp [OF c b(1,4)] by simp
    ultimately show "q \<in> \<Union> {grp B n |n. adj to n \<and> B n = c}" using b(5) by blast
  next
    fix q assume "q \<in> \<Union> {grp B n |n. adj to n \<and> B n = c}"
    then obtain n where n: "adj to n" "B n = c" "q \<in> grp B n" by blast
    have "InBoard n" "B n \<noteq> EMPTY" using n(1,2) col by (auto dest: adj_InBoard)
    with core_cover [OF c] obtain b where b: "b \<in> V" "n \<in> set (L b)" by blast
    have "B (last (L b)) = c" using coreD(4) [OF c b] core_tail_color [OF c b(1)] n(2) by simp
    moreover have "q \<in> set (L b)" using n(3) core_grp [OF c b] by simp
    ultimately show "q \<in> (\<Union>b\<in>{b \<in> set nb. B (last (L b)) = c}. set (L b))"
      using b n(1) by (auto simp: nb touching_def)
  qed
  then show ?thesis using place_own_group [of B to c] to(2) col by (simp add: own_stones_def)
qed

lemma card_blocks:
  assumes c: "core bp ss B V L" and "distinct bs" "set bs \<subseteq> V"
  shows "int (card (\<Union>b\<in>set bs. set (L b))) = (\<Sum>b\<leftarrow>bs. int (length (L b)))"
proof -
  have "card (\<Union>b\<in>set bs. set (L b)) = (\<Sum>b\<in>set bs. card (set (L b)))"
    using assms core_disjoint [OF c] by (intro card_UN_disjoint) blast+
  also have "\<dots> = (\<Sum>b\<in>set bs. length (L b))"
    using assms coreD(8) [OF c] by (intro sum.cong) (auto simp: distinct_card)
  finally show ?thesis using assms(2) by (simp add: sum_list_distinct_conv_sum_set)
qed

lemma touching_own_count:
  assumes c: "core bp ss B V L" and to: "B to = EMPTY"
    and nb: "set nb = touching L V to" "distinct nb"
  shows "own_count B L c nb = int (card (own_stones B L c to nb))"
proof -
  let ?bs = "filter (\<lambda>b. B (last (L b)) = c) nb"
  have "to \<notin> (\<Union>b\<in>set ?bs. set (L b))"
    using nb coreD(3,4) [OF c] to by (force simp: touching_def)
  moreover have "own_stones B L c to nb = insert to (\<Union>b\<in>set ?bs. set (L b))"
    by (auto simp: own_stones_def)
  moreover have "int (card (\<Union>b\<in>set ?bs. set (L b))) = (\<Sum>b\<leftarrow>?bs. int (length (L b)))"
    by (rule card_blocks [OF c]) (use nb in \<open>auto simp: touching_def\<close>)
  ultimately show ?thesis by (simp add: own_count_def card_insert_disjoint)
qed

lemma touching_captured:
  assumes c: "core bp ss B V L" and col: "c \<in> {BLACK, WHITE}" and nb: "set nb = touching L V to"
  shows "(\<Union>b\<in>set (filter (dying B L c to) nb). set (L b)) = captured B c to"
proof (intro subset_antisym subsetI)
  fix q assume "q \<in> (\<Union>b\<in>set (filter (dying B L c to) nb). set (L b))"
  then obtain b n where b: "b \<in> V" "dying B L c to b" "q \<in> set (L b)" "n \<in> set (L b)" "adj to n"
    by (auto simp: nb touching_def)
  have "B n \<in> {BLACK, WHITE}" "B n = B (last (L b))"
    using coreD(4) [OF c b(1,4)] core_tail_color [OF c b(1)] by auto
  with b(2) col have "B n = other c" by (auto simp: dying_def)
  moreover have "libs B (grp B n) = {to}" using b(2) core_grp [OF c b(1,4)] by (simp add: dying_def)
  moreover have "q \<in> grp B n" using b(3) core_grp [OF c b(1,4)] by simp
  ultimately show "q \<in> captured B c to" using b(5) by (auto simp: captured_def)
next
  fix q assume "q \<in> captured B c to"
  then obtain n where n: "adj to n" "B n = other c" "libs B (grp B n) = {to}" "q \<in> grp B n"
    by (auto simp: captured_def)
  have ne: "B n \<noteq> EMPTY" "B n \<noteq> c" using player_cases [OF col] n(2) by auto
  from core_cover [OF c _ ne(1)] n obtain b where b: "b \<in> V" "n \<in> set (L b)"
    by (auto dest: adj_InBoard)
  have "B (last (L b)) = B n" using coreD(4) [OF c b] core_tail_color [OF c b(1)] by simp
  with ne n core_grp [OF c b] have "dying B L c to b" by (simp add: dying_def)
  with b n core_grp [OF c b] show "q \<in> (\<Union>b\<in>set (filter (dying B L c to) nb). set (L b))"
    by (auto simp: nb touching_def)
qed

subsection \<open>Adding the dead stones\<close>

lemma add_dead_word: "in_words i \<Longrightarrow> liberty_state (add_dead tmp b) i =
    (liberty_state b i OR stone_state tmp i) AND virtual_liberty_state b i"
proof -
  assume "in_words i"
  then have "i \<in> {0, 1, 2, 3, 4, 5}" by (auto simp: in_words_def)
  then show ?thesis unfolding add_dead_def by (auto simp: upto_rec1 die_word_def)
qed

lemma add_dead_bits: "bits (liberty_state (add_dead tmp b)) =
    (bits (liberty_state b) \<union> bits (stone_state tmp)) \<inter> bits (virtual_liberty_state b)"
proof -
  have "bits (liberty_state (add_dead tmp b)) =
      bits (\<lambda>i. (liberty_state b i OR stone_state tmp i) AND virtual_liberty_state b i)"
    by (rule bits_cong) (rule add_dead_word)
  then show ?thesis by (simp only: bits_and [of _ "virtual_liberty_state b"] bits_or)
qed

lemma add_dead_only: "add_dead tmp b = b\<lparr>liberty_state := liberty_state (add_dead tmp b)\<rparr>"
  by (rule GoBlock.equality) (simp_all add: add_dead_def upto_rec1 die_word_def)

lemma add_dead_fold:
  assumes "blk \<notin> set ds"
  shows "\<exists>f. fold (\<lambda>i s. upd_block blk (add_dead (block_pool s i)) s) ds s =
      upd_block blk (\<lambda>b. b\<lparr>liberty_state := f\<rparr>) s \<and>
    bits f = (if ds = [] then bits (liberty_state (block_pool s blk))
      else (bits (liberty_state (block_pool s blk)) \<union> (\<Union>d\<in>set ds. bits (stone_state (block_pool s d)))) \<inter>
        bits (virtual_liberty_state (block_pool s blk)))"
  (is "\<exists>f. ?run ds = ?upd f \<and> bits f = ?F ds")
proof -
  have "\<exists>f. ?run ds = ?upd f \<and> bits f = ?F ds"
  proof (rule fold_rule [where P = "\<lambda>dn st. \<exists>f. st = ?upd f \<and> bits f = ?F dn"])
    show "\<exists>f. s = ?upd f \<and> bits f = ?F []"
      by (rule exI [of _ "liberty_state (block_pool s blk)"]) (simp add: upd_block_def)
  next
    fix dn d rest st
    assume ds: "ds = dn @ d # rest" and "\<exists>f. st = ?upd f \<and> bits f = ?F dn"
    then obtain f where f: "st = ?upd f" "bits f = ?F dn" by blast
    have ne: "d \<noteq> blk" using assms ds by auto
    let ?b = "(block_pool s blk)\<lparr>liberty_state := f\<rparr>" and ?d = "block_pool s d"
    have same: "block_pool st d = ?d" "block_pool st blk = ?b" using ne by (simp_all add: f upd_block_def)
    have "upd_block blk (add_dead (block_pool st d)) st = upd_block blk (\<lambda>_. add_dead ?d ?b) s"
      using ne by (simp add: f upd_block_def)
    also have "\<dots> = ?upd (liberty_state (add_dead ?d ?b))"
      by (subst add_dead_only) (simp add: upd_block_def)
    moreover have "bits (liberty_state (add_dead ?d ?b)) = ?F (dn @ [d])"
      using f(2) by (auto simp: add_dead_bits)
    ultimately show "\<exists>f. upd_block blk (add_dead (block_pool st d)) st = ?upd f \<and> bits f = ?F (dn @ [d])"
      by auto
  qed
  then show ?thesis .
qed

lemma play_libs:
  assumes "to \<in> G"
  shows "((libs B G - {to}) \<union> captured B c to) \<inter> frontier G = libs (play B c to) G"
  using assms by (auto simp: libs_def play_def frontier_def)

subsection \<open>TryMove\<close>

text \<open>The block a trial move leaves in \<open>blk\<close>: the group of the new stone on the board after
  the move.\<close>

definition trial_block :: "board \<Rightarrow> GoStoneColor \<Rightarrow> GoCoordId \<Rightarrow> GoBlock \<Rightarrow> bool" where
  "trial_block B c to b \<longleftrightarrow> (let G = grp (B(to := c)) to in
     color b = c \<and> stone_count b = int (card G) \<and> bits (stone_state b) = G \<and>
     bits (virtual_liberty_state b) = frontier G \<and> bits (liberty_state b) = libs (play B c to) G)"

definition trial_result :: "board \<Rightarrow> (GoBlockId \<Rightarrow> GoCoordId list) \<Rightarrow> GoBlockId set \<Rightarrow> GoBlockId \<Rightarrow>
    GoStoneColor \<Rightarrow> GoCoordId \<Rightarrow> GoState \<Rightarrow> GoSize \<Rightarrow> GoBlockId list \<Rightarrow> GoBlockId list \<Rightarrow> GoState \<Rightarrow> bool" where
  "trial_result B L V blk c to s cnt nb die s' \<longleftrightarrow>
     nb = sorted_list_of_set (touching L V to) \<and> die = filter (dying B L c to) nb \<and>
     cnt = int (card (captured B c to)) \<and>
     near L V blk s s' \<and> trial_block B c to (block_pool s' blk) \<and>
     block_self_id (block_pool s' blk) = block_self_id (block_pool s blk)"

lemma TryMove_spec:
  assumes core: "core (block_pool s) (stones s) (board_state s) V L" and blk: "blk \<notin> V"
    and to: "InBoard to" "board_state s to = EMPTY" and legal: "legal_move_map s to"
    and self: "Self s = c" "c \<in> {BLACK, WHITE}"
  shows "\<exists>cnt nb die s'. TryMove blk to GOBOARD_SIZE s = Some (cnt, Some (nb, die), s') \<and>
     trial_result (board_state s) L V blk c to s cnt nb die s'"
proof -
  let ?B = "board_state s" and ?b0 = "(BlockReset (block_pool s blk))\<lparr>stone_count := 1, color := c\<rparr>"
  let ?s1 = "upd_block blk (\<lambda>b. (BlockReset b)\<lparr>stone_count := 1, color := Self s\<rparr>) s"
  let ?nb = "sorted_list_of_set (touching L V to)" and ?G = "grp (?B(to := c)) to"
  let ?die = "filter (dying ?B L c to) ?nb"
  have b1: "block_pool ?s1 blk = ?b0" by (simp add: self)
  have near1: "near L V blk s ?s1" by (rule near_upd_block)
  have core1: "core (block_pool ?s1) (stones ?s1) ?B V L" by (rule near_core [OF core near1 blk])
  have core1': "core (block_pool ?s1) (stones ?s1) (board_state ?s1) V L" using core1 by simp
  have clear: "liberty_state (block_pool ?s1 blk) = (\<lambda>_. 0)"
    "virtual_liberty_state (block_pool ?s1 blk) = (\<lambda>_. 0)" "stone_state (block_pool ?s1 blk) = (\<lambda>_. 0)"
    unfolding b1 by (simp_all add: BlockReset_def)
  obtain s2 f g h where gn: "GetNeighbourBlocks blk to ?s1 = Some (?nb, s2)" and near2: "near L V blk ?s1 s2"
    and b2: "block_pool s2 blk = ?b0\<lparr>liberty_state := f, virtual_liberty_state := g, stone_state := h\<rparr>"
    and bits2: "bits f = libs ?B {to}" "bits g = frontier {to}" "bits h = {to}"
    using GetNeighbourBlocks_spec [OF core1' blk to(1) clear] unfolding b1 upd_block_fields by blast
  have core2: "core (block_pool s2) (stones s2) ?B V L" by (rule near_core [OF core1 near2 blk])
  have self2: "Self s2 = c" "color (block_pool s2 blk) = c"
    using near_fields(17) [OF near2] self by (simp_all add: b2)
  have dist: "set ?nb = touching L V to" "distinct ?nb" using finite_touching [OF core] by simp_all
  obtain cnt die s3 where run: "fold (try_neighbour blk) ?nb (0, [], s2) = (cnt, die, s3)"
    by (metis prod_cases3)
  have "tried ?B L V blk c to s2 ?nb (fold (try_neighbour blk) ?nb (0, [], s2))"
  proof (rule fold_rule)
    have "block_pool s2 blk = (block_pool s2 blk)\<lparr>liberty_state := f, virtual_liberty_state := g,
        stone_state := h, stone_count := 1\<rparr>" by (simp add: b2)
    with bits2 show "tried ?B L V blk c to s2 [] (0, [], s2)"
      unfolding tried_def by (auto simp: own_stones_def own_count_def)
  next
    fix dn b rest st assume nb: "?nb = dn @ b # rest" and t: "tried ?B L V blk c to s2 dn st"
    then have "b \<in> touching L V to" "b \<notin> set dn" using dist nb by auto
    with t show "tried ?B L V blk c to s2 (dn @ [b]) (try_neighbour blk b st)"
      by (intro try_neighbour_step [OF core2 blk to self2])
  qed
  then obtain f g h where near3: "near L V blk s2 s3" and die: "die = ?die"
    and cnt: "cnt = (\<Sum>b\<leftarrow>die. int (length (L b)))"
    and b3: "block_pool s3 blk = (block_pool s2 blk)\<lparr>liberty_state := f, virtual_liberty_state := g,
            stone_state := h, stone_count := own_count ?B L c ?nb\<rparr>"
    and bits3: "bits f = libs ?B ?G" "bits g = frontier ?G" "bits h = ?G"
    unfolding run using touching_own_stones [OF core to self(2) dist(1)] by (auto simp: tried_def)
  have count: "own_count ?B L c ?nb = int (card ?G)"
    using touching_own_count [OF core to(2) dist] touching_own_stones [OF core to self(2) dist(1)] by simp
  let ?s4 = "upd_block blk (ResetLiberty to) s3"
  let ?n = "int (card (libs ?B ?G - {to}))"
  let ?s5 = "pool_upd blk (fst (CountLiberty (block_pool ?s4 blk))) ?s4"
  have s5: "?s5 = upd_block blk (\<lambda>b. (ResetLiberty to b)\<lparr>liberty := ?n\<rparr>) s3"
    using bits3 InBoard_bits [OF to(1)] by (simp add: CountLiberty_block upd_block_def b3 ResetLiberty_def)
  have "libs ?B ?G - {to} \<subseteq> {0..<361} - {to}" by (auto dest: libs_board simp: InBoard_def)
  from card_mono [OF _ this] have n: "?n < 361" using to(1) by (simp add: InBoard_def card_Diff_singleton)
  have near5: "near L V blk s ?s5"
    unfolding s5 by (rule near_trans [OF near_trans [OF near_trans [OF near1 near2] near3] near_upd_block])
  have core5: "core (block_pool ?s5) (stones ?s5) ?B V L" by (rule near_core [OF core near5 blk])
  let ?s6 = "fold (\<lambda>i s. upd_block blk (add_dead (block_pool s i)) s) die ?s5"
  have dV: "d \<in> V" if "d \<in> set die" for d using that dist by (auto simp: die touching_def)
  have "(\<Union>d\<in>set die. bits (stone_state (block_pool ?s5 d))) = (\<Union>d\<in>set die. set (L d))"
    using coreD(2) [OF core5 dV] by (simp add: maps_ok_def)
  also have "\<dots> = captured ?B c to" unfolding die by (rule touching_captured [OF core self(2) dist(1)])
  finally have dead: "(\<Union>d\<in>set die. bits (stone_state (block_pool ?s5 d))) = captured ?B c to" .
  obtain f' where s6: "?s6 = upd_block blk (\<lambda>b. b\<lparr>liberty_state := f'\<rparr>) ?s5"
    and f': "bits f' = (if die = [] then bits (liberty_state (block_pool ?s5 blk)) else
      (bits (liberty_state (block_pool ?s5 blk)) \<union> (\<Union>d\<in>set die. bits (stone_state (block_pool ?s5 d)))) \<inter>
        bits (virtual_liberty_state (block_pool ?s5 blk)))"
    using add_dead_fold [of blk die ?s5] dV blk by blast
  have lib5: "bits (liberty_state (block_pool ?s5 blk)) = libs ?B ?G - {to}"
    "bits (virtual_liberty_state (block_pool ?s5 blk)) = frontier ?G"
    using bits3 InBoard_bits [OF to(1)] unfolding s5 by (simp_all add: b3 ResetLiberty_def)
  have "bits f' = ((libs ?B ?G - {to}) \<union> captured ?B c to) \<inter> frontier ?G"
    using f' dead unfolding lib5 by (auto simp: libs_def split: if_splits)
  then have lib6: "bits f' = libs (play ?B c to) ?G" by (simp add: play_libs)
  have blk5: "block_pool ?s5 blk = (ResetLiberty to (block_pool s3 blk))\<lparr>liberty := ?n\<rparr>"
    using bits3 InBoard_bits [OF to(1)] by (simp add: CountLiberty_block b3 ResetLiberty_def)
  have eq6: "block_pool ?s6 blk = (block_pool ?s5 blk)\<lparr>liberty_state := f'\<rparr>"
    by (subst s6) simp
  have blk6: "trial_block ?B c to (block_pool ?s6 blk)"
    unfolding trial_block_def eq6 blk5 b3 b2 using lib6 bits3 count
    by (simp add: ResetLiberty_def Let_def BlockReset_def)
  have "near L V blk s ?s6" unfolding s6 by (rule near_trans [OF near5 near_upd_block])
  moreover have "block_self_id (block_pool ?s6 blk) = block_self_id (block_pool s blk)"
    unfolding eq6 blk5 b3 b2 by (simp add: ResetLiberty_def BlockReset_def)
  moreover have "cnt = int (card (captured ?B c to))"
  proof -
    have "set die \<subseteq> V" "distinct die" using dV dist(2) by (auto simp: die)
    from card_blocks [OF core this(2,1)] touching_captured [OF core self(2) dist(1)]
    show ?thesis unfolding cnt die by simp
  qed
  ultimately have res: "trial_result ?B L V blk c to s cnt ?nb die ?s6"
    using blk6 die by (simp add: trial_result_def)
  have "TryMove blk to GOBOARD_SIZE s = Some (cnt, Some (?nb, die), ?s6)"
    using legal gn n bits3 InBoard_bits [OF to(1)]
    by (simp add: TryMove_def Let_def run CountLiberty_block b3 ResetLiberty_def split_beta)
  with res show ?thesis by blast
qed

end
