(* ===== verification/Go_Join.thy ===== *)
theory Go_Join
  imports Go_Try
begin

text \<open>
  The first half of a move: the new block takes over the stones of the player's blocks it
  touches, and all touched blocks lose the liberty that was filled. The result represents
  the board with the new stone, before anything is captured.
\<close>

lemma place_block_fields:
  "place_block blk to s = s\<lparr>stones := (stones s)(to := StoneReset blk (stones s to)),
     block_pool := (block_pool s)(blk := (block_pool s blk)\<lparr>in_use := True, b_head := to, b_tail := to\<rparr>)\<rparr>"
  by (simp add: place_block_def upd_block_def)

definition owned :: "board \<Rightarrow> (GoBlockId \<Rightarrow> GoCoordId list) \<Rightarrow> GoStoneColor \<Rightarrow> GoBlockId list \<Rightarrow> GoBlockId list" where
  "owned B L c bs = filter (\<lambda>b. B (last (L b)) = c) bs"

definition joined_list :: "(GoBlockId \<Rightarrow> GoCoordId list) \<Rightarrow> GoBlockId list \<Rightarrow> GoCoordId \<Rightarrow> GoCoordId list" where
  "joined_list L own to = concat (rev (map L own)) @ [to]"

lemma joined_list_simps [simp]:
  "joined_list L [] to = [to]" "joined_list L (own @ [b]) to = L b @ joined_list L own to"
  "last (joined_list L own to) = to" "joined_list L own to \<noteq> []"
  "set (joined_list L own to) = insert to (\<Union>b\<in>set own. set (L b))"
  by (auto simp: joined_list_def)

lemma owned_simps [simp]:
  "owned B L c [] = []"
  "owned B L c (bs @ [b]) = owned B L c bs @ (if B (last (L b)) = c then [b] else [])"
  "set (owned B L c bs) = {b \<in> set bs. B (last (L b)) = c}"
  by (auto simp: owned_def)

text \<open>The pool after the neighbours \<open>dn\<close> have been handled.\<close>

definition joined_pool :: "board \<Rightarrow> (GoBlockId \<Rightarrow> GoCoordId list) \<Rightarrow> GoStoneColor \<Rightarrow> GoBlockId \<Rightarrow> GoCoordId \<Rightarrow>
    GoBlockId list \<Rightarrow> (GoBlockId \<Rightarrow> GoBlock) \<Rightarrow> GoBlockId \<Rightarrow> GoBlock" where
  "joined_pool B L c blk to dn bp b =
     (if b = blk then (bp blk)\<lparr>b_head := hd (joined_list L (owned B L c dn) to)\<rparr>
      else if b \<in> set dn then
        (if B (last (L b)) = c then (ResetLiberty to (bp b))\<lparr>in_use := False\<rparr> else ResetLiberty to (bp b))
      else bp b)"

definition joined :: "board \<Rightarrow> (GoBlockId \<Rightarrow> GoCoordId list) \<Rightarrow> GoStoneColor \<Rightarrow> GoBlockId \<Rightarrow> GoCoordId \<Rightarrow>
    GoState \<Rightarrow> GoBlockId list \<Rightarrow> GoState \<Rightarrow> bool" where
  "joined B L c blk to s dn s' \<longleftrightarrow>
     (\<exists>ss. s' = s\<lparr>stones := ss, block_pool := joined_pool B L c blk to dn (block_pool s),
          recycled_blocks := rev (owned B L c dn) @ recycled_blocks s,
          visited_positions := (\<lambda>b. if b \<in> set dn then timestamp s else visited_positions s b)\<rparr> \<and>
        chain ss blk (joined_list L (owned B L c dn) to) \<and> self_ok ss \<and>
        (\<forall>q. q \<notin> (\<Union>b\<in>set (owned B L c dn). set (L b)) \<longrightarrow> ss q = stones s q))"

lemma join_neighbour_step:
  assumes c: "core bp0 (stones s0) B V L" and blk: "blk \<notin> V" and to: "B to = EMPTY" "InBoard to"
    and same: "\<And>q. q \<noteq> to \<Longrightarrow> stones s q = stones s0 q"
    and pool: "\<And>b. b \<in> V \<Longrightarrow> recounted (bp0 b) (block_pool s b)"
    and head: "b_head (block_pool s blk) = to" "b_tail (block_pool s blk) = to"
    and self: "Self s = c"
    and b: "b \<in> V" "b \<notin> set dn" and dn: "set dn \<subseteq> V" and j: "joined B L c blk to s dn s'"
  shows "joined B L c blk to s (dn @ [b]) (join_neighbour blk to b s')"
proof -
  let ?own = "owned B L c dn" and ?xs = "joined_list L (owned B L c dn) to"
  from j obtain ss where s': "s' = s\<lparr>stones := ss, block_pool := joined_pool B L c blk to dn (block_pool s),
          recycled_blocks := rev ?own @ recycled_blocks s,
          visited_positions := (\<lambda>b. if b \<in> set dn then timestamp s else visited_positions s b)\<rparr>"
    and ch: "chain ss blk ?xs" "self_ok ss" and keep: "\<forall>q. q \<notin> (\<Union>b\<in>set ?own. set (L b)) \<longrightarrow> ss q = stones s q"
    unfolding joined_def by blast
  have ne: "b \<noteq> blk" using b blk by auto
  note D = coreD [OF c b(1)]
  have R: "color (block_pool s b) = B (last (L b))" "b_head (block_pool s b) = hd (L b)"
    "b_tail (block_pool s b) = last (L b)"
    using D(2,4,7) recounted_fields [OF pool [OF b(1)]] by (auto simp: maps_ok_def)
  have pb: "block_pool s' b = block_pool s b" "block_pool s' blk = (block_pool s blk)\<lparr>b_head := hd ?xs\<rparr>"
    using ne b(2) by (simp_all add: s' joined_pool_def)
  have self': "Self s' = c" using self by (simp add: s' Self_def)
  let ?s1 = "upd_block b (ResetLiberty to) (visit_block b s')"
  have vis: "(\<lambda>x. if x \<in> set (dn @ [b]) then timestamp s else visited_positions s x) =
      (visited_positions s')(b := timestamp s)"
    by (auto simp: s')
  show ?thesis
  proof (cases "B (last (L b)) = c")
    case False
    have "joined_pool B L c blk to (dn @ [b]) (block_pool s) =
        (joined_pool B L c blk to dn (block_pool s))(b := ResetLiberty to (block_pool s b))"
      using False ne by (auto simp: joined_pool_def fun_eq_iff)
    then have "?s1 = s\<lparr>stones := ss, block_pool := joined_pool B L c blk to (dn @ [b]) (block_pool s),
          recycled_blocks := rev ?own @ recycled_blocks s,
          visited_positions := (\<lambda>x. if x \<in> set (dn @ [b]) then timestamp s else visited_positions s x)\<rparr>"
      unfolding vis using pb(1) by (simp add: upd_block_def visit_block_def s')
    moreover have "join_neighbour blk to b s' = ?s1"
      using False self' R(1) pb(1) by (simp add: join_neighbour_def upd_block_def visit_block_def Self_def ResetLiberty_def)
    ultimately show ?thesis
      unfolding joined_def using ch keep False by (intro exI [of _ ss]) simp
  next
    case True
    let ?ys = "joined_list L (owned B L c (dn @ [b])) to"
    have ys: "?ys = L b @ ?xs" using True by simp
    have disj: "set (L b) \<inter> set ?xs = {}"
      using core_disjoint [OF c] b dn D(3,4) to by fastforce
    have out: "ss q = stones s0 q" if "q \<in> set (L b)" for q
    proof -
      have "q \<noteq> to" "q \<notin> (\<Union>b\<in>set ?own. set (L b))" using that disj by auto
      with keep same [of q] show ?thesis by simp
    qed
    have chb: "chain ss b (L b)" using D(1) chain_cong [of "L b" ss "stones s0"] out by auto
    let ?m = "MergeBlocks (block_pool ?s1 blk) (block_pool ?s1 b) (stones ?s1)"
    have p1: "block_pool ?s1 blk = block_pool s' blk" "block_pool ?s1 b = ResetLiberty to (block_pool s b)" "stones ?s1 = ss"
      using ne pb(1) by (simp_all add: upd_block_def visit_block_def s')
    have M: "chain (snd ?m) blk (L b @ ?xs)" "fst ?m = (block_pool s' blk)\<lparr>b_head := hd (L b)\<rparr>"
      "\<And>q. q \<noteq> last (L b) \<Longrightarrow> snd ?m q = ss q" "self_ok (snd ?m)"
      unfolding p1
      by (rule MergeBlocks_chain [OF chb ch(1) disj ch(2)]; use R head pb(2) in \<open>simp add: ResetLiberty_def\<close>)+
    have hd: "hd ?ys = hd (L b)" using ys D(7) by simp
    have "joined_pool B L c blk to (dn @ [b]) (block_pool s) =
        ((joined_pool B L c blk to dn (block_pool s))(blk := (block_pool s' blk)\<lparr>b_head := hd (L b)\<rparr>))
          (b := (ResetLiberty to (block_pool s b))\<lparr>in_use := False\<rparr>)"
      using True ne by (auto simp: joined_pool_def fun_eq_iff hd [simplified] pb(2) D(7))
    then have "join_neighbour blk to b s' =
        s\<lparr>stones := snd ?m, block_pool := joined_pool B L c blk to (dn @ [b]) (block_pool s),
          recycled_blocks := rev (owned B L c (dn @ [b])) @ recycled_blocks s,
          visited_positions := (\<lambda>x. if x \<in> set (dn @ [b]) then timestamp s else visited_positions s x)\<rparr>"
      unfolding vis using True ne self' R(1) M(2) pb
      by (simp add: join_neighbour_def upd_block_def visit_block_def Self_def ResetLiberty_def s'
          RecycleBlock_def split_beta Let_def fun_upd_twist)
    moreover have "snd ?m q = stones s q" if q: "q \<notin> (\<Union>x\<in>set (owned B L c (dn @ [b])). set (L x))" for q
    proof -
      have "q \<noteq> last (L b)" "q \<notin> (\<Union>x\<in>set ?own. set (L x))"
        using q True last_in_set [OF D(7)] by auto
      with M(3) [of q] keep show ?thesis by simp
    qed
    ultimately show ?thesis
      unfolding joined_def ys using M(1,4) by blast
  qed
qed

lemma joined_start:
  assumes "self_ok (stones s)" and "InBoard to"
  shows "joined B L c blk to (place_block blk to s) [] (place_block blk to s)"
proof -
  let ?s = "place_block blk to s"
  have "stone_self_id (stones s to) = to" using assms by (simp add: self_ok_def)
  then have "chain (stones ?s) blk [to]" "self_ok (stones ?s)"
    using assms by (auto simp: place_block_fields chain_def StoneReset_def self_ok_def)
  moreover have "joined_pool B L c blk to [] (block_pool ?s) = block_pool ?s"
    by (auto simp: joined_pool_def place_block_fields fun_eq_iff)
  ultimately show ?thesis
    unfolding joined_def by (intro exI [of _ "stones ?s"]) simp
qed

text \<open>The blocks and their lists after joining.\<close>

definition live_after :: "board \<Rightarrow> (GoBlockId \<Rightarrow> GoCoordId list) \<Rightarrow> GoBlockId set \<Rightarrow> GoStoneColor \<Rightarrow> GoBlockId \<Rightarrow>
    GoCoordId \<Rightarrow> GoBlockId set" where
  "live_after B L V c blk to = insert blk (V - {b \<in> touching L V to. B (last (L b)) = c})"

definition lists_after :: "board \<Rightarrow> (GoBlockId \<Rightarrow> GoCoordId list) \<Rightarrow> GoBlockId set \<Rightarrow> GoStoneColor \<Rightarrow> GoBlockId \<Rightarrow>
    GoCoordId \<Rightarrow> GoBlockId \<Rightarrow> GoCoordId list" where
  "lists_after B L V c blk to =
     L(blk := joined_list L (owned B L c (sorted_list_of_set (touching L V to))) to)"

lemma grp_place_cases:
  assumes c: "shape bp ss B V L" and to: "B to = EMPTY" and col: "c \<in> {BLACK, WHITE}"
    and b: "b \<in> V - {b \<in> touching L V to. B (last (L b)) = c}" and q: "q \<in> set (L b)"
  shows "grp (B(to := c)) q = set (L b)"
proof -
  have q': "B q = color (bp b)" "B q = B (last (L b))" "grp B q = set (L b)" "B q \<noteq> EMPTY"
    using shapeD [OF c, of b] b q by auto
  have "B q \<noteq> c \<or> (\<forall>n. adj to n \<longrightarrow> n \<notin> grp B q)"
    using b q'(2,3) by (auto simp: touching_def)
  with place_other_group [of B to c q] to col q' show ?thesis by simp
qed

lemma own_group_list:
  assumes c: "core bp ss B V L" and to: "InBoard to" "B to = EMPTY" and col: "c \<in> {BLACK, WHITE}"
  shows "set (lists_after B L V c blk to blk) = grp (B(to := c)) to"
  using touching_own_stones [OF c to col, of "sorted_list_of_set (touching L V to)"] finite_touching [OF c]
  by (simp add: lists_after_def own_stones_def)

lemma libs_place:
  assumes "S \<subseteq> {q. B q \<noteq> EMPTY}" "c \<noteq> EMPTY"
  shows "libs (B(to := c)) S = libs B S - {to}"
  using assms by (auto simp: libs_def)

lemma joined_shape:
  assumes c: "core bp ss B V L" and blk: "blk \<notin> V" and to: "InBoard to" "B to = EMPTY"
    and col: "c \<in> {BLACK, WHITE}" and t: "trial_block B c to (bp blk)"
    and head: "b_head (bp blk) = to" "b_tail (bp blk) = to"
    and xs: "xs = lists_after B L V c blk to blk"
    and ch: "chain ss' blk xs" "self_ok ss'"
    and keep: "\<And>b q. b \<in> live_after B L V c blk to \<Longrightarrow> b \<noteq> blk \<Longrightarrow> q \<in> set (L b) \<Longrightarrow> ss' q = ss q"
    and bp': "bp' = joined_pool B L c blk to (sorted_list_of_set (touching L V to)) bp"
  shows "shape bp' ss' (B(to := c)) (live_after B L V c blk to) (lists_after B L V c blk to) \<and>
    (\<forall>b\<in>live_after B L V c blk to. bits (liberty_state (bp' b)) =
       libs (if b = blk then play B c to else B(to := c)) (set (lists_after B L V c blk to b)))"
proof -
  let ?V = "live_after B L V c blk to" and ?L = "lists_after B L V c blk to" and ?E = "B(to := c)"
  let ?G = "grp ?E to"
  have G: "set xs = ?G" unfolding xs by (rule own_group_list [OF c to col])
  have blk': "bp' blk = (bp blk)\<lparr>b_head := hd xs\<rparr>" "?L blk = xs" "last xs = to" "xs \<noteq> []"
    using xs by (simp_all add: bp' joined_pool_def lists_after_def)
  have col0: "c \<noteq> EMPTY" using col by auto
  have other: "b \<in> V" "b \<noteq> blk" "?L b = L b" "\<not> (b \<in> touching L V to \<and> B (last (L b)) = c)"
    if "b \<in> ?V" "b \<noteq> blk" for b
    using that by (auto simp: live_after_def lists_after_def)
  have bpo: "bp' b = (if b \<in> touching L V to then ResetLiberty to (bp b) else bp b)"
    if "b \<in> ?V" "b \<noteq> blk" for b
    using that other [OF that] finite_touching [OF c] by (auto simp: bp' joined_pool_def)
  have "colors_ok ?E" using shape_colors [OF core_shape [OF c]] col by (auto simp: colors_ok_def)
  moreover have "chain ss' b (?L b) \<and> maps_ok (bp' b) (?L b) \<and> color (bp' b) \<noteq> EMPTY \<and>
        (\<forall>p\<in>set (?L b). ?E p = color (bp' b) \<and> grp ?E p = set (?L b))" if b: "b \<in> ?V" for b
  proof (cases "b = blk")
    case True
    have "maps_ok (bp' blk) xs"
      using t head blk' G ch(1) distinct_card [of xs] by (simp add: maps_ok_def trial_block_def Let_def chain_def)
    moreover have "?E p = c \<and> grp ?E p = ?G" if "p \<in> ?G" for p
      using group_color [OF that] group_eq [OF that] by simp
    moreover have "color (bp' blk) = c" using t blk'(1) by (simp add: trial_block_def Let_def)
    ultimately show ?thesis
      unfolding True blk'(2) G using ch(1) col0 by blast
  next
    case False
    note o = other [OF b False] and D = coreD [OF c other(1) [OF b False]]
    have "chain ss' b (L b)" using D(1) chain_cong [of "L b" ss' ss] keep [OF b False] by blast
    moreover have "maps_ok (bp' b) (L b)" "color (bp' b) = color (bp b)"
      using D(2) bpo [OF b False] by (simp_all add: maps_ok_def ResetLiberty_def)
    moreover have "?E p = color (bp b) \<and> grp ?E p = set (L b)" if "p \<in> set (L b)" for p
      using D(3) D(4) [OF that] that to(2) o grp_place_cases [of bp ss B V L to c b p] core_shape [OF c] col by auto
    ultimately show ?thesis using D(3) o by simp
  qed
  moreover have "\<exists>b\<in>?V. p \<in> set (?L b)" if p: "InBoard p" "?E p \<noteq> EMPTY" for p
  proof (cases "p \<in> ?G")
    case True
    with G blk' show ?thesis by (auto simp: live_after_def)
  next
    case False
    then have "p \<noteq> to" by auto
    with p core_cover [OF c] obtain b where b: "b \<in> V" "p \<in> set (L b)" by auto
    have "\<not> (b \<in> touching L V to \<and> B (last (L b)) = c)"
      using b(2) False G [symmetric] finite_touching [OF c] by (auto simp: xs lists_after_def)
    with b blk show ?thesis by (auto simp: live_after_def lists_after_def)
  qed
  ultimately have "shape bp' ss' ?E ?V ?L" using ch(2) by (simp add: shape_def)
  moreover have "bits (liberty_state (bp' b)) = libs (if b = blk then play B c to else ?E) (set (?L b))"
    if b: "b \<in> ?V" for b
  proof (cases "b = blk")
    case True
    with t blk' G show ?thesis by (simp add: trial_block_def Let_def)
  next
    case False
    note o = other [OF b False] and D = coreD [OF c other(1) [OF b False]]
    have "set (L b) \<subseteq> {q. B q \<noteq> EMPTY}" using D(3,4) by auto
    then have L: "libs ?E (set (L b)) = libs B (set (L b)) - {to}" by (rule libs_place [OF _ col0])
    have "b \<in> touching L V to" if "to \<in> libs B (set (L b))"
      using that o(1) by (auto simp: libs_def frontier_def touching_def adj_sym)
    with D(6) bpo [OF b False] L o(3) False InBoard_bits [OF to(1)] show ?thesis
      by (auto simp: ResetLiberty_def)
  qed
  ultimately show ?thesis by blast
qed

end
