(* ===== verification/Go_Capture.thy ===== *)
theory Go_Capture
  imports Go_Join
begin

text \<open>
  The capture loop of a move. The stones of the dying blocks are taken off one by one; every
  neighbouring block of the player gets the freed point as a liberty. \<open>capturing\<close> relates the
  state before the loop to the one in which the stones \<open>D\<close> have gone, the pairs \<open>R\<close> of a
  removed stone and a neighbour have been handled and the blocks \<open>ds\<close> have been recycled.
\<close>

definition freed :: "board \<Rightarrow> GoStoneColor \<Rightarrow> (GoCoordId \<times> GoCoordId) set \<Rightarrow> GoCoordId set \<Rightarrow> GoCoordId set" where
  "freed B c R S = {t. \<exists>n\<in>S. (t, n) \<in> R \<and> B n = c}"

definition around :: "GoCoordId set \<Rightarrow> (GoCoordId \<times> GoCoordId) set" where
  "around D = {(t, n). t \<in> D \<and> adj t n}"

definition relib :: "GoBlock \<Rightarrow> GoBlock \<Rightarrow> GoCoordId set \<Rightarrow> bool \<Rightarrow> bool" where
  "relib b b' F gone \<longleftrightarrow>
     (\<exists>f n. b' = b\<lparr>liberty := n, liberty_state := f, in_use := (in_use b \<and> \<not> gone)\<rparr> \<and>
        bits f = bits (liberty_state b) \<union> F)"

definition capturing :: "zobrist \<Rightarrow> board \<Rightarrow> GoBlockId set \<Rightarrow> (GoBlockId \<Rightarrow> GoCoordId list) \<Rightarrow> GoStoneColor \<Rightarrow>
    GoState \<Rightarrow> GoCoordId set \<Rightarrow> (GoCoordId \<times> GoCoordId) set \<Rightarrow> GoBlockId list \<Rightarrow> GoCoordId \<Rightarrow> GoState \<Rightarrow> bool" where
  "capturing Z B V L c s D R ds k s' \<longleftrightarrow>
     (\<exists>ss bp vp. s' = s\<lparr>stones := ss, block_pool := bp, recycled_blocks := rev ds @ recycled_blocks s,
          board_state := remove B D, ko_position := k,
          zobrist_hash_value := zobrist_hash_value s XOR xsum (z_board Z (other c)) D,
          visited_positions := vp, liberty_count := (\<lambda>p. if p \<in> D then SIZE_NONE else liberty_count s p)\<rparr> \<and>
        compressed (L ` V) (stones s) ss \<and>
        (\<forall>b. relib (block_pool s b) (bp b) (if b \<in> V then freed B c R (set (L b)) else {}) (b \<in> set ds)) \<and>
        (\<forall>b. vp b \<in> {visited_positions s b, timestamp s}) \<and>
        (\<forall>b\<in>V. freed B c R (set (L b)) \<noteq> {} \<longrightarrow> vp b = timestamp s))"

lemma relib_fields:
  assumes "relib b b' F gone"
  shows "color b' = color b" "b_head b' = b_head b" "b_tail b' = b_tail b" "stone_count b' = stone_count b"
    "virtual_liberty_state b' = virtual_liberty_state b" "stone_state b' = stone_state b"
    "in_use b' = (in_use b \<and> \<not> gone)" "bits (liberty_state b') = bits (liberty_state b) \<union> F"
    "block_self_id b' = block_self_id b"
  using assms by (auto simp: relib_def)

lemma relib_refl [simp]: "relib b b {} False"
  unfolding relib_def by (intro exI [of _ "liberty_state b"] exI [of _ "liberty b"]) simp

lemma relib_set:
  assumes "relib b b' F gone" "0 \<le> p" "p < 384"
  shows "relib b (SetLiberty p b') (insert p F) gone"
proof -
  from assms obtain f n where "b' = b\<lparr>liberty := n, liberty_state := f, in_use := (in_use b \<and> \<not> gone)\<rparr>"
    "bits f = bits (liberty_state b) \<union> F" by (auto simp: relib_def)
  with assms(2,3) show ?thesis
    unfolding relib_def by (intro exI [of _ "set_bit_at p f"] exI [of _ n]) (simp add: SetLiberty_def)
qed

lemma relib_recount:
  assumes "relib b b' F gone" shows "relib b (b'\<lparr>liberty := n\<rparr>) F gone"
proof -
  from assms obtain f m where "b' = b\<lparr>liberty := m, liberty_state := f, in_use := (in_use b \<and> \<not> gone)\<rparr>"
    "bits f = bits (liberty_state b) \<union> F" by (auto simp: relib_def)
  then show ?thesis unfolding relib_def by (intro exI [of _ f] exI [of _ n]) simp
qed

lemma relib_retire:
  assumes "relib b b' F gone" shows "relib b (b'\<lparr>in_use := False\<rparr>) F True"
proof -
  from assms obtain f m where "b' = b\<lparr>liberty := m, liberty_state := f, in_use := (in_use b \<and> \<not> gone)\<rparr>"
    "bits f = bits (liberty_state b) \<union> F" by (auto simp: relib_def)
  then show ?thesis unfolding relib_def by (intro exI [of _ f] exI [of _ m]) simp
qed

lemma relib_maps: "relib b b' F gone \<Longrightarrow> maps_ok b xs \<Longrightarrow> maps_ok b' xs"
  by (simp add: maps_ok_def relib_fields)

lemma freed_insert: "freed B c (insert (t, n) R) S = (if n \<in> S \<and> B n = c then insert t (freed B c R S) else freed B c R S)"
  by (auto simp: freed_def)

lemma capturing_fields:
  assumes "capturing Z B V L c s D R ds k s'"
  shows "Self s' = Self s" "Opponent x s' = Opponent x s" "board_state s' = remove B D" "timestamp s' = timestamp s"
    "ko_position s' = k"
    "relib (block_pool s b) (block_pool s' b) (if b \<in> V then freed B c R (set (L b)) else {}) (b \<in> set ds)"
    "compressed (L ` V) (stones s) (stones s')"
proof -
  obtain ss bp vp where s': "s' = s\<lparr>stones := ss, block_pool := bp, recycled_blocks := rev ds @ recycled_blocks s,
          board_state := remove B D, ko_position := k,
          zobrist_hash_value := zobrist_hash_value s XOR xsum (z_board Z (other c)) D,
          visited_positions := vp, liberty_count := (\<lambda>p. if p \<in> D then SIZE_NONE else liberty_count s p)\<rparr>"
    and P: "compressed (L ` V) (stones s) ss"
      "\<forall>b. relib (block_pool s b) (bp b) (if b \<in> V then freed B c R (set (L b)) else {}) (b \<in> set ds)"
    using assms unfolding capturing_def by blast
  show "Self s' = Self s" "Opponent x s' = Opponent x s" "board_state s' = remove B D" "timestamp s' = timestamp s"
    "ko_position s' = k"
    by (simp_all add: s' Self_def Opponent_def)
  show "relib (block_pool s b) (block_pool s' b) (if b \<in> V then freed B c R (set (L b)) else {}) (b \<in> set ds)"
    "compressed (L ` V) (stones s) (stones s')"
    using P(1) P(2) [THEN spec, of b] by (simp_all add: s' split del: if_split)
qed

lemma capturing_shape:
  assumes "shape (block_pool s) (stones s) E V L" and "capturing Z B V L c s D R ds k s'"
  shows "shape (block_pool s') (stones s') E V L"
proof -
  note r = capturing_fields(6) [OF assms(2)]
  show ?thesis
    using shapeD(2) [OF assms(1)] relib_maps [OF r] relib_fields(1) [OF r]
    by (intro shape_cong [OF assms(1) capturing_fields(7) [OF assms(2)]]) auto
qed

lemma free_neighbour_step:
  assumes sh: "shape (block_pool s) (stones s) (B(to := c)) V L" and to: "B to = EMPTY"
    and col: "c \<in> {BLACK, WHITE}" and self: "Self s = c" and D: "\<And>p. p \<in> D \<Longrightarrow> B p = other c"
    and c: "capturing Z B V L c s D R ds k s'" and a: "adj t n"
  shows "\<exists>s''. free_neighbour t n s' = Some s'' \<and> capturing Z B V L c s D (insert (t, n) R) ds k s''"
proof (cases "B n = c")
  case False
  then have "c \<noteq> remove B D n" using player_cases [OF col] by (auto simp: remove_def)
  then have "free_neighbour t n s' = Some s'"
    using self by (simp add: free_neighbour_def capturing_fields [OF c])
  moreover have fr: "freed B c (insert (t, n) R) = freed B c R" using False by (simp add: freed_insert fun_eq_iff)
  have "capturing Z B V L c s D (insert (t, n) R) ds k s'" using c unfolding capturing_def fr .
  ultimately show ?thesis by blast
next
  case True
  have nD: "n \<notin> D" "n \<noteq> to" using True D [of n] player_cases [OF col] to by auto
  then have bs: "board_state s' n = c" using True by (simp add: capturing_fields [OF c] remove_def)
  have IB: "InBoard n" "0 \<le> t" "t < 384" using adj_InBoard [OF a] by (auto simp: InBoard_def)
  have ne: "c \<noteq> EMPTY" using player_cases [OF col] by simp
  from shape_cover [OF sh IB(1)] True nD ne obtain b where b: "b \<in> V" "n \<in> set (L b)" by auto
  from GetBlockIdByCoord_shape [OF capturing_shape [OF sh c] b] bs ne obtain ss'
    where ss': "GetBlockIdByCoord n s' = Some (b, s'\<lparr>stones := ss'\<rparr>)" "compressed (L ` V) (stones s') ss'" by auto
  let ?s = "upd_block b (SetLiberty t) (visit_block b (s'\<lparr>stones := ss'\<rparr>))"
  from c obtain ss bp vp where s': "s' = s\<lparr>stones := ss, block_pool := bp, recycled_blocks := rev ds @ recycled_blocks s,
          board_state := remove B D, ko_position := k,
          zobrist_hash_value := zobrist_hash_value s XOR xsum (z_board Z (other c)) D,
          visited_positions := vp, liberty_count := (\<lambda>p. if p \<in> D then SIZE_NONE else liberty_count s p)\<rparr>"
    and P: "compressed (L ` V) (stones s) ss"
      "\<forall>b. relib (block_pool s b) (bp b) (if b \<in> V then freed B c R (set (L b)) else {}) (b \<in> set ds)"
      "\<forall>b. vp b \<in> {visited_positions s b, timestamp s}" "\<forall>b\<in>V. freed B c R (set (L b)) \<noteq> {} \<longrightarrow> vp b = timestamp s"
    unfolding capturing_def by blast
  have fr: "freed B c (insert (t, n) R) (set (L b')) =
      (if b' = b then insert t (freed B c R (set (L b))) else freed B c R (set (L b')))" if "b' \<in> V" for b'
    using True b that shape_disjoint [OF sh] by (auto simp: freed_insert)
  have "capturing Z B V L c s D (insert (t, n) R) ds k ?s"
    unfolding capturing_def
  proof (intro exI conjI)
    show "?s = s\<lparr>stones := ss', block_pool := bp(b := SetLiberty t (bp b)), recycled_blocks := rev ds @ recycled_blocks s,
          board_state := remove B D, ko_position := k,
          zobrist_hash_value := zobrist_hash_value s XOR xsum (z_board Z (other c)) D,
          visited_positions := vp(b := timestamp s), liberty_count := (\<lambda>p. if p \<in> D then SIZE_NONE else liberty_count s p)\<rparr>"
      by (simp add: s' upd_block_def visit_block_def)
    show "compressed (L ` V) (stones s) ss'" using compressed_trans [OF P(1)] ss'(2) by (simp add: s')
    show "\<forall>b'. relib (block_pool s b') ((bp(b := SetLiberty t (bp b))) b')
        (if b' \<in> V then freed B c (insert (t, n) R) (set (L b')) else {}) (b' \<in> set ds)"
    proof
      fix b'
      have "relib (block_pool s b') (bp b') (if b' \<in> V then freed B c R (set (L b')) else {}) (b' \<in> set ds)"
        using P(2) by blast
      then show "relib (block_pool s b') ((bp(b := SetLiberty t (bp b))) b')
        (if b' \<in> V then freed B c (insert (t, n) R) (set (L b')) else {}) (b' \<in> set ds)"
        using b(1) fr relib_set [of "block_pool s b" "bp b" _ _ t] IB(2,3) by auto
    qed
    show "\<forall>b'. (vp(b := timestamp s)) b' \<in> {visited_positions s b', timestamp s}" using P(3) by auto
    show "\<forall>b'\<in>V. freed B c (insert (t, n) R) (set (L b')) \<noteq> {} \<longrightarrow> (vp(b := timestamp s)) b' = timestamp s"
      using P(4) fr by auto
  qed
  then show ?thesis using ss'(1) bs self by (simp add: free_neighbour_def capturing_fields [OF c])
qed

subsection \<open>Removing a block\<close>

lemma around_simps [simp]: "around {} = {}" "around (insert t D) = around D \<union> {(t, n) |n. adj t n}"
  by (auto simp: around_def)

lemma remove_insert: "(remove B D)(t := EMPTY) = remove B (insert t D)"
  by (auto simp: remove_def fun_eq_iff)

lemma remove_stone_step:
  assumes sh: "shape (block_pool s) (stones s) (B(to := c)) V L" and to: "B to = EMPTY"
    and col: "c \<in> {BLACK, WHITE}" and self: "Self s = c" and D: "\<And>p. p \<in> D \<Longrightarrow> B p = other c" "finite D"
    and c: "capturing Z B V L c s D (around D) ds k s'" and t: "InBoard t" "t \<notin> D"
  shows "\<exists>s''. remove_stone Z t s' = Some s'' \<and> capturing Z B V L c s (insert t D) (around (insert t D)) ds k s''"
proof -
  have "\<exists>s1. foldo (free_neighbour t) (nei t) s' = Some s1 \<and>
      capturing Z B V L c s D (around D \<union> {(t, n) |n. n \<in> set (nei t)}) ds k s1"
  proof (rule foldo_rule [where P = "\<lambda>dn st. capturing Z B V L c s D (around D \<union> {(t, n) |n. n \<in> set dn}) ds k st"])
    show "capturing Z B V L c s D (around D \<union> {(t, n) |n. n \<in> set []}) ds k s'" using c by simp
  next
    fix dn n rest st
    assume nei: "nei t = dn @ n # rest" and st: "capturing Z B V L c s D (around D \<union> {(t, n) |n. n \<in> set dn}) ds k st"
    have "adj t n" using nei set_nei [OF t(1)] by auto
    moreover have "around D \<union> {(t, m) |m. m \<in> set (dn @ [n])} = insert (t, n) (around D \<union> {(t, m) |m. m \<in> set dn})" by auto
    ultimately show "\<exists>st'. free_neighbour t n st = Some st' \<and>
        capturing Z B V L c s D (around D \<union> {(t, m) |m. m \<in> set (dn @ [n])}) ds k st'"
      using free_neighbour_step [OF sh to col self D(1) st] by simp
  qed
  then obtain s1 where run: "foldo (free_neighbour t) (nei t) s' = Some s1"
    and c1: "capturing Z B V L c s D (around (insert t D)) ds k s1"
    using set_nei [OF t(1)] by auto
  let ?s = "s1\<lparr>board_state := (board_state s1)(t := EMPTY), liberty_count := (liberty_count s1)(t := SIZE_NONE),
       zobrist_hash_value := zobrist_hash_value s1 XOR z_board Z (Opponent COLOR_UNKNOWN s1) t\<rparr>"
  have opp: "Opponent COLOR_UNKNOWN s1 = other c"
    using self unfolding capturing_fields(2) [OF c1] by (simp add: Opponent_def Self_def other_def)
  from c1 obtain ss bp vp where s1: "s1 = s\<lparr>stones := ss, block_pool := bp, recycled_blocks := rev ds @ recycled_blocks s,
          board_state := remove B D, ko_position := k,
          zobrist_hash_value := zobrist_hash_value s XOR xsum (z_board Z (other c)) D,
          visited_positions := vp, liberty_count := (\<lambda>p. if p \<in> D then SIZE_NONE else liberty_count s p)\<rparr>"
    and P: "compressed (L ` V) (stones s) ss \<and>
      (\<forall>b. relib (block_pool s b) (bp b) (if b \<in> V then freed B c (around (insert t D)) (set (L b)) else {}) (b \<in> set ds)) \<and>
      (\<forall>b. vp b \<in> {visited_positions s b, timestamp s}) \<and>
      (\<forall>b\<in>V. freed B c (around (insert t D)) (set (L b)) \<noteq> {} \<longrightarrow> vp b = timestamp s)"
    unfolding capturing_def by blast
  have z: "xsum (z_board Z (other c)) (insert t D) = xsum (z_board Z (other c)) D XOR z_board Z (other c) t"
    using t(2) D(2) by (simp add: ac_simps)
  have "?s = s\<lparr>stones := ss, block_pool := bp, recycled_blocks := rev ds @ recycled_blocks s,
          board_state := remove B (insert t D), ko_position := k,
          zobrist_hash_value := zobrist_hash_value s XOR xsum (z_board Z (other c)) (insert t D),
          visited_positions := vp, liberty_count := (\<lambda>p. if p \<in> insert t D then SIZE_NONE else liberty_count s p)\<rparr>"
    unfolding opp z by (simp add: s1 remove_insert [simplified] xor.assoc fun_eq_iff)
  with P have "capturing Z B V L c s (insert t D) (around (insert t D)) ds k ?s"
    unfolding capturing_def by blast
  with run show ?thesis by (simp add: remove_stone_def)
qed

lemma remove_block:
  assumes sh: "shape (block_pool s) (stones s) (B(to := c)) V L" and to: "B to = EMPTY"
    and col: "c \<in> {BLACK, WHITE}" and self: "Self s = c" and D: "\<And>p. p \<in> D \<Longrightarrow> B p = other c" "finite D"
    and c: "capturing Z B V L c s D (around D) ds k s'"
    and d: "d \<in> V" "\<And>p. p \<in> set (L d) \<Longrightarrow> B p = other c" "set (L d) \<inter> D = {}"
  shows "\<exists>s''. for_blockstone board_fuel next_stone (remove_stone Z) (b_head (block_pool s' d)) s' = Some s'' \<and>
    capturing Z B V L c s (D \<union> set (L d)) (around (D \<union> set (L d))) ds k s''"
proof -
  note S = shapeD [OF sh d(1)]
  have head: "b_head (block_pool s' d) = hd (L d)"
    using S(2) relib_fields(2) [OF capturing_fields(6) [OF c, of d]] by (simp add: maps_ok_def)
  show ?thesis unfolding head
  proof (rule for_blockstone_rule)
    show "length (L d) \<le> board_fuel" using chain_length [OF S(1)] by (simp add: board_fuel_def)
    show "L d \<noteq> []" "distinct (L d)" using S by simp_all
    show "capturing Z B V L c s (D \<union> set []) (around (D \<union> set [])) ds k s'" using c by simp
  next
    fix dn p rest st
    assume l: "L d = dn @ p # rest" and st: "capturing Z B V L c s (D \<union> set dn) (around (D \<union> set dn)) ds k st"
    have p: "InBoard p" "p \<notin> D \<union> set dn" using S(7,8) d(3) l by auto
    have B: "B q = other c" if "q \<in> D \<union> set dn" for q using that D(1) d(2) l by auto
    obtain st' where st': "remove_stone Z p st = Some st'"
      "capturing Z B V L c s (insert p (D \<union> set dn)) (around (insert p (D \<union> set dn))) ds k st'"
      using remove_stone_step [OF sh to col self B _ st p] D(2) by auto
    have "next_stone st' p = next_id (stones s p)"
      using compressed_fields(1) [OF capturing_fields(7) [OF st'(2)]] by (simp add: next_stone_def)
    also have "\<dots> = (if rest = [] then p else hd rest)"
      using S(1) l by (intro next_ok_at [of _ dn]) (auto simp: chain_def)
    finally show "\<exists>st'. remove_stone Z p st = Some st' \<and>
        capturing Z B V L c s (D \<union> set (dn @ [p])) (around (D \<union> set (dn @ [p]))) ds k st' \<and>
        next_stone st' p = (if rest = [] then p else hd rest)"
      using st' by auto
  qed
qed

lemma capturing_recount:
  assumes "capturing Z B V L c s D R ds k s'"
  shows "capturing Z B V L c s D R ds k'
    (s'\<lparr>block_pool := (block_pool s')(b := (block_pool s' b)\<lparr>liberty := n\<rparr>), ko_position := k'\<rparr>)" (is "capturing _ _ _ _ _ _ _ _ _ _ ?s")
proof -
  from assms obtain ss bp vp where s': "s' = s\<lparr>stones := ss, block_pool := bp, recycled_blocks := rev ds @ recycled_blocks s,
          board_state := remove B D, ko_position := k,
          zobrist_hash_value := zobrist_hash_value s XOR xsum (z_board Z (other c)) D,
          visited_positions := vp, liberty_count := (\<lambda>p. if p \<in> D then SIZE_NONE else liberty_count s p)\<rparr>"
    and P: "compressed (L ` V) (stones s) ss \<and>
      (\<forall>b. relib (block_pool s b) (bp b) (if b \<in> V then freed B c R (set (L b)) else {}) (b \<in> set ds)) \<and>
      (\<forall>b. vp b \<in> {visited_positions s b, timestamp s}) \<and>
      (\<forall>b\<in>V. freed B c R (set (L b)) \<noteq> {} \<longrightarrow> vp b = timestamp s)"
    unfolding capturing_def by blast
  let ?bp = "bp(b := (bp b)\<lparr>liberty := n\<rparr>)"
  have "relib (block_pool s b') (?bp b') (if b' \<in> V then freed B c R (set (L b')) else {}) (b' \<in> set ds)" for b'
    using P relib_recount [of "block_pool s b" "bp b"] by (cases "b' = b") (auto split del: if_split)
  moreover have "?s = s\<lparr>stones := ss, block_pool := ?bp, recycled_blocks := rev ds @ recycled_blocks s,
          board_state := remove B D, ko_position := k',
          zobrist_hash_value := zobrist_hash_value s XOR xsum (z_board Z (other c)) D,
          visited_positions := vp, liberty_count := (\<lambda>p. if p \<in> D then SIZE_NONE else liberty_count s p)\<rparr>"
    by (simp add: s')
  ultimately show ?thesis using P unfolding capturing_def by blast
qed

lemma capturing_retire:
  assumes "capturing Z B V L c s D R ds k s'"
  shows "capturing Z B V L c s D R (ds @ [d]) k (RecycleBlock d s')"
proof -
  from assms obtain ss bp vp where s': "s' = s\<lparr>stones := ss, block_pool := bp, recycled_blocks := rev ds @ recycled_blocks s,
          board_state := remove B D, ko_position := k,
          zobrist_hash_value := zobrist_hash_value s XOR xsum (z_board Z (other c)) D,
          visited_positions := vp, liberty_count := (\<lambda>p. if p \<in> D then SIZE_NONE else liberty_count s p)\<rparr>"
    and P: "compressed (L ` V) (stones s) ss \<and>
      (\<forall>b. relib (block_pool s b) (bp b) (if b \<in> V then freed B c R (set (L b)) else {}) (b \<in> set ds)) \<and>
      (\<forall>b. vp b \<in> {visited_positions s b, timestamp s}) \<and>
      (\<forall>b\<in>V. freed B c R (set (L b)) \<noteq> {} \<longrightarrow> vp b = timestamp s)"
    unfolding capturing_def by blast
  let ?bp = "bp(d := (bp d)\<lparr>in_use := False\<rparr>)"
  have "relib (block_pool s b') (?bp b') (if b' \<in> V then freed B c R (set (L b')) else {}) (b' \<in> set (ds @ [d]))" for b'
    using P relib_retire [of "block_pool s d" "bp d"] by (cases "b' = d") (auto split del: if_split)
  moreover have "RecycleBlock d s' = s\<lparr>stones := ss, block_pool := ?bp, recycled_blocks := rev (ds @ [d]) @ recycled_blocks s,
          board_state := remove B D, ko_position := k,
          zobrist_hash_value := zobrist_hash_value s XOR xsum (z_board Z (other c)) D,
          visited_positions := vp, liberty_count := (\<lambda>p. if p \<in> D then SIZE_NONE else liberty_count s p)\<rparr>"
    by (simp add: s' RecycleBlock_def upd_block_def)
  ultimately show ?thesis using P unfolding capturing_def by blast
qed

definition ko_after :: "(GoBlockId \<Rightarrow> GoCoordId list) \<Rightarrow> GoBlockId \<Rightarrow> GoCoordId set \<Rightarrow> GoBlockId list \<Rightarrow> GoCoordId \<Rightarrow> GoCoordId" where
  "ko_after L blk F ds k =
     fold (\<lambda>d k. if length (L d) = 1 \<and> length (L blk) = 1 \<and> card F = 1 then hd (L d) else k) ds k"

lemma ko_after_simps [simp]:
  "ko_after L blk F [] k = k"
  "ko_after L blk F (ds @ [d]) k =
     (if length (L d) = 1 \<and> length (L blk) = 1 \<and> card F = 1 then hd (L d) else ko_after L blk F ds k)"
  by (simp_all add: ko_after_def)

lemma capture_block_step:
  assumes sh: "shape (block_pool s) (stones s) (B(to := c)) V L" and to: "B to = EMPTY"
    and col: "c \<in> {BLACK, WHITE}" and self: "Self s = c" and D: "\<And>p. p \<in> D \<Longrightarrow> B p = other c" "finite D"
    and c: "capturing Z B V L c s D (around D) ds k s'"
    and d: "d \<in> V" "\<And>p. p \<in> set (L d) \<Longrightarrow> B p = other c" "set (L d) \<inter> D = {}"
    and blk: "blk \<in> V" "freed B c (around D) (set (L blk)) \<subseteq> F" "bits (liberty_state (block_pool s blk)) = F"
  shows "\<exists>s''. capture_block Z blk d s' = Some s'' \<and>
    capturing Z B V L c s (D \<union> set (L d)) (around (D \<union> set (L d))) (ds @ [d]) (ko_after L blk F [d] k) s''"
proof -
  have R: "relib (block_pool s b) (block_pool s' b) (freed B c (around D) (set (L b))) (b \<in> set ds)" if "b \<in> V" for b
    using capturing_fields(6) [OF c, of b] that by simp
  have cnt: "stone_count (block_pool s' b) = int (length (L b))" "b_head (block_pool s' b) = hd (L b)" if "b \<in> V" for b
    using shapeD(2) [OF sh that] relib_fields [OF R [OF that]] by (simp_all add: maps_ok_def)
  have lib: "bits (liberty_state (block_pool s' blk)) = F"
    using relib_fields(8) [OF R [OF blk(1)]] blk(2,3) by auto
  let ?k = "ko_after L blk F [d] k"
  let ?s1 = "if 1 = stone_count (block_pool s' d) \<and> 1 = stone_count (block_pool s' blk) then
                  let (b', n) = CountLiberty (block_pool s' blk); s'' = pool_upd blk b' s'
                  in if 1 = n then s''\<lparr>ko_position := b_head (block_pool s'' d)\<rparr> else s''
                else s'"
  have ks: "ko_position s' = k" by (rule capturing_fields(5) [OF c])
  have hd: "b_head (((block_pool s')(blk := (block_pool s' blk)\<lparr>liberty := m\<rparr>)) d) = hd (L d)" for m
    using cnt(2) [OF d(1)] cnt(2) [OF blk(1)] by auto
  have c1: "capturing Z B V L c s D (around D) ds ?k ?s1"
  proof (cases "1 = stone_count (block_pool s' d) \<and> 1 = stone_count (block_pool s' blk)")
    case True
    have s1: "?s1 = s'\<lparr>block_pool := (block_pool s')(blk := (block_pool s' blk)\<lparr>liberty := int (card F)\<rparr>), ko_position := ?k\<rparr>"
      using True hd [of "int (card F)"] ks cnt(1) [OF d(1)] cnt(1) [OF blk(1)]
      by (auto simp: CountLiberty_block lib ko_after_def Let_def)
    show ?thesis unfolding s1 by (rule capturing_recount [OF c])
  next
    case False
    then have "?s1 = s'" by (rule if_not_P)
    moreover have "?k = k" using False cnt(1) [OF d(1)] cnt(1) [OF blk(1)] by (auto simp: ko_after_def)
    ultimately show ?thesis using c by simp
  qed
  from remove_block [OF sh to col self D c1 d] obtain s2
    where "for_blockstone board_fuel next_stone (remove_stone Z) (b_head (block_pool ?s1 d)) ?s1 = Some s2"
    and "capturing Z B V L c s (D \<union> set (L d)) (around (D \<union> set (L d))) ds ?k s2" by blast
  then show ?thesis
    using capturing_retire by (auto simp: capture_block_def Let_def)
qed

subsection \<open>All dying blocks\<close>

lemma capture_loop:
  assumes sh: "shape (block_pool s) (stones s) (B(to := c)) V L" and to: "B to = EMPTY"
    and col: "c \<in> {BLACK, WHITE}" and self: "Self s = c" "board_state s = B"
    and die: "distinct die" "set die \<subseteq> V" "\<And>d p. d \<in> set die \<Longrightarrow> p \<in> set (L d) \<Longrightarrow> B p = other c"
    and D: "D = (\<Union>d\<in>set die. set (L d))"
    and blk: "blk \<in> V" "freed B c (around D) (set (L blk)) \<subseteq> F" "bits (liberty_state (block_pool s blk)) = F"
  shows "\<exists>s'. foldo (capture_block Z blk) die s = Some s' \<and>
    capturing Z B V L c s D (around D) die (ko_after L blk F die (ko_position s)) s'"
  unfolding D
proof (rule foldo_rule)
  have "capturing Z B V L c s {} {} [] (ko_position s) s"
    unfolding capturing_def
  proof (intro exI conjI)
    show "s = s\<lparr>stones := stones s, block_pool := block_pool s, recycled_blocks := rev [] @ recycled_blocks s,
          board_state := remove B {}, ko_position := ko_position s,
          zobrist_hash_value := zobrist_hash_value s XOR xsum (z_board Z (other c)) {},
          visited_positions := visited_positions s,
          liberty_count := (\<lambda>p. if p \<in> {} then SIZE_NONE else liberty_count s p)\<rparr>"
      using self(2) by (simp add: remove_def)
  qed (auto simp: freed_def)
  then show "capturing Z B V L c s (\<Union>d\<in>set []. set (L d)) (around (\<Union>d\<in>set []. set (L d))) []
      (ko_after L blk F [] (ko_position s)) s" by simp
next
  fix dn d rest st
  let ?D = "\<Union>d\<in>set dn. set (L d)"
  assume l: "die = dn @ d # rest" and st: "capturing Z B V L c s ?D (around ?D) dn (ko_after L blk F dn (ko_position s)) st"
  have d: "d \<in> V" "d \<notin> set dn" "set dn \<subseteq> V" using die l by auto
  have B: "\<And>p. p \<in> set (L d) \<Longrightarrow> B p = other c" "\<And>p. p \<in> ?D \<Longrightarrow> B p = other c" using die(3) l by auto
  have disj: "set (L d) \<inter> ?D = {}" using shape_disjoint [OF sh] d by blast
  have fr: "freed B c (around ?D) (set (L blk)) \<subseteq> F"
    using blk(2) l by (auto simp: D freed_def around_def)
  have U: "(\<Union>d\<in>set (dn @ [d]). set (L d)) = ?D \<union> set (L d)" by auto
  have k: "ko_after L blk F [d] k = (if length (L d) = 1 \<and> length (L blk) = 1 \<and> card F = 1 then hd (L d) else k)" for k
    by (simp add: ko_after_def)
  show "\<exists>s'. capture_block Z blk d st = Some s' \<and>
      capturing Z B V L c s (\<Union>d\<in>set (dn @ [d]). set (L d)) (around (\<Union>d\<in>set (dn @ [d]). set (L d))) (dn @ [d])
        (ko_after L blk F (dn @ [d]) (ko_position s)) s'"
    using capture_block_step [OF sh to col self(1) B(2) _ st d(1) B(1) disj blk(1) fr blk(3)]
    unfolding U k by simp
qed

lemma captured_color: "q \<in> captured B c to \<Longrightarrow> B q = other c"
proof -
  assume "q \<in> captured B c to"
  then obtain n where "B n = other c" "q \<in> grp B n" by (auto simp: captured_def)
  then show ?thesis using group_color [of q B n] by simp
qed

lemma play_remove:
  assumes "B to \<noteq> other c"
  shows "play B c to = remove (B(to := c)) (captured B c to)"
  using assms captured_color [of _ B c to] by (auto simp: play_def remove_def fun_eq_iff)

lemma captured_board: "q \<in> captured B c to \<Longrightarrow> InBoard q"
proof -
  assume "q \<in> captured B c to"
  then obtain n where "adj to n" "q \<in> grp B n" by (auto simp: captured_def)
  then show ?thesis using adj_InBoard [of to n] group_InBoard [of q B n] by simp
qed

lemma finite_captured [simp]: "finite (captured B c to)"
  by (rule board_finite) (auto dest: captured_board)

lemma libs_remove: "libs (remove E D) S = libs E S \<union> (D \<inter> frontier S)"
  by (auto simp: libs_def remove_def)

lemma capture_core:
  assumes sh: "shape (block_pool s) (stones s) (B(to := c)) V L" and to: "B to = EMPTY"
    and col: "c \<in> {BLACK, WHITE}" and die: "set die \<subseteq> V" "blk \<notin> set die"
    and D: "captured B c to = (\<Union>d\<in>set die. set (L d))"
    and blk: "blk \<in> V" "to \<in> set (L blk)"
    and lib: "\<And>b. b \<in> V \<Longrightarrow> bits (liberty_state (block_pool s b)) =
       libs (if b = blk then play B c to else B(to := c)) (set (L b))"
    and c: "capturing Z B V L c s (captured B c to) (around (captured B c to)) die k s'"
  shows "core (block_pool s') (stones s') (play B c to) (V - set die) L"
proof -
  let ?E = "B(to := c)" and ?D = "captured B c to"
  note sh' = capturing_shape [OF sh c] and S = shapeD [OF capturing_shape [OF sh c]]
  have play: "play B c to = remove ?E ?D" using to player_cases [OF col] by (intro play_remove) auto
  have pl: "libs (play B c to) S = libs ?E S \<union> (?D \<inter> frontier S)" for S
    by (simp only: play libs_remove)
  have out: "p \<notin> ?D" if "b \<in> V - set die" "p \<in> set (L b)" for b p
    using that die shape_disjoint [OF sh'] unfolding D by blast
  have same: "remove ?E ?D p = ?E p \<and> grp (remove ?E ?D) p = grp ?E p" if b: "b \<in> V - set die" "p \<in> set (L b)" for b p
  proof -
    have "b \<in> V" using b by simp
    then have "?E p \<noteq> EMPTY" using S(3,4) [of b] b(2) by metis
    moreover have "r \<in> ?D" if "q \<in> ?D" "r \<in> grp ?E q" for q r
      using that S(5) die(1) unfolding D by blast
    ultimately show ?thesis using remove_group [of ?D ?E p] out [OF b] by (simp add: remove_def)
  qed
  have "colors_ok (remove ?E ?D)" using shape_colors [OF sh'] by (auto simp: colors_ok_def remove_def)
  moreover have "\<exists>b\<in>V - set die. p \<in> set (L b)" if "InBoard p" "remove ?E ?D p \<noteq> EMPTY" for p
    using that shape_cover [OF sh', of p] unfolding D by (auto simp: remove_def split: if_splits)
  ultimately have "shape (block_pool s') (stones s') (play B c to) (V - set die) L"
    unfolding play using sh' same by (simp add: shape_def)
  moreover have "bits (liberty_state (block_pool s' b)) = libs (play B c to) (set (L b))" if b: "b \<in> V - set die" for b
  proof -
    have bV: "b \<in> V" using b by simp
    have eq: "bits (liberty_state (block_pool s' b)) =
        libs (if b = blk then play B c to else ?E) (set (L b)) \<union> freed B c (around ?D) (set (L b))"
      using relib_fields(8) [OF capturing_fields(6) [OF c, of b]] lib [OF bV] bV by simp
    have fr: "freed B c (around ?D) (set (L b)) \<subseteq> ?D \<inter> frontier (set (L b))"
      using out [OF b] by (auto simp: freed_def around_def frontier_def adj_sym)
    show ?thesis
    proof (cases "b = blk")
      case True
      with eq fr pl [of "set (L b)"] show ?thesis by auto
    next
      case False
      have no: "to \<notin> set (L b)" using shape_disjoint [OF sh' bV blk(1)] blk(2) False by auto
      have "?D \<inter> frontier (set (L b)) \<subseteq> freed B c (around ?D) (set (L b))"
      proof
        fix t assume t: "t \<in> ?D \<inter> frontier (set (L b))"
        then obtain n where n: "n \<in> set (L b)" "adj n t" "t \<notin> set (L b)" by (auto simp: frontier_def)
        have "B n = c"
        proof (rule ccontr)
          assume "B n \<noteq> c"
          moreover have "?E n = color (block_pool s' b)" "color (block_pool s' b) \<in> {BLACK, WHITE}"
            using S(4) [OF bV n(1)] shape_tail_color [OF sh' bV] by auto
          moreover have "n \<noteq> to" using n(1) no by auto
          ultimately have "?E n = other c" using col by (auto simp: other_def)
          moreover have "?E t = other c" using captured_color [of t B c to] t to player_cases [OF col] by auto
          ultimately have "t \<in> grp ?E n" using group_step [of n ?E n t] n(2) by simp
          with S(5) [OF bV n(1)] n(3) show False by simp
        qed
        with t n show "t \<in> freed B c (around ?D) (set (L b))"
          by (auto simp: freed_def around_def adj_sym)
      qed
      with fr have "freed B c (around ?D) (set (L b)) = ?D \<inter> frontier (set (L b))" by (rule subset_antisym)
      with eq False pl [of "set (L b)"] show ?thesis by simp
    qed
  qed
  ultimately show ?thesis by (simp add: core_def)
qed

end
