(* ===== verification/Go_Sensible.thy ===== *)
theory Go_Sensible
  imports Go_Try
begin

text \<open>
  The block allocator and the legality map. \<open>live\<close> are the blocks in use; taking a block never
  returns one of them. \<open>GetSensibleMove\<close> borrows a block for its trial moves, hands it back, and
  sets the map to \<open>sensible\<close>: the point is empty and not the ko point, and it has an empty
  neighbour, or its group has a liberty once the captured stones are off and the position
  after the move has not been recorded yet.
\<close>

subsection \<open>Allocating blocks\<close>

definition live :: "GoState \<Rightarrow> GoBlockId set" where
  "live s = {b. 0 \<le> b \<and> b < block_in_use s \<and> in_use (block_pool s b)}"

definition pool_ok :: "GoState \<Rightarrow> bool" where
  "pool_ok s \<longleftrightarrow> 0 \<le> block_in_use s \<and> block_in_use s \<le> MAX_BLOCK_SIZE \<and> distinct (recycled_blocks s) \<and>
     (\<forall>b\<in>set (recycled_blocks s). 0 \<le> b \<and> b < block_in_use s \<and> \<not> in_use (block_pool s b))"

definition taken :: "GoState \<Rightarrow> GoBlockId \<Rightarrow> GoState \<Rightarrow> bool" where
  "taken s b s' \<longleftrightarrow> b \<notin> live s \<and> 0 \<le> b \<and> b < block_in_use s' \<and> b \<notin> set (recycled_blocks s') \<and>
     live s' = live s \<and> pool_ok s' \<and> block_in_use s \<le> block_in_use s' \<and>
     block_in_use s' \<le> block_in_use s + (if recycled_blocks s = [] then 1 else 0) \<and>
     s' = s\<lparr>block_pool := (block_pool s)(b := BlockReset (block_pool s b)),
       recycled_blocks := recycled_blocks s', block_in_use := block_in_use s'\<rparr>"

lemma GetNewBlock_spec:
  assumes ok: "pool_ok s" and room: "block_in_use s < MAX_BLOCK_SIZE"
  shows "\<exists>b s'. GetNewBlock s = Some (b, s') \<and> taken s b s'"
proof (cases "recycled_blocks s")
  case Nil
  let ?b = "block_in_use s"
  have w: "wrap16 (?b + 1) = ?b + 1" using ok room by (intro wrap16_id) (simp_all add: pool_ok_def)
  then have "GetNewBlock s = Some (?b, s\<lparr>block_pool := (block_pool s)(?b := BlockReset (block_pool s ?b)),
       block_in_use := ?b + 1\<rparr>)" (is "_ = Some (_, ?s)")
    using Nil ok room by (simp add: GetNewBlock_def upd_block_def pool_ok_def)
  moreover have "taken s ?b ?s"
    using Nil ok room by (auto simp: taken_def live_def pool_ok_def BlockReset_def)
  ultimately show ?thesis by blast
next
  case (Cons b rs)
  then have b: "0 \<le> b" "b < block_in_use s" "\<not> in_use (block_pool s b)" "b \<notin> set rs"
    using ok by (auto simp: pool_ok_def)
  then have "GetNewBlock s = Some (b, s\<lparr>block_pool := (block_pool s)(b := BlockReset (block_pool s b)),
       recycled_blocks := rs\<rparr>)" (is "_ = Some (_, ?s)")
    using Cons room by (simp add: GetNewBlock_def upd_block_def)
  moreover have "taken s b ?s"
    using Cons ok b by (auto simp: taken_def live_def pool_ok_def BlockReset_def)
  ultimately show ?thesis by blast
qed

lemma taken_fields:
  assumes "taken s b s'"
  shows "stones s' = stones s" "board_state s' = board_state s" "current_player s' = current_player s"
    "Self s' = Self s" "Opponent x s' = Opponent x s" "legal_move_map s' = legal_move_map s"
    "ko_position s' = ko_position s" "positional_superko s' = positional_superko s"
    "board_hash_states s' = board_hash_states s" "zobrist_hash_value s' = zobrist_hash_value s"
    "timestamp s' = timestamp s" "liberty_count s' = liberty_count s" "last_position s' = last_position s"
    "is_double_pass s' = is_double_pass s" "feature_history_list s' = feature_history_list s"
    "move_count s' = move_count s" "visited_positions s' = visited_positions s"
    "block_pool s' = (block_pool s)(b := BlockReset (block_pool s b))"
proof -
  have eq: "s' = s\<lparr>block_pool := (block_pool s)(b := BlockReset (block_pool s b)),
       recycled_blocks := recycled_blocks s', block_in_use := block_in_use s'\<rparr>"
    using assms by (simp add: taken_def)
  show "stones s' = stones s" "board_state s' = board_state s" "current_player s' = current_player s"
    "Self s' = Self s" "Opponent x s' = Opponent x s" "legal_move_map s' = legal_move_map s"
    "ko_position s' = ko_position s" "positional_superko s' = positional_superko s"
    "board_hash_states s' = board_hash_states s" "zobrist_hash_value s' = zobrist_hash_value s"
    "timestamp s' = timestamp s" "liberty_count s' = liberty_count s" "last_position s' = last_position s"
    "is_double_pass s' = is_double_pass s" "feature_history_list s' = feature_history_list s"
    "move_count s' = move_count s" "visited_positions s' = visited_positions s"
    "block_pool s' = (block_pool s)(b := BlockReset (block_pool s b))"
    by (subst eq, simp add: Self_def Opponent_def)+
qed

lemma taken_core:
  assumes "core (block_pool s) (stones s) E (live s) L" and "taken s b s'"
  shows "core (block_pool s') (stones s') E (live s) L"
proof -
  have "b \<notin> live s" using assms(2) by (simp add: taken_def)
  then show ?thesis
    using assms(1) unfolding taken_fields [OF assms(2)] by (intro core_cong [OF assms(1)]) auto
qed

lemma RecycleBlock_fields [simp]:
  "block_pool (RecycleBlock b s) = (block_pool s)(b := (block_pool s b)\<lparr>in_use := False\<rparr>)"
  "recycled_blocks (RecycleBlock b s) = b # recycled_blocks s" "stones (RecycleBlock b s) = stones s"
  "block_in_use (RecycleBlock b s) = block_in_use s" "board_state (RecycleBlock b s) = board_state s"
  "current_player (RecycleBlock b s) = current_player s" "legal_move_map (RecycleBlock b s) = legal_move_map s"
  "ko_position (RecycleBlock b s) = ko_position s" "positional_superko (RecycleBlock b s) = positional_superko s"
  "board_hash_states (RecycleBlock b s) = board_hash_states s" "zobrist_hash_value (RecycleBlock b s) = zobrist_hash_value s"
  "liberty_count (RecycleBlock b s) = liberty_count s" "last_position (RecycleBlock b s) = last_position s"
  "is_double_pass (RecycleBlock b s) = is_double_pass s" "timestamp (RecycleBlock b s) = timestamp s"
  "feature_history_list (RecycleBlock b s) = feature_history_list s" "move_count (RecycleBlock b s) = move_count s"
  by (simp_all add: RecycleBlock_def upd_block_def)

subsection \<open>The hash of a position after a move\<close>

definition move_hash :: "zobrist \<Rightarrow> GoState \<Rightarrow> GoCoordId \<Rightarrow> u64" where
  "move_hash Z s p = player_flip Z s (zobrist_hash_value s) XOR z_board Z (Self s) p XOR
     xsum (z_board Z (other (Self s))) (captured (board_state s) (Self s) p)"

lemma dead_hash_spec:
  assumes c: "core (block_pool s) (stones s) B V L" and die: "set die \<subseteq> V" "distinct die"
    and self: "Self s = c"
  shows "dead_hash Z s die h = Some (h XOR xsum (z_board Z (other c)) (\<Union>d\<in>set die. set (L d)))"
proof -
  have opp: "Opponent COLOR_UNKNOWN s = other c" using self by (simp add: Opponent_def Self_def other_def)
  let ?f = "z_board Z (other c)"
  have "\<exists>h'. dead_hash Z s die h = Some h' \<and> h' = h XOR xsum ?f (\<Union>d\<in>set die. set (L d))"
    unfolding dead_hash_def opp
  proof (rule foldo_rule)
    show "h = h XOR xsum ?f (\<Union>d\<in>set []. set (L d))" by simp
  next
    fix dn d rest h0
    let ?D = "\<Union>d\<in>set dn. set (L d)"
    assume l: "die = dn @ d # rest" and h0: "h0 = h XOR xsum ?f ?D"
    have d: "d \<in> V" "d \<notin> set dn" "set dn \<subseteq> V" using die l by auto
    note D = coreD [OF c d(1)]
    have head: "b_head (block_pool s d) = hd (L d)" using D(2) by (simp add: maps_ok_def)
    have "\<exists>h'. for_blockstone board_fuel (\<lambda>_. next_stone s) (\<lambda>tid h. Some (h XOR ?f tid)) (hd (L d)) h0 = Some h' \<and>
        h' = h0 XOR xsum ?f (set (L d))"
    proof (rule for_blockstone_rule)
      show "length (L d) \<le> board_fuel" using chain_length [OF D(1)] by (simp add: board_fuel_def)
      show "L d \<noteq> []" "distinct (L d)" using D by simp_all
      show "h0 = h0 XOR xsum ?f (set [])" by simp
    next
      fix ds p ps g
      assume ld: "L d = ds @ p # ps" and g: "g = h0 XOR xsum ?f (set ds)"
      have "p \<notin> set ds" using D(8) ld by simp
      then have "g XOR ?f p = h0 XOR xsum ?f (set (ds @ [p]))" by (simp add: g ac_simps)
      moreover have "next_stone s p = (if ps = [] then p else hd ps)"
        unfolding next_stone_def using D(1) ld by (intro next_ok_at [of _ ds]) (simp add: chain_def)
      ultimately show "\<exists>g'. Some (g XOR ?f p) = Some g' \<and> g' = h0 XOR xsum ?f (set (ds @ [p])) \<and>
          next_stone s p = (if ps = [] then p else hd ps)" by simp
    qed
    moreover have "h0 XOR xsum ?f (set (L d)) = h XOR xsum ?f (\<Union>d\<in>set (dn @ [d]). set (L d))"
    proof -
      have "set (L d) \<inter> ?D = {}" using core_disjoint [OF c] d by blast
      then have "xsum ?f (?D \<union> set (L d)) = xsum ?f ?D XOR xsum ?f (set (L d))"
        by (intro xsum_Un) auto
      moreover have "(\<Union>d\<in>set (dn @ [d]). set (L d)) = ?D \<union> set (L d)" by auto
      ultimately show ?thesis by (simp add: h0 xor.assoc)
    qed
    ultimately show "\<exists>h'. for_blockstone board_fuel (\<lambda>_. next_stone s) (\<lambda>tid h. Some (h XOR ?f tid))
        (b_head (block_pool s d)) h0 = Some h' \<and> h' = h XOR xsum ?f (\<Union>d\<in>set (dn @ [d]). set (L d))"
      by (simp add: head)
  qed
  then show ?thesis by simp
qed

subsection \<open>The legality map\<close>

definition has_empty_neighbour :: "board \<Rightarrow> GoCoordId \<Rightarrow> bool" where
  "has_empty_neighbour B p \<longleftrightarrow> (\<exists>q. adj p q \<and> B q = EMPTY)"

definition sensible :: "zobrist \<Rightarrow> u64 set \<Rightarrow> GoState \<Rightarrow> GoCoordId \<Rightarrow> bool" where
  "sensible Z H s p \<longleftrightarrow> board_state s p = EMPTY \<and> p \<noteq> ko_position s \<and>
     (has_empty_neighbour (board_state s) p \<or>
      libs (play (board_state s) (Self s) p) (grp ((board_state s)(p := Self s)) p) \<noteq> {} \<and>
      (positional_superko s \<longrightarrow> move_hash Z s p \<notin> H))"

lemma near_legal:
  "near L V blk s s' \<Longrightarrow> near L V blk (s\<lparr>legal_move_map := m\<rparr>) (s'\<lparr>legal_move_map := m\<rparr>)"
  unfolding near_def by (elim exE conjE, rule_tac x = ss in exI, rule_tac x = bp in exI) simp

lemma near_recount_blk: "near L V blk s s' \<Longrightarrow> near L V blk s (pool_upd blk b s')"
  using near_trans [of L V blk s s' "upd_block blk (\<lambda>_. b) s'"] near_upd_block [of L V blk s' "\<lambda>_. b"]
  by (simp add: upd_block_def)

definition surveyed :: "zobrist \<Rightarrow> (GoBlockId \<Rightarrow> GoCoordId list) \<Rightarrow> GoBlockId set \<Rightarrow> GoBlockId \<Rightarrow> GoState \<Rightarrow>
    GoCoordId list \<Rightarrow> GoState \<Rightarrow> bool" where
  "surveyed Z L V blk s dn st \<longleftrightarrow>
     (\<exists>m. near L V blk (s\<lparr>legal_move_map := m\<rparr>) st \<and> (\<forall>p. m p \<longleftrightarrow> p \<in> set dn \<and> sensible Z (board_hash_states s) s p))"

lemma sensible_point_step:
  assumes core: "core (block_pool s) (stones s) (board_state s) V L" and blk: "blk \<notin> V"
    and self: "Self s = c" "c \<in> {BLACK, WHITE}" and i: "InBoard i" "i \<notin> set dn"
    and st: "surveyed Z L V blk s dn st"
  shows "\<exists>st'. sensible_point Z blk i st = Some st' \<and> surveyed Z L V blk s (dn @ [i]) st'"
proof -
  let ?B = "board_state s"
  from st obtain m where near: "near L V blk (s\<lparr>legal_move_map := m\<rparr>) st"
    and m: "\<And>p. m p \<longleftrightarrow> p \<in> set dn \<and> sensible Z (board_hash_states s) s p" by (auto simp: surveyed_def)
  note N = near_fields [OF near]
  have st_fields: "board_state st = ?B" "ko_position st = ko_position s" using N by simp_all
  have mi: "\<not> m i" using m i by simp
  have keep: "surveyed Z L V blk s (dn @ [i]) st" if "\<not> sensible Z (board_hash_states s) s i"
    unfolding surveyed_def using near m that by (intro exI [of _ m]) auto
  let ?empty = "list_ex (\<lambda>nb. EMPTY = board_state st nb) (nei i)"
  have empty: "?empty = has_empty_neighbour ?B i"
    using set_nei [OF i(1)] by (auto simp: list_ex_iff has_empty_neighbour_def st_fields(1))
  let ?s1 = "st\<lparr>legal_move_map := (legal_move_map st)(i := True)\<rparr>"
  have s1: "near L V blk (s\<lparr>legal_move_map := m(i := True)\<rparr>) ?s1"
    using near_legal [OF near, of "m(i := True)"] N(13) by simp
  have mark: "surveyed Z L V blk s (dn @ [i]) s2"
    if "near L V blk (s\<lparr>legal_move_map := m(i := sensible Z (board_hash_states s) s i)\<rparr>) s2" for s2
    unfolding surveyed_def using that m i by (intro exI [of _ "m(i := sensible Z (board_hash_states s) s i)"]) auto
  consider (skip) "?B i \<noteq> EMPTY \<or> ko_position s = i"
    | (free) "?B i = EMPTY" "ko_position s \<noteq> i" "has_empty_neighbour ?B i"
    | (trial) "?B i = EMPTY" "ko_position s \<noteq> i" "\<not> has_empty_neighbour ?B i" by blast
  then show ?thesis
  proof cases
    case skip
    then have "sensible_point Z blk i st = Some st" by (auto simp: sensible_point_def st_fields)
    moreover have "\<not> sensible Z (board_hash_states s) s i" using skip by (auto simp: sensible_def)
    ultimately show ?thesis using keep by blast
  next
    case free
    then have "sensible_point Z blk i st = Some ?s1"
      using empty by (simp add: sensible_point_def st_fields)
    moreover have "sensible Z (board_hash_states s) s i" using free by (auto simp: sensible_def)
    ultimately show ?thesis using mark [of ?s1] s1 by simp
  next
    case trial
    have c1: "core (block_pool ?s1) (stones ?s1) (board_state ?s1) V L"
      using near_core [OF _ s1 blk, of ?B] core near_fields(3) [OF s1] by simp
    have "board_state ?s1 i = EMPTY" "legal_move_map ?s1 i" "Self ?s1 = c"
      using trial(1) st_fields(1) near_fields(17) [OF s1] self by (simp_all add: Self_def)
    from TryMove_spec [OF c1 blk i(1) this self(2)] obtain cnt nb die s2
      where tm: "TryMove blk i GOBOARD_SIZE ?s1 = Some (cnt, Some (nb, die), s2)"
        and tr: "trial_result (board_state ?s1) L V blk c i ?s1 cnt nb die s2" by blast
    have tr: "nb = sorted_list_of_set (touching L V i)" "die = filter (dying ?B L c i) nb"
      "near L V blk ?s1 s2" "trial_block ?B c i (block_pool s2 blk)"
      using tr st_fields(1) by (simp_all add: trial_result_def)
    let ?n = "int (card (libs (play ?B c i) (grp (?B(i := c)) i)))"
    let ?s3 = "pool_upd blk (fst (CountLiberty (block_pool s2 blk))) s2"
    have cnt: "snd (CountLiberty (block_pool s2 blk)) = ?n"
      using tr(4) by (simp add: CountLiberty_block trial_block_def Let_def)
    have near3: "near L V blk (s\<lparr>legal_move_map := m(i := True)\<rparr>) ?s3"
      by (rule near_recount_blk [OF near_trans [OF s1 tr(3)]])
    note F3 = near_fields [OF near3]
    have off: "near L V blk (s\<lparr>legal_move_map := m(i := False)\<rparr>) (?s3\<lparr>legal_move_map := (legal_move_map ?s3)(i := False)\<rparr>)"
      using near_legal [OF near3, of "m(i := False)"] F3(13) by simp
    have c3: "core (block_pool ?s3) (stones ?s3) ?B V L"
      using near_core [OF _ near3 blk, of ?B] core by simp
    have nbV: "set nb = touching L V i" "distinct nb" "set die \<subseteq> V" "distinct die"
      using finite_touching [OF core] tr(1,2) by (auto simp: touching_def)
    have "Self ?s3 = c" using F3(17) self by (simp add: Self_def)
    then have hash: "dead_hash Z ?s3 die (player_flip Z ?s3 (zobrist_hash_value ?s3) XOR z_board Z (Self ?s3) i) =
        Some (move_hash Z s i)"
      using dead_hash_spec [OF c3 nbV(3,4)] touching_captured [OF core self(2) nbV(1)] F3(10,17,18) tr(2) self
      by (simp add: move_hash_def player_flip_def Self_def Opponent_def xor.assoc)
    have sens: "sensible Z (board_hash_states s) s i \<longleftrightarrow> 0 < ?n \<and> (positional_superko s \<longrightarrow> move_hash Z s i \<notin> board_hash_states s)"
      using trial self by (auto simp: sensible_def card_gt_0_iff)
    have run: "sensible_point Z blk i st =
        (if ?n \<le> 0 then Some (?s3\<lparr>legal_move_map := (legal_move_map ?s3)(i := False)\<rparr>)
         else if positional_superko s \<and> move_hash Z s i \<in> board_hash_states s
              then Some (?s3\<lparr>legal_move_map := (legal_move_map ?s3)(i := False)\<rparr>)
              else Some ?s3)"
    proof -
      define n b' s3 where "n = ?n" and "b' = fst (CountLiberty (block_pool s2 blk))" and "s3 = ?s3"
      have cl: "CountLiberty (block_pool s2 blk) = (b', n)"
        by (rule prod_eqI) (simp_all add: cnt n_def b'_def)
      have tm': "TryMove blk i 361 ?s1 = Some (cnt, Some (nb, die), s2)" using tm by simp
      have s3: "pool_upd blk b' s2 = s3" by (simp add: s3_def b'_def)
      have "dead_hash Z s3 die (player_flip Z s3 (zobrist_hash_value s3) XOR z_board Z (Self s3) i) = Some (move_hash Z s i)"
        using hash unfolding s3_def .
      moreover have "positional_superko s3 = positional_superko s" "board_hash_states s3 = board_hash_states s"
        using F3(8,9) by (simp_all add: s3_def)
      moreover have "sensible_point Z blk i st =
        (if n \<le> 0 then Some (s3\<lparr>legal_move_map := (legal_move_map s3)(i := False)\<rparr>)
         else if positional_superko s3 then do {
            h \<leftarrow> dead_hash Z s3 die (player_flip Z s3 (zobrist_hash_value s3) XOR z_board Z (Self s3) i);
            if h \<in> board_hash_states s3
            then Some (s3\<lparr>legal_move_map := (legal_move_map s3)(i := False)\<rparr>)
            else Some s3 }
          else Some s3)"
        using trial empty by (simp add: sensible_point_def st_fields tm' cl s3)
      ultimately show ?thesis unfolding s3_def [symmetric] n_def [symmetric] by simp
    qed
    show ?thesis
    proof (cases "sensible Z (board_hash_states s) s i")
      case True
      then have "\<not> ?n \<le> 0" "\<not> (positional_superko s \<and> move_hash Z s i \<in> board_hash_states s)"
        using sens by (simp_all only: not_le) blast
      from run [unfolded if_not_P [OF this(1)] if_not_P [OF this(2)]]
      have "sensible_point Z blk i st = Some ?s3" .
      then show ?thesis using mark [of ?s3] near3 True by simp
    next
      case False
      then have "?n \<le> 0 \<or> \<not> ?n \<le> 0 \<and> positional_superko s \<and> move_hash Z s i \<in> board_hash_states s"
        using sens by linarith
      with run have "sensible_point Z blk i st = Some (?s3\<lparr>legal_move_map := (legal_move_map ?s3)(i := False)\<rparr>)"
        by (elim disjE conjE) (simp_all only: if_True if_False simp_thms)
      then show ?thesis using mark off False by simp
    qed
  qed
qed

subsection \<open>GetSensibleMove\<close>

text \<open>The fields the function leaves alone.\<close>

definition same_position :: "GoState \<Rightarrow> GoState \<Rightarrow> bool" where
  "same_position s s' \<longleftrightarrow> board_state s' = board_state s \<and> current_player s' = current_player s \<and>
     last_position s' = last_position s \<and> ko_position s' = ko_position s \<and> is_double_pass s' = is_double_pass s \<and>
     positional_superko s' = positional_superko s \<and> board_hash_states s' = board_hash_states s \<and>
     zobrist_hash_value s' = zobrist_hash_value s \<and> timestamp s' = timestamp s \<and>
     liberty_count s' = liberty_count s \<and> move_count s' = move_count s"

definition refreshed :: "zobrist \<Rightarrow> (GoBlockId \<Rightarrow> GoCoordId list) \<Rightarrow> GoState \<Rightarrow> GoState \<Rightarrow> bool" where
  "refreshed Z L s s' \<longleftrightarrow> same_position s s' \<and> core (block_pool s') (stones s') (board_state s) (live s) L \<and>
     live s' = live s \<and> pool_ok s' \<and> recycled_blocks s' \<noteq> [] \<and> block_in_use s \<le> block_in_use s' \<and>
     block_in_use s' \<le> block_in_use s + (if recycled_blocks s = [] then 1 else 0) \<and>
     (\<forall>p. legal_move_map s' p \<longleftrightarrow> InBoard p \<and> sensible Z (board_hash_states s) s p) \<and>
     feature_history_list s' = feature_history_list s @ [color_plane BLACK s, color_plane WHITE s]"

lemma sensible_cong:
  "same_position s s' \<Longrightarrow> sensible Z H s' p = sensible Z H s p"
  by (simp add: same_position_def sensible_def move_hash_def player_flip_def Self_def Opponent_def)

lemma GetSensibleMove_spec:
  assumes core: "core (block_pool s) (stones s) (board_state s) (live s) L" and ok: "pool_ok s"
    and room: "block_in_use s < MAX_BLOCK_SIZE" and self: "Self s \<in> {BLACK, WHITE}"
  shows "\<exists>s'. GetSensibleMove Z s = Some s' \<and> refreshed Z L s s'"
proof -
  let ?s3 = "s\<lparr>feature_history_list := feature_history_list s @ [color_plane BLACK s, color_plane WHITE s],
    legal_move_map := (\<lambda>_. False)\<rparr>"
  have l3: "live ?s3 = live s" by (simp add: live_def)
  have "pool_ok ?s3" using ok by (simp add: pool_ok_def)
  then obtain b s4 where new: "GetNewBlock ?s3 = Some (b, s4)" and t: "taken ?s3 b s4"
    using GetNewBlock_spec [of ?s3] room by auto
  note T = t [unfolded taken_def l3] and F = taken_fields [OF t]
  have b: "b \<notin> live s" using T by simp
  have core4: "core (block_pool s4) (stones s4) (board_state s4) (live s) L"
  proof -
    have "recounted (block_pool s x) (block_pool s4 x)" if "x \<in> live s" for x
      using that b F(18) by auto
    moreover have "compressed (L ` live s) (stones s) (stones s4)" using F(1) by simp
    ultimately show ?thesis using core_cong [OF core] F(2) by simp
  qed
  have pos4: "same_position s s4" using F by (simp add: same_position_def)
  have "\<exists>s5. foldo (sensible_point Z b) coords s4 = Some s5 \<and> surveyed Z L (live s) b s4 coords s5"
  proof (rule foldo_rule)
    show "surveyed Z L (live s) b s4 [] s4"
      unfolding surveyed_def using F(6) by (intro exI [of _ "\<lambda>_. False"]) (cases s4, simp)
  next
    fix dn i rest st
    assume l: "coords = dn @ i # rest" and st: "surveyed Z L (live s) b s4 dn st"
    have "i \<in> set (dn @ i # rest)" "distinct (dn @ i # rest)" by (simp, simp only: l [symmetric] distinct_coords)
    then have "i \<in> set coords" and "i \<notin> set dn" by (simp_all only: l) simp
    then have "InBoard i" "i \<notin> set dn" by (simp_all add: InBoard_def)
    then show "\<exists>st'. sensible_point Z b i st = Some st' \<and> surveyed Z L (live s) b s4 (dn @ [i]) st'"
      using sensible_point_step [OF core4 b refl _ _ _ st] self F(4) by (simp add: Self_def)
  qed
  then obtain s5 m where run: "foldo (sensible_point Z b) coords s4 = Some s5"
    and near: "near L (live s) b (s4\<lparr>legal_move_map := m\<rparr>) s5"
    and m: "\<And>p. m p \<longleftrightarrow> InBoard p \<and> sensible Z (board_hash_states s) s p"
    using sensible_cong [OF pos4] F(9) by (auto simp: surveyed_def InBoard_def)
  note N = near_fields [OF near, simplified]
  let ?s' = "RecycleBlock b s5"
  have "GetSensibleMove Z s = Some ?s'"
    using new run by (simp add: GetSensibleMove_def color_plane_def Let_def)
  moreover have "core (block_pool ?s') (stones ?s') (board_state s) (live s) L"
  proof -
    have "core (block_pool s5) (stones s5) (board_state s) (live s) L"
      using near_core [OF _ near b, of "board_state s4"] core4 F(2) by simp
    then show ?thesis by (rule core_cong) (use b in auto)
  qed
  moreover have use: "in_use (block_pool s5 x) = in_use (block_pool s4 x)" if "x \<noteq> b" for x
    using recounted_fields(6) [OF N(20) [OF that]] .
  have "live ?s' = live s" using T use N(2) by (auto simp: live_def)
  moreover have "pool_ok ?s'"
    using T use N(1,2) by (auto simp: pool_ok_def)
  moreover have "same_position s ?s'" "feature_history_list ?s' = feature_history_list s @ [color_plane BLACK s, color_plane WHITE s]"
    using N F by (simp_all add: same_position_def)
  moreover have "legal_move_map ?s' p \<longleftrightarrow> InBoard p \<and> sensible Z (board_hash_states s) s p" for p
    using N(13) m by simp
  ultimately show ?thesis
    using T N(2) by (auto simp: refreshed_def)
qed

end
