(* ===== verification/Go_Move.thy ===== *)
theory Go_Move
  imports Go_Capture Go_Sensible
begin

text \<open>
  \<open>Move\<close> as a whole. \<open>gs_inv\<close> is the invariant of a game position: the pool represents the
  board, no group is without liberties, liberty counts, hash and legality map are right. A
  legal move keeps it and does to the board what the rules say.
\<close>

subsection \<open>Refreshing the liberty counts\<close>

definition recounted_upto :: "board \<Rightarrow> (GoBlockId \<Rightarrow> GoCoordId list) \<Rightarrow> GoBlockId set \<Rightarrow> GoState \<Rightarrow>
    GoBlockId set \<Rightarrow> GoState \<Rightarrow> bool" where
  "recounted_upto P L V s dn s' \<longleftrightarrow>
     (\<exists>bp lc. s' = s\<lparr>block_pool := bp, liberty_count := lc\<rparr> \<and> (\<forall>b. recounted (block_pool s b) (bp b)) \<and>
        (\<forall>p. lc p = (if \<exists>b\<in>V \<inter> dn. visited_positions s b = timestamp s \<and> p \<in> set (L b)
                     then int (card (libs P (grp P p))) else liberty_count s p)))"

lemma recount_block_step:
  assumes core: "core (block_pool s) (stones s) P V L" and live: "in_use (block_pool s b) \<longleftrightarrow> b \<in> V"
    and r: "recounted_upto P L V s dn st"
  shows "\<exists>st'. recount_block b st = Some st' \<and> recounted_upto P L V s (insert b dn) st'"
proof -
  from r obtain bp lc where st: "st = s\<lparr>block_pool := bp, liberty_count := lc\<rparr>"
    and bp: "\<And>b. recounted (block_pool s b) (bp b)"
    and lc: "\<And>p. lc p = (if \<exists>b\<in>V \<inter> dn. visited_positions s b = timestamp s \<and> p \<in> set (L b)
                     then int (card (libs P (grp P p))) else liberty_count s p)"
    unfolding recounted_upto_def by blast
  show ?thesis
  proof (cases "b \<in> V \<and> visited_positions s b = timestamp s")
    case False
    then have "recount_block b st = Some st"
      using live recounted_fields(6) [OF bp, of b] by (auto simp: recount_block_def st)
    moreover have ex: "(\<exists>b\<in>V \<inter> insert b dn. visited_positions s b = timestamp s \<and> p \<in> set (L b)) \<longleftrightarrow>
        (\<exists>b\<in>V \<inter> dn. visited_positions s b = timestamp s \<and> p \<in> set (L b))" for p
      using False by auto
    have "recounted_upto P L V s (insert b dn) st" using r unfolding recounted_upto_def ex .
    ultimately show ?thesis by blast
  next
    case True
    note D = coreD [OF core conjunct1 [OF True]]
    let ?n = "int (card (libs P (set (L b))))"
    let ?bp = "bp(b := (bp b)\<lparr>liberty := ?n\<rparr>)"
    let ?s1 = "s\<lparr>block_pool := ?bp, liberty_count := lc\<rparr>"
    have cl: "CountLiberty (bp b) = ((bp b)\<lparr>liberty := ?n\<rparr>, ?n)"
      using D(6) recounted_fields(7) [OF bp, of b] by (simp add: CountLiberty_block)
    have head: "b_head (bp b) = hd (L b)" using D(2) recounted_fields(3) [OF bp, of b] by (simp add: maps_ok_def)
    let ?upd = "\<lambda>done. s\<lparr>block_pool := ?bp, liberty_count := (\<lambda>p. if p \<in> set done then ?n else lc p)\<rparr>"
    have "\<exists>s2. for_blockstone board_fuel next_stone
             (\<lambda>tid s. Some (s\<lparr>liberty_count := (liberty_count s)(tid := liberty (block_pool s b))\<rparr>)) (hd (L b)) ?s1 = Some s2 \<and>
        s2 = ?upd (L b)"
    proof (rule for_blockstone_rule [where P = "\<lambda>dn u. u = ?upd dn"])
      show "length (L b) \<le> board_fuel" using chain_length [OF D(1)] by (simp add: board_fuel_def)
      show "L b \<noteq> []" "distinct (L b)" using D by simp_all
      show "?s1 = ?upd []" by simp
    next
      fix dn p rest u
      assume l: "L b = dn @ p # rest" and u: "u = ?upd dn"
      have "u\<lparr>liberty_count := (liberty_count u)(p := liberty (block_pool u b))\<rparr> = ?upd (dn @ [p])"
        by (auto simp: u fun_eq_iff)
      moreover have "next_stone (?upd (dn @ [p])) p = (if rest = [] then p else hd rest)"
        using D(1) l next_ok_at [of "stones s" dn p rest] by (simp add: chain_def next_stone_def)
      ultimately show "\<exists>u'. Some (u\<lparr>liberty_count := (liberty_count u)(p := liberty (block_pool u b))\<rparr>) = Some u' \<and>
          u' = ?upd (dn @ [p]) \<and> next_stone u' p = (if rest = [] then p else hd rest)" by simp
    qed
    moreover have ord: "s\<lparr>liberty_count := lc, block_pool := ?bp\<rparr> = ?s1" by simp
    ultimately have "recount_block b st = Some (?upd (L b))"
      using True live recounted_fields(6) [OF bp, of b] by (simp add: recount_block_def st cl head ord)
    moreover have "recounted_upto P L V s (insert b dn) (?upd (L b))"
      unfolding recounted_upto_def
    proof (intro exI conjI allI)
      show "?upd (L b) = s\<lparr>block_pool := ?bp, liberty_count := (\<lambda>p. if p \<in> set (L b) then ?n else lc p)\<rparr>" ..
      fix b'
      have "recounted (bp b) ((bp b)\<lparr>liberty := ?n\<rparr>)" by (auto simp: recounted_def)
      then show "recounted (block_pool s b') (?bp b')"
        using recounted_trans [OF bp [of b]] bp by simp
    next
      fix p
      show "(if p \<in> set (L b) then ?n else lc p) =
          (if \<exists>b\<in>V \<inter> insert b dn. visited_positions s b = timestamp s \<and> p \<in> set (L b)
           then int (card (libs P (grp P p))) else liberty_count s p)"
        using True D(5) [of p] lc [of p] by auto
    qed
    ultimately show ?thesis by blast
  qed
qed

lemma recount_loop:
  assumes core: "core (block_pool s) (stones s) P (live s) L"
  shows "\<exists>s'. foldo recount_block [0..block_in_use s - 1] s = Some s' \<and>
    recounted_upto P L (live s) s {0..<block_in_use s} s'"
proof -
  have "\<exists>s'. foldo recount_block [0..block_in_use s - 1] s = Some s' \<and>
    recounted_upto P L (live s) s (set [0..block_in_use s - 1]) s'"
  proof (rule foldo_rule)
    show "recounted_upto P L (live s) s (set []) s"
      unfolding recounted_upto_def by (intro exI [of _ "block_pool s"] exI [of _ "liberty_count s"]) simp
  next
    fix dn b rest st
    assume l: "[0..block_in_use s - 1] = dn @ b # rest" and r: "recounted_upto P L (live s) s (set dn) st"
    have "b \<in> set (dn @ b # rest)" by simp
    then have "b \<in> set [0..block_in_use s - 1]" unfolding l .
    then have "in_use (block_pool s b) \<longleftrightarrow> b \<in> live s" by (simp add: live_def)
    from recount_block_step [OF core this r]
    show "\<exists>st'. recount_block b st = Some st' \<and> recounted_upto P L (live s) s (set (dn @ [b])) st'" by simp
  qed
  moreover have "set [0..block_in_use s - 1] = {0..<block_in_use s}" by auto
  ultimately show ?thesis by simp
qed

subsection \<open>The invariant of a position\<close>

definition stone_hash :: "zobrist \<Rightarrow> board \<Rightarrow> u64" where
  "stone_hash Z B = xsum (\<lambda>p. z_board Z (B p) p) {p. InBoard p \<and> B p \<noteq> EMPTY}"

definition zhash :: "zobrist \<Rightarrow> GoStoneColor \<Rightarrow> board \<Rightarrow> u64" where
  "zhash Z c B = (if c = BLACK then 0 else z_player Z BLACK XOR z_player Z WHITE) XOR stone_hash Z B"

definition libs_ok :: "board \<Rightarrow> (GoCoordId \<Rightarrow> GoSize) \<Rightarrow> bool" where
  "libs_ok B lc \<longleftrightarrow> (\<forall>p. InBoard p \<longrightarrow>
     (if B p = EMPTY then lc p = SIZE_NONE else libs B (grp B p) \<noteq> {} \<and> lc p = int (card (libs B (grp B p)))))"

definition gs_inv :: "zobrist \<Rightarrow> u64 set \<Rightarrow> GoState \<Rightarrow> bool" where
  "gs_inv Z H s \<longleftrightarrow>
     (\<exists>L. core (block_pool s) (stones s) (board_state s) (live s) L) \<and> pool_ok s \<and>
     (recycled_blocks s = [] \<longrightarrow> block_in_use s = 0) \<and>
     Self s \<in> {BLACK, WHITE} \<and> libs_ok (board_state s) (liberty_count s) \<and>
     zobrist_hash_value s = zhash Z (Self s) (board_state s) \<and>
     (\<forall>p. InBoard p \<longrightarrow> legal_move_map s p = sensible Z H s p)"

end
