(* ===== verification/Go_Play.thy ===== *)
theory Go_Play
  imports Go_Move
begin

text \<open>
  The main theorem on \<open>Move\<close>, assembled from its phases: allocation, trial, joining, capture,
  recount, legality map.
\<close>

definition post_join :: "board \<Rightarrow> (GoBlockId \<Rightarrow> GoCoordId list) \<Rightarrow> GoStoneColor \<Rightarrow> GoBlockId \<Rightarrow> GoCoordId \<Rightarrow>
    GoState \<Rightarrow> GoState \<Rightarrow> bool" where
  "post_join B L c blk to s s' \<longleftrightarrow>
     (let V' = live_after B L (live s) c blk to; L' = lists_after B L (live s) c blk to in
      shape (block_pool s') (stones s') (B(to := c)) V' L' \<and>
      (\<forall>b\<in>V'. bits (liberty_state (block_pool s' b)) =
         libs (if b = blk then play B c to else B(to := c)) (set (L' b))) \<and>
      live s' = V' \<and> pool_ok s' \<and> blk \<notin> live s \<and> block_in_use s \<le> block_in_use s' \<and>
      block_in_use s' \<le> block_in_use s + (if recycled_blocks s = [] then 1 else 0) \<and>
      (\<forall>b\<in>touching L (live s) to. visited_positions s' b = timestamp s) \<and>
      visited_positions s' blk = timestamp s \<and>
      s' = s\<lparr>stones := stones s', block_pool := block_pool s', recycled_blocks := recycled_blocks s',
        block_in_use := block_in_use s', visited_positions := visited_positions s'\<rparr>)"

lemma post_join_fields:
  assumes "post_join B L c blk to s s'"
  shows "board_state s' = board_state s" "current_player s' = current_player s" "last_position s' = last_position s"
    "ko_position s' = ko_position s" "is_double_pass s' = is_double_pass s"
    "positional_superko s' = positional_superko s" "board_hash_states s' = board_hash_states s"
    "zobrist_hash_value s' = zobrist_hash_value s" "timestamp s' = timestamp s"
    "legal_move_map s' = legal_move_map s" "liberty_count s' = liberty_count s" "move_count s' = move_count s"
    "feature_history_list s' = feature_history_list s"
proof -
  have eq: "s' = s\<lparr>stones := stones s', block_pool := block_pool s', recycled_blocks := recycled_blocks s',
        block_in_use := block_in_use s', visited_positions := visited_positions s'\<rparr>"
    using assms unfolding post_join_def Let_def by blast
  show "board_state s' = board_state s" "current_player s' = current_player s" "last_position s' = last_position s"
    "ko_position s' = ko_position s" "is_double_pass s' = is_double_pass s"
    "positional_superko s' = positional_superko s" "board_hash_states s' = board_hash_states s"
    "zobrist_hash_value s' = zobrist_hash_value s" "timestamp s' = timestamp s"
    "legal_move_map s' = legal_move_map s" "liberty_count s' = liberty_count s" "move_count s' = move_count s"
    "feature_history_list s' = feature_history_list s"
    by (subst eq, simp)+
qed

lemma owned_distinct: "distinct bs \<Longrightarrow> distinct (owned B L c bs)"
  by (simp add: owned_def)

lemma place_block_other: "b \<noteq> blk \<Longrightarrow> block_pool (place_block blk to s) b = block_pool s b"
  by (simp add: place_block_fields)

lemma join_loop:
  assumes core: "core (block_pool s) (stones s) B V L" and blk: "blk \<notin> V" and to: "B to = EMPTY" "InBoard to"
    and self: "Self s = c" and nb: "set nb \<subseteq> V" "distinct nb"
  shows "joined B L c blk to (place_block blk to s) nb (fold (join_neighbour blk to) nb (place_block blk to s))"
proof (rule fold_rule)
  show "joined B L c blk to (place_block blk to s) [] (place_block blk to s)"
    by (rule joined_start [OF shape_self_ok [OF core_shape [OF core]] to(2)])
next
  fix dn b rest st
  assume l: "nb = dn @ b # rest" and j: "joined B L c blk to (place_block blk to s) dn st"
  show "joined B L c blk to (place_block blk to s) (dn @ [b]) (join_neighbour blk to b st)"
  proof (rule join_neighbour_step [OF core blk to])
    show "Self (place_block blk to s) = c" using self by (simp add: place_block_fields Self_def)
    show "b \<in> V" "b \<notin> set dn" "set dn \<subseteq> V" using nb l by auto
    show "recounted (block_pool s x) (block_pool (place_block blk to s) x)" if "x \<in> V" for x
      using that blk by (metis place_block_other recounted_refl)
  qed (use j in \<open>simp_all add: place_block_fields\<close>)
qed

lemma post_join_intro:
  assumes core: "core (block_pool s3) (stones s3) B V L" and V: "V = live s" and blk: "blk \<notin> V"
    and to: "B to = EMPTY" "InBoard to" and col: "c \<in> {BLACK, WHITE}"
    and t: "taken s blk s2" and near: "near L V blk s2 s3" and tb: "trial_block B c to (block_pool s3 blk)"
    and nb: "nb = sorted_list_of_set (touching L V to)"
    and j: "joined B L c blk to (place_block blk to s3) nb s5"
  shows "post_join B L c blk to s (visit_block blk s5)"
proof -
  let ?s4 = "place_block blk to s3" and ?own = "owned B L c nb" and ?xs = "joined_list L (owned B L c nb) to"
  let ?V = "live_after B L V c blk to" and ?L = "lists_after B L V c blk to"
  note T = t [unfolded taken_def] and F = taken_fields [OF t] and N = near_fields [OF near]
  have nbs: "set nb = touching L V to" "distinct nb" "set nb \<subseteq> V"
    using finite_touching [OF core] by (auto simp: nb touching_def)
  from j obtain ss where s5: "s5 = ?s4\<lparr>stones := ss, block_pool := joined_pool B L c blk to nb (block_pool ?s4),
          recycled_blocks := rev ?own @ recycled_blocks ?s4,
          visited_positions := (\<lambda>b. if b \<in> set nb then timestamp ?s4 else visited_positions ?s4 b)\<rparr>"
    and ch: "chain ss blk ?xs" "self_ok ss" and keep: "\<forall>q. q \<notin> (\<Union>b\<in>set ?own. set (L b)) \<longrightarrow> ss q = stones ?s4 q"
    unfolding joined_def by blast
  let ?bp4 = "block_pool ?s4" and ?bp = "joined_pool B L c blk to nb (block_pool ?s4)"
  have core4: "core ?bp4 (stones s3) B V L"
  proof (rule core_cong [OF core])
    fix x assume "x \<in> V" then show "recounted (block_pool s3 x) (?bp4 x)"
      using blk by (metis place_block_other recounted_refl)
  qed simp
  have sh: "shape ?bp ss (B(to := c)) ?V ?L \<and> (\<forall>b\<in>?V. bits (liberty_state (?bp b)) =
       libs (if b = blk then play B c to else B(to := c)) (set (?L b)))"
  proof (rule joined_shape [OF core4 blk to(2,1) col])
    show "trial_block B c to (?bp4 blk)" using tb by (simp add: place_block_fields trial_block_def Let_def)
    show "?xs = ?L blk" by (simp add: lists_after_def nb)
    show "ss q = stones s3 q" if "b \<in> ?V" "b \<noteq> blk" "q \<in> set (L b)" for b q
    proof -
      have b: "b \<in> V" "\<not> (b \<in> set nb \<and> B (last (L b)) = c)" using that by (auto simp: live_after_def nbs)
      have "q \<notin> (\<Union>b\<in>set ?own. set (L b))" using b that(3) core_disjoint [OF core] nbs(3) by auto
      moreover have "q \<noteq> to" using coreD(3,4) [OF core b(1)] that(3) to(1) by metis
      ultimately show ?thesis using keep by (simp add: place_block_fields)
    qed
  qed (use ch in \<open>simp_all add: place_block_fields nb\<close>)
  have use: "in_use (?bp x) \<longleftrightarrow> x = blk \<or> in_use (block_pool s x) \<and> x \<notin> set ?own" for x
  proof (cases "x = blk")
    case True
    then show ?thesis by (simp add: joined_pool_def place_block_fields)
  next
    case False
    then have "in_use (block_pool s3 x) = in_use (block_pool s x)"
      using recounted_fields(6) [OF N(20) [OF False]] F(18) by simp
    with False show ?thesis by (auto simp: joined_pool_def place_block_fields ResetLiberty_def)
  qed
  let ?s6 = "visit_block blk s5"
  have s6: "?s6 = s\<lparr>stones := ss, block_pool := ?bp, recycled_blocks := rev ?own @ recycled_blocks s2,
      block_in_use := block_in_use s2, visited_positions := visited_positions ?s6\<rparr>"
    using N F by (intro GoState.equality) (simp_all add: s5 visit_block_def place_block_fields)
  have live2: "live s2 = V" using T V by simp
  have in2: "in_use (block_pool s x) \<and> x \<noteq> blk \<longleftrightarrow> in_use (block_pool s2 x)" for x
    using F(18) by (auto simp: BlockReset_def)
  have own: "set ?own = {b \<in> touching L V to. B (last (L b)) = c}" "set ?own \<subseteq> V" "distinct ?own"
    using nbs owned_distinct by auto
  have rec: "recycled_blocks ?s6 = rev ?own @ recycled_blocks s2" "block_in_use ?s6 = block_in_use s2"
    "block_pool ?s6 = ?bp" "stones ?s6 = ss" by (subst s6, simp)+
  have live6: "live ?s6 = ?V"
  proof (intro set_eqI)
    fix x
    have "x \<in> live ?s6 \<longleftrightarrow> 0 \<le> x \<and> x < block_in_use s2 \<and> (x = blk \<or> in_use (block_pool s2 x) \<and> x \<notin> set ?own)"
      using use [of x] in2 [of x] rec by (auto simp: live_def)
    also have "\<dots> \<longleftrightarrow> x = blk \<or> x \<in> live s2 \<and> x \<notin> set ?own" using T by (auto simp: live_def)
    finally show "x \<in> live ?s6 \<longleftrightarrow> x \<in> ?V" unfolding live2 own(1) by (auto simp: live_after_def)
  qed
  have "0 \<le> x \<and> x < block_in_use s2 \<and> in_use (block_pool s2 x)" if "x \<in> V" for x
    using that unfolding live2 [symmetric] by (simp add: live_def)
  with own T blk have pool6: "pool_ok ?s6"
    unfolding pool_ok_def rec use by (auto simp: pool_ok_def in2 [symmetric])
  have vis: "\<forall>b\<in>touching L V to. visited_positions ?s6 b = timestamp s" "visited_positions ?s6 blk = timestamp s"
    using N F nbs(1) by (auto simp: visit_block_def s5 place_block_fields)
  show ?thesis
    unfolding post_join_def Let_def V [symmetric]
    using sh live6 pool6 vis T s6 blk V rec by simp
qed

subsection \<open>The capture phase\<close>

lemma dying_blocks:
  assumes core: "core bp ss B V L" and col: "c \<in> {BLACK, WHITE}" and blk: "blk \<notin> V"
    and die: "die = filter (dying B L c to) (sorted_list_of_set (touching L V to))"
  shows "distinct die" "set die \<subseteq> live_after B L V c blk to" "blk \<notin> set die"
    "\<And>d. d \<in> set die \<Longrightarrow> lists_after B L V c blk to d = L d"
    "\<And>d p. d \<in> set die \<Longrightarrow> p \<in> set (L d) \<Longrightarrow> B p = other c"
    "(\<Union>d\<in>set die. set (L d)) = captured B c to"
proof -
  let ?nb = "sorted_list_of_set (touching L V to)"
  have nb: "set ?nb = touching L V to" "distinct ?nb" using finite_touching [OF core] by auto
  show "distinct die" using nb by (simp add: die)
  have d: "d \<in> V \<and> d \<noteq> blk \<and> B (last (L d)) \<noteq> c" if "d \<in> set die" for d
    using that nb blk by (auto simp: die touching_def dying_def)
  then show "set die \<subseteq> live_after B L V c blk to" "blk \<notin> set die" by (auto simp: live_after_def)
  show "lists_after B L V c blk to d = L d" if "d \<in> set die" for d
    using d [OF that] by (simp add: lists_after_def)
  show "B p = other c" if "d \<in> set die" "p \<in> set (L d)" for d p
  proof -
    have "d \<in> V" "B (last (L d)) \<noteq> c" using d [OF that(1)] by auto
    moreover have "B p = B (last (L d))" "B p \<in> {BLACK, WHITE}"
      using coreD(4) [OF core calculation(1) that(2)] core_tail_color [OF core calculation(1)] by auto
    ultimately show ?thesis using col by (auto simp: other_def)
  qed
  show "(\<Union>d\<in>set die. set (L d)) = captured B c to"
    unfolding die by (rule touching_captured [OF core col nb(1)])
qed

lemma freed_new_block:
  assumes col: "c \<in> {BLACK, WHITE}"
  shows "freed B c (around (captured B c to)) (grp (B(to := c)) to) \<subseteq> libs (play B c to) (grp (B(to := c)) to)"
proof
  fix t assume "t \<in> freed B c (around (captured B c to)) (grp (B(to := c)) to)"
  then obtain n where n: "t \<in> captured B c to" "n \<in> grp (B(to := c)) to" "adj n t"
    by (auto simp: freed_def around_def adj_sym)
  have "t \<notin> grp (B(to := c)) to"
  proof
    assume "t \<in> grp (B(to := c)) to"
    then have "(B(to := c)) t = c" using group_color [of t "B(to := c)" to] by simp
    moreover have "B t = other c" by (rule captured_color [OF n(1)])
    moreover have "t \<noteq> to"
    proof
      assume "t = to"
      with n(1) obtain q where "adj to q" "libs B (grp B q) = {to}" "to \<in> grp B q"
        by (auto simp: captured_def)
      then show False by (auto simp: libs_def frontier_def)
    qed
    ultimately show False using player_cases [OF col] by simp
  qed
  with n show "t \<in> libs (play B c to) (grp (B(to := c)) to)"
    by (auto simp: libs_def frontier_def play_def)
qed

definition post_capture :: "zobrist \<Rightarrow> board \<Rightarrow> (GoBlockId \<Rightarrow> GoCoordId list) \<Rightarrow> GoStoneColor \<Rightarrow> GoBlockId \<Rightarrow>
    GoCoordId \<Rightarrow> GoBlockId list \<Rightarrow> GoState \<Rightarrow> GoState \<Rightarrow> bool" where
  "post_capture Z B L' c blk to die s s' \<longleftrightarrow>
     capturing Z B (live s) L' c s (captured B c to) (around (captured B c to)) die
       (ko_after L' blk (libs (play B c to) (grp (B(to := c)) to)) die (ko_position s)) s' \<and>
     core (block_pool s') (stones s') (play B c to) (live s') L' \<and>
     live s' = live s - set die \<and> pool_ok s' \<and> block_in_use s' = block_in_use s"

lemma capture_phase:
  assumes core: "core (block_pool s) (stones s) B (live s) L" and B: "board_state s = B" and self: "Self s = c"
    and col: "c \<in> {BLACK, WHITE}" and to: "B to = EMPTY" "InBoard to"
    and j: "post_join B L c blk to s s6"
    and die: "die = filter (dying B L c to) (sorted_list_of_set (touching L (live s) to))"
  shows "\<exists>s7. foldo (capture_block Z blk) die s6 = Some s7 \<and>
    post_capture Z B (lists_after B L (live s) c blk to) c blk to die s6 s7"
proof -
  let ?V = "live_after B L (live s) c blk to" and ?L = "lists_after B L (live s) c blk to"
  let ?D = "captured B c to" and ?G = "grp (B(to := c)) to"
  let ?F = "libs (play B c to) ?G"
  note J = j [unfolded post_join_def Let_def]
  have sh: "shape (block_pool s6) (stones s6) (B(to := c)) ?V ?L"
    and lib: "\<And>b. b \<in> ?V \<Longrightarrow> bits (liberty_state (block_pool s6 b)) =
      libs (if b = blk then play B c to else B(to := c)) (set (?L b))"
    and live6: "live s6 = ?V" and blk: "blk \<notin> live s" and pool6: "pool_ok s6" using J by blast+
  have f6: "Self s6 = c" "board_state s6 = B" using post_join_fields [OF j] self B by (simp_all add: Self_def)
  note dies = dying_blocks [OF core col blk die]
  have blkV: "blk \<in> ?V" by (simp add: live_after_def)
  have xs: "set (?L blk) = ?G" by (rule own_group_list [OF core to(2,1) col])
  have D: "?D = (\<Union>d\<in>set die. set (?L d))" using dies(4,6) by simp
  have "\<exists>s7. foldo (capture_block Z blk) die s6 = Some s7 \<and>
    capturing Z B ?V ?L c s6 ?D (around ?D) die (ko_after ?L blk ?F die (ko_position s6)) s7"
  proof (rule capture_loop [OF sh to(1) col f6 dies(1,2) _ D blkV])
    show "B p = other c" if "d \<in> set die" "p \<in> set (?L d)" for d p
      using that dies(4,5) by simp
    show "freed B c (around ?D) (set (?L blk)) \<subseteq> ?F" unfolding xs by (rule freed_new_block [OF col])
    show "bits (liberty_state (block_pool s6 blk)) = ?F" using lib [OF blkV] xs by simp
  qed
  then obtain s7 where run: "foldo (capture_block Z blk) die s6 = Some s7"
    and cap: "capturing Z B ?V ?L c s6 ?D (around ?D) die (ko_after ?L blk ?F die (ko_position s6)) s7" by blast
  have "core (block_pool s7) (stones s7) (play B c to) (?V - set die) ?L"
    by (rule capture_core [OF sh to(1) col dies(2,3) D blkV _ lib cap]) (simp add: xs)
  moreover have rec: "recycled_blocks s7 = rev die @ recycled_blocks s6" "block_in_use s7 = block_in_use s6"
    using cap by (auto simp: capturing_def)
  have use: "in_use (block_pool s7 x) \<longleftrightarrow> in_use (block_pool s6 x) \<and> x \<notin> set die" for x
    using relib_fields(7) [OF capturing_fields(6) [OF cap, of x]] by simp
  have live7: "live s7 = ?V - set die"
    unfolding live6 [symmetric] using use rec by (auto simp: live_def)
  moreover have "pool_ok s7"
    using pool6 dies(1,2) use rec unfolding live6 [symmetric] by (auto simp: pool_ok_def live_def)
  ultimately have "post_capture Z B ?L c blk to die s6 s7"
    unfolding post_capture_def using cap rec(2) live6 by simp
  with run show ?thesis by blast
qed

subsection \<open>Liberties after the move\<close>

definition breathes :: "board \<Rightarrow> GoStoneColor \<Rightarrow> GoCoordId \<Rightarrow> bool" where
  "breathes B c to \<longleftrightarrow> has_empty_neighbour B to \<or> libs (play B c to) (grp (B(to := c)) to) \<noteq> {}"

lemma breathes_libs:
  assumes "breathes B c to" and col: "c \<in> {BLACK, WHITE}"
  shows "libs (play B c to) (grp (B(to := c)) to) \<noteq> {}"
  using assms(1) unfolding breathes_def
proof
  assume "has_empty_neighbour B to"
  then obtain q where q: "adj to q" "B q = EMPTY" by (auto simp: has_empty_neighbour_def)
  have "q \<noteq> to" using q(1) by auto
  have "q \<notin> grp (B(to := c)) to"
    using group_color [of q "B(to := c)" to] q(2) \<open>q \<noteq> to\<close> col by auto
  then have "q \<in> frontier (grp (B(to := c)) to)" using q(1) by (auto simp: frontier_def intro: bexI [of _ to])
  with q \<open>q \<noteq> to\<close> show ?thesis by (auto simp: libs_def play_def)
qed

lemma play_libs_sub:
  assumes "B to \<noteq> other c" "S \<subseteq> {q. B q \<noteq> EMPTY}" "c \<noteq> EMPTY"
  shows "libs B S - {to} \<subseteq> libs (play B c to) S"
  using play_remove [of B to c] assms libs_place [of S B c to] by (auto simp: libs_remove)

lemma capturing_visited:
  assumes "capturing Z B V L c s D R ds k s'"
  shows "visited_positions s' b \<in> {visited_positions s b, timestamp s} \<and>
    (b \<in> V \<longrightarrow> freed B c R (set (L b)) \<noteq> {} \<longrightarrow> visited_positions s' b = timestamp s)"
proof -
  from assms obtain vp where "visited_positions s' = vp" "\<forall>b. vp b \<in> {visited_positions s b, timestamp s}"
    "\<forall>b\<in>V. freed B c R (set (L b)) \<noteq> {} \<longrightarrow> vp b = timestamp s"
    unfolding capturing_def by (elim exE conjE) simp
  then show ?thesis by auto
qed

lemma liberties_after:
  assumes core: "core (block_pool s) (stones s) B (live s) L" and ok: "libs_ok B (liberty_count s)"
    and col: "c \<in> {BLACK, WHITE}" and to: "B to = EMPTY" "InBoard to" and br: "breathes B c to"
    and j: "post_join B L c blk to s s6"
    and die: "die = filter (dying B L c to) (sorted_list_of_set (touching L (live s) to))"
    and pc: "post_capture Z B (lists_after B L (live s) c blk to) c blk to die s6 s7"
    and r: "recounted_upto (play B c to) (lists_after B L (live s) c blk to) (live s7) s7 {0..<block_in_use s7} s8"
  shows "libs_ok (play B c to) (liberty_count s8)"
  unfolding libs_ok_def
proof (intro allI impI)
  let ?V = "live_after B L (live s) c blk to" and ?L = "lists_after B L (live s) c blk to"
  let ?D = "captured B c to" and ?P = "play B c to"
  note J = j [unfolded post_join_def Let_def]
  note C = pc [unfolded post_capture_def]
  have sh: "shape (block_pool s6) (stones s6) (B(to := c)) ?V ?L"
    and lib: "\<And>b. b \<in> ?V \<Longrightarrow> bits (liberty_state (block_pool s6 b)) =
      libs (if b = blk then ?P else B(to := c)) (set (?L b))"
    and live6: "live s6 = ?V" and blk: "blk \<notin> live s" using J by blast+
  have core7: "core (block_pool s7) (stones s7) ?P (live s7) ?L" and live7: "live s7 = ?V - set die"
    and cap: "capturing Z B ?V ?L c s6 ?D (around ?D) die
       (ko_after ?L blk (libs ?P (grp (B(to := c)) to)) die (ko_position s6)) s7"
    using C unfolding live6 by blast+
  have c0: "c \<noteq> EMPTY" "B to \<noteq> other c" using player_cases [OF col] to(1) by auto
  have nbs: "set (sorted_list_of_set (touching L (live s) to)) = touching L (live s) to"
    using finite_touching [OF core] by simp
  have xs: "set (?L blk) = grp (B(to := c)) to" by (rule own_group_list [OF core to(2,1) col])
  have lc7: "liberty_count s7 p = (if p \<in> ?D then SIZE_NONE else liberty_count s p)" for p
    using cap post_join_fields(11) [OF j] by (auto simp: capturing_def)
  have lc8: "liberty_count s8 p = (if \<exists>b\<in>live s7. visited_positions s7 b = timestamp s7 \<and> p \<in> set (?L b)
                     then int (card (libs ?P (grp ?P p))) else liberty_count s7 p)" for p
    using r by (auto simp: recounted_upto_def live_def)
  have old: "b \<in> live s" "?L b = L b" "\<not> (b \<in> touching L (live s) to \<and> B (last (L b)) = c)" "b \<notin> set die"
    if "b \<in> live s7" "b \<noteq> blk" for b
    using that by (auto simp: live7 live_after_def lists_after_def)
  fix p assume p: "InBoard p"
  show "if ?P p = EMPTY then liberty_count s8 p = SIZE_NONE
        else libs ?P (grp ?P p) \<noteq> {} \<and> liberty_count s8 p = int (card (libs ?P (grp ?P p)))"
  proof (cases "?P p = EMPTY")
    case True
    then have "\<not> (\<exists>b\<in>live s7. p \<in> set (?L b))" using coreD(3,4) [OF core7] by metis
    then have "liberty_count s8 p = (if p \<in> ?D then SIZE_NONE else liberty_count s p)" using lc8 lc7 by auto
    moreover have "B p = EMPTY" if "p \<notin> ?D" using True that c0 by (auto simp: play_def split: if_splits)
    ultimately show ?thesis using True ok p by (auto simp: libs_ok_def)
  next
    case False
    then obtain b where b: "b \<in> live s7" "p \<in> set (?L b)" using core_cover [OF core7 p] by blast
    have g: "grp ?P p = set (?L b)" by (rule core_grp [OF core7 b])
    show ?thesis
    proof (cases "b = blk")
      case True
      have "\<exists>b\<in>live s7. visited_positions s7 b = timestamp s7 \<and> p \<in> set (?L b)"
        using b True capturing_visited [OF cap, of blk] capturing_fields(4) [OF cap] J post_join_fields(9) [OF j]
        by (intro bexI [of _ blk]) auto
      with False breathes_libs [OF br col] show ?thesis by (simp add: lc8 g True xs)
    next
      case nb: False
      note o = old [OF b(1) nb] and D = coreD [OF core old(1) [OF b(1) nb]]
      have pL: "p \<in> set (L b)" using b o by simp
      have S: "set (L b) \<subseteq> {q. B q \<noteq> EMPTY}" using D(3,4) by auto
      have gB: "grp B p = set (L b)" "B p \<noteq> EMPTY" using D(3,4,5) pL by auto
      have nonempty: "libs B (set (L b)) \<noteq> {}" and lcs: "liberty_count s p = int (card (libs B (set (L b))))"
        using ok p gB by (auto simp: libs_ok_def)
      have touch: "b \<in> touching L (live s) to" if "to \<in> libs B (set (L b))"
        using that o(1) by (auto simp: libs_def frontier_def touching_def adj_sym)
      have sub: "libs B (set (L b)) - {to} \<subseteq> libs ?P (set (L b))" by (rule play_libs_sub [OF c0(2) S c0(1)])
      have "libs ?P (set (L b)) \<noteq> {}"
      proof
        assume "libs ?P (set (L b)) = {}"
        with sub nonempty have eq: "libs B (set (L b)) = {to}" by auto
        with touch o(3) have "b \<in> touching L (live s) to" "dying B L c to b" by (auto simp: dying_def)
        with o(4) nbs show False by (simp add: die)
      qed
      moreover have "liberty_count s8 p = int (card (libs ?P (grp ?P p)))"
      proof (cases "visited_positions s7 b = timestamp s7")
        case True
        then show ?thesis using b lc8 by auto
      next
        case nv: False
        have ts: "timestamp s7 = timestamp s6" by (rule capturing_fields(4) [OF cap])
        have bV: "b \<in> ?V" using b(1) live7 by simp
        have "freed B c (around ?D) (set (?L b)) = {}" "visited_positions s7 b = visited_positions s6 b"
          using capturing_visited [OF cap, of b] nv bV ts by auto
        then have fr: "bits (liberty_state (block_pool s7 b)) = libs (B(to := c)) (set (L b))"
          and nt: "b \<notin> touching L (live s) to"
          using relib_fields(8) [OF capturing_fields(6) [OF cap, of b]] bV lib [OF bV] nb o(2) nv ts J post_join_fields(9) [OF j]
          by auto
        have "libs ?P (set (L b)) = libs B (set (L b))"
          using coreD(6) [OF core7 b(1)] fr o(2) libs_place [OF S c0(1)] nt touch by auto
        moreover have "p \<notin> ?D" using False captured_color [of p B c to] by (auto simp: play_def)
        moreover have "\<not> (\<exists>b\<in>live s7. visited_positions s7 b = timestamp s7 \<and> p \<in> set (?L b))"
          using core_disjoint [OF core7 _ b(1) _ b(2)] nv by blast
        ultimately show ?thesis by (simp add: lc8 lc7 lcs g o(2))
      qed
      ultimately show ?thesis using False g o(2) by simp
    qed
  qed
qed

subsection \<open>Hash and ko point after the move\<close>

lemma stone_hash_play:
  assumes to: "B to = EMPTY" "InBoard to" and col: "c \<in> {BLACK, WHITE}"
  shows "stone_hash Z (play B c to) =
    stone_hash Z B XOR z_board Z c to XOR xsum (z_board Z (other c)) (captured B c to)"
proof -
  let ?P = "play B c to" and ?D = "captured B c to"
  let ?S = "{p. InBoard p \<and> B p \<noteq> EMPTY}" and ?f = "\<lambda>B p. z_board Z (B p) p"
  have o: "c \<noteq> EMPTY" "other c \<noteq> EMPTY" using player_cases [OF col] by auto
  have D: "p \<in> ?D \<Longrightarrow> InBoard p \<and> B p = other c" for p
    using captured_board captured_color by blast
  have tD: "to \<notin> ?D" using D [of to] to o by auto
  have fin: "finite ?S" "finite (?S - ?D)" by (rule finite_subset [of _ "{q. InBoard q}"], auto intro: board_finite)+
  have S': "{p. InBoard p \<and> ?P p \<noteq> EMPTY} = insert to (?S - ?D)"
    using to o tD by (auto simp: play_def split: if_splits)
  have "stone_hash Z ?P = ?f ?P to XOR xsum (?f ?P) (?S - ?D)"
    unfolding stone_hash_def S' using fin to by simp
  also have "?f ?P to = z_board Z c to" using tD by (simp add: play_def)
  also have "xsum (?f ?P) (?S - ?D) = xsum (?f B) (?S - ?D)"
    using to by (intro xsum_cong) (auto simp: play_def)
  finally have 1: "stone_hash Z ?P = z_board Z c to XOR xsum (?f B) (?S - ?D)" .
  have "?S = (?S - ?D) \<union> ?D" using D o by auto
  then have "stone_hash Z B = xsum (?f B) ((?S - ?D) \<union> ?D)" unfolding stone_hash_def by simp
  also have "\<dots> = xsum (?f B) (?S - ?D) XOR xsum (?f B) ?D" using fin by (intro xsum_Un) auto
  also have "xsum (?f B) ?D = xsum (z_board Z (other c)) ?D" using D by (intro xsum_cong) simp_all
  finally show ?thesis unfolding 1 by (simp add: xor.assoc xor.left_commute)
qed

lemma zhash_play:
  assumes to: "B to = EMPTY" "InBoard to" and col: "c \<in> {BLACK, WHITE}"
  shows "zhash Z c B XOR z_player Z c XOR z_player Z (other c) XOR z_board Z c to XOR
      xsum (z_board Z (other c)) (captured B c to) = zhash Z (other c) (play B c to)"
  using col unfolding zhash_def stone_hash_play [of B to c Z, OF to col]
  by (auto simp: xor.assoc xor.left_commute xor.commute)

lemma zhash_pass:
  "c \<in> {BLACK, WHITE} \<Longrightarrow> zhash Z c B XOR z_player Z c XOR z_player Z (other c) = zhash Z (other c) B"
  by (auto simp: zhash_def xor.assoc xor.left_commute xor.commute)

definition ko_point :: "board \<Rightarrow> GoStoneColor \<Rightarrow> GoCoordId \<Rightarrow> GoCoordId" where
  "ko_point B c to =
     (if card (grp (B(to := c)) to) = 1 \<and> card (libs (play B c to) (grp (B(to := c)) to)) = 1 \<and>
         card (captured B c to) = 1
      then the_elem (captured B c to) else COORD_UNSET)"

lemma ko_after_skip: "\<not> (length (L blk) = 1 \<and> card F = 1) \<Longrightarrow> ko_after L blk F ds k = k"
  unfolding ko_after_def by (induction ds arbitrary: k) auto

lemma ko_after_point:
  assumes core: "core bp ss B V L" and col: "c \<in> {BLACK, WHITE}" and blk: "blk \<notin> V"
    and to: "B to = EMPTY" "InBoard to"
    and die: "die = filter (dying B L c to) (sorted_list_of_set (touching L V to))"
    and dist: "distinct (lists_after B L V c blk to blk)"
  shows "ko_after (lists_after B L V c blk to) blk (libs (play B c to) (grp (B(to := c)) to)) die COORD_UNSET =
    ko_point B c to"
proof -
  let ?L = "lists_after B L V c blk to" and ?G = "grp (B(to := c)) to" and ?D = "captured B c to"
  let ?F = "libs (play B c to) ?G"
  note dies = dying_blocks [OF core col blk die]
  have len: "length (?L blk) = card ?G"
    using own_group_list [OF core to(2,1) col, of blk] distinct_card [OF dist] by simp
  show ?thesis
  proof (cases "card ?G = 1 \<and> card ?F = 1")
    case False
    then have "ko_after ?L blk ?F die COORD_UNSET = COORD_UNSET" by (intro ko_after_skip) (simp add: len)
    with False show ?thesis by (auto simp: ko_point_def)
  next
    case True
    then obtain x where x: "?G = {x}" by (auto simp: card_1_singleton_iff)
    have "to \<in> ?G" by (rule group_refl)
    with x have G: "?G = {to}" by (simp del: group_refl)
    have near: "\<exists>n. n \<in> set (L d) \<and> n \<in> ?F" if "d \<in> set die" for d
    proof -
      from that obtain n where n: "n \<in> set (L d)" "adj to n"
        using finite_touching [OF core] by (auto simp: die touching_def)
      have "n \<in> ?D" using n(1) that dies(6) by blast
      moreover have "n \<noteq> to" using n(2) by auto
      ultimately have "n \<in> ?F" unfolding G using n(2) by (auto simp: libs_def frontier_def play_def)
      with n(1) show ?thesis by blast
    qed
    have one: "d = d'" if d: "d \<in> set die" "d' \<in> set die" for d d'
    proof -
      from near [OF d(1)] near [OF d(2)] obtain n n' where
        n: "n \<in> set (L d)" "n' \<in> set (L d')" "n \<in> ?F" "n' \<in> ?F" by blast
      from True n(3,4) have "n = n'" by (auto simp: card_1_singleton_iff)
      moreover have "d \<in> V" "d' \<in> V" using d finite_touching [OF core] by (auto simp: die touching_def)
      ultimately show ?thesis using core_disjoint [OF core _ _ n(1)] n(2) by blast
    qed
    show ?thesis
    proof (cases die)
      case Nil
      with dies(6) show ?thesis by (simp add: ko_point_def)
    next
      case (Cons d ds)
      have "ds = []"
      proof (cases ds)
        case (Cons d' ds')
        then have "d' = d" using one [of d' d] \<open>die = d # ds\<close> by simp
        then show ?thesis using dies(1) Cons \<open>die = d # ds\<close> by simp
      qed simp
      with Cons have die1: "die = [d]" by simp
      have D: "?D = set (L d)" using dies(6) by (simp add: die1)
      have "d \<in> set die" by (simp add: die1)
      then have "d \<in> V" using finite_touching [OF core] unfolding die by (simp add: touching_def)
      then have d: "distinct (L d)" "?L d = L d"
        using coreD(8) [OF core] dies(4) \<open>d \<in> set die\<close> by simp_all
      have "ko_after ?L blk ?F die COORD_UNSET = (if length (L d) = 1 then hd (L d) else COORD_UNSET)"
        using True by (simp add: die1 ko_after_def len d)
      moreover have "card ?D = length (L d)" unfolding D by (rule distinct_card [OF d(1)])
      moreover have "the_elem ?D = hd (L d)" if "length (L d) = 1"
        using that unfolding D by (cases "L d") auto
      ultimately show ?thesis using True by (auto simp: ko_point_def)
    qed
  qed
qed

end
