(* ===== verification/Go_Correct.thy ===== *)
theory Go_Correct
  imports Go_Play
begin

text \<open>
  What \<open>Move\<close> does to a position, stated on the rules of Go, and what follows for whole games.
\<close>

definition moved :: "zobrist \<Rightarrow> board \<Rightarrow> GoCoordId \<Rightarrow> GoCoordId \<Rightarrow> GoState \<Rightarrow> GoState \<Rightarrow> bool" where
  "moved Z P k to s s' \<longleftrightarrow> board_state s' = P \<and> Self s' = other (Self s) \<and> last_position s' = to \<and>
     ko_position s' = k \<and> (is_double_pass s' \<longleftrightarrow> IsPass (last_position s) \<and> IsPass to) \<and>
     positional_superko s' = positional_superko s \<and>
     board_hash_states s' = (if positional_superko s then insert (zobrist_hash_value s') (board_hash_states s)
       else board_hash_states s) \<and>
     feature_history_list s' = feature_history_list s @ [color_plane BLACK s', color_plane WHITE s'] \<and>
     block_in_use s' \<le> max 2 (block_in_use s + 1)"

lemma record_hash_fields [simp]:
  "block_pool (record_hash s) = block_pool s" "stones (record_hash s) = stones s"
  "recycled_blocks (record_hash s) = recycled_blocks s" "block_in_use (record_hash s) = block_in_use s"
  "board_state (record_hash s) = board_state s" "current_player (record_hash s) = current_player s"
  "Self (record_hash s) = Self s" "last_position (record_hash s) = last_position s"
  "ko_position (record_hash s) = ko_position s" "is_double_pass (record_hash s) = is_double_pass s"
  "positional_superko (record_hash s) = positional_superko s" "zobrist_hash_value (record_hash s) = zobrist_hash_value s"
  "liberty_count (record_hash s) = liberty_count s" "legal_move_map (record_hash s) = legal_move_map s"
  "feature_history_list (record_hash s) = feature_history_list s" "move_count (record_hash s) = move_count s"
  "board_hash_states (record_hash s) = (if positional_superko s then insert (zobrist_hash_value s) (board_hash_states s)
     else board_hash_states s)"
  "live (record_hash s) = live s" "pool_ok (record_hash s) = pool_ok s"
  "sensible Z H (record_hash s) p = sensible Z H s p"
  by (simp_all add: record_hash_def Self_def live_def pool_ok_def sensible_def move_hash_def player_flip_def Opponent_def)

lemma color_plane_cong: "board_state s = board_state s' \<Longrightarrow> color_plane x s = color_plane x s'"
  by (simp add: color_plane_def)

text \<open>The end of a move, from the state in which the opponent is to move.\<close>

lemma close_move:
  assumes core: "core (block_pool s) (stones s) (board_state s) (live s) L" and ok: "pool_ok s"
    and room: "block_in_use s < MAX_BLOCK_SIZE" and self: "Self s \<in> {BLACK, WHITE}"
    and libs: "libs_ok (board_state s) (liberty_count s)"
    and hash: "zobrist_hash_value s = zhash Z (Self s) (board_state s)"
  shows "\<exists>s'. GetSensibleMove Z s = Some s' \<and> gs_inv Z (board_hash_states s) (record_hash s') \<and>
    same_position s s' \<and> feature_history_list s' = feature_history_list s @ [color_plane BLACK s, color_plane WHITE s] \<and>
    block_in_use s' \<le> block_in_use s + (if recycled_blocks s = [] then 1 else 0)"
proof -
  from GetSensibleMove_spec [OF core ok room self, of Z] obtain s' where
    s': "GetSensibleMove Z s = Some s'" "refreshed Z L s s'" by blast
  note R = s'(2) [unfolded refreshed_def]
  have pos: "same_position s s'" using R by blast
  have f: "board_state s' = board_state s" "Self s' = Self s" "liberty_count s' = liberty_count s"
    "zobrist_hash_value s' = zobrist_hash_value s"
    using pos by (simp_all add: same_position_def Self_def)
  have "gs_inv Z (board_hash_states s) (record_hash s')"
    unfolding gs_inv_def record_hash_fields f
  proof (intro conjI exI allI impI)
    show "core (block_pool s') (stones s') (board_state s) (live s') L" using R by simp
    show "legal_move_map s' p = sensible Z (board_hash_states s) s' p" if "InBoard p" for p
      using R that sensible_cong [OF pos] by simp
  qed (use R ok self libs hash in auto)
  with s' R pos show ?thesis by blast
qed

subsection \<open>Passing\<close>

lemma header_fields:
  "block_pool (move_header Z to s) = block_pool s" "stones (move_header Z to s) = stones s"
  "recycled_blocks (move_header Z to s) = recycled_blocks s" "block_in_use (move_header Z to s) = block_in_use s"
  "board_state (move_header Z to s) = board_state s" "current_player (move_header Z to s) = current_player s"
  "last_position (move_header Z to s) = to" "ko_position (move_header Z to s) = COORD_UNSET"
  "is_double_pass (move_header Z to s) = (IsPass (last_position s) \<and> IsPass to)"
  "positional_superko (move_header Z to s) = positional_superko s"
  "board_hash_states (move_header Z to s) = board_hash_states s"
  "liberty_count (move_header Z to s) = liberty_count s" "legal_move_map (move_header Z to s) = legal_move_map s"
  "feature_history_list (move_header Z to s) = feature_history_list s" "move_count (move_header Z to s) = move_count s"
  "Self (move_header Z to s) = Self s" "live (move_header Z to s) = live s" "pool_ok (move_header Z to s) = pool_ok s"
  "zobrist_hash_value (move_header Z to s) =
     (if IsPass to then player_flip Z s (zobrist_hash_value s)
      else player_flip Z s (zobrist_hash_value s) XOR z_board Z (Self s) to)"
  by (simp_all add: move_header_def Let_def Self_def player_flip_def Opponent_def live_def pool_ok_def)

lemma HandOff_fields [simp]:
  "block_pool (HandOff s) = block_pool s" "stones (HandOff s) = stones s"
  "recycled_blocks (HandOff s) = recycled_blocks s" "block_in_use (HandOff s) = block_in_use s"
  "board_state (HandOff s) = board_state s" "current_player (HandOff s) = other (current_player s)"
  "last_position (HandOff s) = last_position s" "ko_position (HandOff s) = ko_position s"
  "is_double_pass (HandOff s) = is_double_pass s" "positional_superko (HandOff s) = positional_superko s"
  "board_hash_states (HandOff s) = board_hash_states s" "zobrist_hash_value (HandOff s) = zobrist_hash_value s"
  "liberty_count (HandOff s) = liberty_count s" "feature_history_list (HandOff s) = feature_history_list s"
  "Self (HandOff s) = other (Self s)" "live (HandOff s) = live s" "pool_ok (HandOff s) = pool_ok s"
  "color_plane x (HandOff s) = color_plane x s" "move_count (HandOff s) = move_count s"
  by (simp_all add: HandOff_def Opponent_def other_def Self_def live_def pool_ok_def color_plane_def)

lemma flip_hash: "Self s = c \<Longrightarrow> player_flip Z s h = h XOR z_player Z c XOR z_player Z (other c)"
  by (simp add: player_flip_def Opponent_def Self_def other_def xor.assoc)

lemma Move_pass_correct:
  assumes inv: "gs_inv Z H s" and room: "block_in_use s < MAX_BLOCK_SIZE"
  shows "\<exists>s'. Move Z COORD_PASS s = Some (0, s') \<and> gs_inv Z (board_hash_states s) s' \<and>
    moved Z (board_state s) COORD_UNSET COORD_PASS s s'"
proof -
  note I = inv [unfolded gs_inv_def]
  obtain L where core: "core (block_pool s) (stones s) (board_state s) (live s) L" using I by blast
  have col: "Self s \<in> {BLACK, WHITE}" using I by blast
  let ?s1 = "HandOff (move_header Z COORD_PASS s)"
  note F = header_fields [of Z "- 1" s]
  have hash: "zobrist_hash_value ?s1 = zhash Z (Self ?s1) (board_state ?s1)"
    using I zhash_pass [OF col] by (simp add: F flip_hash IsPass_def xor.assoc)
  have "Self ?s1 \<in> {BLACK, WHITE}" using col by (auto simp: F)
  with close_move [of ?s1 L Z] core I room hash obtain s' where
    s': "GetSensibleMove Z ?s1 = Some s'" "gs_inv Z (board_hash_states s) (record_hash s')" "same_position ?s1 s'"
    "feature_history_list s' = feature_history_list s @ [color_plane BLACK ?s1, color_plane WHITE ?s1]"
    "block_in_use s' \<le> block_in_use s + (if recycled_blocks s = [] then 1 else 0)"
    by (auto simp: F)
  have "Move Z COORD_PASS s = Some (0, record_hash s')"
    using s'(1) by (simp add: Move_def IsLegal_def IsPass_def)
  moreover have "moved Z (board_state s) COORD_UNSET COORD_PASS s (record_hash s')"
  proof -
    have "block_in_use s' \<le> max 2 (block_in_use s + 1)" using s'(5) by (simp split: if_splits)
    then show ?thesis using s'(3,4) by (auto simp: moved_def same_position_def F Self_def color_plane_def IsPass_def)
  qed
  ultimately show ?thesis using s'(2) by blast
qed

subsection \<open>Playing a stone\<close>

lemma sensible_breathes: "sensible Z H s p \<Longrightarrow> breathes (board_state s) (Self s) p"
  by (auto simp: sensible_def breathes_def)

text \<open>The state just before the hand-over: the phases of \<open>Move\<close> run one after another.\<close>

lemma move_phases:
  assumes core: "core (block_pool s) (stones s) B (live s) L" and B: "board_state s = B" and ok: "pool_ok s"
    and room: "block_in_use s < MAX_BLOCK_SIZE" and self: "Self s = c" "c \<in> {BLACK, WHITE}"
    and to: "B to = EMPTY" "InBoard to" and legal: "legal_move_map s to"
    and libs: "libs_ok B (liberty_count s)" and br: "breathes B c to" and ko: "ko_position s = COORD_UNSET"
  shows "\<exists>blk s2 cnt nb die s3 s7 s8. GetNewBlock s = Some (blk, s2) \<and>
    TryMove blk to GOBOARD_SIZE s2 = Some (cnt, Some (nb, die), s3) \<and> 0 \<le> cnt \<and>
    foldo (capture_block Z blk) die (visit_block blk (fold (join_neighbour blk to) nb (place_block blk to s3))) = Some s7 \<and>
    foldo recount_block [0..block_in_use s7 - 1] s7 = Some s8 \<and>
    (\<exists>L'. core (block_pool s8) (stones s8) (play B c to) (live s8) L') \<and> pool_ok s8 \<and>
    libs_ok (play B c to) (liberty_count s8) \<and> (board_state s8)(to := c) = play B c to \<and>
    block_in_use s \<le> block_in_use s8 \<and> block_in_use s8 \<le> block_in_use s + (if recycled_blocks s = [] then 1 else 0) \<and>
    zobrist_hash_value s8 = zobrist_hash_value s XOR xsum (z_board Z (other c)) (captured B c to) \<and>
    ko_position s8 = ko_point B c to \<and>
    s8 = s\<lparr>block_pool := block_pool s8, stones := stones s8, recycled_blocks := recycled_blocks s8,
      block_in_use := block_in_use s8, visited_positions := visited_positions s8, board_state := board_state s8,
      liberty_count := liberty_count s8, zobrist_hash_value := zobrist_hash_value s8, ko_position := ko_position s8\<rparr>"
proof -
  obtain blk s2 where new: "GetNewBlock s = Some (blk, s2)" and t: "taken s blk s2"
    using GetNewBlock_spec [OF ok room] by blast
  note T = t [unfolded taken_def] and F2 = taken_fields [OF t]
  have blk: "blk \<notin> live s" using T by blast
  have core2: "core (block_pool s2) (stones s2) (board_state s2) (live s) L"
    using taken_core [OF core t] F2(2) B by simp
  have "board_state s2 to = EMPTY" "legal_move_map s2 to" "Self s2 = c" using F2 B to legal self by simp_all
  from TryMove_spec [OF core2 blk to(2) this self(2)] obtain cnt nb die s3
    where tm: "TryMove blk to GOBOARD_SIZE s2 = Some (cnt, Some (nb, die), s3)"
      and tr: "trial_result B L (live s) blk c to s2 cnt nb die s3" using F2(2) B by auto
  note R = tr [unfolded trial_result_def]
  have near: "near L (live s) blk s2 s3" and die: "die = filter (dying B L c to) (sorted_list_of_set (touching L (live s) to))"
    and nb: "nb = sorted_list_of_set (touching L (live s) to)" using R by auto
  have core3: "core (block_pool s3) (stones s3) B (live s) L"
    using near_core [OF _ near blk] core2 F2(2) B by simp
  have self3: "Self s3 = c" using near_fields(17) [OF near] F2(4) self by simp
  have nbs: "set nb \<subseteq> live s" "distinct nb" using finite_touching [OF core] by (auto simp: nb touching_def)
  let ?s6 = "visit_block blk (fold (join_neighbour blk to) nb (place_block blk to s3))"
  have j: "post_join B L c blk to s ?s6"
    by (rule post_join_intro [OF core3 refl blk to self(2) t near _ nb join_loop [OF core3 blk to self3 nbs]])
      (use R in blast)
  obtain s7 where cap: "foldo (capture_block Z blk) die ?s6 = Some s7"
    and pc: "post_capture Z B (lists_after B L (live s) c blk to) c blk to die ?s6 s7"
    using capture_phase [OF core B self to j die] by blast
  note C = pc [unfolded post_capture_def]
  have core7: "core (block_pool s7) (stones s7) (play B c to) (live s7) (lists_after B L (live s) c blk to)"
    using C by blast
  obtain s8 where rc: "foldo recount_block [0..block_in_use s7 - 1] s7 = Some s8"
    and r8: "recounted_upto (play B c to) (lists_after B L (live s) c blk to) (live s7) s7 {0..<block_in_use s7} s8"
    using recount_loop [OF core7] by blast
  have lb: "libs_ok (play B c to) (liberty_count s8)"
    by (rule liberties_after [OF core libs self(2) to br j die pc r8])
  from r8 obtain bp lc where s8: "s8 = s7\<lparr>block_pool := bp, liberty_count := lc\<rparr>" "\<And>b. recounted (block_pool s7 b) (bp b)"
    unfolding recounted_upto_def by blast
  have core8: "core (block_pool s8) (stones s8) (play B c to) (live s8) (lists_after B L (live s) c blk to)"
  proof -
    have "live s8 = live s7" using recounted_fields(6) [OF s8(2)] by (simp add: live_def s8(1))
    then show ?thesis using core_cong [OF core7 compressed_refl s8(2)] by (simp add: s8(1))
  qed
  have "pool_ok s7" using C by blast
  then have ok8: "pool_ok s8" using recounted_fields(6) [OF s8(2)] by (simp add: pool_ok_def s8(1))
  let ?k = "ko_after (lists_after B L (live s) c blk to) blk (libs (play B c to) (grp (B(to := c)) to)) die (ko_position ?s6)"
  have dist: "distinct (lists_after B L (live s) c blk to blk)"
    using j shapeD(7) [of _ _ "B(to := c)" _ _ blk] unfolding post_join_def Let_def by (auto simp: live_after_def)
  have "?k = ko_point B c to"
    using ko_after_point [OF core self(2) blk to die dist] post_join_fields(4) [OF j] ko by simp
  with C obtain ss bp vp lc where s7: "s7 = ?s6\<lparr>stones := ss, block_pool := bp,
      recycled_blocks := rev die @ recycled_blocks ?s6, board_state := remove B (captured B c to),
      ko_position := ko_point B c to,
      zobrist_hash_value := zobrist_hash_value ?s6 XOR xsum (z_board Z (other c)) (captured B c to),
      visited_positions := vp, liberty_count := lc\<rparr>"
    unfolding capturing_def by auto
  note J = post_join_fields [OF j]
  have bu: "block_in_use s \<le> block_in_use s8" "block_in_use s8 \<le> block_in_use s + (if recycled_blocks s = [] then 1 else 0)"
    using j C unfolding post_join_def Let_def by (simp_all add: s8(1))
  have play: "(board_state s8)(to := c) = play B c to"
    using captured_color [of to B c to] to(1) player_cases [OF self(2)]
    by (auto simp: s8(1) s7 remove_def play_def fun_eq_iff)
  have all: "s8 = s\<lparr>block_pool := block_pool s8, stones := stones s8, recycled_blocks := recycled_blocks s8,
      block_in_use := block_in_use s8, visited_positions := visited_positions s8, board_state := board_state s8,
      liberty_count := liberty_count s8, zobrist_hash_value := zobrist_hash_value s8, ko_position := ko_position s8\<rparr>"
    using J by (intro GoState.equality) (simp_all add: s8(1) s7)
  have z: "zobrist_hash_value s8 = zobrist_hash_value s XOR xsum (z_board Z (other c)) (captured B c to)"
    "ko_position s8 = ko_point B c to"
    using J(8) by (simp_all add: s8(1) s7)
  have "0 \<le> cnt" using R by simp
  then show ?thesis using new tm cap rc core8 ok8 lb play bu z all by blast
qed

lemma Move_play_correct:
  assumes inv: "gs_inv Z H s" and room: "block_in_use s < MAX_BLOCK_SIZE - 1"
    and to: "InBoard to" "legal_move_map s to"
  shows "\<exists>s'. Move Z to s = Some (0, s') \<and> gs_inv Z (board_hash_states s) s' \<and>
    moved Z (play (board_state s) (Self s) to) (ko_point (board_state s) (Self s) to) to s s'"
proof -
  note I = inv [unfolded gs_inv_def]
  obtain L where core: "core (block_pool s) (stones s) (board_state s) (live s) L" using I by blast
  have sens: "sensible Z H s to" and libs: "libs_ok (board_state s) (liberty_count s)" and ok: "pool_ok s"
    using I to by blast+
  let ?B = "board_state s" and ?c = "Self s" and ?s1 = "move_header Z to s"
  have col: "?c \<in> {BLACK, WHITE}" using I by blast
  have empty: "?B to = EMPTY" using sens by (simp add: sensible_def)
  have np: "\<not> IsPass to" using to(1) by (auto simp: IsPass_def InBoard_def)
  note F = header_fields [of Z to s]
  have core1: "core (block_pool ?s1) (stones ?s1) ?B (live ?s1) L" using core F by simp
  have pre1: "board_state ?s1 = ?B" "pool_ok ?s1" "block_in_use ?s1 < MAX_BLOCK_SIZE" "Self ?s1 = ?c"
    "legal_move_map ?s1 to" "libs_ok ?B (liberty_count ?s1)" "ko_position ?s1 = COORD_UNSET"
    using F ok room to libs by simp_all
  from move_phases [OF core1 pre1(1-4) col empty to(1) pre1(5,6) sensible_breathes [OF sens] pre1(7), of Z]
  obtain blk s2 cnt nb die s3 s7 s8 L' where
    run: "GetNewBlock ?s1 = Some (blk, s2)" "TryMove blk to GOBOARD_SIZE s2 = Some (cnt, Some (nb, die), s3)" "0 \<le> cnt"
      "foldo (capture_block Z blk) die (visit_block blk (fold (join_neighbour blk to) nb (place_block blk to s3))) = Some s7"
      "foldo recount_block [0..block_in_use s7 - 1] s7 = Some s8" and
    core8: "core (block_pool s8) (stones s8) (play ?B ?c to) (live s8) L'" and ok8: "pool_ok s8" and
    libs8: "libs_ok (play ?B ?c to) (liberty_count s8)" and board8: "(board_state s8)(to := ?c) = play ?B ?c to" and
    bu8: "block_in_use s \<le> block_in_use s8" "block_in_use s8 \<le> block_in_use s + (if recycled_blocks s = [] then 1 else 0)" and
    z8: "zobrist_hash_value s8 = zobrist_hash_value ?s1 XOR xsum (z_board Z (other ?c)) (captured ?B ?c to)"
      "ko_position s8 = ko_point ?B ?c to" and
    all8: "s8 = ?s1\<lparr>block_pool := block_pool s8, stones := stones s8, recycled_blocks := recycled_blocks s8,
      block_in_use := block_in_use s8, visited_positions := visited_positions s8, board_state := board_state s8,
      liberty_count := liberty_count s8, zobrist_hash_value := zobrist_hash_value s8, ko_position := ko_position s8\<rparr>"
    unfolding F by blast
  have F8: "current_player s8 = current_player s" "last_position s8 = to" "positional_superko s8 = positional_superko s"
    "board_hash_states s8 = board_hash_states s" "feature_history_list s8 = feature_history_list s"
    "is_double_pass s8 = (IsPass (last_position s) \<and> IsPass to)"
    by (subst all8, simp add: F)+
  let ?s9 = "s8\<lparr>move_count := (move_count s8)(to := wrap16 (move_count s8 to + 1)),
                 board_state := (board_state s8)(to := Self s8)\<rparr>"
  have self8: "Self s8 = ?c" using F8(1) by (simp add: Self_def)
  have b9: "board_state ?s9 = play ?B ?c to" using board8 self8 by simp
  have hash: "zobrist_hash_value s8 = zhash Z (other ?c) (play ?B ?c to)"
    using I np zhash_play [of ?B to ?c Z] empty to(1) col by (simp add: z8 F flip_hash xor.assoc)
  have live9: "live ?s9 = live s8" "pool_ok ?s9 = pool_ok s8" "Self ?s9 = ?c"
    using self8 by (simp_all add: live_def pool_ok_def Self_def)
  have "block_in_use s8 < MAX_BLOCK_SIZE" using bu8 room by (simp split: if_splits)
  moreover have "Self (HandOff ?s9) \<in> {BLACK, WHITE}" using col live9 by auto
  ultimately obtain s' where
    s': "GetSensibleMove Z (HandOff ?s9) = Some s'" "gs_inv Z (board_hash_states s) (record_hash s')"
    "same_position (HandOff ?s9) s'"
    "feature_history_list s' = feature_history_list s @ [color_plane BLACK (HandOff ?s9), color_plane WHITE (HandOff ?s9)]"
    "block_in_use s' \<le> block_in_use s8 + (if recycled_blocks s8 = [] then 1 else 0)"
    using close_move [of "HandOff ?s9" L' Z] core8 ok8 libs8 hash F8 live9 b9 by auto
  have "Move Z to s = Some (0, record_hash s')"
    using run s'(1) np to(2)
    by (simp add: Move_def IsLegal_def to(1) Let_def)
  moreover have "block_in_use s' \<le> max 2 (block_in_use s + 1)"
    using s'(5) bu8 I by (simp split: if_splits)
  then have "moved Z (play ?B ?c to) (ko_point ?B ?c to) to s (record_hash s')"
  proof -
    assume bu: "block_in_use s' \<le> max 2 (block_in_use s + 1)"
    have p: "board_state s' = play ?B ?c to" "Self s' = other ?c" "last_position s' = to"
      "ko_position s' = ko_point ?B ?c to" "\<not> is_double_pass s'" "positional_superko s' = positional_superko s"
      "board_hash_states s' = board_hash_states s"
      using s'(3) b9 live9(3) F8 z8(2) np by (simp_all add: same_position_def Self_def)
    have "color_plane x (record_hash s') = color_plane x (HandOff ?s9)" for x
      by (rule color_plane_cong) (simp add: p(1) board8 self8)
    with p bu s'(4) np show ?thesis by (simp add: moved_def)
  qed
  ultimately show ?thesis using s'(2) by blast
qed

end
