(* ===== verification/Go_Game.thy ===== *)
theory Go_Game
  imports Go_Correct
begin

text \<open>
  Whole games: the positions reachable from a new \<open>GoState\<close> by moves, legal or not, all satisfy
  the invariant as long as the game is shorter than the block pool, and the properties of
  single operations follow for them.
\<close>

subsection \<open>The new game\<close>

lemma fold_self_id: "p \<in> set xs \<Longrightarrow> stone_self_id (fold (\<lambda>i ss. ss(i := (ss i)\<lparr>stone_self_id := i\<rparr>)) xs ss p) = p"
proof -
  have "\<forall>q\<in>set xs. stone_self_id (fold (\<lambda>i ss. ss(i := (ss i)\<lparr>stone_self_id := i\<rparr>)) xs ss q) = q"
    by (rule fold_rule [where P = "\<lambda>dn ss. \<forall>q\<in>set dn. stone_self_id (ss q) = q"]) auto
  then show "p \<in> set xs \<Longrightarrow> ?thesis" by blast
qed

lemma new_state_fields:
  "board_state (GoState_new sk raw) = (\<lambda>_. EMPTY)" "block_in_use (GoState_new sk raw) = 0"
  "recycled_blocks (GoState_new sk raw) = []" "Self (GoState_new sk raw) = BLACK"
  "legal_move_map (GoState_new sk raw) = (\<lambda>_. True)" "liberty_count (GoState_new sk raw) = (\<lambda>_. 0)"
  "zobrist_hash_value (GoState_new sk raw) = 0" "ko_position (GoState_new sk raw) = COORD_UNSET"
  "live (GoState_new sk raw) = {}" "board_hash_states (GoState_new sk raw) = {}"
  "positional_superko (GoState_new sk raw) = sk"
  by (simp_all add: GoState_new_def Self_def live_def)

lemma new_state_inv: "gs_inv Z {} (GoState_new sk raw)"
proof -
  let ?s = "GoState_new sk raw"
  have "self_ok (stones ?s)"
    unfolding self_ok_def by (auto simp: GoState_new_def InBoard_def intro!: fold_self_id)
  then have "core (block_pool ?s) (stones ?s) (board_state ?s) (live ?s) (\<lambda>_. [])"
    by (simp add: core_def shape_def new_state_fields colors_ok_def)
  moreover have "sensible Z {} ?s p" if p: "InBoard p" for p
  proof -
    obtain q where "q \<in> set (nei p)" using nei_length [OF p] by (cases "nei p") auto
    then have "adj p q" using set_nei [OF p] by simp
    then have "has_empty_neighbour (\<lambda>_. EMPTY) p" by (auto simp: has_empty_neighbour_def)
    with p show ?thesis by (simp add: sensible_def new_state_fields InBoard_def)
  qed
  moreover have "stone_hash Z (\<lambda>_. EMPTY) = 0" by (simp add: stone_hash_def)
  ultimately show ?thesis
    by (auto simp: gs_inv_def new_state_fields pool_ok_def libs_ok_def zhash_def)
qed

text \<open>A weight table for the examples.\<close>

definition flat_weights :: zobrist where
  "flat_weights = \<lparr>z_player = (\<lambda>c. if c = 1 then 5 else 9), z_board = (\<lambda>c p. of_int p * 4 + ucast c), z_ko = (\<lambda>_. 0)\<rparr>"

abbreviation new_game :: GoState where
  "new_game \<equiv> GoState_new True raw_memory"

lemma new_game_room: "block_in_use new_game < MAX_BLOCK_SIZE - 1"
  by (simp add: new_state_fields)

subsection \<open>The contract of Move\<close>

lemma Move_contract_helper:
  assumes inv: "gs_inv Z H s" and room: "block_in_use s < MAX_BLOCK_SIZE - 1" and m: "InBoard m \<or> m = COORD_PASS"
  shows "\<exists>r s'. Move Z m s = Some (r, s') \<and>
    (if m = COORD_PASS then r = 0 \<and> gs_inv Z (board_hash_states s) s' \<and> moved Z (board_state s) COORD_UNSET m s s'
     else if sensible Z H s m then r = 0 \<and> gs_inv Z (board_hash_states s) s' \<and>
       moved Z (play (board_state s) (Self s) m) (ko_point (board_state s) (Self s) m) m s s'
     else r = - 1 \<and> s' = s)"
proof (cases "m = COORD_PASS")
  case True
  then show ?thesis using Move_pass_correct [OF inv] room by simp
next
  case False
  with m have m: "InBoard m" by simp
  have legal: "legal_move_map s m = sensible Z H s m" using inv m by (simp add: gs_inv_def)
  show ?thesis
  proof (cases "sensible Z H s m")
    case True
    with legal have "legal_move_map s m" by simp
    from Move_play_correct [OF inv room m this] False True show ?thesis by auto
  next
    case no: False
    then have "Move Z m s = Some (- 1, s)"
      using False m legal by (simp add: Move_def IsLegal_def IsPass_def)
    with no False show ?thesis by simp
  qed
qed

text \<open>Claim C1. In a position satisfying the invariant, with a block to spare, \<open>Move\<close> on any point
  or pass returns. It returns 0 exactly for pass and for the points the rules allow; then the
  new board is the board after placing the stone and taking off the captured groups, the
  other side is to move, the ko point is set for a single-stone capture by a lone stone with
  one liberty and cleared otherwise, the double-pass flag and the history are right and the
  invariant holds again. Otherwise it returns -1 and nothing changes.\<close>

theorem Move_contract:
  assumes "gs_inv Z H s" and "block_in_use s < MAX_BLOCK_SIZE - 1" and "InBoard m \<or> m = COORD_PASS"
  shows "\<exists>r s'. Move Z m s = Some (r, s') \<and>
    (if m = COORD_PASS then r = 0 \<and> gs_inv Z (board_hash_states s) s' \<and> moved Z (board_state s) COORD_UNSET m s s'
     else if sensible Z H s m then r = 0 \<and> gs_inv Z (board_hash_states s) s' \<and>
       moved Z (play (board_state s) (Self s) m) (ko_point (board_state s) (Self s) m) m s s'
     else r = - 1 \<and> s' = s)"
  using assms by (rule Move_contract_helper)

theorem Move_contract_witness:
  "\<exists>r s'. Move flat_weights 60 new_game = Some (r, s') \<and>
     (if sensible flat_weights {} new_game 60
      then r = 0 \<and> moved flat_weights (play (\<lambda>_. EMPTY) BLACK 60) (ko_point (\<lambda>_. EMPTY) BLACK 60) 60 new_game s'
      else r = - 1 \<and> s' = new_game)"
proof -
  have "InBoard 60 \<or> 60 = COORD_PASS" by (simp add: InBoard_def)
  from Move_contract [OF new_state_inv [of flat_weights True raw_memory] new_game_room this]
  show ?thesis by (auto simp: new_state_fields split: if_splits)
qed

subsection \<open>Games\<close>

inductive reachable :: "zobrist \<Rightarrow> GoState \<Rightarrow> nat \<Rightarrow> u64 set \<Rightarrow> GoState \<Rightarrow> bool" for Z s0 where
  start: "reachable Z s0 0 {} s0"
| move: "reachable Z s0 n H s \<Longrightarrow> InBoard m \<or> m = COORD_PASS \<Longrightarrow> Move Z m s = Some (r, s') \<Longrightarrow>
    reachable Z s0 (Suc n) (if r = 0 then board_hash_states s else H) s'"

inductive_cases reachable_SucE: "reachable Z s0 (Suc n) H s"
inductive_simps reachable_0: "reachable Z s0 0 H s"

lemma moved_room: "moved Z P k m s s' \<Longrightarrow> block_in_use s' \<le> max 2 (block_in_use s + 1)"
  by (simp add: moved_def)

lemma reachable_inv:
  assumes "reachable Z (GoState_new sk raw) n H s" and "n \<le> 254"
  shows "gs_inv Z H s \<and> block_in_use s \<le> int n + 1"
  using assms
proof induction
  case start
  show ?case by (simp add: new_state_inv new_state_fields)
next
  case (move n H s m r s')
  then have inv: "gs_inv Z H s" and bu: "block_in_use s \<le> int n + 1" and n: "n \<le> 253" by simp_all
  have start: "block_in_use s = 0 \<or> 1 \<le> n"
    using move.hyps(1) by cases (simp_all add: new_state_fields)
  have "block_in_use s < MAX_BLOCK_SIZE - 1" using bu n by simp
  from Move_contract_helper [OF inv this move.hyps(2)] move.hyps(3)
  show ?case using inv bu start moved_room by (fastforce split: if_splits)
qed

lemmas reachable_gs_inv = reachable_inv [THEN conjunct1]

lemma reachable_room: "reachable Z (GoState_new sk raw) n H s \<Longrightarrow> n \<le> 253 \<Longrightarrow> block_in_use s < MAX_BLOCK_SIZE - 1"
  using reachable_inv [of Z sk raw n H s] by simp





text \<open>Claim C4. In every position of a game no group is without liberties, and the liberty count kept
  for a stone is the number of liberties of its group (0 for an empty point).\<close>

theorem liberties_are_right:
  assumes "reachable Z (GoState_new sk raw) n H s" and "n \<le> 254" and "InBoard p"
  shows "GetLibertyById s p = (if board_state s p = EMPTY then 0 else int (card (libs (board_state s) (grp (board_state s) p)))) \<and>
    (board_state s p \<noteq> EMPTY \<longrightarrow> 0 < GetLibertyById s p)"
proof -
  have ok: "libs_ok (board_state s) (liberty_count s)"
    using reachable_gs_inv [OF assms(1,2)] by (simp add: gs_inv_def)
  show ?thesis
  proof (cases "board_state s p = EMPTY")
    case True
    with ok assms(3) show ?thesis by (simp add: libs_ok_def GetLibertyById_def)
  next
    case False
    with ok assms(3) have "libs (board_state s) (grp (board_state s) p) \<noteq> {}"
      "liberty_count s p = int (card (libs (board_state s) (grp (board_state s) p)))" by (auto simp: libs_ok_def)
    with False show ?thesis by (simp add: GetLibertyById_def card_gt_0_iff)
  qed
qed

theorem liberties_are_right_witness: "GetLibertyById new_game 0 = 0"
  using liberties_are_right [OF reachable.start [of flat_weights new_game], of 0]
  by (simp add: InBoard_def new_state_fields)

text \<open>Claim C5. The hash kept incrementally is, in every position of a game, the hash computed from
  scratch out of the stones on the board and the side to move.\<close>

theorem hash_from_scratch:
  assumes "reachable Z (GoState_new sk raw) n H s" and "n \<le> 254"
  shows "zobrist_hash_value s = zhash Z (Self s) (board_state s)"
  using reachable_gs_inv [OF assms] by (simp add: gs_inv_def)

theorem hash_from_scratch_witness: "zobrist_hash_value new_game = zhash flat_weights (Self new_game) (board_state new_game)"
  using hash_from_scratch [OF reachable.start [of flat_weights new_game]] by simp

subsection \<open>Blocks and groups\<close>

lemma inv_block:
  assumes inv: "gs_inv Z H s" and p: "InBoard p" "board_state s p \<noteq> EMPTY"
  obtains L b ss where "core (block_pool s) (stones s) (board_state s) (live s) L" "b \<in> live s" "p \<in> set (L b)"
    "GetBlockIdByCoord p s = Some (b, s\<lparr>stones := ss\<rparr>)" "compressed (L ` live s) (stones s) ss"
proof -
  from inv obtain L where c: "core (block_pool s) (stones s) (board_state s) (live s) L" by (auto simp: gs_inv_def)
  from core_cover [OF c p] obtain b where b: "b \<in> live s" "p \<in> set (L b)" by blast
  from GetBlockIdByCoord_core [OF c b p(2)] c b that show thesis by blast
qed

text \<open>Claim C6. The union-find answers for two stones of a position with the same block exactly when
  they belong to the same group; following the parents always ends within 361 steps.\<close>

theorem same_block_iff_same_group:
  assumes "gs_inv Z H s" and "InBoard p" "board_state s p \<noteq> EMPTY" and "InBoard q" "board_state s q \<noteq> EMPTY"
  shows "\<exists>b s1 b' s2. GetBlockIdByCoord p s = Some (b, s1) \<and> GetBlockIdByCoord q s = Some (b', s2) \<and>
    (b = b' \<longleftrightarrow> q \<in> grp (board_state s) p)"
proof -
  obtain L b ss where 1: "core (block_pool s) (stones s) (board_state s) (live s) L" "b \<in> live s" "p \<in> set (L b)"
    "GetBlockIdByCoord p s = Some (b, s\<lparr>stones := ss\<rparr>)" by (rule inv_block [OF assms(1-3)])
  from core_cover [OF 1(1) assms(4,5)] obtain b' where b': "b' \<in> live s" "q \<in> set (L b')" by blast
  from GetBlockIdByCoord_core [OF 1(1) b' assms(5)] obtain ss'
    where 2: "GetBlockIdByCoord q s = Some (b', s\<lparr>stones := ss'\<rparr>)" by blast
  have "b = b' \<longleftrightarrow> q \<in> grp (board_state s) p"
    using core_grp [OF 1(1-3)] core_disjoint [OF 1(1) 1(2) b'(1) _ b'(2)] b'(2) by auto
  with 1(4) 2 show ?thesis by blast
qed

definition one_stone_game :: GoState where
  "one_stone_game = snd (the (Move flat_weights 60 new_game))"

lemma one_stone:
  "gs_inv flat_weights {} one_stone_game \<and> board_state one_stone_game 60 = BLACK \<and> block_in_use one_stone_game \<le> 2 \<and>
   board_state one_stone_game = (\<lambda>_. EMPTY)(60 := BLACK) \<and> Self one_stone_game = WHITE"
proof -
  have "InBoard 60" by (simp add: InBoard_def)
  moreover have "legal_move_map new_game 60" by (simp add: new_state_fields)
  ultimately obtain s' where s': "Move flat_weights 60 new_game = Some (0, s')"
    "gs_inv flat_weights (board_hash_states new_game) s'"
    "moved flat_weights (play (board_state new_game) (Self new_game) 60) (ko_point (board_state new_game) (Self new_game) 60) 60 new_game s'"
    using Move_play_correct [OF new_state_inv new_game_room] by blast
  have "captured (\<lambda>_. 0) 1 60 = {}" by (auto simp: captured_def)
  then have "play (board_state new_game) (Self new_game) 60 = (\<lambda>_. EMPTY)(60 := BLACK)"
    by (simp add: play_def new_state_fields fun_eq_iff)
  with s' show ?thesis by (simp add: one_stone_game_def moved_def new_state_fields)
qed

theorem same_block_iff_same_group_witness:
  "\<exists>b s1. GetBlockIdByCoord 60 one_stone_game = Some (b, s1)"
  using same_block_iff_same_group [of flat_weights "{}" one_stone_game 60 60] one_stone by (auto simp: InBoard_def)

text \<open>For a stone of a position, \<open>FOR_BLOCKSTONE\<close> over its block visits every stone of its
  group exactly once and stops.\<close>

theorem block_list_is_group:
  assumes "gs_inv Z H s" and "InBoard p" "board_state s p \<noteq> EMPTY"
  shows "\<exists>b s1 xs. GetBlockIdByCoord p s = Some (b, s1) \<and>
    for_blockstone board_fuel (\<lambda>_. next_stone s1) (\<lambda>q acc. Some (acc @ [q])) (b_head (block_pool s1 b)) [] = Some xs \<and>
    distinct xs \<and> set xs = grp (board_state s) p"
proof -
  obtain L b ss where 1: "core (block_pool s) (stones s) (board_state s) (live s) L" "b \<in> live s" "p \<in> set (L b)"
    "GetBlockIdByCoord p s = Some (b, s\<lparr>stones := ss\<rparr>)" "compressed (L ` live s) (stones s) ss"
    by (rule inv_block [OF assms])
  let ?s = "s\<lparr>stones := ss\<rparr>"
  note D = coreD [OF 1(1,2)]
  have head: "b_head (block_pool ?s b) = hd (L b)" using D(2) by (simp add: maps_ok_def)
  have "\<exists>xs. for_blockstone board_fuel (\<lambda>_. next_stone ?s) (\<lambda>q acc. Some (acc @ [q])) (hd (L b)) [] = Some xs \<and> xs = L b"
  proof (rule for_blockstone_rule [where P = "\<lambda>dn acc. acc = dn"])
    show "length (L b) \<le> board_fuel" using chain_length [OF D(1)] by (simp add: board_fuel_def)
    fix dn q rest acc assume l: "L b = dn @ q # rest" and "acc = dn"
    moreover have "next_stone ?s q = (if rest = [] then q else hd rest)"
      using D(1) l next_ok_at [of "stones s" dn q rest] compressed_fields(1) [OF 1(5)]
      by (simp add: chain_def next_stone_def)
    ultimately show "\<exists>acc'. Some (acc @ [q]) = Some acc' \<and> acc' = dn @ [q] \<and>
        next_stone ?s q = (if rest = [] then q else hd rest)" by simp
  qed (use D in simp_all)
  with 1(4) head D(8) core_grp [OF 1(1-3)] show ?thesis by auto
qed

theorem block_list_is_group_witness:
  "\<exists>b s1 xs. GetBlockIdByCoord 60 one_stone_game = Some (b, s1) \<and>
    for_blockstone board_fuel (\<lambda>_. next_stone s1) (\<lambda>q acc. Some (acc @ [q])) (b_head (block_pool s1 b)) [] = Some xs \<and>
    distinct xs"
  using block_list_is_group [of flat_weights "{}" one_stone_game 60] one_stone by (auto simp: InBoard_def)

subsection \<open>Trial moves and predicted hashes\<close>

lemma trial_in_position:
  assumes inv: "gs_inv Z H s" and room: "block_in_use s < MAX_BLOCK_SIZE" and p: "InBoard p" "legal_move_map s p"
  obtains L blk s1 nb die s2 where "core (block_pool s) (stones s) (board_state s) (live s) L"
    "GetNewBlock s = Some (blk, s1)" "taken s blk s1"
    "TryMove blk p GOBOARD_SIZE s1 = Some (int (card (captured (board_state s) (Self s) p)), Some (nb, die), s2)"
    "near L (live s) blk s1 s2" "trial_block (board_state s) (Self s) p (block_pool s2 blk)"
    "nb = sorted_list_of_set (touching L (live s) p)" "die = filter (dying (board_state s) L (Self s) p) nb"
proof -
  note I = inv [unfolded gs_inv_def]
  obtain L where core: "core (block_pool s) (stones s) (board_state s) (live s) L" using I by blast
  have ok: "pool_ok s" and col: "Self s \<in> {BLACK, WHITE}" and sens: "sensible Z H s p" using I p by blast+
  obtain blk s1 where new: "GetNewBlock s = Some (blk, s1)" and t: "taken s blk s1"
    using GetNewBlock_spec [OF ok room] by blast
  note F = taken_fields [OF t]
  have blk: "blk \<notin> live s" using t by (simp add: taken_def)
  have core1: "core (block_pool s1) (stones s1) (board_state s1) (live s) L"
    using taken_core [OF core t] F(2) by simp
  have "board_state s1 p = EMPTY" "legal_move_map s1 p" "Self s1 = Self s"
    using F p sens by (simp_all add: sensible_def)
  from TryMove_spec [OF core1 blk p(1) this col] obtain cnt nb die s2
    where "TryMove blk p GOBOARD_SIZE s1 = Some (cnt, Some (nb, die), s2)"
      "trial_result (board_state s) L (live s) blk (Self s) p s1 cnt nb die s2" using F(2) by auto
  with that core new t show thesis by (simp add: trial_result_def)
qed

text \<open>Claim C7. A trial move on a legal point returns the number of stones the move would capture,
  and leaves in the block it was given the group the stone would belong to and its
  liberties after the captures; the board is not touched.\<close>

theorem TryMove_predicts:
  assumes "gs_inv Z H s" and "block_in_use s < MAX_BLOCK_SIZE" and "InBoard p" "legal_move_map s p"
  shows "\<exists>blk s1 nb die s2. GetNewBlock s = Some (blk, s1) \<and>
    TryMove blk p GOBOARD_SIZE s1 = Some (int (card (captured (board_state s) (Self s) p)), Some (nb, die), s2) \<and>
    bits (stone_state (block_pool s2 blk)) = grp ((board_state s)(p := Self s)) p \<and>
    snd (CountLiberty (block_pool s2 blk)) =
      int (card (libs (play (board_state s) (Self s) p) (grp ((board_state s)(p := Self s)) p))) \<and>
    board_state s2 = board_state s"
proof -
  obtain L blk s1 nb die s2 where t: "GetNewBlock s = Some (blk, s1)" "taken s blk s1"
    "TryMove blk p GOBOARD_SIZE s1 = Some (int (card (captured (board_state s) (Self s) p)), Some (nb, die), s2)"
    "near L (live s) blk s1 s2" "trial_block (board_state s) (Self s) p (block_pool s2 blk)"
    by (rule trial_in_position [OF assms])
  have "board_state s2 = board_state s" using near_fields(3) [OF t(4)] taken_fields(2) [OF t(2)] by simp
  with t show ?thesis by (auto simp: trial_block_def Let_def CountLiberty_block)
qed

theorem TryMove_predicts_witness:
  "\<exists>blk s1 nb die s2. GetNewBlock new_game = Some (blk, s1) \<and> TryMove blk 60 361 s1 = Some (0, Some (nb, die), s2)"
proof -
  have "captured (\<lambda>_. 0) 1 60 = {}" by (auto simp: captured_def)
  then show ?thesis
    using TryMove_predicts [OF new_state_inv [of flat_weights True raw_memory], of 60]
    by (simp add: new_state_fields InBoard_def) blast
qed

text \<open>Returning a borrowed block restores the invariant.\<close>

lemma give_back:
  assumes inv: "gs_inv Z H s" and core: "core (block_pool s) (stones s) (board_state s) (live s) L"
    and t: "taken s blk s1" and near: "near L (live s) blk s1 s2"
  shows "gs_inv Z H (RecycleBlock blk s2)" "same_position s (RecycleBlock blk s2)"
proof -
  let ?s = "RecycleBlock blk s2"
  note I = inv [unfolded gs_inv_def] and T = t [unfolded taken_def] and F = taken_fields [OF t] and N = near_fields [OF near]
  have blk: "blk \<notin> live s" using T by blast
  have core1: "core (block_pool s1) (stones s1) (board_state s) (live s) L" by (rule taken_core [OF core t])
  have "core (block_pool s2) (stones s2) (board_state s) (live s) L" by (rule near_core [OF core1 near blk])
  then have core2: "core (block_pool ?s) (stones ?s) (board_state s) (live s) L"
    by (rule core_cong) (use blk in auto)
  have use: "in_use (block_pool s2 x) = in_use (block_pool s1 x)" if "x \<noteq> blk" for x
    using recounted_fields(6) [OF N(20) [OF that]] .
  have live: "live ?s = live s" using T use N(2) by (auto simp: live_def)
  have ok: "pool_ok ?s" using T use N(1,2) by (auto simp: pool_ok_def)
  show pos: "same_position s ?s" using N F by (simp add: same_position_def)
  have b: "board_state ?s = board_state s" "Self ?s = Self s" "liberty_count ?s = liberty_count s"
    "zobrist_hash_value ?s = zobrist_hash_value s" "legal_move_map ?s = legal_move_map s"
    using pos N(13) F(6) by (simp_all add: same_position_def Self_def)
  show "gs_inv Z H ?s"
    unfolding gs_inv_def b live sensible_cong [OF pos]
    using I core2 ok by auto
qed

lemma near_Self: "near L V blk s s' \<Longrightarrow> Self s' = Self s"
  by (rule near_fields(17))

lemma GetNewHashValue_helper:
  assumes inv: "gs_inv Z H s" and room: "block_in_use s < MAX_BLOCK_SIZE" and m: "InBoard m" "legal_move_map s m"
  shows "\<exists>s1. GetNewHashValue Z m s = Some (zhash Z (other (Self s)) (play (board_state s) (Self s) m), s1) \<and>
    gs_inv Z H s1 \<and> same_position s s1"
proof -
  let ?B = "board_state s" and ?c = "Self s"
  note I = inv [unfolded gs_inv_def]
  obtain L blk s1 nb die s2 where core: "core (block_pool s) (stones s) ?B (live s) L"
    and t: "GetNewBlock s = Some (blk, s1)" "taken s blk s1"
    "TryMove blk m GOBOARD_SIZE s1 = Some (int (card (captured ?B ?c m)), Some (nb, die), s2)"
    "near L (live s) blk s1 s2" "nb = sorted_list_of_set (touching L (live s) m)" "die = filter (dying ?B L ?c m) nb"
    by (rule trial_in_position [OF assms])
  note F = taken_fields [OF t(2)] and N = near_fields [OF t(4)]
  have col: "?c \<in> {BLACK, WHITE}" and sens: "sensible Z H s m" using I m by blast+
  have blk: "blk \<notin> live s" using t(2) by (simp add: taken_def)
  have core2: "core (block_pool s2) (stones s2) ?B (live s) L"
    by (rule near_core [OF taken_core [OF core t(2)] t(4) blk])
  have nb: "set nb = touching L (live s) m" "distinct nb" using finite_touching [OF core] by (simp_all add: t(5))
  have self2: "Self s2 = ?c" "zobrist_hash_value s2 = zobrist_hash_value s" using N F by simp_all
  have die: "set die \<subseteq> live s" "distinct die" using nb by (auto simp: t(6) touching_def)
  have D: "(\<Union>d\<in>set die. set (L d)) = captured ?B ?c m" unfolding t(6) by (rule touching_captured [OF core col nb(1)])
  have hash: "dead_hash Z s2 die (player_flip Z s2 (zobrist_hash_value s2) XOR z_board Z (Self s2) m) =
      Some (zhash Z (other ?c) (play ?B ?c m))"
    using dead_hash_spec [OF core2 die self2(1)] zhash_play [of ?B m ?c Z] I col m sens
    by (simp add: D self2 flip_hash sensible_def xor.assoc)
  have "m \<noteq> COORD_PASS" using m(1) by (auto simp: InBoard_def)
  then have "GetNewHashValue Z m s = Some (zhash Z (other ?c) (play ?B ?c m), RecycleBlock blk s2)"
    using t(1,3) hash by (simp add: GetNewHashValue_def)
  with give_back [OF inv core t(2,4)] show ?thesis by blast
qed

text \<open>The hash predicted for a legal move is the hash of the position after the move, and
  computing it leaves the position as it was.\<close>

theorem predicted_hash_is_exact:
  assumes "gs_inv Z H s" and "block_in_use s < MAX_BLOCK_SIZE - 1"
    and "InBoard m \<and> legal_move_map s m \<or> m = COORD_PASS"
  shows "\<exists>h s1 s'. GetNewHashValue Z m s = Some (h, s1) \<and> gs_inv Z H s1 \<and> same_position s s1 \<and>
    Move Z m s = Some (0, s') \<and> zobrist_hash_value s' = h"
proof (cases "m = COORD_PASS")
  case True
  from Move_pass_correct [OF assms(1)] assms(2) obtain s' where
    s': "Move Z COORD_PASS s = Some (0, s')" "gs_inv Z (board_hash_states s) s'"
    "moved Z (board_state s) COORD_UNSET COORD_PASS s s'" by auto
  have "zobrist_hash_value s' = zhash Z (other (Self s)) (board_state s)"
    using s'(2,3) by (simp add: gs_inv_def moved_def)
  also have "\<dots> = player_flip Z s (zobrist_hash_value s)"
    using assms(1) zhash_pass [of "Self s" Z "board_state s"] by (auto simp: gs_inv_def flip_hash xor.assoc)
  finally have "zobrist_hash_value s' = player_flip Z s (zobrist_hash_value s)" .
  moreover have "same_position s s" by (simp add: same_position_def)
  ultimately show ?thesis
    using True s'(1) assms(1) by (simp add: GetNewHashValue_def)
next
  case False
  with assms(3) have m: "InBoard m" "legal_move_map s m" by simp_all
  from GetNewHashValue_helper [OF assms(1) _ m] Move_play_correct [OF assms(1,2) m] assms(2)
  show ?thesis by (fastforce simp: gs_inv_def moved_def)
qed

theorem predicted_hash_is_exact_witness:
  "\<exists>h s1 s'. GetNewHashValue flat_weights 60 new_game = Some (h, s1) \<and>
    Move flat_weights 60 new_game = Some (0, s') \<and> zobrist_hash_value s' = h"
proof -
  have "InBoard 60 \<and> legal_move_map new_game 60 \<or> 60 = COORD_PASS" by (simp add: InBoard_def new_state_fields)
  from predicted_hash_is_exact [OF new_state_inv [of flat_weights True raw_memory] new_game_room this]
  show ?thesis by blast
qed

end
