(* ===== verification/Go_Feature.thy ===== *)
theory Go_Feature
  imports Go_Game Cpp_String
begin

text \<open>
  The input of the neural network (\<open>GetFeature\<close>, \<open>GetFeatureString\<close>, \<open>GetLastFeaturePlane\<close> of
  go_state.cc): for each point the stones of the side to move and of the other side on the
  last eight boards, latest first, and whether Black is to move. \<open>line\<close> are the games without
  refused moves, with the boards they went through.
\<close>

definition SIZE_HISTORYEACHSIDE :: nat where [simp]: "SIZE_HISTORYEACHSIDE = 16"

definition FEATURE_COUNT :: nat where [simp]: "FEATURE_COUNT = SIZE_HISTORYEACHSIDE + 1"

definition board_points :: nat where [simp]: "board_points = 361"

text \<open>\<open>*(rbegin() + k)\<close>.\<close>

definition rbegin_at :: "'a list \<Rightarrow> nat \<Rightarrow> 'a option" where
  "rbegin_at xs k = (if k < length xs then Some (rev xs ! k) else None)"

definition reverse_plane :: "GoState \<Rightarrow> nat" where
  "reverse_plane s = (if Self s = BLACK then 1 else 0)"

definition feature_point :: "string \<Rightarrow> nat \<Rightarrow> nat \<Rightarrow> bool list \<Rightarrow> bool list option" where
  "feature_point str i j f = do { c \<leftarrow> str_at str j; Some (f[i + 17 * j := (c - 48 \<noteq> 0)]) }"

definition GetFeature :: "GoState \<Rightarrow> bool list option" where
  "GetFeature s =
     do {
       let f0 = replicate (board_points * (SIZE_HISTORYEACHSIDE + 1)) False;
       f1 \<leftarrow> foldo (\<lambda>i f. if i < length (feature_history_list s) then do {
                 str \<leftarrow> rbegin_at (feature_history_list s) (i XOR reverse_plane s);
                 foldo (feature_point str i) [0..<board_points] f }
               else Some f) [0..<SIZE_HISTORYEACHSIDE] f0;
       Some (if Self s = BLACK
             then fold (\<lambda>j f. f[SIZE_HISTORYEACHSIDE + 17 * j := True]) [0..<board_points] f1 else f1) }"

definition GetFeatureString :: "GoState \<Rightarrow> string option" where
  "GetFeatureString s =
     do {
       r \<leftarrow> foldo (\<lambda>i r. if i < length (feature_history_list s) then do {
                 str \<leftarrow> rbegin_at (feature_history_list s) (i XOR reverse_plane s);
                 Some (r @ str) }
               else Some (r @ replicate board_points (CHR ''0''))) [0..<SIZE_HISTORYEACHSIDE] [];
       Some (r @ replicate board_points (to_char (48 + (if Self s = BLACK then 1 else 0)))) }"

definition GetLastFeaturePlane :: "GoState \<Rightarrow> string option" where
  "GetLastFeaturePlane s =
     do { a \<leftarrow> rbegin_at (feature_history_list s) 1;
          b \<leftarrow> rbegin_at (feature_history_list s) 0;
          Some (a @ b) }"

subsection \<open>Games and their boards\<close>

inductive line :: "zobrist \<Rightarrow> GoState \<Rightarrow> board list \<Rightarrow> GoState \<Rightarrow> bool" for Z s0 where
  start: "line Z s0 [] s0"
| move: "line Z s0 bs s \<Longrightarrow> InBoard m \<or> m = COORD_PASS \<Longrightarrow> Move Z m s = Some (0, s') \<Longrightarrow>
    line Z s0 (board_state s' # bs) s'"

definition plane :: "GoStoneColor \<Rightarrow> board \<Rightarrow> string" where
  "plane c B = map (\<lambda>p. if B p = c then CHR ''1'' else CHR ''0'') coords"

lemma color_plane: "color_plane c s = plane c (board_state s)"
  by (simp add: color_plane_def plane_def)

lemma length_plane [simp]: "length (plane c B) = 361"
  by (simp add: plane_def)

lemma line_reachable: "line Z s0 bs s \<Longrightarrow> \<exists>H. reachable Z s0 (length bs) H s"
proof (induction rule: line.induct)
  case start
  show ?case by (auto intro: reachable.start)
next
  case (move bs s m s')
  then obtain H where "reachable Z s0 (length bs) H s" by blast
  from reachable.move [OF this move.hyps(2,3)] show ?case by auto
qed

lemma Move_history:
  assumes "gs_inv Z H s" and "block_in_use s < MAX_BLOCK_SIZE - 1" and "InBoard m \<or> m = COORD_PASS"
    and "Move Z m s = Some (0, s')"
  shows "feature_history_list s' = feature_history_list s @ [color_plane BLACK s', color_plane WHITE s']
    \<and> Self s' = other (Self s)"
  using Move_contract_helper [OF assms(1-3)] assms(4) by (auto simp: moved_def split: if_splits)

lemma line_history:
  assumes "line Z (GoState_new sk raw) bs s" and "length bs \<le> 254"
  shows "rev (feature_history_list s) = concat (map (\<lambda>B. [plane WHITE B, plane BLACK B]) bs)
    \<and> Self s = (if even (length bs) then BLACK else WHITE)"
  using assms
proof (induction rule: line.induct)
  case start
  show ?case by (simp add: GoState_new_def new_state_fields) (simp add: Self_def)
next
  case (move bs s m s')
  obtain H where r: "reachable Z (GoState_new sk raw) (length bs) H s" using line_reachable [OF move.hyps(1)] by blast
  have n: "length bs \<le> 253" using move.prems by simp
  have "gs_inv Z H s" using reachable_inv [OF r] n by simp
  from Move_history [OF this reachable_room [OF r n] move.hyps(2,3)] move.IH n
  show ?case by (auto simp: color_plane other_def)
qed

lemma concat_pairs:
  "length (concat (map (\<lambda>B. [f B, g B]) bs)) = 2 * length bs"
  "h < length bs \<Longrightarrow> concat (map (\<lambda>B. [f B, g B]) bs) ! (2 * h) = f (bs ! h) \<and>
     concat (map (\<lambda>B. [f B, g B]) bs) ! Suc (2 * h) = g (bs ! h)"
proof -
  show "length (concat (map (\<lambda>B. [f B, g B]) bs)) = 2 * length bs" by (induction bs) auto
  show "h < length bs \<Longrightarrow> concat (map (\<lambda>B. [f B, g B]) bs) ! (2 * h) = f (bs ! h) \<and>
     concat (map (\<lambda>B. [f B, g B]) bs) ! Suc (2 * h) = g (bs ! h)"
  proof (induction bs arbitrary: h)
    case (Cons B bs)
    then show ?case by (cases h) auto
  qed simp
qed

text \<open>The plane that feature \<open>i\<close> of a position shows: its history index, the board and the side.\<close>

definition plane_of :: "board list \<Rightarrow> GoStoneColor \<Rightarrow> nat \<Rightarrow> string" where
  "plane_of bs c i = plane (if even i then c else other c) (bs ! (i div 2))"

lemma history_plane:
  assumes "line Z (GoState_new sk raw) bs s" and "length bs \<le> 254"
  shows "length (feature_history_list s) = 2 * length bs"
    and "i < 2 * length bs \<Longrightarrow>
      rbegin_at (feature_history_list s) (i XOR reverse_plane s) = Some (plane_of bs (Self s) i)"
proof -
  let ?H = "feature_history_list s"
  note L = line_history [OF assms]
  have "length (rev ?H) = 2 * length bs" using L by (simp only: concat_pairs)
  then show len: "length ?H = 2 * length bs" by simp
  assume i: "i < 2 * length bs"
  obtain h where h: "i = 2 * h \<or> i = Suc (2 * h)" by (metis dvd_def oddE Suc_eq_plus1)
  with i have hb: "h < length bs" by auto
  note P = concat_pairs(2) [OF hb, of "plane WHITE" "plane BLACK"]
  have x: "n XOR Suc 0 = (if even n then Suc n else n - 1)" for n :: nat
    using xor_one_eq [of n] by (cases "even n") (auto elim: oddE)
  show "rbegin_at ?H (i XOR reverse_plane s) = Some (plane_of bs (Self s) i)"
    using h P L hb len by (cases "Self s = BLACK") (auto simp: rbegin_at_def reverse_plane_def plane_of_def x other_def)
qed

subsection \<open>The feature vector\<close>

lemma fold_list_update:
  "k < length f \<Longrightarrow> fold (\<lambda>x f. f[g x := H (g x)]) xs f ! k = (if k \<in> g ` set xs then H k else f ! k)
    \<and> length (fold (\<lambda>x f. f[g x := H (g x)]) xs f) = length f"
  by (induction xs arbitrary: f) (auto simp: nth_list_update)

lemma plane_nth: "j < 361 \<Longrightarrow> plane c B ! j = (if B (int j) = c then CHR ''1'' else CHR ''0'')"
  by (simp add: plane_def coords_def)

lemma str_at_plane: "j < 361 \<Longrightarrow> str_at (plane c B) j = Some (if B (int j) = c then 49 else 48)"
  by (simp add: str_at_def plane_nth schar_def)

lemma feature_index:
  fixes i k :: nat
  assumes "k < 361 * 17" and "i < 17"
  shows "k \<in> (\<lambda>j. i + 17 * j) ` {0..<361} \<longleftrightarrow> k mod 17 = i"
proof
  assume "k mod 17 = i"
  then have "k = i + 17 * (k div 17)" using mult_div_mod_eq [of 17 k] by linarith
  moreover have "k div 17 < 361" using assms by simp
  ultimately show "k \<in> (\<lambda>j. i + 17 * j) ` {0..<361}" by (intro image_eqI [of _ _ "k div 17"]) auto
qed (use assms in auto)

lemma feature_column:
  assumes "length f = 361 * 17" and "i < 17"
  shows "\<exists>f'. foldo (feature_point (plane c B) i) [0..<361] f = Some f' \<and> length f' = 361 * 17 \<and>
    (\<forall>k < 361 * 17. f' ! k = (if k mod 17 = i then B (int (k div 17)) = c else f ! k))"
proof -
  let ?H = "\<lambda>k. B (int (k div 17)) = c"
  let ?f' = "fold (\<lambda>j f. f[i + 17 * j := ?H (i + 17 * j)]) [0..<361] f"
  have "feature_point (plane c B) i j f = Some (f[i + 17 * j := ?H (i + 17 * j)])" if "j < 361" for j f
    using that assms(2) by (simp add: feature_point_def str_at_plane)
  then have "foldo (feature_point (plane c B) i) [0..<361] f =
      foldo (\<lambda>j f. Some (f[i + 17 * j := ?H (i + 17 * j)])) [0..<361] f"
    by (intro foldo_cong) auto
  then have 1: "foldo (feature_point (plane c B) i) [0..<361] f = Some ?f'"
    by (simp add: foldo_Some_fold)
  have "length ?f' = 361 * 17" "?f' ! k = (if k mod 17 = i then ?H k else f ! k)" if "k < 361 * 17" for k
    using fold_list_update [of k f "\<lambda>j. i + 17 * j" ?H "[0..<361]"] that assms by (simp_all add: feature_index)
  note V = this
  have "length ?f' = 361 * 17" using V(1) [of 0] by simp
  with 1 V(2) show ?thesis by blast
qed

lemma feature_planes:
  assumes "line Z (GoState_new sk raw) bs s" and "length bs \<le> 254"
  shows "\<exists>f. GetFeature s = Some f \<and> length f = 361 * 17 \<and>
    (\<forall>k < 361 * 17. f ! k \<longleftrightarrow> (if k mod 17 = 16 then Self s = BLACK
        else k mod 17 < 2 * length bs \<and>
          (bs ! (k mod 17 div 2)) (int (k div 17)) = (if even (k mod 17) then Self s else other (Self s))))"
proof -
  let ?c = "\<lambda>i. if even i then Self s else other (Self s)"
  let ?V = "\<lambda>k. k mod 17 < 2 * length bs \<and> (bs ! (k mod 17 div 2)) (int (k div 17)) = ?c (k mod 17)"
  let ?body = "\<lambda>i f. if i < length (feature_history_list s) then do {
                 str \<leftarrow> rbegin_at (feature_history_list s) (i XOR reverse_plane s);
                 foldo (feature_point str i) [0..<board_points] f } else Some f"
  note P = history_plane [OF assms]
  have "\<exists>f. foldo ?body [0..<16] (replicate (361 * 17) False) = Some f \<and> length f = 361 * 17 \<and>
    (\<forall>k < 361 * 17. f ! k \<longleftrightarrow> k mod 17 \<in> set [0..<16] \<and> ?V k)" (is "\<exists>f. _ \<and> ?Q [0..<16] f")
  proof (rule foldo_rule)
    show "?Q [] (replicate (361 * 17) False)" by simp
  next
    fix dn i rest f assume l: "[0..<16] = dn @ i # rest" and Q: "?Q dn f"
    have i: "i < 16" using arg_cong [OF l, of set] by auto
    show "\<exists>f'. ?body i f = Some f' \<and> ?Q (dn @ [i]) f'"
    proof (cases "i < 2 * length bs")
      case True
      from feature_column [of f i "?c i" "bs ! (i div 2)"] Q i obtain f' where f':
        "foldo (feature_point (plane_of bs (Self s) i) i) [0..<361] f = Some f'" "length f' = 361 * 17"
        "\<forall>k < 361 * 17. f' ! k = (if k mod 17 = i then (bs ! (i div 2)) (int (k div 17)) = ?c i else f ! k)"
        by (auto simp: plane_of_def)
      have "?body i f = Some f'" using True P f'(1) by simp
      moreover have "?Q (dn @ [i]) f'" using f'(2,3) Q True by auto
      ultimately show ?thesis by blast
    next
      case False
      then show ?thesis using P(1) Q by auto
    qed
  qed
  then obtain f where f: "foldo ?body [0..<16] (replicate (361 * 17) False) = Some f" "?Q [0..<16] f" by blast
  let ?g = "if Self s = BLACK then fold (\<lambda>j f. f[16 + 17 * j := (\<lambda>_. True) (16 + 17 * j)]) [0..<361] f else f"
  have G: "GetFeature s = Some ?g" using f(1) by (simp add: GetFeature_def)
  have "length ?g = 361 * 17 \<and> (?g ! k \<longleftrightarrow> (if k mod 17 = 16 then Self s = BLACK else ?V k))" if k: "k < 361 * 17" for k
  proof -
    have "k mod 17 < 17" by simp
    then have "k mod 17 = 16 \<or> k mod 17 \<in> set [0..<16]" by (auto simp del: mod_less_divisor)
    with f(2) k fold_list_update [of k f "\<lambda>j. 16 + 17 * j" "\<lambda>_. True" "[0..<361]"] show ?thesis
      by (auto simp: feature_index simp del: mod_less_divisor)
  qed
  note K = this
  have "length ?g = 361 * 17" using K [of 0] by simp
  with G K show ?thesis by blast
qed


text \<open>Claim C9. For a game of up to 254 accepted moves \<open>GetFeature\<close> returns 17 bits for every point
  \<open>j\<close>: bits 2h and 2h+1 say whether the side to move and its opponent have a stone on \<open>j\<close> on
  the board \<open>h\<close> moves before the last one (false before the start of the game) for h below 8, and
  bit 16 whether Black is to move.\<close>

theorem features_are_the_last_boards:
  assumes "line Z (GoState_new sk raw) bs s" and "length bs \<le> 254"
  shows "\<exists>f. GetFeature s = Some f \<and> length f = 361 * FEATURE_COUNT \<and>
    (\<forall>j < 361. (\<forall>h < 8.
        f ! (17 * j + 2 * h) = (h < length bs \<and> (bs ! h) (int j) = Self s) \<and>
        f ! (17 * j + (2 * h + 1)) = (h < length bs \<and> (bs ! h) (int j) = other (Self s))) \<and>
      f ! (17 * j + 16) = (Self s = BLACK))"
proof -
  obtain f where f: "GetFeature s = Some f" "length f = 361 * 17"
    "\<forall>k < 361 * 17. f ! k \<longleftrightarrow> (if k mod 17 = 16 then Self s = BLACK
        else k mod 17 < 2 * length bs \<and>
          (bs ! (k mod 17 div 2)) (int (k div 17)) = (if even (k mod 17) then Self s else other (Self s)))"
    using feature_planes [OF assms] by blast
  have at: "f ! (17 * j + i) \<longleftrightarrow> (if i = 16 then Self s = BLACK else i < 2 * length bs \<and>
      (bs ! (i div 2)) (int j) = (if even i then Self s else other (Self s)))" if "j < 361" "i < 17" for i j
    using f(3) [rule_format, of "17 * j + i"] that by simp
  have "f ! (17 * j + 2 * h) = (h < length bs \<and> (bs ! h) (int j) = Self s) \<and>
    f ! (17 * j + (2 * h + 1)) = (h < length bs \<and> (bs ! h) (int j) = other (Self s))" if "j < 361" "h < 8" for j h
    using at [OF that(1), of "2 * h"] at [OF that(1), of "2 * h + 1"] that(2) by auto
  with f(1,2) at [of _ 16] show ?thesis by auto
qed

theorem features_are_the_last_boards_witness:
  "\<exists>f. GetFeature new_game = Some f \<and> f ! (17 * 60 + 0) = False \<and> f ! (17 * 60 + 16) = True"
proof -
  from features_are_the_last_boards [OF line.start [of flat_weights new_game]] obtain f where
    "GetFeature new_game = Some f" "\<forall>j < 361. (\<forall>h < 8. f ! (17 * j + 2 * h) = False) \<and> f ! (17 * j + 16) = True"
    by (auto simp: new_state_fields)
  moreover from this(2) have "f ! (17 * 60 + 2 * 0) = False \<and> f ! (17 * 60 + 16)"
    by (rule allE [of _ 60]) (auto dest: spec [of _ 0])
  ultimately show ?thesis by auto
qed

subsection \<open>The feature string\<close>

text \<open>The string is the transpose of the vector: plane after plane.\<close>

lemma plane_of_nth:
  "j < 361 \<Longrightarrow> plane_of bs c i ! j =
    (if (bs ! (i div 2)) (int j) = (if even i then c else other c) then CHR ''1'' else CHR ''0'')"
  by (simp add: plane_of_def plane_nth)

lemma feature_string_planes:
  assumes "line Z (GoState_new sk raw) bs s" and "length bs \<le> 254"
  shows "\<exists>r. GetFeatureString s = Some r \<and> length r = 361 * 17 \<and>
    (\<forall>i < 17. \<forall>j < 361. r ! (361 * i + j) = (if if i = 16 then Self s = BLACK
        else i < 2 * length bs \<and> (bs ! (i div 2)) (int j) = (if even i then Self s else other (Self s))
      then CHR ''1'' else CHR ''0''))"
proof -
  let ?body = "\<lambda>i r. if i < length (feature_history_list s) then do {
                 str \<leftarrow> rbegin_at (feature_history_list s) (i XOR reverse_plane s);
                 Some (r @ str) } else Some (r @ replicate board_points (CHR ''0''))"
  let ?V = "\<lambda>i j. i < 2 * length bs \<and> (bs ! (i div 2)) (int j) = (if even i then Self s else other (Self s))"
  note P = history_plane [OF assms]
  have "\<exists>r. foldo ?body [0..<16] [] = Some r \<and> length r = 361 * length [0..<16] \<and>
    (\<forall>i < length [0..<16]. \<forall>j < 361. r ! (361 * i + j) = (if ?V i j then CHR ''1'' else CHR ''0''))"
    (is "\<exists>r. _ \<and> ?Q [0..<16] r")
  proof (rule foldo_rule)
    show "?Q [] []" by simp
  next
    fix dn i rest r assume l: "[0..<16] = dn @ i # rest" and Q: "?Q dn r"
    have i: "i = length dn" using arg_cong [OF l, of "\<lambda>xs. xs ! length dn"] arg_cong [OF l, of length]
      by (simp add: nth_append)
    define str where "str = (if i < 2 * length bs then plane_of bs (Self s) i else replicate 361 (CHR ''0''))"
    have "?body i r = Some (r @ str)" using P by (simp add: str_def)
    moreover have "length str = 361" by (simp add: str_def plane_of_def)
    moreover have "str ! j = (if ?V i j then CHR ''1'' else CHR ''0'')" if "j < 361" for j
      using that by (simp add: str_def plane_of_nth)
    moreover have "361 * i' + j < 361 * length dn" if "i' < length dn" "j < 361" for i' j
    proof -
      have "361 * Suc i' \<le> 361 * length dn" using that(1) by (intro mult_le_mono2) simp
      with that(2) show ?thesis by simp
    qed
    ultimately show "\<exists>r'. ?body i r = Some r' \<and> ?Q (dn @ [i]) r'"
      using Q i by (auto simp: nth_append less_Suc_eq)
  qed
  then obtain r where r: "foldo ?body [0..<16] [] = Some r" "?Q [0..<16] r" by blast
  let ?last = "replicate 361 (if Self s = BLACK then CHR ''1'' else CHR ''0'')"
  have c: "to_char 49 = CHR ''1''" "to_char 48 = CHR ''0''" by code_simp+
  have "GetFeatureString s = Some (r @ ?last)" using r(1) by (simp add: GetFeatureString_def c)
  moreover have "(r @ ?last) ! (361 * i + j) = (if if i = 16 then Self s = BLACK else ?V i j
      then CHR ''1'' else CHR ''0'')" if "i < 17" "j < 361" for i j
  proof (cases "i = 16")
    case True
    with r(2) that(2) show ?thesis by (simp add: nth_append)
  next
    case False
    with that have "i < 16" by simp
    then have "361 * i + j < 361 * 16" using that(2) by linarith
    with False \<open>i < 16\<close> r(2) that(2) show ?thesis by (simp add: nth_append)
  qed
  ultimately show ?thesis using r(2) by (intro exI [of _ "r @ ?last"]) auto
qed

text \<open>In a game of up to 254 accepted moves the feature string lists the planes of the
  feature vector one after the other: character 361 i + j of \<open>GetFeatureString\<close> is '1' exactly
  when bit 17 j + i of \<open>GetFeature\<close> is set.\<close>

theorem feature_string_is_transpose:
  assumes "line Z (GoState_new sk raw) bs s" and "length bs \<le> 254"
  shows "\<exists>f r. GetFeature s = Some f \<and> GetFeatureString s = Some r \<and> length r = length f \<and>
    (\<forall>i < 17. \<forall>j < 361. r ! (361 * i + j) = (if f ! (17 * j + i) then CHR ''1'' else CHR ''0''))"
proof -
  obtain f where f: "GetFeature s = Some f" "length f = 361 * 17"
    "\<forall>k < 361 * 17. f ! k \<longleftrightarrow> (if k mod 17 = 16 then Self s = BLACK
        else k mod 17 < 2 * length bs \<and>
          (bs ! (k mod 17 div 2)) (int (k div 17)) = (if even (k mod 17) then Self s else other (Self s)))"
    using feature_planes [OF assms] by blast
  obtain r where r: "GetFeatureString s = Some r" "length r = 361 * 17"
    "\<forall>i < 17. \<forall>j < 361. r ! (361 * i + j) = (if if i = 16 then Self s = BLACK
        else i < 2 * length bs \<and> (bs ! (i div 2)) (int j) = (if even i then Self s else other (Self s))
      then CHR ''1'' else CHR ''0'')"
    using feature_string_planes [OF assms] by blast
  have "r ! (361 * i + j) = (if f ! (17 * j + i) then CHR ''1'' else CHR ''0'')" if "i < 17" "j < 361" for i j
    using f(3) [rule_format, of "17 * j + i"] r(3) [rule_format, OF that] that by simp
  with f(1,2) r(1,2) show ?thesis by auto
qed

theorem feature_string_is_transpose_witness:
  "\<exists>f r. GetFeature new_game = Some f \<and> GetFeatureString new_game = Some r \<and> length r = length f"
  using feature_string_is_transpose [OF line.start [of flat_weights new_game]] by auto

text \<open>The last plane pair is the current board, Black's stones first.\<close>

lemma last_feature_plane:
  assumes "line Z (GoState_new sk raw) (B # bs) s" and "length bs < 254"
  shows "GetLastFeaturePlane s = Some (plane BLACK B @ plane WHITE B)"
proof -
  have h: "rev (feature_history_list s) = plane WHITE B # plane BLACK B # concat (map (\<lambda>B. [plane WHITE B, plane BLACK B]) bs)"
    using line_history [OF assms(1)] assms(2) by simp
  from arg_cong [OF h, of length] have "Suc 0 < length (feature_history_list s)" by simp
  with h show ?thesis by (simp add: GetLastFeaturePlane_def rbegin_at_def)
qed

end
