(* ===== verification/Sync_WaitGroup.thy ===== *)
theory Sync_WaitGroup
  imports Go_Prelude
begin

text \<open>
  wait_group.cc: a counter under a mutex. Every method body runs under the lock, so it is one
  atomic step. \<open>Add\<close> returns whether the waiters are notified, or the exception; \<open>None\<close> is the
  overflow of the \<open>int\<close>. \<open>Wait\<close> is \<open>None\<close> while the caller is blocked.
\<close>

datatype wg_error = NegativeCounter

record WaitGroup = m_counter :: int

definition WaitGroup_new :: WaitGroup where
  "WaitGroup_new = \<lparr>m_counter = 0\<rparr>"

definition Add :: "int \<Rightarrow> WaitGroup \<Rightarrow> ((wg_error + bool) \<times> WaitGroup) option" where
  "Add v w =
     (let c = m_counter w + v
      in if - (2 ^ 31) \<le> c \<and> c < 2 ^ 31
         then Some (if c < 0 then Inl NegativeCounter else Inr (c = 0), w\<lparr>m_counter := c\<rparr>)
         else None)"

definition Done :: "WaitGroup \<Rightarrow> ((wg_error + bool) \<times> WaitGroup) option" where
  "Done w = Add (- 1) w"

text \<open>\<open>expired\<close>: the time limit of the call has passed.\<close>

definition Wait :: "int \<Rightarrow> bool \<Rightarrow> WaitGroup \<Rightarrow> bool option" where
  "Wait timeout_us expired w =
     (if m_counter w = 0 then Some True
      else if timeout_us < 0 then None
      else if expired then Some False else None)"

definition wg_ready :: "WaitGroup \<Rightarrow> bool" where
  "wg_ready w \<longleftrightarrow> Wait (- 1) False w = Some True"

lemma wg_ready [simp]: "wg_ready w \<longleftrightarrow> m_counter w = 0"
  by (simp add: wg_ready_def Wait_def)

lemma Done_pos: "0 < m_counter w \<Longrightarrow> m_counter w < 2 ^ 31 \<Longrightarrow>
    Done w = Some (Inr (m_counter w = 1), w\<lparr>m_counter := m_counter w - 1\<rparr>)"
  by (simp add: Done_def Add_def Let_def)

lemma Add_nonneg: "0 \<le> m_counter w \<Longrightarrow> 0 \<le> v \<Longrightarrow> m_counter w + v < 2 ^ 31 \<Longrightarrow>
    Add v w = Some (Inr (m_counter w + v = 0), w\<lparr>m_counter := m_counter w + v\<rparr>)"
  by (simp add: Add_def Let_def)

text \<open>A run of a wait group: the changes are applied one after the other.\<close>

definition wg_run :: "int list \<Rightarrow> WaitGroup \<Rightarrow> (bool list \<times> WaitGroup) option" where
  "wg_run vs w = foldo (\<lambda>v (ns, w). case Add v w of
      Some (Inr n, w') \<Rightarrow> Some (ns @ [n], w') | _ \<Rightarrow> None) vs ([], w)"

text \<open>A wait group works as a counter of outstanding work: a sequence of \<open>Add\<close> and \<open>Done\<close>
  calls whose partial sums stay between zero and the largest \<open>int\<close> never throws, leaves the
  sum in the counter, and notifies the waiters exactly at the calls after which nothing is
  outstanding; a \<open>Done\<close> with nothing outstanding throws.\<close>

theorem wait_group_counts:
  assumes "\<forall>k \<le> length vs. 0 \<le> sum_list (take k vs) \<and> sum_list (take k vs) < 2 ^ 31"
  shows "wg_run vs WaitGroup_new =
      Some (map (\<lambda>k. sum_list (take (Suc k) vs) = 0) [0..<length vs], \<lparr>m_counter = sum_list vs\<rparr>) \<and>
    (\<exists>w'. Done WaitGroup_new = Some (Inl NegativeCounter, w'))"
proof -
  let ?P = "\<lambda>dn (ns, w). ns = map (\<lambda>k. sum_list (take (Suc k) vs) = 0) [0..<length dn]
      \<and> w = \<lparr>m_counter = sum_list dn\<rparr>"
  have "\<exists>r. wg_run vs WaitGroup_new = Some r \<and> ?P vs r"
    unfolding wg_run_def
  proof (rule foldo_rule [where P = ?P])
    show "?P [] ([], WaitGroup_new)" by (simp add: WaitGroup_new_def)
  next
    fix dn v rest r assume l: "vs = dn @ v # rest" and P: "?P dn r"
    have "0 \<le> sum_list dn" "0 \<le> sum_list dn + v" "sum_list dn + v < 2 ^ 31"
      using assms [rule_format, of "length dn"] assms [rule_format, of "Suc (length dn)"] l by simp_all
    moreover have "sum_list (take (Suc (length dn)) vs) = sum_list dn + v" using l by simp
    ultimately show "\<exists>r'. (case r of (ns, w) \<Rightarrow> case Add v w of
        Some (Inr n, w') \<Rightarrow> Some (ns @ [n], w') | _ \<Rightarrow> None) = Some r' \<and> ?P (dn @ [v]) r'"
      using P by (auto simp: Add_def Let_def split: prod.splits)
  qed
  then show ?thesis
    by (auto simp add: Done_def Add_def Let_def WaitGroup_new_def)
qed

theorem wait_group_counts_witness:
  "wg_run [2, - 1, 1, - 1, - 1] WaitGroup_new = Some ([False, False, False, False, True], \<lparr>m_counter = 0\<rparr>)"
proof -
  have "\<forall>k \<le> length [2, - 1, 1, - 1, - 1 :: int]. 0 \<le> sum_list (take k [2, - 1, 1, - 1, - 1 :: int]) \<and>
      sum_list (take k [2, - 1, 1, - 1, - 1 :: int]) < 2 ^ 31"
    by (simp add: le_Suc_eq all_conj_distrib)
  from wait_group_counts [OF this] show ?thesis by (simp add: upt_rec)
qed

end
