(* ===== verification/Sync_Conductor.thy ===== *)
theory Sync_Conductor
  imports Sync_WaitGroup
begin

text \<open>
  thread_conductor.cc and the protocol the engine runs on it (\<open>SearchRoutine\<close>, \<open>SearchResume\<close>,
  \<open>SearchPause\<close>, \<open>Terminate\<close> of mcts_engine.cc): the engine thread resumes the search threads,
  pauses them and waits until each has acknowledged. The critical sections and the accesses to
  the atomic \<open>m_state\<close> are the atomic steps; the threads interleave freely. Besides the search
  threads, a callback can call \<open>Pause\<close>: in the body of a search thread, or, with asynchronous
  evaluation, late in another thread.
\<close>

definition k_pause :: int where [simp]: "k_pause = 0"
definition k_running :: int where [simp]: "k_running = 1"
definition k_terminate :: int where [simp]: "k_terminate = 2"

record ThreadConductor =
  m_state :: int
  m_resume_wg :: WaitGroup
  m_pause_wg :: WaitGroup

definition ThreadConductor_new :: ThreadConductor where
  "ThreadConductor_new = \<lparr>m_state = k_pause, m_resume_wg = WaitGroup_new, m_pause_wg = WaitGroup_new\<rparr>"

text \<open>The atomic parts of the methods. \<open>Pause\<close> is: wait until \<open>m_resume_wg\<close> is zero, then \<open>set_pause\<close>.\<close>

definition set_pause :: "ThreadConductor \<Rightarrow> ThreadConductor" where
  "set_pause c = c\<lparr>m_state := k_pause\<rparr>"

text \<open>The critical section of \<open>Resume\<close>; it is followed by waiting for \<open>m_resume_wg\<close>, unless the
  threads were running already (\<open>False\<close>).\<close>

definition Resume_locked :: "int \<Rightarrow> ThreadConductor \<Rightarrow> (bool \<times> ThreadConductor) option" where
  "Resume_locked num_threads c =
     (if m_state c = k_running then Some (False, c)
      else case (Add num_threads (m_resume_wg c), Add num_threads (m_pause_wg c)) of
        (Some (Inr _, r), Some (Inr _, p)) \<Rightarrow>
          Some (True, \<lparr>m_state = k_running, m_resume_wg = r, m_pause_wg = p\<rparr>)
      | _ \<Rightarrow> None)"

text \<open>The critical section of \<open>Wait\<close>: blocked (\<open>None\<close>) while paused; \<open>True\<close> when \<open>Done\<close> follows.\<close>

definition Wait_locked :: "ThreadConductor \<Rightarrow> bool option" where
  "Wait_locked c = (if m_state c = k_pause then None else Some (m_state c \<noteq> k_terminate))"

definition Wait_done :: "ThreadConductor \<Rightarrow> (wg_error + ThreadConductor) option" where
  "Wait_done c = map_option (\<lambda>(r, w). map_sum id (\<lambda>_. c\<lparr>m_resume_wg := w\<rparr>) r) (Done (m_resume_wg c))"

definition AckPause :: "ThreadConductor \<Rightarrow> (wg_error + ThreadConductor) option" where
  "AckPause c = map_option (\<lambda>(r, w). map_sum id (\<lambda>_. c\<lparr>m_pause_wg := w\<rparr>) r) (Done (m_pause_wg c))"

definition Join :: "int \<Rightarrow> bool \<Rightarrow> ThreadConductor \<Rightarrow> bool option" where
  "Join timeout_us expired c = Wait timeout_us expired (m_pause_wg c)"

text \<open>\<open>Sleep\<close> returns when its time is over or the threads are paused.\<close>

definition Sleep_returns :: "bool \<Rightarrow> ThreadConductor \<Rightarrow> bool" where
  "Sleep_returns expired c \<longleftrightarrow> expired \<or> m_state c = k_pause"

definition IsRunning :: "ThreadConductor \<Rightarrow> bool" where
  "IsRunning c \<longleftrightarrow> m_state c = k_running"

definition IsTerminate :: "ThreadConductor \<Rightarrow> bool" where
  "IsTerminate c \<longleftrightarrow> m_state c = k_terminate"

definition set_terminate :: "ThreadConductor \<Rightarrow> ThreadConductor" where
  "set_terminate c = c\<lparr>m_state := k_terminate\<rparr>"

subsection \<open>The threads\<close>

text \<open>
  The places in \<open>SearchRoutine\<close>. The flag is true before the loop. \<open>W_pause1\<close> and \<open>W_pause2\<close> are
  the two parts of a \<open>Pause\<close> called by the simulation the thread is running.
\<close>

datatype worker = W_wait bool | W_done bool | W_term bool | W_check | W_body | W_pause1 | W_pause2 |
  W_ack | W_exit | W_error

inductive worker_step :: "ThreadConductor \<Rightarrow> worker \<Rightarrow> ThreadConductor \<Rightarrow> worker \<Rightarrow> bool" where
  wait_run: "Wait_locked c = Some True \<Longrightarrow> worker_step c (W_wait b) c (W_done b)"
| wait_term: "Wait_locked c = Some False \<Longrightarrow> worker_step c (W_wait b) c (W_term b)"
| wait_done: "Wait_done c = Some (Inr c') \<Longrightarrow> worker_step c (W_done b) c' (W_term b)"
| wait_error: "Wait_done c = Some (Inl e) \<Longrightarrow> worker_step c (W_done b) c W_error"
| is_term: "IsTerminate c \<Longrightarrow> worker_step c (W_term b) c W_exit"
| first_check: "\<not> IsTerminate c \<Longrightarrow> worker_step c (W_term True) c W_check"
| resumed: "\<not> IsTerminate c \<Longrightarrow> worker_step c (W_term False) c W_body"
| check_run: "IsRunning c \<Longrightarrow> worker_step c W_check c W_body"
| check_stop: "\<not> IsRunning c \<Longrightarrow> worker_step c W_check c W_ack"
| simulate: "worker_step c W_body c W_check"
| call_pause: "worker_step c W_body c W_pause1"
| pause_wait: "wg_ready (m_resume_wg c) \<Longrightarrow> worker_step c W_pause1 c W_pause2"
| pause_set: "worker_step c W_pause2 (set_pause c) W_check"
| ack: "AckPause c = Some (Inr c') \<Longrightarrow> worker_step c W_ack c' (W_wait False)"
| ack_error: "AckPause c = Some (Inl e) \<Longrightarrow> worker_step c W_ack c W_error"

text \<open>
  The engine thread: \<open>SearchResume\<close> from \<open>M_idle\<close>, \<open>SearchPause\<close> from \<open>M_searching\<close> (timed joins
  in between change nothing), and the destructor's \<open>Terminate\<close> from either.
\<close>

datatype engine = M_idle | M_resuming | M_searching | M_pause1 | M_pause2 | M_join |
  T_pause1 | T_pause2 | T_join | T_set | M_end

inductive engine_step :: "int \<Rightarrow> ThreadConductor \<Rightarrow> engine \<Rightarrow> ThreadConductor \<Rightarrow> engine \<Rightarrow> bool" for n where
  resume: "Resume_locked n c = Some (True, c') \<Longrightarrow> engine_step n c M_idle c' M_resuming"
| resume_noop: "Resume_locked n c = Some (False, c') \<Longrightarrow> engine_step n c M_idle c' M_searching"
| resumed: "wg_ready (m_resume_wg c) \<Longrightarrow> engine_step n c M_resuming c M_searching"
| pause: "engine_step n c M_searching c M_pause1"
| pause_wait: "wg_ready (m_resume_wg c) \<Longrightarrow> engine_step n c M_pause1 c M_pause2"
| pause_set: "engine_step n c M_pause2 (set_pause c) M_join"
| joined: "Join (- 1) False c = Some True \<Longrightarrow> engine_step n c M_join c M_idle"
| term_idle: "engine_step n c M_idle c T_pause1"
| term_search: "engine_step n c M_searching c T_pause1"
| term_wait: "wg_ready (m_resume_wg c) \<Longrightarrow> engine_step n c T_pause1 c T_pause2"
| term_pause: "engine_step n c T_pause2 (set_pause c) T_join"
| term_join: "Join (- 1) False c = Some True \<Longrightarrow> engine_step n c T_join c T_set"
| term_set: "engine_step n c T_set (set_terminate c) M_end"

text \<open>A late callback in an evaluation thread: before \<open>Pause\<close>, between its parts, finished.\<close>

datatype late = L_pause1 | L_pause2 | L_end

record sys =
  conductor :: ThreadConductor
  engine :: engine
  workers :: "worker list"
  lates :: "late list"

definition sys_new :: "nat \<Rightarrow> sys" where
  "sys_new n = \<lparr>conductor = ThreadConductor_new, engine = M_idle, workers = replicate n (W_wait True), lates = []\<rparr>"

inductive sys_step :: "bool \<Rightarrow> sys \<Rightarrow> sys \<Rightarrow> bool" for async where
  worker: "i < length (workers s) \<Longrightarrow> worker_step (conductor s) (workers s ! i) c' w' \<Longrightarrow>
    sys_step async s (s\<lparr>conductor := c', workers := (workers s)[i := w']\<rparr>)"
| engine: "engine_step (int (length (workers s))) (conductor s) (engine s) c' e' \<Longrightarrow>
    sys_step async s (s\<lparr>conductor := c', engine := e'\<rparr>)"
| postpone: "async \<Longrightarrow> i < length (workers s) \<Longrightarrow> workers s ! i = W_body \<Longrightarrow>
    sys_step async s (s\<lparr>workers := (workers s)[i := W_check], lates := lates s @ [L_pause1]\<rparr>)"
| late_wait: "i < length (lates s) \<Longrightarrow> lates s ! i = L_pause1 \<Longrightarrow> wg_ready (m_resume_wg (conductor s)) \<Longrightarrow>
    sys_step async s (s\<lparr>lates := (lates s)[i := L_pause2]\<rparr>)"
| late_set: "i < length (lates s) \<Longrightarrow> lates s ! i = L_pause2 \<Longrightarrow>
    sys_step async s (s\<lparr>conductor := set_pause (conductor s), lates := (lates s)[i := L_end]\<rparr>)"

inductive sys_reach :: "bool \<Rightarrow> nat \<Rightarrow> sys \<Rightarrow> bool" for async n where
  start: "sys_reach async n (sys_new n)"
| step: "sys_reach async n s \<Longrightarrow> sys_step async s s' \<Longrightarrow> sys_reach async n s'"

inductive_cases worker_stepE: "worker_step c w c' w'"
inductive_cases engine_stepE: "engine_step n c e c' e'"


subsection \<open>The invariant\<close>

definition cnt :: "('a \<Rightarrow> bool) \<Rightarrow> 'a list \<Rightarrow> int" where
  "cnt P xs = int (length (filter P xs))"

lemma cnt_simps [simp]: "cnt P [] = 0" "cnt P (x # xs) = (if P x then 1 else 0) + cnt P xs"
  by (simp_all add: cnt_def)

lemma cnt_update:
  "i < length xs \<Longrightarrow> cnt P (xs[i := x]) = cnt P xs - (if P (xs ! i) then 1 else 0) + (if P x then 1 else 0)"
proof (induction xs arbitrary: i)
  case (Cons y ys)
  then show ?case by (cases i) auto
qed simp

lemma cnt_nonneg [simp]: "0 \<le> cnt P xs"
  by (simp add: cnt_def)

lemma cnt_le: "cnt P xs \<le> int (length xs)"
  by (simp add: cnt_def)

lemma cnt_pos: "i < length xs \<Longrightarrow> P (xs ! i) \<Longrightarrow> 0 < cnt P xs"
  by (auto simp: cnt_def filter_empty_conv)

lemma cnt_zero: "cnt P xs = 0 \<longleftrightarrow> (\<forall>x\<in>set xs. \<not> P x)"
  by (auto simp: cnt_def filter_empty_conv)

lemma cnt_split: "\<forall>x\<in>set xs. P x \<noteq> Q x \<Longrightarrow> cnt P xs + cnt Q xs = int (length xs)"
  by (induction xs) auto

text \<open>A thread has not started yet, is between starting and acknowledging, or is at neither.\<close>

fun starting :: "worker \<Rightarrow> bool" where
  "starting (W_wait b) = True" | "starting (W_done b) = True" | "starting _ = False"

fun busy :: "worker \<Rightarrow> bool" where
  "busy (W_wait b) = False" | "busy (W_done b) = False" | "busy W_exit = False" | "busy W_error = False" |
  "busy _ = True"

abbreviation resume_count :: "ThreadConductor \<Rightarrow> int" where
  "resume_count c \<equiv> m_counter (m_resume_wg c)"
abbreviation pause_count :: "ThreadConductor \<Rightarrow> int" where
  "pause_count c \<equiv> m_counter (m_pause_wg c)"

fun run_worker :: "worker \<Rightarrow> bool" where
  "run_worker W_ack = False" | "run_worker W_exit = False" | "run_worker W_error = False" | "run_worker _ = True"

fun pause_worker :: "worker \<Rightarrow> bool" where
  "pause_worker (W_done b) = False" | "pause_worker W_exit = False" | "pause_worker W_error = False" |
  "pause_worker _ = True"

fun end_worker :: "worker \<Rightarrow> bool" where
  "end_worker (W_wait b) = True" | "end_worker (W_term b) = True" | "end_worker W_exit = True" |
  "end_worker _ = False"

definition workers_inv :: "ThreadConductor \<Rightarrow> worker list \<Rightarrow> bool" where
  "workers_inv c ws \<longleftrightarrow>
     m_state c = k_running \<and> resume_count c = cnt starting ws \<and> pause_count c = int (length ws) \<and>
       (\<forall>w\<in>set ws. run_worker w) \<and> (W_pause2 \<in> set ws \<longrightarrow> resume_count c = 0) \<or>
     m_state c = k_pause \<and> resume_count c = 0 \<and> pause_count c = cnt busy ws \<and> (\<forall>w\<in>set ws. pause_worker w) \<or>
     m_state c = k_terminate \<and> resume_count c = 0 \<and> pause_count c = 0 \<and> (\<forall>w\<in>set ws. end_worker w)"

fun engine_inv :: "ThreadConductor \<Rightarrow> engine \<Rightarrow> bool" where
  "engine_inv c M_idle \<longleftrightarrow> m_state c = k_pause \<and> pause_count c = 0"
| "engine_inv c T_set \<longleftrightarrow> m_state c = k_pause \<and> pause_count c = 0"
| "engine_inv c M_resuming \<longleftrightarrow> m_state c \<noteq> k_terminate"
| "engine_inv c M_join \<longleftrightarrow> m_state c = k_pause"
| "engine_inv c T_join \<longleftrightarrow> m_state c = k_pause"
| "engine_inv c M_end \<longleftrightarrow> m_state c = k_terminate"
| "engine_inv c _ \<longleftrightarrow> m_state c \<noteq> k_terminate \<and> resume_count c = 0"

lemmas conductor_ops = Wait_locked_def Wait_done_def AckPause_def Join_def Resume_locked_def set_pause_def
  set_terminate_def IsRunning_def IsTerminate_def Wait_def

lemma set_update_mem: "x \<in> set (xs[i := y]) \<Longrightarrow> x = y \<or> x \<in> set xs"
  using set_update_subset_insert [of xs i y] by blast

lemma all_busy:
  assumes "\<forall>w\<in>set ws. run_worker w" and "\<forall>w\<in>set ws. \<not> starting w"
  shows "cnt busy ws = int (length ws)" "\<forall>w\<in>set ws. pause_worker w"
proof -
  have "run_worker w \<Longrightarrow> \<not> starting w \<Longrightarrow> busy w \<and> pause_worker w" for w by (cases w) auto
  with assms have b: "\<forall>w\<in>set ws. busy w \<and> pause_worker w" by blast
  then show "\<forall>w\<in>set ws. pause_worker w" by blast
  from b have "filter busy ws = ws" by (simp add: filter_id_conv)
  then show "cnt busy ws = int (length ws)" by (simp add: cnt_def)
qed

lemma engine_inv_mono:
  assumes "engine_inv c e" and "m_state c' = m_state c \<or> m_state c \<noteq> k_terminate \<and> m_state c' = k_pause"
    and "resume_count c = 0 \<longrightarrow> resume_count c' = 0" and "pause_count c = 0 \<longrightarrow> pause_count c' = 0"
  shows "engine_inv c' e"
  using assms by (cases e) auto

lemma worker_keeps:
  assumes inv: "workers_inv c ws" and eng: "engine_inv c e" and small: "int (length ws) < 2 ^ 31"
    and i: "i < length ws" and st: "worker_step c (ws ! i) c' w'"
  shows "workers_inv c' (ws[i := w'])" "engine_inv c' e"
proof -
  have w: "ws ! i \<in> set ws" using i by simp
  have upd: "\<forall>w\<in>set ws. Q w \<Longrightarrow> Q w' \<Longrightarrow> \<forall>w\<in>set (ws[i := w']). Q w" for Q
    using set_update_mem [of _ ws i w'] by blast
  note U = cnt_update [OF i, of starting w'] cnt_update [OF i, of busy w'] and P = cnt_pos [OF i]
  note upd = upd [of run_worker] upd [of pause_worker] upd [of end_worker]
  have W2: "W_pause2 \<in> set (ws[i := w']) \<Longrightarrow> w' = W_pause2 \<or> W_pause2 \<in> set ws"
    using set_update_mem [of W_pause2 ws i w'] by blast
  consider (run) "m_state c = k_running" "resume_count c = cnt starting ws" "pause_count c = int (length ws)"
       "\<forall>w\<in>set ws. run_worker w" "W_pause2 \<in> set ws \<longrightarrow> resume_count c = 0"
    | (pause) "m_state c = k_pause" "resume_count c = 0" "pause_count c = cnt busy ws" "\<forall>w\<in>set ws. pause_worker w"
    | (over) "m_state c = k_terminate" "resume_count c = 0" "pause_count c = 0" "\<forall>w\<in>set ws. end_worker w"
    using inv unfolding workers_inv_def by blast
  then have "workers_inv c' (ws[i := w']) \<and> engine_inv c' e"
  proof cases
    case run
    have run': "run_worker (ws ! i)" using run(4) w by blast
    have start: "starting (ws ! i) \<Longrightarrow> 0 < resume_count c" using P run(2) by simp
    have z: "ws ! i = W_pause2 \<Longrightarrow> resume_count c = 0" using w run(5) by auto
    have small': "resume_count c < 2 ^ 31" using cnt_le [of starting ws] run(2) small by simp
    show ?thesis using st
    proof cases
      case pause_set
      with z run(2) have none: "resume_count c = 0" "\<forall>w\<in>set ws. \<not> starting w" by (simp_all add: cnt_zero)
      with run(3,4) all_busy [of ws] have "pause_count c = cnt busy ws" "\<forall>w\<in>set ws. pause_worker w" by auto
      with none(1) pause_set run(1) U(2) upd(2) show ?thesis
        by (auto simp: conductor_ops workers_inv_def intro: engine_inv_mono [OF eng])
    qed (use run run' start U(1) upd(1) W2 small' Done_pos [of "m_resume_wg c"] in
      \<open>auto simp: conductor_ops workers_inv_def intro: engine_inv_mono [OF eng]\<close>)
  next
    case pause
    have pause': "pause_worker (ws ! i)" using pause(4) w by blast
    have pos: "busy (ws ! i) \<Longrightarrow> 0 < pause_count c" using P pause(3) by simp
    have small': "pause_count c < 2 ^ 31" using cnt_le [of busy ws] pause(3) small by simp
    have keep: "pause_worker w' \<Longrightarrow> busy w' = busy (ws ! i) \<Longrightarrow> c' = c \<Longrightarrow> ?thesis"
      using pause U(2) upd(2) eng by (simp add: workers_inv_def)
    show ?thesis using st
    proof cases
      case (ack)
      then have "c' = c\<lparr>m_pause_wg := (m_pause_wg c)\<lparr>m_counter := pause_count c - 1\<rparr>\<rparr>"
        using Done_pos [of "m_pause_wg c"] pos small' by (simp add: AckPause_def)
      with ack pause pos U(2) upd(2) show ?thesis
        by (auto simp: workers_inv_def intro: engine_inv_mono [OF eng])
    next
      case pause_set
      then have "c' = c" using pause(1) by (simp add: set_pause_def)
      with pause_set show ?thesis by (intro keep) simp_all
    next
      case (ack_error e)
      then show ?thesis using Done_pos [of "m_pause_wg c"] pos small' by (simp add: AckPause_def)
    qed (use pause(1) pause' keep in \<open>simp_all add: conductor_ops\<close>)
  next
    case over
    have "end_worker (ws ! i)" using over(4) w by blast
    with st show ?thesis
      by cases (use over upd(3) in \<open>auto simp: conductor_ops workers_inv_def intro: engine_inv_mono [OF eng]\<close>)
  qed
  then show "workers_inv c' (ws[i := w'])" "engine_inv c' e" by simp_all
qed


lemma all_waiting:
  assumes "\<forall>w\<in>set ws. pause_worker w" and "cnt busy ws = 0"
  shows "\<forall>w\<in>set ws. \<exists>b. w = W_wait b"
proof
  fix w assume "w \<in> set ws"
  with assms have "pause_worker w" "\<not> busy w" by (simp_all add: cnt_zero)
  then show "\<exists>b. w = W_wait b" by (cases w) auto
qed

lemma waiting_classes:
  assumes "\<forall>w\<in>set ws. \<exists>b. w = W_wait b"
  shows "cnt starting ws = int (length ws)" "\<forall>w\<in>set ws. run_worker w" "\<forall>w\<in>set ws. end_worker w" "W_pause2 \<notin> set ws"
proof -
  have "filter starting ws = ws" using assms by (fastforce simp: filter_id_conv)
  then show "cnt starting ws = int (length ws)" by (simp add: cnt_def)
qed (use assms in fastforce)+

lemma engine_keeps:
  assumes inv: "workers_inv c ws" and eng: "engine_inv c e" and small: "int (length ws) < 2 ^ 31"
    and st: "engine_step (int (length ws)) c e c' e'"
  shows "workers_inv c' ws \<and> engine_inv c' e'"
  using st
proof cases
  case resume
  with inv eng have c: "m_state c = k_pause" "resume_count c = 0" "pause_count c = 0" "cnt busy ws = 0"
    "\<forall>w\<in>set ws. pause_worker w" by (auto simp: workers_inv_def)
  note W = waiting_classes [OF all_waiting [OF c(5,4)]]
  have "c' = \<lparr>m_state = k_running, m_resume_wg = (m_resume_wg c)\<lparr>m_counter := int (length ws)\<rparr>,
      m_pause_wg = (m_pause_wg c)\<lparr>m_counter := int (length ws)\<rparr>\<rparr>"
    using resume c small by (simp add: Resume_locked_def Add_nonneg)
  with W resume show ?thesis by (simp add: workers_inv_def)
next
  case resume_noop
  with eng show ?thesis by (simp add: Resume_locked_def split: option.splits prod.splits sum.splits if_splits)
next
  case pause_set
  have "workers_inv (set_pause c) ws"
    using inv eng pause_set all_busy [of ws] by (auto simp: workers_inv_def set_pause_def cnt_zero)
  with pause_set show ?thesis by (simp add: set_pause_def)
next
  case term_pause
  have "workers_inv (set_pause c) ws"
    using inv eng term_pause all_busy [of ws] by (auto simp: workers_inv_def set_pause_def cnt_zero)
  with term_pause show ?thesis by (simp add: set_pause_def)
next
  case term_set
  with inv eng have c: "m_state c = k_pause" "resume_count c = 0" "pause_count c = 0" "cnt busy ws = 0"
    "\<forall>w\<in>set ws. pause_worker w" by (auto simp: workers_inv_def)
  note W = waiting_classes [OF all_waiting [OF c(5,4)]]
  with c term_set show ?thesis by (simp add: workers_inv_def set_terminate_def)
next
  case joined
  with inv eng show ?thesis by (auto simp: Join_def Wait_def split: if_splits)
next
  case term_join
  with inv eng show ?thesis by (auto simp: Join_def Wait_def split: if_splits)
next
  case term_idle
  with inv eng show ?thesis by (auto simp: workers_inv_def)
qed (use inv eng in auto)

lemma sync_inv:
  assumes "sys_reach False n s" and "int n < 2 ^ 31"
  shows "length (workers s) = n \<and> lates s = [] \<and> workers_inv (conductor s) (workers s) \<and>
    engine_inv (conductor s) (engine s)"
  using assms(1)
proof induction
  case start
  have "cnt busy (replicate n (W_wait True)) = 0" by (simp add: cnt_zero)
  then show ?case by (simp add: sys_new_def workers_inv_def ThreadConductor_new_def WaitGroup_new_def)
next
  case (step s s')
  note I = step.IH
  from step.hyps(2) show ?case
  proof cases
    case (worker i c' w')
    with worker_keeps [of "conductor s" "workers s" "engine s" i c' w'] I assms(2) show ?thesis by simp
  next
    case (engine c' e')
    with engine_keeps [of "conductor s" "workers s" "engine s" c' e'] I assms(2) show ?thesis by simp
  qed (use I in simp_all)
qed




subsection \<open>Progress\<close>

text \<open>The steps a thread can still make before it is parked.\<close>

fun work :: "worker \<Rightarrow> nat" where
  "work (W_term b) = 6" | "work W_body = 5" | "work W_pause1 = 4" | "work W_pause2 = 3" |
  "work W_check = 2" | "work W_ack = 1" | "work _ = 0"

lemma sum_list_update_less:
  "i < length xs \<Longrightarrow> (f x :: nat) < f (xs ! i) \<Longrightarrow> sum_list (map f (xs[i := x])) < sum_list (map f xs)"
proof (induction xs arbitrary: i)
  case (Cons y ys)
  then show ?case by (cases i) auto
qed simp

lemma paused_worker_step:
  assumes "worker_step c w c' w'" and "m_state c = k_pause" and "pause_worker w" and "w' \<noteq> W_error"
  shows "work w' < work w"
  using assms by cases (auto simp: conductor_ops)

lemma paused_worker_moves:
  assumes "m_state c = k_pause" and "resume_count c = 0" and "0 < pause_count c" "pause_count c < 2 ^ 31"
    and "busy w"
  shows "\<exists>c' w'. worker_step c w c' w'"
proof (cases w)
  case (W_term b)
  have "\<not> IsTerminate c" using assms(1) by (simp add: IsTerminate_def)
  then have "worker_step c (W_term True) c W_check" "worker_step c (W_term False) c W_body"
    by (rule worker_step.first_check worker_step.resumed)+
  then show ?thesis unfolding W_term by (cases b) auto
next
  case W_ack
  have "AckPause c = Some (Inr (c\<lparr>m_pause_wg := (m_pause_wg c)\<lparr>m_counter := pause_count c - 1\<rparr>\<rparr>))"
    using Done_pos [of "m_pause_wg c"] assms(3,4) by (simp add: AckPause_def)
  with W_ack show ?thesis by (auto intro: worker_step.ack)
next
  case W_check
  have "\<not> IsRunning c" using assms(1) by (simp add: IsRunning_def)
  from worker_step.check_stop [OF this] show ?thesis unfolding W_check by blast
next
  case W_pause1
  from worker_step.pause_wait [of c] assms(2) show ?thesis unfolding W_pause1 by auto
next
  case W_body
  from worker_step.simulate [of c] show ?thesis unfolding W_body by blast
next
  case W_pause2
  from worker_step.pause_set [of c] show ?thesis unfolding W_pause2 by blast
qed (use assms(5) in auto)

lemma starting_worker_moves:
  assumes "m_state c = k_running" and "0 < resume_count c" "resume_count c < 2 ^ 31" and "starting w"
  shows "\<exists>c' w'. worker_step c w c' w'"
proof (cases w)
  case (W_done b)
  have "Wait_done c = Some (Inr (c\<lparr>m_resume_wg := (m_resume_wg c)\<lparr>m_counter := resume_count c - 1\<rparr>\<rparr>))"
    using Done_pos [of "m_resume_wg c"] assms(2,3) by (simp add: Wait_done_def)
  with W_done show ?thesis by (auto intro: worker_step.wait_done)
next
  case (W_wait b)
  have "Wait_locked c = Some True" using assms(1) by (simp add: Wait_locked_def)
  then show ?thesis unfolding W_wait by (blast intro: worker_step.wait_run)
qed (use assms(4) in auto)

lemma mover:
  assumes "i < length (workers s)" and "\<exists>c' w'. worker_step (conductor s) (workers s ! i) c' w'"
  shows "\<exists>s'. sys_step async s s'"
  using assms sys_step.worker by blast

lemma cnt_mem: "0 < cnt P xs \<Longrightarrow> \<exists>i < length xs. P (xs ! i)"
  using cnt_zero [of P xs] by (metis in_set_conv_nth less_irrefl)




subsection \<open>Late callbacks\<close>

definition cond_of :: "int \<Rightarrow> int \<Rightarrow> int \<Rightarrow> ThreadConductor" where
  "cond_of m r p = \<lparr>m_state = m, m_resume_wg = \<lparr>m_counter = r\<rparr>, m_pause_wg = \<lparr>m_counter = p\<rparr>\<rparr>"

definition one_thread :: "ThreadConductor \<Rightarrow> engine \<Rightarrow> worker \<Rightarrow> late list \<Rightarrow> sys" where
  "one_thread c e w ls = \<lparr>conductor = c, engine = e, workers = [w], lates = ls\<rparr>"

lemma one_start: "sys_reach True 1 (one_thread (cond_of 0 0 0) M_idle (W_wait True) [])"
  using sys_reach.start [of True 1]
  by (simp add: sys_new_def one_thread_def cond_of_def ThreadConductor_new_def WaitGroup_new_def)

lemma one_worker:
  "sys_reach True 1 (one_thread c e w ls) \<Longrightarrow> worker_step c w c' w' \<Longrightarrow> sys_reach True 1 (one_thread c' e w' ls)"
  using sys_step.worker [of 0 "one_thread c e w ls" c' w' True] by (auto simp: one_thread_def intro: sys_reach.step)

lemma one_engine:
  "sys_reach True 1 (one_thread c e w ls) \<Longrightarrow> engine_step 1 c e c' e' \<Longrightarrow> sys_reach True 1 (one_thread c' e' w ls)"
  using sys_step.engine [of "one_thread c e w ls" c' e' True] by (auto simp: one_thread_def intro: sys_reach.step)

lemma one_postpone:
  "sys_reach True 1 (one_thread c e W_body []) \<Longrightarrow> sys_reach True 1 (one_thread c e W_check [L_pause1])"
  using sys_step.postpone [of True 0 "one_thread c e W_body []"] by (auto simp: one_thread_def intro: sys_reach.step)

lemma one_late_wait:
  "sys_reach True 1 (one_thread c e w [L_pause1]) \<Longrightarrow> resume_count c = 0 \<Longrightarrow>
   sys_reach True 1 (one_thread c e w [L_pause2])"
  using sys_step.late_wait [of 0 "one_thread c e w [L_pause1]" True] by (auto simp: one_thread_def intro: sys_reach.step)

lemma one_late_set:
  "sys_reach True 1 (one_thread c e w [L_pause2]) \<Longrightarrow> sys_reach True 1 (one_thread (set_pause c) e w [L_end])"
  using sys_step.late_set [of 0 "one_thread c e w [L_pause2]" True] by (auto simp: one_thread_def intro: sys_reach.step)

lemma cond_ops:
  "Resume_locked 1 (cond_of 0 0 0) = Some (True, cond_of 1 1 1)" "Wait_locked (cond_of 1 1 1) = Some True"
  "Wait_done (cond_of 1 1 1) = Some (Inr (cond_of 1 0 1))" "\<not> IsTerminate (cond_of 1 0 1)" "IsRunning (cond_of 1 0 1)"
  "wg_ready (m_resume_wg (cond_of 1 0 1))" "set_pause (cond_of 1 0 1) = cond_of 0 0 1" "\<not> IsRunning (cond_of 0 0 1)"
  "AckPause (cond_of 0 0 1) = Some (Inr (cond_of 0 0 0))" "Join (- 1) False (cond_of 0 0 0) = Some True"
  "set_pause (cond_of 1 1 1) = cond_of 0 1 1" "resume_count (cond_of 1 0 1) = 0"
  by (simp_all add: cond_of_def conductor_ops Add_def Done_def)

text \<open>With asynchronous evaluation the protocol can lock up: a callback of an earlier search
  that calls \<open>Pause\<close> late, its wait over before the engine resumed and its store made after,
  leaves the engine waiting for ever in \<open>Resume\<close> with the search threads asleep in \<open>Wait\<close>.\<close>

theorem late_pause_deadlock:
  "\<exists>s. sys_reach True 1 s \<and> engine s = M_resuming \<and> (\<forall>s'. \<not> sys_step True s s')"
proof -
  have "sys_reach True 1 (one_thread (cond_of 1 1 1) M_resuming (W_wait True) [])"
    by (rule one_engine [OF one_start]) (rule engine_step.resume, rule cond_ops)
  then have "sys_reach True 1 (one_thread (cond_of 1 1 1) M_resuming (W_done True) [])"
    by (rule one_worker) (rule worker_step.wait_run, rule cond_ops)
  then have "sys_reach True 1 (one_thread (cond_of 1 0 1) M_resuming (W_term True) [])"
    by (rule one_worker) (rule worker_step.wait_done, rule cond_ops)
  then have "sys_reach True 1 (one_thread (cond_of 1 0 1) M_resuming W_check [])"
    by (rule one_worker) (rule worker_step.first_check, rule cond_ops)
  then have "sys_reach True 1 (one_thread (cond_of 1 0 1) M_resuming W_body [])"
    by (rule one_worker) (rule worker_step.check_run, rule cond_ops)
  then have "sys_reach True 1 (one_thread (cond_of 1 0 1) M_searching W_body [])"
    by (rule one_engine) (rule engine_step.resumed, rule cond_ops)
  then have "sys_reach True 1 (one_thread (cond_of 1 0 1) M_searching W_check [L_pause2])"
    by (intro one_late_wait one_postpone) (simp_all only: cond_ops)
  then have "sys_reach True 1 (one_thread (cond_of 1 0 1) M_pause1 W_check [L_pause2])"
    by (rule one_engine) (rule engine_step.pause)
  then have "sys_reach True 1 (one_thread (cond_of 1 0 1) M_pause2 W_check [L_pause2])"
    by (rule one_engine) (rule engine_step.pause_wait, rule cond_ops)
  then have "sys_reach True 1 (one_thread (cond_of 0 0 1) M_join W_check [L_pause2])"
    by (rule one_engine) (use engine_step.pause_set [of 1 "cond_of 1 0 1"] in \<open>simp only: cond_ops\<close>)
  then have "sys_reach True 1 (one_thread (cond_of 0 0 1) M_join W_ack [L_pause2])"
    by (rule one_worker) (rule worker_step.check_stop, rule cond_ops)
  then have "sys_reach True 1 (one_thread (cond_of 0 0 0) M_join (W_wait False) [L_pause2])"
    by (rule one_worker) (rule worker_step.ack, rule cond_ops)
  then have "sys_reach True 1 (one_thread (cond_of 0 0 0) M_idle (W_wait False) [L_pause2])"
    by (rule one_engine) (rule engine_step.joined, rule cond_ops)
  then have "sys_reach True 1 (one_thread (cond_of 1 1 1) M_resuming (W_wait False) [L_pause2])"
    by (rule one_engine) (rule engine_step.resume, rule cond_ops)
  then have r: "sys_reach True 1 (one_thread (cond_of 0 1 1) M_resuming (W_wait False) [L_end])"
    using one_late_set by (metis cond_ops(11))
  have "\<not> sys_step True (one_thread (cond_of 0 1 1) M_resuming (W_wait False) [L_end]) s'" for s'
  proof
    assume "sys_step True (one_thread (cond_of 0 1 1) M_resuming (W_wait False) [L_end]) s'"
    then show False
      by cases (auto simp: one_thread_def cond_of_def Wait_locked_def elim: worker_stepE engine_stepE)
  qed
  with r show ?thesis by (intro exI [of _ "one_thread (cond_of 0 1 1) M_resuming (W_wait False) [L_end]"])
      (simp add: one_thread_def)
qed

end
