(* ===== verification/Eval_Cache.thy ===== *)
theory Eval_Cache
  imports Go_State
begin

text \<open>
  The evaluation cache of config.h: a map from hash values to evaluations and the queue of its
  keys in order of insertion. Each public operation is a critical section. The locale
  \<open>bounded_cache\<close> is what the search relies on; it is interpreted on the operations here.
\<close>

record 'f EvalData =
  ev_value :: 'f
  ev_prob :: "'f list"

record 'f EvalCache =
  m_max_eval_cache_size :: nat
  m_prob_value_map :: "u64 \<rightharpoonup> 'f EvalData"
  m_order :: "u64 list"

definition EvalCache_new :: "'f EvalCache" where
  "EvalCache_new = \<lparr>m_max_eval_cache_size = 2000000, m_prob_value_map = Map.empty, m_order = []\<rparr>"

text \<open>\<open>m_prob_value_map.erase(m_order.front()); m_order.pop_front()\<close>\<close>

definition evict :: "'f EvalCache \<Rightarrow> 'f EvalCache" where
  "evict c = c\<lparr>m_prob_value_map := (m_prob_value_map c)(hd (m_order c) := None), m_order := tl (m_order c)\<rparr>"

function shrink :: "'f EvalCache \<Rightarrow> 'f EvalCache" where
  "shrink c = (if length (m_order c) > m_max_eval_cache_size c then shrink (evict c) else c)"
  by auto
termination
  by (relation "measure (\<lambda>c. length (m_order c))") (auto simp: evict_def)

declare shrink.simps [simp del]

text \<open>A negative size becomes a huge \<open>size_t\<close>.\<close>

definition Resize :: "int \<Rightarrow> 'f EvalCache \<Rightarrow> 'f EvalCache" where
  "Resize sz c = shrink (c\<lparr>m_max_eval_cache_size := nat (sz mod 2 ^ 64)\<rparr>)"

definition Cache_Init :: "'f EvalCache \<Rightarrow> 'f EvalCache" where
  "Cache_Init c = c\<lparr>m_prob_value_map := Map.empty, m_order := []\<rparr>"

definition Probe :: "u64 \<Rightarrow> 'f EvalCache \<Rightarrow> 'f EvalData option" where
  "Probe key c = m_prob_value_map c key"

definition Probe_board :: "GoState \<Rightarrow> 'f EvalCache \<Rightarrow> 'f EvalData option" where
  "Probe_board b c = Probe (zobrist_hash_value b) c"

definition AddCache :: "u64 \<Rightarrow> 'f EvalData \<Rightarrow> 'f EvalCache \<Rightarrow> 'f EvalCache" where
  "AddCache key d c =
     (let c1 = c\<lparr>m_prob_value_map := (if m_prob_value_map c key = None
                  then (m_prob_value_map c)(key \<mapsto> d) else m_prob_value_map c)\<rparr>;
          c2 = c1\<lparr>m_order := m_order c1 @ [key]\<rparr>
      in if length (m_order c2) > m_max_eval_cache_size c2 then evict c2 else c2)"

definition Insert :: "u64 \<Rightarrow> 'f EvalData \<Rightarrow> 'f EvalCache \<Rightarrow> 'f EvalCache" where
  "Insert key d c = (if m_prob_value_map c key = None then AddCache key d c else c)"

subsection \<open>The interface\<close>

locale bounded_cache =
  fixes insert :: "'k \<Rightarrow> 'd \<Rightarrow> 'c \<Rightarrow> 'c"
    and probe :: "'k \<Rightarrow> 'c \<Rightarrow> 'd option"
    and capacity :: "'c \<Rightarrow> nat"
    and inv :: "'c \<Rightarrow> bool"
  assumes inv_insert: "inv c \<Longrightarrow> inv (insert k d c)"
    and cap_insert: "capacity (insert k d c) = capacity c"
    and bounded: "inv c \<Longrightarrow> finite {k. probe k c \<noteq> None} \<and> card {k. probe k c \<noteq> None} \<le> capacity c"
    and probe_insert: "inv c \<Longrightarrow> probe k' (insert k d c) = Some e \<Longrightarrow>
        probe k' c = Some e \<or> k' = k \<and> e = d \<and> probe k c = None"
    and probe_same: "inv c \<Longrightarrow> 0 < capacity c \<Longrightarrow> probe k (insert k d c) \<noteq> None"

context bounded_cache
begin

abbreviation inserts :: "('k \<times> 'd) list \<Rightarrow> 'c \<Rightarrow> 'c" where
  "inserts kds c \<equiv> fold (\<lambda>(k, d). insert k d) kds c"

lemma inserts_inv: "inv c \<Longrightarrow> inv (inserts kds c) \<and> capacity (inserts kds c) = capacity c"
  by (induction kds arbitrary: c) (auto simp: inv_insert cap_insert)

text \<open>The cache never makes up an answer.\<close>

lemma inserts_sound:
  "inv c \<Longrightarrow> probe k (inserts kds c) = Some e \<Longrightarrow> probe k c = Some e \<or> (k, e) \<in> set kds"
proof (induction kds arbitrary: c)
  case (Cons kd kds)
  obtain k' d where kd: "kd = (k', d)" by fastforce
  from Cons.prems Cons.IH [OF inv_insert [OF Cons.prems(1)], of k' d] kd
  have "probe k (insert k' d c) = Some e \<or> (k, e) \<in> set kds" by simp
  with probe_insert [OF Cons.prems(1), of k k' d e] kd show ?case by auto
qed simp

end

subsection \<open>The invariant\<close>

definition cache_inv :: "'f EvalCache \<Rightarrow> bool" where
  "cache_inv c \<longleftrightarrow> distinct (m_order c) \<and> set (m_order c) = dom (m_prob_value_map c) \<and>
     length (m_order c) \<le> m_max_eval_cache_size c"

lemma evict_fields [simp]:
  "m_max_eval_cache_size (evict c) = m_max_eval_cache_size c" "m_order (evict c) = tl (m_order c)"
  by (simp_all add: evict_def)

lemma evict_map:
  "distinct (k # ks) \<Longrightarrow> m_order c = k # ks \<Longrightarrow> set (k # ks) = dom (m_prob_value_map c) \<Longrightarrow>
   set ks = dom (m_prob_value_map (evict c)) \<and> m_prob_value_map (evict c) = (m_prob_value_map c)(k := None)"
  by (auto simp: evict_def dom_def)

lemma cache_inv_new: "cache_inv EvalCache_new"
  by (simp add: cache_inv_def EvalCache_new_def)

lemma Insert_new:
  assumes inv: "cache_inv c" and new: "m_prob_value_map c key = None"
  shows "cache_inv (Insert key d c)"
    and "m_order (Insert key d c) = (if length (m_order c) < m_max_eval_cache_size c then m_order c @ [key]
      else tl (m_order c @ [key]))"
    and "m_prob_value_map (Insert key d c) = (if length (m_order c) < m_max_eval_cache_size c
      then (m_prob_value_map c)(key \<mapsto> d)
      else ((m_prob_value_map c)(key \<mapsto> d))(hd (m_order c @ [key]) := None))"
    and "m_max_eval_cache_size (Insert key d c) = m_max_eval_cache_size c"
proof -
  let ?c = "c\<lparr>m_prob_value_map := (m_prob_value_map c)(key \<mapsto> d), m_order := m_order c @ [key]\<rparr>"
  have I: "Insert key d c = (if length (m_order c) < m_max_eval_cache_size c then ?c else evict ?c)"
    using new by (simp add: Insert_def AddCache_def Let_def not_less)
  have len: "length (m_order c) \<le> m_max_eval_cache_size c" using inv by (simp add: cache_inv_def)
  have key: "key \<notin> set (m_order c)" using inv new by (auto simp: cache_inv_def)
  obtain k ks where ks: "m_order c @ [key] = k # ks" by (cases "m_order c @ [key]") auto
  have d: "distinct (k # ks)" "set (k # ks) = dom (m_prob_value_map ?c)"
    unfolding ks [symmetric] using inv key by (auto simp: cache_inv_def)
  from evict_map [OF d(1) _ d(2)] ks
  have e: "set ks = dom (m_prob_value_map (evict ?c))" "m_prob_value_map (evict ?c) = (m_prob_value_map ?c)(k := None)"
    by simp_all
  from arg_cong [OF ks, of length] have "length ks = length (m_order c)" by simp
  then show "cache_inv (Insert key d c)"
    using I d e ks len by (auto simp: cache_inv_def)
  show "m_order (Insert key d c) = (if length (m_order c) < m_max_eval_cache_size c then m_order c @ [key]
      else tl (m_order c @ [key]))" by (simp add: I)
  show "m_prob_value_map (Insert key d c) = (if length (m_order c) < m_max_eval_cache_size c
      then (m_prob_value_map c)(key \<mapsto> d)
      else ((m_prob_value_map c)(key \<mapsto> d))(hd (m_order c @ [key]) := None))"
    using e(2) ks by (simp add: I)
  show "m_max_eval_cache_size (Insert key d c) = m_max_eval_cache_size c" by (simp add: I)
qed

lemma Insert_known: "m_prob_value_map c key \<noteq> None \<Longrightarrow> Insert key d c = c"
  by (auto simp: Insert_def)

lemma shrink_inv:
  "distinct (m_order c) \<Longrightarrow> set (m_order c) = dom (m_prob_value_map c) \<Longrightarrow>
   cache_inv (shrink c) \<and> m_order (shrink c) = drop (length (m_order c) - m_max_eval_cache_size c) (m_order c) \<and>
   m_max_eval_cache_size (shrink c) = m_max_eval_cache_size c"
proof (induction c rule: shrink.induct)
  case (1 c)
  show ?case
  proof (cases "length (m_order c) > m_max_eval_cache_size c")
    case True
    then obtain k ks where ks: "m_order c = k # ks" by (cases "m_order c") auto
    have "distinct (m_order (evict c))" "set (m_order (evict c)) = dom (m_prob_value_map (evict c))"
      using evict_map [of k ks c] 1(2,3) ks by simp_all
    from 1(1) [OF True this] True ks show ?thesis
      by (subst (1 2 3) shrink.simps) (simp add: Suc_diff_le less_Suc_eq_le)
  next
    case False
    then show ?thesis using 1(2,3) by (subst (1 2 3) shrink.simps) (simp add: cache_inv_def)
  qed
qed

interpretation eval_cache: bounded_cache Insert Probe m_max_eval_cache_size cache_inv
proof unfold_locales
  fix c :: "'b EvalCache" and k d
  assume "cache_inv c"
  then show "cache_inv (Insert k d c)"
    by (cases "m_prob_value_map c k = None") (simp_all add: Insert_new Insert_known)
next
  fix k d and c :: "'b EvalCache"
  show "m_max_eval_cache_size (Insert k d c) = m_max_eval_cache_size c"
    by (simp add: Insert_def AddCache_def Let_def)
next
  fix c :: "'b EvalCache"
  assume c: "cache_inv c"
  have "{k. Probe k c \<noteq> None} = set (m_order c)" using c by (auto simp: Probe_def cache_inv_def)
  then show "finite {k. Probe k c \<noteq> None} \<and> card {k. Probe k c \<noteq> None} \<le> m_max_eval_cache_size c"
    using c by (metis List.finite_set cache_inv_def distinct_card)
next
  fix c :: "'b EvalCache" and k' k d e
  assume "cache_inv c" "Probe k' (Insert k d c) = Some e"
  then show "Probe k' c = Some e \<or> k' = k \<and> e = d \<and> Probe k c = None"
    by (cases "m_prob_value_map c k = None") (auto simp: Insert_new Insert_known Probe_def split: if_splits)
next
  fix c :: "'b EvalCache" and k d
  assume c: "cache_inv c" and pos: "0 < m_max_eval_cache_size c"
  show "Probe k (Insert k d c) \<noteq> None"
  proof (cases "m_prob_value_map c k")
    case None
    then have "k \<notin> set (m_order c)" using c by (auto simp: cache_inv_def)
    with c pos None show ?thesis
      by (cases "m_order c") (auto simp: Insert_new Probe_def)
  qed (simp add: Insert_known Probe_def)
qed

subsection \<open>Properties\<close>

text \<open>Claim C40. The cache is a bounded first-in first-out cache: after any insertions it holds at most
  its capacity, an answer it gives is an evaluation inserted for that very hash (the first, if
  it is not evicted in between), what was just inserted is found, and inserting a new hash
  into a full cache drops the oldest one only.\<close>

theorem cache_is_sound:
  assumes "c = fold (\<lambda>(k, d). Insert k d) kds EvalCache_new"
  shows "(\<forall>k e. Probe k c = Some e \<longrightarrow> (k, e) \<in> set kds) \<and> card {k. Probe k c \<noteq> None} \<le> 2000000 \<and>
    (\<forall>k d. Probe k (Insert k d c) = (case Probe k c of None \<Rightarrow> Some d | Some e \<Rightarrow> Some e)) \<and>
    (\<forall>k' d. Probe k' c = None \<longrightarrow> length (m_order c) = 2000000 \<longrightarrow>
      {k. Probe k (Insert k' d c) = None} - {k. Probe k c = None} \<subseteq> {hd (m_order c)})"
proof -
  have inv: "cache_inv c" "m_max_eval_cache_size c = 2000000"
    using eval_cache.inserts_inv [OF cache_inv_new, of kds] by (simp_all add: assms EvalCache_new_def)
  have "(k, e) \<in> set kds" if "Probe k c = Some e" for k e
    using eval_cache.inserts_sound [OF cache_inv_new, of k kds e] that
    by (simp add: assms) (simp add: Probe_def EvalCache_new_def)
  moreover have "card {k. Probe k c \<noteq> None} \<le> 2000000" using eval_cache.bounded [OF inv(1)] inv(2) by simp
  moreover have "Probe k (Insert k d c) = (case Probe k c of None \<Rightarrow> Some d | Some e \<Rightarrow> Some e)" for k d
  proof (cases "Probe k c")
    case None
    with eval_cache.probe_same [OF inv(1), of k d] eval_cache.probe_insert [OF inv(1), of k k d] inv(2)
    show ?thesis by auto
  qed (simp add: Insert_known Probe_def)
  moreover have "{k. Probe k (Insert k' d c) = None} - {k. Probe k c = None} \<subseteq> {hd (m_order c)}"
    if "length (m_order c) = 2000000" for k' d
  proof (cases "m_prob_value_map c k' = None")
    case True
    moreover have "m_order c \<noteq> []" using that by auto
    ultimately show ?thesis using inv that by (auto simp: Insert_new Probe_def split: if_splits)
  qed (simp add: Insert_known)
  ultimately show ?thesis by blast
qed

theorem cache_is_sound_witness:
  "Probe 5 (fold (\<lambda>(k, d). Insert k d) [(5, \<lparr>ev_value = 1, ev_prob = []\<rparr>)] (EvalCache_new :: nat EvalCache)) =
     Some \<lparr>ev_value = 1, ev_prob = []\<rparr>"
  using cache_is_sound [OF refl, of "[] :: (u64 \<times> nat EvalData) list"]
  by (simp add: Probe_def EvalCache_new_def)

text \<open>\<open>Resize\<close> keeps the newest entries: afterwards the cache holds exactly the last
  \<open>size\<close> keys inserted, and it stays consistent.\<close>

theorem resize_keeps_newest:
  assumes "cache_inv c" and "0 \<le> sz" and "sz < 2 ^ 31"
  shows "cache_inv (Resize sz c) \<and> m_order (Resize sz c) = drop (length (m_order c) - nat sz) (m_order c) \<and>
    (\<forall>k. Probe k (Resize sz c) \<noteq> None \<longleftrightarrow> k \<in> set (drop (length (m_order c) - nat sz) (m_order c)))"
proof -
  let ?c = "c\<lparr>m_max_eval_cache_size := nat (sz mod 2 ^ 64)\<rparr>"
  have "distinct (m_order ?c)" "set (m_order ?c) = dom (m_prob_value_map ?c)" using assms(1) by (simp_all add: cache_inv_def)
  from shrink_inv [OF this] assms(2,3)
  have R: "cache_inv (Resize sz c)" "m_order (Resize sz c) = drop (length (m_order c) - nat sz) (m_order c)"
    by (simp_all add: Resize_def)
  then have "Probe k (Resize sz c) \<noteq> None \<longleftrightarrow> k \<in> set (drop (length (m_order c) - nat sz) (m_order c))" for k
    unfolding R(2) [symmetric] by (auto simp: cache_inv_def Probe_def)
  with R show ?thesis by blast
qed

theorem resize_keeps_newest_witness:
  "m_order (Resize 1 (Insert 8 \<lparr>ev_value = 1, ev_prob = []\<rparr>
     (Insert 5 \<lparr>ev_value = 1, ev_prob = []\<rparr> (EvalCache_new :: nat EvalCache)))) = [8]"
proof -
  let ?c = "Insert 8 \<lparr>ev_value = 1, ev_prob = []\<rparr> (Insert 5 \<lparr>ev_value = 1, ev_prob = []\<rparr> (EvalCache_new :: nat EvalCache))"
  have "cache_inv ?c" by (intro eval_cache.inv_insert cache_inv_new)
  moreover have "m_order ?c = [5, 8]" by (simp add: Insert_def AddCache_def EvalCache_new_def)
  ultimately show ?thesis using resize_keeps_newest [of ?c 1] by simp
qed

end
