(* ===== verification/Task_Queue.thy ===== *)
theory Task_Queue
  imports Go_Prelude "HOL-Library.Multiset"
begin

text \<open>
  task_queue.h: a queue under a mutex with two condition variables. Each method is one atomic
  step once its wait is over; \<open>None\<close> is a caller that is still blocked. The interface the
  evaluation threads rely on is the locale \<open>fifo_queue\<close>, extended by the other operations to
  \<open>task_deque\<close>; it is interpreted on the operations here. A schedule runs any of the operations
  in any order and is compared with a deque on lists that has no capacity and never blocks.
\<close>

record 'a TaskQueue =
  m_queue :: "'a list"
  m_capacity :: int
  m_size :: int
  m_is_close :: bool

definition TaskQueue_new :: "int \<Rightarrow> 'a TaskQueue" where
  "TaskQueue_new capacity = \<lparr>m_queue = [], m_capacity = capacity, m_size = 0, m_is_close = False\<rparr>"

definition set_queue :: "'a list \<Rightarrow> 'a TaskQueue \<Rightarrow> 'a TaskQueue" where
  "set_queue xs q = q\<lparr>m_queue := xs, m_size := wrap32 (int (length xs))\<rparr>"

definition Push :: "'a \<Rightarrow> 'a TaskQueue \<Rightarrow> 'a TaskQueue option" where
  "Push elem q =
     (if m_capacity q > 0 \<and> \<not> int (length (m_queue q)) < m_capacity q then None
      else Some (set_queue (m_queue q @ [elem]) q))"

definition PushFront :: "'a \<Rightarrow> 'a TaskQueue \<Rightarrow> 'a TaskQueue" where
  "PushFront elem q = set_queue (elem # m_queue q) q"

text \<open>\<open>Some (None, q)\<close> is the return value false.\<close>

definition Pop :: "int \<Rightarrow> bool \<Rightarrow> 'a TaskQueue \<Rightarrow> ('a option \<times> 'a TaskQueue) option" where
  "Pop timeout_us expired q =
     (if m_queue q = [] \<and> \<not> m_is_close q
      then (if timeout_us < 0 then None else if expired then Some (None, q) else None)
      else case m_queue q of [] \<Rightarrow> Some (None, q)
        | elem # rest \<Rightarrow> Some (Some elem, set_queue rest q))"

definition Close :: "'a TaskQueue \<Rightarrow> 'a TaskQueue" where
  "Close q = q\<lparr>m_is_close := True\<rparr>"

definition IsClose :: "'a TaskQueue \<Rightarrow> bool" where
  "IsClose q = m_is_close q"

definition Size :: "'a TaskQueue \<Rightarrow> int" where
  "Size q = m_size q"

definition Set :: "int \<Rightarrow> 'a TaskQueue \<Rightarrow> 'a TaskQueue" where
  "Set capacity q = q\<lparr>m_capacity := capacity\<rparr>"

lemma set_queue_fields [simp]:
  "m_queue (set_queue xs q) = xs" "m_capacity (set_queue xs q) = m_capacity q"
  "m_size (set_queue xs q) = wrap32 (int (length xs))" "m_is_close (set_queue xs q) = m_is_close q"
  by (simp_all add: set_queue_def)

subsection \<open>The interface\<close>

locale fifo_queue =
  fixes push :: "'a \<Rightarrow> 'q \<Rightarrow> 'q option"
    and pop :: "int \<Rightarrow> bool \<Rightarrow> 'q \<Rightarrow> ('a option \<times> 'q) option"
    and content :: "'q \<Rightarrow> 'a list"
    and closed :: "'q \<Rightarrow> bool"
  assumes push_content: "push e q = Some q' \<Longrightarrow> content q' = content q @ [e] \<and> closed q' = closed q"
    and pop_content: "pop t x q = Some (Some e, q') \<Longrightarrow> content q = e # content q' \<and> closed q' = closed q"
    and pop_false: "pop t x q = Some (None, q') \<Longrightarrow> q' = q \<and> content q = []"
    and pop_returns: "closed q \<or> content q \<noteq> [] \<Longrightarrow> pop t x q \<noteq> None"

text \<open>The whole queue: elements can also come back at the front, it can be closed, and its
  capacity can be changed at any time.\<close>

locale task_deque = fifo_queue push pop content closed
  for push :: "'a \<Rightarrow> 'q \<Rightarrow> 'q option" and pop :: "int \<Rightarrow> bool \<Rightarrow> 'q \<Rightarrow> ('a option \<times> 'q) option"
    and content :: "'q \<Rightarrow> 'a list" and closed :: "'q \<Rightarrow> bool" +
  fixes push_front :: "'a \<Rightarrow> 'q \<Rightarrow> 'q"
    and close :: "'q \<Rightarrow> 'q"
    and set_capacity :: "int \<Rightarrow> 'q \<Rightarrow> 'q"
  assumes front_content: "content (push_front e q) = e # content q \<and> closed (push_front e q) = closed q"
    and close_content: "content (close q) = content q \<and> closed (close q)"
    and capacity_content: "content (set_capacity c q) = content q \<and> closed (set_capacity c q) = closed q"

text \<open>A schedule of the threads using a queue, and what the pops return. A step of an operation
  that blocks there is not a step of a schedule.\<close>

datatype 'a queue_op = QPush 'a | QPop int bool | QPushFront 'a | QClose | QSet int

fun queue_step :: "'a queue_op \<Rightarrow> 'a TaskQueue \<Rightarrow> ('a option \<times> 'a TaskQueue) option" where
  "queue_step (QPush e) q = map_option (Pair None) (Push e q)"
| "queue_step (QPop t x) q = Pop t x q"
| "queue_step (QPushFront e) q = Some (None, PushFront e q)"
| "queue_step QClose q = Some (None, Close q)"
| "queue_step (QSet c) q = Some (None, Set c q)"

fun run_steps :: "('op \<Rightarrow> 'q \<Rightarrow> ('a option \<times> 'q) option) \<Rightarrow> 'op list \<Rightarrow> 'q \<Rightarrow> ('a list \<times> 'q) option" where
  "run_steps step [] q = Some ([], q)"
| "run_steps step (op # ops) q =
     (case step op q of None \<Rightarrow> None
      | Some (r, q') \<Rightarrow> map_option (\<lambda>(out, q''). ((case r of None \<Rightarrow> out | Some e \<Rightarrow> e # out), q''))
          (run_steps step ops q'))"

text \<open>The specification: what the pops of a schedule return and what is left, from the list \<open>xs\<close>.\<close>

fun deque_spec :: "'a queue_op list \<Rightarrow> 'a list \<Rightarrow> 'a list \<times> 'a list" where
  "deque_spec [] xs = ([], xs)"
| "deque_spec (QPush e # ops) xs = deque_spec ops (xs @ [e])"
| "deque_spec (QPushFront e # ops) xs = deque_spec ops (e # xs)"
| "deque_spec (QPop t x # ops) [] = deque_spec ops []"
| "deque_spec (QPop t x # ops) (e # xs) = map_prod (Cons e) id (deque_spec ops xs)"
| "deque_spec (QClose # ops) xs = deque_spec ops xs"
| "deque_spec (QSet c # ops) xs = deque_spec ops xs"

fun pushed :: "'a queue_op list \<Rightarrow> 'a list" where
  "pushed [] = []" | "pushed (QPush e # ops) = e # pushed ops" | "pushed (op # ops) = pushed ops"

fun returned :: "'a queue_op list \<Rightarrow> 'a list" where
  "returned [] = []" | "returned (QPushFront e # ops) = e # returned ops" | "returned (op # ops) = returned ops"

lemma deque_fifo: "returned ops = [] \<Longrightarrow> deque_spec ops xs = (out, ys) \<Longrightarrow> xs @ pushed ops = out @ ys"
  by (induction ops xs arbitrary: out rule: deque_spec.induct) (auto simp: map_prod_def split: prod.splits)

lemma deque_keeps_all:
  "deque_spec ops xs = (out, ys) \<Longrightarrow> mset xs + mset (pushed ops) + mset (returned ops) = mset out + mset ys"
proof (induction ops xs arbitrary: out rule: deque_spec.induct)
  case (5 t x ops e xs)
  then obtain out' where "deque_spec ops xs = (out', ys)" "out = e # out'" by (auto simp: map_prod_def split: prod.splits)
  with 5 show ?case by auto
next
  case (3 e ops xs)
  from "3.IH" "3.prems" show ?case by fastforce
qed auto

context task_deque
begin

text \<open>The operations a schedule is made of, over the interface.\<close>

definition op_step :: "'a queue_op \<Rightarrow> 'q \<Rightarrow> ('a option \<times> 'q) option" where
  "op_step op q = (case op of QPush e \<Rightarrow> map_option (Pair None) (push e q) | QPop t x \<Rightarrow> pop t x q
     | QPushFront e \<Rightarrow> Some (None, push_front e q) | QClose \<Rightarrow> Some (None, close q)
     | QSet c \<Rightarrow> Some (None, set_capacity c q))"

lemma op_step_pop [simp]: "op_step (QPop t x) q = pop t x q"
  by (simp add: op_step_def)

lemma run_refines:
  "run_steps op_step ops q = Some (out, q') \<Longrightarrow> deque_spec ops (content q) = (out, content q') \<and>
     (closed q' \<longleftrightarrow> closed q \<or> QClose \<in> set ops)"
proof (induction ops arbitrary: q out)
  case (Cons op ops)
  then obtain r q1 out1 where p: "op_step op q = Some (r, q1)" "run_steps op_step ops q1 = Some (out1, q')"
    "out = (case r of None \<Rightarrow> out1 | Some e \<Rightarrow> e # out1)" by (auto split: option.splits)
  note IH = Cons.IH [OF p(2)]
  show ?case
  proof (cases op)
    case (QPop t x)
    with p pop_content [of t x q _ q1] pop_false [of t x q q1] IH show ?thesis
      by (cases r) (auto simp: op_step_def)
  qed (use p IH push_content front_content close_content capacity_content in \<open>auto simp: op_step_def\<close>)
qed simp

text \<open>Once closed, the queue is drained in order and then answers false.\<close>

lemma drain:
  "closed q \<Longrightarrow> length (content q) \<le> length xs \<Longrightarrow>
   \<exists>q'. run_steps op_step (map (\<lambda>(t, x). QPop t x) xs) q = Some (content q, q') \<and> content q' = [] \<and> closed q'"
proof (induction xs arbitrary: q)
  case (Cons tx xs)
  obtain t x where tx: "tx = (t, x)" by fastforce
  from Cons.prems(1) pop_returns [of q t x] obtain r q1 where p: "pop t x q = Some (r, q1)" by fastforce
  show ?case
  proof (cases r)
    case None
    with p pop_false have "q1 = q" "content q = []" by blast+
    with Cons.IH [of q] Cons.prems p None show ?thesis by (auto simp: tx)
  next
    case (Some e)
    with p pop_content have q: "content q = e # content q1" "closed q1 = closed q" by blast+
    with Cons.prems Cons.IH [of q1] obtain q' where
      "run_steps op_step (map (\<lambda>(t, x). QPop t x) xs) q1 = Some (content q1, q')" "content q' = []" "closed q'" by auto
    with p q Some show ?thesis by (auto simp: tx)
  qed
qed auto

end

interpretation task_queue: task_deque Push Pop m_queue m_is_close PushFront Close Set
  by unfold_locales (auto simp: Push_def Pop_def PushFront_def Close_def Set_def split: if_splits list.splits)

lemma op_step_queue [simp]: "task_queue.op_step = queue_step"
proof (intro ext)
  fix op :: "'a queue_op" and q
  show "task_queue.op_step op q = queue_step op q" by (cases op) (simp_all add: task_queue.op_step_def)
qed

lemmas queue_run = task_queue.run_refines [unfolded op_step_queue]
lemmas queue_drain = task_queue.drain [unfolded op_step_queue]

subsection \<open>Properties\<close>

lemma queue_step_size:
  assumes "queue_step op q = Some (r, q')" and "m_size q = wrap32 (int (length (m_queue q)))"
  shows "m_size q' = wrap32 (int (length (m_queue q'))) \<and>
    ((\<forall>c. op \<noteq> QSet c) \<longrightarrow> m_capacity q' = m_capacity q) \<and>
    ((\<forall>e. op \<noteq> QPushFront e) \<longrightarrow> (\<forall>c. op \<noteq> QSet c) \<longrightarrow> 0 < m_capacity q \<longrightarrow>
       int (length (m_queue q)) \<le> m_capacity q \<longrightarrow> int (length (m_queue q')) \<le> m_capacity q)"
proof (cases op)
  case (QPop t x)
  with assms(1) have "q' = q \<or> (\<exists>e rest. m_queue q = e # rest \<and> q' = set_queue rest q)"
    by (auto simp: Pop_def split: if_splits list.splits)
  with assms(2) show ?thesis by (elim disjE exE conjE) simp_all
qed (use assms in \<open>auto simp: Push_def PushFront_def Close_def Set_def split: if_splits\<close>)

lemma run_queue_size:
  assumes "run_steps queue_step ops q = Some (out, q')" and "m_size q = wrap32 (int (length (m_queue q)))"
  shows "m_size q' = wrap32 (int (length (m_queue q'))) \<and>
    (returned ops = [] \<longrightarrow> (\<forall>c. QSet c \<notin> set ops) \<longrightarrow> 0 < m_capacity q \<longrightarrow>
       int (length (m_queue q)) \<le> m_capacity q \<longrightarrow> int (length (m_queue q')) \<le> m_capacity q)"
  using assms
proof (induction ops arbitrary: q out)
  case (Cons op ops)
  then obtain r q1 out1 where p: "queue_step op q = Some (r, q1)" "run_steps queue_step ops q1 = Some (out1, q')"
    by (auto split: option.splits)
  note s = queue_step_size [OF p(1) Cons.prems(2)]
  have "returned (op # ops) = [] \<Longrightarrow> (\<forall>e. op \<noteq> QPushFront e) \<and> returned ops = []" by (cases op) simp_all
  moreover have "(\<forall>c. QSet c \<notin> set (op # ops)) \<Longrightarrow> (\<forall>c. op \<noteq> QSet c) \<and> (\<forall>c. QSet c \<notin> set ops)"
    by auto
  ultimately show ?case using s Cons.IH [OF p(2)] by (intro conjI impI; elim conjE) metis+
qed simp



text \<open>Closing releases the consumers: on a closed queue no pop blocks, the pops return what
  is left, in order, and after that false.\<close>

theorem close_drains:
  assumes "length (m_queue q) \<le> length xs"
  shows "\<exists>q'. run_steps queue_step (map (\<lambda>(t, x). QPop t x) xs) (Close q) = Some (m_queue q, q') \<and>
    m_queue q' = [] \<and> Pop t x q' = Some (None, q')"
proof -
  have "m_is_close (Close q)" "m_queue (Close q) = m_queue q" by (simp_all add: Close_def)
  with queue_drain [of "Close q" xs] assms obtain q' where
    "run_steps queue_step (map (\<lambda>(t, x). QPop t x) xs) (Close q) = Some (m_queue q, q')" "m_queue q' = []" "m_is_close q'"
    by auto
  moreover from this(2,3) have "Pop t x q' = Some (None, q')" by (simp add: Pop_def)
  ultimately show ?thesis by blast
qed

theorem close_drains_witness:
  "\<exists>q'. run_steps queue_step [QPop (- 1) False, QPop 5 False]
      (Close \<lparr>m_queue = [1 :: nat, 2], m_capacity = 2, m_size = 2, m_is_close = False\<rparr>) = Some ([1, 2], q') \<and> m_queue q' = []"
  using close_drains [of "\<lparr>m_queue = [1 :: nat, 2], m_capacity = 2, m_size = 2, m_is_close = False\<rparr>"
      "[(- 1, False), (5, False)]"] by auto

text \<open>A producer blocked on a full queue is not released by \<open>Close\<close>, although \<open>Close\<close> notifies it;
  and \<open>PushFront\<close> ignores the capacity.\<close>

lemma close_keeps_pusher_blocked: "Push e q = None \<Longrightarrow> Push e (Close q) = None"
  by (simp add: Push_def Close_def split: if_splits)

lemma push_front_ignores_capacity:
  "m_queue (PushFront e q) = e # m_queue q" "Size (PushFront e q) = wrap32 (int (length (m_queue q)) + 1)"
  by (simp_all add: PushFront_def Size_def ac_simps)

end
