(* ===== verification/Cpp_Float.thy ===== *)
theory Cpp_Float
  imports Go_Prelude Complex_Main "HOL-Library.Signed_Division"
begin

text \<open>
  Floating point. C++ leaves the format and the rounding of \<open>float\<close> to the platform, so the
  operations the program uses are a record, an argument of the definitions that compute with
  floats; the theorems name the laws they need (that \<open><\<close> is a strict weak order on the values
  compared). \<open>real_arith\<close> is exact arithmetic, used in the examples. The functions of the
  standard library on floats (\<open>std::max\<close>, \<open>std::max_element\<close>, \<open>std::accumulate\<close>) are written
  out.
\<close>

record 'f arith =
  f_add :: "'f \<Rightarrow> 'f \<Rightarrow> 'f"
  f_sub :: "'f \<Rightarrow> 'f \<Rightarrow> 'f"
  f_mul :: "'f \<Rightarrow> 'f \<Rightarrow> 'f"
  f_div :: "'f \<Rightarrow> 'f \<Rightarrow> 'f"
  f_neg :: "'f \<Rightarrow> 'f"
  f_sqrt :: "'f \<Rightarrow> 'f"
  f_pow :: "'f \<Rightarrow> 'f \<Rightarrow> 'f"
  f_lt :: "'f \<Rightarrow> 'f \<Rightarrow> bool"
  f_eq :: "'f \<Rightarrow> 'f \<Rightarrow> bool"
  f_lit :: "rat \<Rightarrow> 'f"
  f_of_int :: "int \<Rightarrow> 'f"
  f_trunc :: "'f \<Rightarrow> int"
  f_scale :: "int \<Rightarrow> 'f \<Rightarrow> int"
  f_nan :: "'f"

text \<open>
  \<open>f_trunc\<close> is the conversion to \<open>int64_t\<close>, \<open>f_scale n x\<close> the conversion of the double
  product of \<open>n\<close> and \<open>x\<close>.
\<close>

definition f_max :: "'f arith \<Rightarrow> 'f \<Rightarrow> 'f \<Rightarrow> 'f" where
  "f_max A a b = (if f_lt A a b then b else a)"

definition f_min :: "'f arith \<Rightarrow> 'f \<Rightarrow> 'f \<Rightarrow> 'f" where
  "f_min A a b = (if f_lt A b a then b else a)"

definition f_gt :: "'f arith \<Rightarrow> 'f \<Rightarrow> 'f \<Rightarrow> bool" where
  "f_gt A a b = f_lt A b a"

definition accumulate :: "'f arith \<Rightarrow> 'f list \<Rightarrow> 'f \<Rightarrow> 'f" where
  "accumulate A xs s = fold (\<lambda>x s. f_add A s x) xs s"

definition truncate_real :: "real \<Rightarrow> int" where
  "truncate_real x = (if 0 \<le> x then \<lfloor>x\<rfloor> else - \<lfloor>- x\<rfloor>)"

definition real_arith :: "real arith" where
  "real_arith = \<lparr>f_add = (+), f_sub = (-), f_mul = (*), f_div = (/), f_neg = uminus, f_sqrt = sqrt,
     f_pow = (powr), f_lt = (<), f_eq = (=), f_lit = of_rat, f_of_int = of_int, f_trunc = truncate_real,
     f_scale = (\<lambda>n x. truncate_real (of_int n * x)), f_nan = 0\<rparr>"

lemma real_arith_simps [simp]:
  "f_add real_arith = (+)" "f_sub real_arith = (-)" "f_mul real_arith = (*)" "f_div real_arith = (/)"
  "f_neg real_arith = uminus" "f_sqrt real_arith = sqrt" "f_pow real_arith = (powr)"
  "f_lt real_arith = (<)" "f_eq real_arith = (=)" "f_lit real_arith = of_rat"
  "f_of_int real_arith = of_int" "f_trunc real_arith = truncate_real"
  "f_scale real_arith = (\<lambda>n x. truncate_real (of_int n * x))" "f_nan real_arith = 0"
  by (simp_all add: real_arith_def)

lemma f_max_real [simp]: "f_max real_arith a b = max a b"
  by (simp add: f_max_def max_def)

lemma f_min_real [simp]: "f_min real_arith a b = min a b"
  by (simp add: f_min_def min_def)

subsection \<open>The largest element\<close>

text \<open>\<open>std::max_element\<close> on a range of at least one element returns the first maximum: the
  scan keeps the best index so far.\<close>

definition max_element :: "('a \<Rightarrow> 'a \<Rightarrow> bool) \<Rightarrow> 'a list \<Rightarrow> nat" where
  "max_element lt xs = fold (\<lambda>i b. if lt (xs ! b) (xs ! i) then i else b) [1..<length xs] 0"

text \<open>The order laws, on the values in the range.\<close>

definition strict_weak :: "('a \<Rightarrow> 'a \<Rightarrow> bool) \<Rightarrow> 'a set \<Rightarrow> bool" where
  "strict_weak lt S \<longleftrightarrow> (\<forall>x\<in>S. \<not> lt x x) \<and> (\<forall>x\<in>S. \<forall>y\<in>S. \<forall>z\<in>S. \<not> lt x y \<longrightarrow> \<not> lt y z \<longrightarrow> \<not> lt x z)
     \<and> (\<forall>x\<in>S. \<forall>y\<in>S. \<forall>z\<in>S. lt x y \<longrightarrow> lt y z \<longrightarrow> lt x z)"

lemma strict_weak_irrefl: "strict_weak lt S \<Longrightarrow> x \<in> S \<Longrightarrow> \<not> lt x x"
  by (simp add: strict_weak_def)

lemma strict_weak_notless:
  "strict_weak lt S \<Longrightarrow> x \<in> S \<Longrightarrow> y \<in> S \<Longrightarrow> z \<in> S \<Longrightarrow> \<not> lt x y \<Longrightarrow> \<not> lt y z \<Longrightarrow> \<not> lt x z"
  unfolding strict_weak_def by blast

lemma strict_weak_asym: "strict_weak lt S \<Longrightarrow> x \<in> S \<Longrightarrow> y \<in> S \<Longrightarrow> lt x y \<Longrightarrow> \<not> lt y x"
  unfolding strict_weak_def by blast

lemma strict_weak_trans1:
  "strict_weak lt S \<Longrightarrow> x \<in> S \<Longrightarrow> y \<in> S \<Longrightarrow> z \<in> S \<Longrightarrow> lt x y \<Longrightarrow> \<not> lt z y \<Longrightarrow> lt x z"
  unfolding strict_weak_def by blast

lemma strict_weak_linorder: "strict_weak (<) (S :: 'a::linorder set)"
  by (auto simp: strict_weak_def)

definition best_index :: "('a \<Rightarrow> 'a \<Rightarrow> bool) \<Rightarrow> 'a list \<Rightarrow> nat \<Rightarrow> nat \<Rightarrow> bool" where
  "best_index lt xs i b \<longleftrightarrow> b < i \<and> (\<forall>j < i. \<not> lt (xs ! b) (xs ! j)) \<and> (\<forall>j < b. lt (xs ! j) (xs ! b))"

lemma best_index_step:
  assumes lt: "strict_weak lt (set xs)" and b: "best_index lt xs i b" and i: "i < length xs"
  shows "best_index lt xs (Suc i) (if lt (xs ! b) (xs ! i) then i else b)"
proof -
  have mem: "xs ! j \<in> set xs" if "j \<le> i" for j using that i by simp
  have bi: "b < i" "\<And>j. j < i \<Longrightarrow> \<not> lt (xs ! b) (xs ! j)" "\<And>j. j < b \<Longrightarrow> lt (xs ! j) (xs ! b)"
    using b by (auto simp: best_index_def)
  show ?thesis
  proof (cases "lt (xs ! b) (xs ! i)")
    case True
    have less: "lt (xs ! j) (xs ! i)" if j: "j < i" for j
    proof (rule ccontr)
      assume "\<not> lt (xs ! j) (xs ! i)"
      with strict_weak_notless [OF lt mem [of b] mem [of j] mem [of i]] bi(1) bi(2) [OF j] j True
      show False by simp
    qed
    have "\<not> lt (xs ! i) (xs ! j)" if j: "j < Suc i" for j
    proof (cases "j = i")
      case True
      then show ?thesis using strict_weak_irrefl [OF lt mem] by simp
    next
      case False
      with j have "j < i" by simp
      from strict_weak_asym [OF lt mem mem less [OF this]] \<open>j < i\<close> show ?thesis by simp
    qed
    with True less show ?thesis by (simp add: best_index_def)
  next
    case False
    with b bi show ?thesis by (auto simp: best_index_def less_Suc_eq)
  qed
qed

text \<open>The first maximum.\<close>

lemma max_element_spec:
  assumes "strict_weak lt (set xs)" and "xs \<noteq> []"
  shows "max_element lt xs < length xs" "\<And>j. j < length xs \<Longrightarrow> \<not> lt (xs ! max_element lt xs) (xs ! j)"
    "\<And>j. j < max_element lt xs \<Longrightarrow> lt (xs ! j) (xs ! max_element lt xs)"
proof -
  have m: "xs ! 0 \<in> set xs" using assms(2) by simp
  have "best_index lt xs 1 0" using strict_weak_irrefl [OF assms(1) m] by (simp add: best_index_def)
  then have "best_index lt xs (Suc (length [1..<length xs])) (max_element lt xs)"
    unfolding max_element_def
  proof (intro fold_rule [where P = "\<lambda>dn b. best_index lt xs (Suc (length dn)) b"])
    fix dn i rest b
    assume l: "[1..<length xs] = dn @ i # rest" and b: "best_index lt xs (Suc (length dn)) b"
    have i: "i = Suc (length dn)" "i < length xs"
      using arg_cong [OF l, of "\<lambda>ys. ys ! length dn"] arg_cong [OF l, of length] by (simp_all add: nth_append)
    from best_index_step [OF assms(1), of i b] b i
    show "best_index lt xs (Suc (length (dn @ [i]))) (if lt (xs ! b) (xs ! i) then i else b)" by simp
  qed simp
  moreover have "Suc (length [1..<length xs]) = length xs" using assms(2) by (cases xs) (auto simp: Suc_le_eq)
  ultimately have "best_index lt xs (length xs) (max_element lt xs)" by simp
  then show "max_element lt xs < length xs" "\<And>j. j < length xs \<Longrightarrow> \<not> lt (xs ! max_element lt xs) (xs ! j)"
    "\<And>j. j < max_element lt xs \<Longrightarrow> lt (xs ! j) (xs ! max_element lt xs)" by (auto simp: best_index_def)
qed

end
