(* ===== verification/Timers.thy ===== *)
theory Timers
  imports Cpp_Float Go_Comm
begin

text \<open>
  timer.cc, byo_yomi_timer.cc and leaky_bucket.cc. The system clock is an argument: \<open>now\<close> is the
  number of its ticks, nanoseconds. Conversions of integral durations truncate toward zero.
\<close>

subsection \<open>Timer\<close>

record Timer = m_start :: int

definition Timer_new :: "int \<Rightarrow> Timer" where
  "Timer_new now = \<lparr>m_start = now\<rparr>"

definition Timer_Reset :: "int \<Rightarrow> Timer \<Rightarrow> Timer" where
  "Timer_Reset now t = t\<lparr>m_start := now\<rparr>"

definition sec :: "int \<Rightarrow> Timer \<Rightarrow> int" where
  "sec now t = (now - m_start t) sdiv 1000000000"

definition ms :: "int \<Rightarrow> Timer \<Rightarrow> int" where
  "ms now t = (now - m_start t) sdiv 1000000"

definition us :: "int \<Rightarrow> Timer \<Rightarrow> int" where
  "us now t = (now - m_start t) sdiv 1000"

definition fsec :: "'f arith \<Rightarrow> int \<Rightarrow> Timer \<Rightarrow> 'f" where
  "fsec A now t = f_div A (f_of_int A (now - m_start t)) (f_of_int A 1000000000)"

definition fms :: "'f arith \<Rightarrow> int \<Rightarrow> Timer \<Rightarrow> 'f" where
  "fms A now t = f_div A (f_of_int A (now - m_start t)) (f_of_int A 1000000)"

definition fus :: "'f arith \<Rightarrow> int \<Rightarrow> Timer \<Rightarrow> 'f" where
  "fus A now t = f_div A (f_of_int A (now - m_start t)) (f_of_int A 1000)"

subsection \<open>ByoYomiTimer\<close>

record 'f ByoYomiTimer =
  m_enable :: bool
  m_remain_time :: "'f \<times> 'f"
  m_byo_yomi_time :: 'f
  m_curr_player :: GoStoneColor
  m_timer :: Timer

definition ByoYomiTimer_new :: "'f arith \<Rightarrow> int \<Rightarrow> 'f ByoYomiTimer" where
  "ByoYomiTimer_new A now = \<lparr>m_enable = False, m_remain_time = (f_lit A 0, f_lit A 0), m_byo_yomi_time = f_lit A 0,
     m_curr_player = BLACK, m_timer = Timer_new now\<rparr>"

text \<open>The entry of \<open>m_remain_time\<close> of a colour: 0 for Black, 1 for anything else.\<close>

definition remain_of :: "GoStoneColor \<Rightarrow> 'f ByoYomiTimer \<Rightarrow> 'f" where
  "remain_of color t = (if color = BLACK then fst (m_remain_time t) else snd (m_remain_time t))"

definition put_remain :: "GoStoneColor \<Rightarrow> 'f \<Rightarrow> 'f ByoYomiTimer \<Rightarrow> 'f ByoYomiTimer" where
  "put_remain color v t = t\<lparr>m_remain_time := (if color = BLACK then (v, snd (m_remain_time t))
     else (fst (m_remain_time t), v))\<rparr>"

definition ByoYomi_Set :: "int \<Rightarrow> 'f \<Rightarrow> 'f \<Rightarrow> 'f ByoYomiTimer \<Rightarrow> 'f ByoYomiTimer" where
  "ByoYomi_Set now main_time byo_yomi_time t =
     t\<lparr>m_enable := True, m_remain_time := (main_time, main_time), m_byo_yomi_time := byo_yomi_time,
       m_timer := Timer_Reset now (m_timer t)\<rparr>"

definition ByoYomi_Reset :: "'f arith \<Rightarrow> 'f ByoYomiTimer \<Rightarrow> 'f ByoYomiTimer" where
  "ByoYomi_Reset A t = t\<lparr>m_enable := False, m_remain_time := (f_lit A 0, f_lit A 0), m_byo_yomi_time := f_lit A 0,
     m_curr_player := BLACK\<rparr>"

definition IsEnable :: "'f ByoYomiTimer \<Rightarrow> bool" where
  "IsEnable t = m_enable t"

definition ByoYomi_HandOff :: "'f arith \<Rightarrow> int \<Rightarrow> 'f ByoYomiTimer \<Rightarrow> 'f ByoYomiTimer" where
  "ByoYomi_HandOff A now t =
     (let t1 = put_remain (m_curr_player t) (f_sub A (remain_of (m_curr_player t) t) (fsec A now (m_timer t))) t;
          t2 = t1\<lparr>m_curr_player := (if m_curr_player t1 = BLACK then WHITE else BLACK)\<rparr>
      in t2\<lparr>m_timer := Timer_Reset now (m_timer t2)\<rparr>)"

definition SetRemainTime :: "int \<Rightarrow> GoStoneColor \<Rightarrow> 'f \<Rightarrow> 'f ByoYomiTimer \<Rightarrow> 'f ByoYomiTimer" where
  "SetRemainTime now color time t =
     (let t1 = put_remain color time t
      in if color = m_curr_player t1 then t1\<lparr>m_timer := Timer_Reset now (m_timer t1)\<rparr> else t1)"

definition GetRemainTime :: "'f arith \<Rightarrow> int \<Rightarrow> GoStoneColor \<Rightarrow> 'f ByoYomiTimer \<Rightarrow> 'f" where
  "GetRemainTime A now color t =
     (let r = remain_of color t;
          r' = (if color = m_curr_player t then f_sub A r (fsec A now (m_timer t)) else r)
      in f_max A r' (f_lit A 0))"

definition GetByoYomiTime :: "'f ByoYomiTimer \<Rightarrow> 'f" where
  "GetByoYomiTime t = m_byo_yomi_time t"

text \<open>
  The abstract clock: each side's main time less the time it has used. A game is the times of
  the hand-overs; Black's turns are the first, third, ...
\<close>

fun used :: "bool \<Rightarrow> int \<Rightarrow> int list \<Rightarrow> int \<times> int" where
  "used black t0 [] = (0, 0)"
| "used black t0 (t # ts) =
     (let (b, w) = used (\<not> black) t ts in if black then (b + (t - t0), w) else (b, w + (t - t0)))"

definition on_move :: "bool \<Rightarrow> GoStoneColor" where
  "on_move black = (if black then BLACK else WHITE)"

lemma handoffs:
  assumes "m_curr_player t = on_move black" and "m_start (m_timer t) = t0"
  shows "fold (ByoYomi_HandOff real_arith) ts t =
    t\<lparr>m_remain_time := (fst (m_remain_time t) - of_int (fst (used black t0 ts)) / 1000000000,
                        snd (m_remain_time t) - of_int (snd (used black t0 ts)) / 1000000000),
      m_curr_player := on_move (if even (length ts) then black else \<not> black),
      m_timer := Timer_Reset (last (t0 # ts)) (m_timer t)\<rparr>"
  using assms
proof (induction ts arbitrary: t t0 black)
  case Nil
  then show ?case by (simp add: Timer_Reset_def)
next
  case (Cons t1 ts)
  let ?t = "ByoYomi_HandOff real_arith t1 t"
  obtain b w where u: "used (\<not> black) t1 ts = (b, w)" by fastforce
  have "?t = t\<lparr>m_remain_time := (fst (m_remain_time t) - (if black then of_int (t1 - t0) / 1000000000 else 0),
        snd (m_remain_time t) - (if black then 0 else of_int (t1 - t0) / 1000000000)),
      m_curr_player := on_move (\<not> black), m_timer := Timer_Reset t1 (m_timer t)\<rparr>"
    using Cons.prems by (simp add: ByoYomi_HandOff_def Let_def put_remain_def remain_of_def fsec_def on_move_def)
  with Cons.IH [of ?t "\<not> black" t1] u show ?case
    by (auto simp: Timer_Reset_def diff_divide_distrib add_divide_distrib)
qed

text \<open>The clock of the game, with exact arithmetic: after the time control is set at \<open>t0\<close>
  and the turn handed over at \<open>ts\<close>, the time left is the main time less what the side has used
  in its own turns, the side on move also paying for its running turn, and never below zero.\<close>

theorem byo_yomi_accounting:
  "GetRemainTime real_arith now c
      (fold (ByoYomi_HandOff real_arith) ts (ByoYomi_Set t0 main_time byo (ByoYomiTimer_new real_arith created))) =
   max 0 (main_time - of_int ((if c = BLACK then fst (used True t0 ts) else snd (used True t0 ts)) +
     (if c = on_move (even (length ts)) then now - last (t0 # ts) else 0)) / 1000000000)"
proof -
  let ?t = "ByoYomi_Set t0 main_time byo (ByoYomiTimer_new real_arith created)"
  let ?u = "fold (ByoYomi_HandOff real_arith) ts ?t"
  have "m_curr_player ?t = on_move True" "m_start (m_timer ?t) = t0" "m_remain_time ?t = (main_time, main_time)"
    by (simp_all add: ByoYomi_Set_def ByoYomiTimer_new_def on_move_def Timer_Reset_def)
  with handoffs [OF this(1,2), of ts] have u: "m_remain_time ?u = (main_time - of_int (fst (used True t0 ts)) / 1000000000,
      main_time - of_int (snd (used True t0 ts)) / 1000000000)" "m_curr_player ?u = on_move (even (length ts))"
      "m_start (m_timer ?u) = last (t0 # ts)"
    by (simp_all add: Timer_Reset_def)
  show ?thesis
    unfolding GetRemainTime_def Let_def remain_of_def fsec_def u f_max_real
    by (simp add: max.commute diff_diff_eq add_divide_distrib)
qed

subsection \<open>LeakyBucket\<close>

record LeakyBucket =
  m_bucket_size :: int
  m_tokens :: int
  m_refill_period :: int
  m_last_refill :: int

definition LeakyBucket_new :: "int \<Rightarrow> int \<Rightarrow> int \<Rightarrow> LeakyBucket" where
  "LeakyBucket_new now bucket_size refill_period_ms =
     \<lparr>m_bucket_size = bucket_size, m_tokens = bucket_size, m_refill_period = refill_period_ms * 1000000,
      m_last_refill = now\<rparr>"

definition ConsumeToken :: "int \<Rightarrow> LeakyBucket \<Rightarrow> LeakyBucket" where
  "ConsumeToken now b =
     (let b1 = (if now - m_last_refill b > m_refill_period b
                then b\<lparr>m_last_refill := now, m_tokens := m_bucket_size b\<rparr> else b)
      in b1\<lparr>m_tokens := m_tokens b1 - 1\<rparr>)"

definition Bucket_Empty :: "LeakyBucket \<Rightarrow> bool" where
  "Bucket_Empty b \<longleftrightarrow> m_tokens b \<le> 0"

text \<open>\<open>WaitRefill\<close> sleeps until \<open>m_last_refill + m_refill_period\<close> when the bucket is empty; \<open>wake\<close> is
  the time it reads after that.\<close>

definition wakes_at :: "LeakyBucket \<Rightarrow> int" where
  "wakes_at b = m_last_refill b + m_refill_period b"

definition WaitRefill :: "int \<Rightarrow> LeakyBucket \<Rightarrow> LeakyBucket" where
  "WaitRefill wake b =
     (if m_tokens b \<le> 0 then b\<lparr>m_last_refill := wake, m_tokens := m_bucket_size b\<rparr> else b)"

text \<open>A client that waits for a refill before it takes a token, the time of taking being given.\<close>

definition take_token :: "int \<Rightarrow> LeakyBucket \<Rightarrow> LeakyBucket option" where
  "take_token now b =
     (if Bucket_Empty b \<and> now < wakes_at b then None else Some (ConsumeToken now (WaitRefill now b)))"

definition take_tokens :: "int list \<Rightarrow> LeakyBucket \<Rightarrow> LeakyBucket option" where
  "take_tokens ts b = foldo take_token ts b"

lemma take_token_bounds:
  assumes "take_token now b = Some b'" and "0 < m_bucket_size b" and "0 < m_refill_period b"
    and "0 \<le> m_tokens b" "m_tokens b \<le> m_bucket_size b"
  shows "0 \<le> m_tokens b' \<and> m_tokens b' < m_bucket_size b' \<and> m_bucket_size b' = m_bucket_size b \<and>
    m_refill_period b' = m_refill_period b \<and>
    (m_last_refill b' = m_last_refill b \<and> m_tokens b' = m_tokens b - 1 \<or>
     m_last_refill b' = now \<and> wakes_at b \<le> now \<and> m_tokens b' = m_bucket_size b - 1)"
  using assms
  by (auto simp: take_token_def ConsumeToken_def WaitRefill_def Bucket_Empty_def wakes_at_def Let_def split: if_splits)

text \<open>The rate bound is carried by this invariant: \<open>k\<close> tokens taken since the bucket was new.\<close>

definition rate_inv :: "int \<Rightarrow> int \<Rightarrow> int \<Rightarrow> nat \<Rightarrow> LeakyBucket \<Rightarrow> bool" where
  "rate_inv t0 cap period k b \<longleftrightarrow> m_bucket_size b = cap \<and> m_refill_period b = period \<and> 0 \<le> m_tokens b \<and>
     m_tokens b \<le> cap \<and> (\<exists>r::int. 0 \<le> r \<and> m_last_refill b \<ge> t0 + r * period \<and> int k \<le> r * cap + (cap - m_tokens b))"

lemma rate_step:
  assumes inv: "rate_inv t0 cap period k b" and pos: "0 < cap" "0 < period" and t: "take_token now b = Some b'"
  shows "rate_inv t0 cap period (Suc k) b'"
proof -
  from inv obtain r where r: "0 \<le> r" "m_last_refill b \<ge> t0 + r * period" "int k \<le> r * cap + (cap - m_tokens b)"
    and b: "m_bucket_size b = cap" "m_refill_period b = period" "0 \<le> m_tokens b" "m_tokens b \<le> cap"
    by (auto simp: rate_inv_def)
  from take_token_bounds [OF t] pos b have B: "0 \<le> m_tokens b'" "m_tokens b' < cap" "m_bucket_size b' = cap"
    "m_refill_period b' = period" "m_last_refill b' = m_last_refill b \<and> m_tokens b' = m_tokens b - 1 \<or>
     m_last_refill b' = now \<and> wakes_at b \<le> now \<and> m_tokens b' = cap - 1" by simp_all
  from B(5) show ?thesis
  proof
    assume "m_last_refill b' = m_last_refill b \<and> m_tokens b' = m_tokens b - 1"
    with r B b show ?thesis by (auto simp: rate_inv_def intro: exI [of _ r])
  next
    assume s: "m_last_refill b' = now \<and> wakes_at b \<le> now \<and> m_tokens b' = cap - 1"
    have "t0 + (r + 1) * period \<le> m_last_refill b'" using r(2) s b(2) by (simp add: wakes_at_def algebra_simps)
    moreover have "int (Suc k) \<le> (r + 1) * cap + (cap - m_tokens b')"
      using r(3) s b(3) by (simp add: algebra_simps)
    ultimately show ?thesis using r(1) B by (auto simp: rate_inv_def intro: exI [of _ "r + 1"])
  qed
qed

text \<open>The leaky bucket limits the rate: a client that waits for the refill when the bucket is
  empty takes, of a bucket of size \<open>n\<close> made at \<open>t0\<close>, at most \<open>n\<close> tokens per refill period, counted
  from \<open>t0\<close> to the last refill, and at most \<open>n\<close> since the last refill.\<close>

theorem bucket_limits_rate:
  assumes "take_tokens ts (LeakyBucket_new t0 n period_ms) = Some b" and "0 < n" and "0 < period_ms"
  shows "int (length ts) * (period_ms * 1000000) \<le> (m_last_refill b - t0) * n + n * (period_ms * 1000000)
    \<and> 0 \<le> m_tokens b \<and> m_tokens b \<le> n"
proof -
  let ?p = "period_ms * 1000000"
  have run: "foldo take_token xs c = Some d \<Longrightarrow> rate_inv t0 n ?p k c \<Longrightarrow> rate_inv t0 n ?p (k + length xs) d" for xs c d k
  proof (induction xs arbitrary: c k)
    case (Cons x xs)
    from Cons.prems(1) obtain c' where c': "take_token x c = Some c'" "foldo take_token xs c' = Some d"
      by (auto split: option.splits)
    from rate_step [OF Cons.prems(2) _ _ c'(1)] assms(2,3) Cons.IH [OF c'(2), of "Suc k"] show ?case by simp
  qed simp
  have "rate_inv t0 n ?p 0 (LeakyBucket_new t0 n period_ms)"
    using assms(2) by (auto simp: rate_inv_def LeakyBucket_new_def intro: exI [of _ 0])
  from run [OF assms(1) [unfolded take_tokens_def] this] obtain r where r: "0 \<le> r" "m_last_refill b \<ge> t0 + r * ?p"
    "int (length ts) \<le> r * n + (n - m_tokens b)" "0 \<le> m_tokens b" "m_tokens b \<le> n"
    by (auto simp: rate_inv_def)
  have "int (length ts) \<le> r * n + n" using r(3,4) by simp
  then have "int (length ts) * ?p \<le> (r * n + n) * ?p" using assms(3) by (intro mult_right_mono) simp_all
  also have "\<dots> = (r * ?p) * n + n * ?p" by (simp add: algebra_simps)
  also have "\<dots> \<le> (m_last_refill b - t0) * n + n * ?p" using r(2) assms(2) by (intro add_right_mono mult_right_mono) simp_all
  finally show ?thesis using r(4,5) by simp
qed

theorem bucket_limits_rate_witness:
  "int (length [0, 10, 2000000 :: int]) * (1 * 1000000) \<le> (2000000 - 0) * 2 + 2 * (1 * 1000000)"
proof -
  have "take_tokens [0, 10, 2000000] (LeakyBucket_new 0 2 1) =
      Some \<lparr>m_bucket_size = 2, m_tokens = 1, m_refill_period = 1000000, m_last_refill = 2000000\<rparr>"
    by (simp add: take_tokens_def take_token_def LeakyBucket_new_def ConsumeToken_def WaitRefill_def
        Bucket_Empty_def wakes_at_def)
  from bucket_limits_rate [OF this] show ?thesis by simp
qed

end
