(* ===== verification/Dist_Model.thy ===== *)
theory Dist_Model
  imports Timers Cpp_String
begin

text \<open>
  Evaluation on a remote server: dist_zero_model_server.cc and the synchronous client of
  dist_zero_model_client.cc. The network that the server runs, and the RPC library, are
  arguments: a model is a pair of its initialisation and its forward function, an RPC a function
  from the request to a status code and a response. Status code 0 is OK and 4 is
  DEADLINE_EXCEEDED, as the RPC library documents.
\<close>

definition INPUT_DIM :: nat where "INPUT_DIM = 19 * 19 * 17"
definition OUTPUT_DIM :: nat where "OUTPUT_DIM = 19 * 19 + 1"

definition ERR_INVALID_INPUT :: int where [simp]: "ERR_INVALID_INPUT = - 1"
definition ERR_FORWARD_TIMEOUT :: int where [simp]: "ERR_FORWARD_TIMEOUT = - 2"
definition ERR_GLOBAL_STEP_CONFLICT :: int where [simp]: "ERR_GLOBAL_STEP_CONFLICT = - 3000"
definition ERR_EMPTY_RESP :: int where [simp]: "ERR_EMPTY_RESP = - 3001"

definition DEADLINE_EXCEEDED :: int where [simp]: "DEADLINE_EXCEEDED = 4"

subsection \<open>Packing the features\<close>

text \<open>One bit per feature, eight to a byte, lowest bit first.\<close>

definition set_feature_bit :: "bool list \<Rightarrow> nat \<Rightarrow> u8 list \<Rightarrow> u8 list" where
  "set_feature_bit features i bytes =
     bytes[i div 8 := bytes ! (i div 8) OR push_bit (i mod 8) (of_bool (features ! i))]"

definition encode_features :: "bool list \<Rightarrow> u8 list" where
  "encode_features features = fold (set_feature_bit features) [0..<INPUT_DIM] (replicate ((INPUT_DIM + 7) div 8) 0)"

definition decode_features :: "u8 list \<Rightarrow> bool list" where
  "decode_features bytes = map (\<lambda>i. drop_bit (i mod 8) (bytes ! (i div 8)) AND 1 \<noteq> 0) [0..<INPUT_DIM]"

lemma set_feature_bits:
  assumes "n \<le> 8 * length bytes"
  shows "length (fold (set_feature_bit f) [0..<n] bytes) = length bytes \<and>
    (\<forall>j < length bytes. \<forall>k < 8. bit (fold (set_feature_bit f) [0..<n] bytes ! j) k \<longleftrightarrow>
      bit (bytes ! j) k \<or> 8 * j + k < n \<and> f ! (8 * j + k))"
  using assms
proof (induction n)
  case (Suc n)
  let ?b = "fold (set_feature_bit f) [0..<n] bytes"
  have IH: "length ?b = length bytes" "\<And>j k. j < length bytes \<Longrightarrow> k < 8 \<Longrightarrow> bit (?b ! j) k \<longleftrightarrow>
      bit (bytes ! j) k \<or> 8 * j + k < n \<and> f ! (8 * j + k)" using Suc by auto
  have n: "n div 8 < length bytes" using Suc.prems by (simp add: less_mult_imp_div_less ac_simps)
  have at: "8 * j + k = n \<longleftrightarrow> j = n div 8 \<and> k = n mod 8" if "k < 8" for j k using that by auto
  have step: "fold (set_feature_bit f) [0..<Suc n] bytes = set_feature_bit f n ?b" by simp
  have "bit (set_feature_bit f n ?b ! j) k \<longleftrightarrow> bit (bytes ! j) k \<or> 8 * j + k < Suc n \<and> f ! (8 * j + k)"
    if "j < length bytes" "k < 8" for j k
    using IH(1) IH(2) [OF that] at [OF that(2), of j] that n
    by (cases "j = n div 8"; cases "k = n mod 8")
      (auto simp: set_feature_bit_def bit_simps less_Suc_eq nth_list_update)
  with IH(1) show ?case unfolding step by (simp add: set_feature_bit_def)
qed simp

lemma decode_encode:
  assumes "length features = INPUT_DIM"
  shows "decode_features (encode_features features) = features"
    and "length (encode_features features) = 768"
proof -
  let ?z = "replicate ((INPUT_DIM + 7) div 8) (0 :: u8)"
  have l: "INPUT_DIM \<le> 8 * length ?z" by (simp add: INPUT_DIM_def)
  note S = set_feature_bits [OF l, of features, folded encode_features_def]
  show "length (encode_features features) = 768" using S by (simp add: INPUT_DIM_def)
  have "bit (encode_features features ! (i div 8)) (i mod 8) \<longleftrightarrow> features ! i" if i: "i < INPUT_DIM" for i
  proof -
    have "i div 8 < length ?z" using i by (simp add: INPUT_DIM_def less_mult_imp_div_less)
    then show ?thesis using S [THEN conjunct2, rule_format, of "i div 8" "i mod 8"] i by (simp add: nth_replicate del: replicate.simps)
  qed
  then show "decode_features (encode_features features) = features"
    using assms by (intro nth_equalityI) (auto simp: decode_features_def and_one_eq mod2_eq_if bit_iff_odd_drop_bit)
qed

subsection \<open>The server\<close>

text \<open>\<open>m_model\<close>: empty until the first \<open>Init\<close>, which installs the new model even when its own
  initialisation fails. An RPC answers a status code and a response.\<close>

record ('c, 'f) zero_model =
  zm_init :: "'c \<Rightarrow> int"
  zm_step :: "int \<times> int"
  zm_forward :: "bool list list \<Rightarrow> int \<times> 'f list list \<times> 'f list"

type_synonym ('c, 'f) server = "('c, 'f) zero_model option"

definition server_Init :: "('c, 'f) zero_model \<Rightarrow> 'c \<Rightarrow> ('c, 'f) server \<Rightarrow> int \<times> ('c, 'f) server" where
  "server_Init new_model config m = (let ret = zm_init new_model config in (ret, Some new_model))"

definition server_GetGlobalStep :: "('c, 'f) server \<Rightarrow> int \<times> int" where
  "server_GetGlobalStep m = (case m of None \<Rightarrow> (- 1, 0)
     | Some model \<Rightarrow> let (ret, global_step) = zm_step model in if ret = 0 then (0, global_step) else (ret, 0))"

text \<open>The inputs are unpacked in order; a short one is refused.\<close>

fun server_inputs :: "u8 list list \<Rightarrow> bool list list option" where
  "server_inputs [] = Some []"
| "server_inputs (e # es) =
     (if length e * 8 < INPUT_DIM then None else map_option (Cons (decode_features e)) (server_inputs es))"

text \<open>The outputs pair the policies with the values; a missing value is read out of bounds.\<close>

definition server_outputs :: "'f list list \<Rightarrow> 'f list \<Rightarrow> ('f list \<times> 'f) list option" where
  "server_outputs policy value = (if length policy \<le> length value then Some (zip policy value) else None)"

definition server_Forward :: "u8 list list \<Rightarrow> ('c, 'f) server \<Rightarrow> (int \<times> ('f list \<times> 'f) list) option" where
  "server_Forward req m = (case m of None \<Rightarrow> Some (- 1, [])
     | Some model \<Rightarrow> (case server_inputs req of None \<Rightarrow> Some (ERR_INVALID_INPUT, [])
       | Some inputs \<Rightarrow> let (ret, policy, value) = zm_forward model inputs
           in if ret = 0 then map_option (Pair 0) (server_outputs policy value) else Some (ret, [])))"

subsection \<open>The client\<close>

record DistConfig =
  timeout_ms :: int
  enable_leaky_bucket :: bool
  leaky_bucket_size :: int
  leaky_bucket_refill_period_ms :: int

record 's DistClient =
  dc_config :: DistConfig
  dc_server_address :: string
  dc_stub :: 's
  dc_leaky_bucket :: LeakyBucket

definition DistClient_new :: "(string \<Rightarrow> 's) \<Rightarrow> int \<Rightarrow> string \<Rightarrow> DistConfig \<Rightarrow> 's DistClient" where
  "DistClient_new new_stub now addr config =
     \<lparr>dc_config = config, dc_server_address = addr, dc_stub = new_stub addr,
      dc_leaky_bucket = LeakyBucket_new now (leaky_bucket_size config) (leaky_bucket_refill_period_ms config)\<rparr>"

text \<open>\<open>Init\<close> and \<open>GetGlobalStep\<close> of the client: the status code, and the step when it is OK.\<close>

definition client_Init :: "('s \<Rightarrow> 'c \<Rightarrow> int) \<Rightarrow> 'c \<Rightarrow> 's DistClient \<Rightarrow> int" where
  "client_Init rpc config c = (let status = rpc (dc_stub c) config in if status = 0 then 0 else status)"

definition client_GetGlobalStep :: "('s \<Rightarrow> int \<times> int) \<Rightarrow> 's DistClient \<Rightarrow> int \<times> int option" where
  "client_GetGlobalStep rpc c =
     (let (status, step) = rpc (dc_stub c) in if status = 0 then (0, Some step) else (status, None))"

text \<open>The request, or nothing when an input has the wrong length.\<close>

fun forward_request :: "bool list list \<Rightarrow> u8 list list option" where
  "forward_request [] = Some []"
| "forward_request (f # fs) =
     (if length f \<noteq> INPUT_DIM then None else map_option (Cons (encode_features f)) (forward_request fs))"

type_synonym ('s, 'f) forward_rpc = "'s \<Rightarrow> int option \<Rightarrow> u8 list list \<Rightarrow> int \<times> ('f list \<times> 'f) list"

definition client_Forward ::
    "(string \<Rightarrow> 's) \<Rightarrow> ('s, 'f) forward_rpc \<Rightarrow> int \<Rightarrow> bool list list \<Rightarrow> 's DistClient \<Rightarrow>
     (int \<times> 'f list list \<times> 'f list) \<times> 's DistClient" where
  "client_Forward new_stub rpc now inputs c =
     (case forward_request inputs of
        None \<Rightarrow> ((ERR_INVALID_INPUT, [], []), c)
      | Some req \<Rightarrow>
          let deadline = (if timeout_ms (dc_config c) > 0 then Some (timeout_ms (dc_config c)) else None);
              (status, outputs) = rpc (dc_stub c) deadline req;
              c1 = (if status \<noteq> 0 then c\<lparr>dc_stub := new_stub (dc_server_address c)\<rparr> else c);
              c2 = (if status \<noteq> 0 \<and> enable_leaky_bucket (dc_config c1)
                    then c1\<lparr>dc_leaky_bucket := ConsumeToken now (dc_leaky_bucket c1)\<rparr> else c1)
          in if status = 0 then ((0, map fst outputs, map snd outputs), c2)
             else if status = DEADLINE_EXCEEDED then ((ERR_FORWARD_TIMEOUT, [], []), c2)
             else ((status, [], []), c2))"

text \<open>\<open>Wait\<close>; \<open>wake\<close> is the time after the sleep, if it sleeps.\<close>

definition client_Wait :: "int \<Rightarrow> 's DistClient \<Rightarrow> 's DistClient" where
  "client_Wait wake c =
     (if enable_leaky_bucket (dc_config c) \<and> Bucket_Empty (dc_leaky_bucket c)
      then c\<lparr>dc_leaky_bucket := WaitRefill wake (dc_leaky_bucket c)\<rparr> else c)"

subsection \<open>Properties\<close>

lemma forward_request_ok:
  "\<forall>f\<in>set inputs. length f = INPUT_DIM \<Longrightarrow> forward_request inputs = Some (map encode_features inputs)"
  by (induction inputs) auto

lemma forward_request_bad: "\<exists>f\<in>set inputs. length f \<noteq> INPUT_DIM \<Longrightarrow> forward_request inputs = None"
  by (induction inputs) auto

lemma server_inputs_ok:
  assumes "\<forall>f\<in>set inputs. length f = INPUT_DIM"
  shows "server_inputs (map encode_features inputs) = Some inputs"
  using assms
proof (induction inputs)
  case (Cons f fs)
  then have "length f = INPUT_DIM" by simp
  from decode_encode [OF this] Cons show ?case by (simp add: INPUT_DIM_def)
qed simp

text \<open>What the client packs the server unpacks: for feature vectors of the right length
  decoding the encoded bytes gives the vector back, in 768 bytes.\<close>

theorem features_roundtrip:
  assumes "length features = INPUT_DIM"
  shows "decode_features (encode_features features) = features \<and> length (encode_features features) = 768"
  using decode_encode [OF assms] by blast

theorem features_roundtrip_witness:
  "decode_features (encode_features (replicate 6137 True)) = replicate 6137 True"
proof -
  have "length (replicate 6137 True) = INPUT_DIM" by (simp add: INPUT_DIM_def)
  from features_roundtrip [OF this] show ?thesis by blast
qed

text \<open>Evaluating remotely is evaluating locally: when the RPC delivers the request to a
  server with model \<open>m\<close> and brings its answer back, the client returns for well-formed inputs
  exactly the policies and values \<open>m\<close> computes for them, or its error; inputs of a wrong length
  are refused without an RPC.\<close>

theorem remote_forward_is_local:
  assumes "\<And>d req. rpc (dc_stub c) d req = the (server_Forward req (Some m))"
    and "zm_forward m inputs = (ret, policy, vals)" and "length policy = length vals" and "ret \<noteq> DEADLINE_EXCEEDED"
  shows "fst (client_Forward new_stub rpc now inputs c) =
    (if \<forall>f\<in>set inputs. length f = INPUT_DIM
     then if ret = 0 then (0, policy, vals) else (ret, [], [])
     else (ERR_INVALID_INPUT, [], []))"
proof (cases "\<forall>f\<in>set inputs. length f = INPUT_DIM")
  case True
  with forward_request_ok [OF True] server_inputs_ok [OF True] assms show ?thesis
    by (simp add: client_Forward_def server_Forward_def server_outputs_def Let_def)
next
  case False
  then have "forward_request inputs = None" using forward_request_bad by blast
  with False show ?thesis by (auto simp: client_Forward_def)
qed

definition echo_model :: "(unit, int) zero_model" where
  "echo_model = \<lparr>zm_init = (\<lambda>_. 0), zm_step = (0, 7), zm_forward = (\<lambda>fs. (0, map (\<lambda>f. [int (length f)]) fs, map (\<lambda>f. 1) fs))\<rparr>"

theorem remote_forward_is_local_witness:
  "fst (client_Forward (\<lambda>_. ()) (\<lambda>_ _ req. the (server_Forward req (Some echo_model))) 0 [replicate 6137 True]
      (DistClient_new (\<lambda>_. ()) 0 [] \<lparr>timeout_ms = 5, enable_leaky_bucket = False, leaky_bucket_size = 1,
        leaky_bucket_refill_period_ms = 1\<rparr>)) = (0, [[6137]], [1])"
  by (subst remote_forward_is_local [where m = echo_model and ret = 0 and policy = "[[6137]]" and vals = "[1]"])
    (simp_all add: echo_model_def INPUT_DIM_def)

text \<open>Errors of the remote evaluation: a client that is not answered in time reports the
  time-out, any other failure is reported as its code; each failure renews the connection and,
  with the leaky bucket enabled, costs one token, so that the client waits for the refill
  once the bucket is empty; a success changes nothing.\<close>

theorem remote_forward_errors:
  assumes "\<forall>f\<in>set inputs. length f = INPUT_DIM"
    and "rpc (dc_stub c) (if timeout_ms (dc_config c) > 0 then Some (timeout_ms (dc_config c)) else None)
           (map encode_features inputs) = (status, outputs)"
  shows "client_Forward new_stub rpc now inputs c =
    (if status = 0 then ((0, map fst outputs, map snd outputs), c)
     else ((if status = DEADLINE_EXCEEDED then ERR_FORWARD_TIMEOUT else status, [], []),
       c\<lparr>dc_stub := new_stub (dc_server_address c),
         dc_leaky_bucket := (if enable_leaky_bucket (dc_config c) then ConsumeToken now (dc_leaky_bucket c)
           else dc_leaky_bucket c)\<rparr>))"
  using forward_request_ok [OF assms(1)] assms(2) by (simp add: client_Forward_def Let_def)

theorem remote_forward_errors_witness:
  "fst (client_Forward (\<lambda>_. ()) (\<lambda>_ _ _. (4, [])) 0 [replicate 6137 False]
      (DistClient_new (\<lambda>_. ()) 0 [] \<lparr>timeout_ms = 5, enable_leaky_bucket = True, leaky_bucket_size = 1,
        leaky_bucket_refill_period_ms = 1\<rparr>)) = (ERR_FORWARD_TIMEOUT, [], [] :: int list)"
  by (subst remote_forward_errors [where status = 4 and outputs = "[]"]) (simp_all add: INPUT_DIM_def)

end
