(* ===== verification/Eval_Batch.thy ===== *)
theory Eval_Batch
  imports Task_Queue Cpp_String Dist_Model "HOL-Library.Monad_Syntax"
begin

text \<open>
  eval_routine.cc: the evaluation threads take batches of tasks from the queue, give them to the
  model and hand the results to the tasks' callbacks; and train_data.h. A task is its features
  and the identity of its callback. While a thread collects a batch other threads push tasks:
  \<open>arrive i\<close> are those that come before its \<open>i\<close>-th pop, and \<open>expired i\<close> says whether the time of
  that pop runs out when nothing is there.
\<close>

subsection \<open>Configuration\<close>

record EvalConfig =
  gpu_list :: string
  num_eval_threads :: int
  enable_dist :: bool
  enable_async :: bool
  dist_svr_addrs :: "string list"
  enable_tensorrt :: bool
  eval_batch_size :: int
  eval_wait_batch_timeout_us :: int

text \<open>The model of an evaluation thread; \<open>No_Model\<close> is the null pointer.\<close>

datatype model_choice = Async_Client "string list" | Dist_Client string | Trt_Model int | No_Model

definition gpu_ids :: "string \<Rightarrow> cpp_error + int list" where
  "gpu_ids s = fold (\<lambda>gpu r. case r of Inl e \<Rightarrow> Inl e
      | Inr l \<Rightarrow> if gpu = [] then Inr (l @ [0]) else map_sum id (\<lambda>n. l @ [n]) (stoi gpu))
     (SplitStr s (CHR '','')) (Inr [])"

text \<open>The choice for thread \<open>i\<close>; \<open>None\<close> is the remainder by zero when no server is configured.\<close>

definition choose_model :: "EvalConfig \<Rightarrow> int list \<Rightarrow> nat \<Rightarrow> model_choice option" where
  "choose_model c gpus i =
     (if enable_dist c then
        (if dist_svr_addrs c = [] then None
         else let addr = dist_svr_addrs c ! (i mod length (dist_svr_addrs c))
              in Some (if enable_async c then Async_Client (SplitStr addr (CHR '','')) else Dist_Client addr))
      else if enable_tensorrt c then Some (Trt_Model (gpus ! (i mod length gpus)))
      else Some No_Model)"

text \<open>\<open>Init\<close> and \<open>InitSelfplay\<close>, which differ in the monitoring flag of the threads only.\<close>

definition Eval_Init :: "EvalConfig \<Rightarrow> cpp_error + model_choice option list" where
  "Eval_Init c = map_sum id (\<lambda>gpus. map (choose_model c gpus) [0..<nat (num_eval_threads c)]) (gpu_ids (gpu_list c))"

lemma gpu_ids_fold:
  "\<forall>g\<in>set gs. 0 \<le> g \<and> g < 2 ^ 31 \<Longrightarrow>
   fold (\<lambda>gpu r. case r of Inl e \<Rightarrow> Inl e
      | Inr l \<Rightarrow> if gpu = [] then Inr (l @ [0]) else map_sum id (\<lambda>n. l @ [n]) (stoi gpu))
     (map to_string gs) (Inr l) = (Inr (l @ gs) :: cpp_error + int list)"
proof (induction gs arbitrary: l)
  case (Cons g gs)
  moreover have "to_string g \<noteq> []" by (simp add: to_string_def)
  ultimately show ?case by (simp add: stoi_to_string)
qed simp

lemma to_string_no_comma: "0 \<le> n \<Longrightarrow> CHR '','' \<notin> set (to_string n)"
  using nat_digits_isdigit [of "CHR '',''" "nat n"] by (auto simp: to_string_def isdigit_def)

text \<open>The list of GPUs is read back as written: a comma-separated list of device numbers
  gives these numbers, an empty entry (an empty list too) counts as device 0, and the
  evaluation threads use the devices in turn.\<close>

theorem gpu_list_read:
  assumes "gs \<noteq> []" and "\<forall>g\<in>set gs. 0 \<le> g \<and> g < 2 ^ 31"
    and "\<not> enable_dist c" "enable_tensorrt c" "gpu_list c = join_with (CHR '','') (map to_string gs)"
  shows "Eval_Init c = Inr (map (\<lambda>i. Some (Trt_Model (gs ! (i mod length gs)))) [0..<nat (num_eval_threads c)]) \<and>
    gpu_ids '''' = Inr [0]"
proof -
  have "SplitStr (gpu_list c) (CHR '','') = map to_string gs"
    unfolding assms(5) by (rule SplitStr_join) (use assms(1,2) to_string_no_comma in auto)
  then have "gpu_ids (gpu_list c) = Inr gs" using gpu_ids_fold [OF assms(2), of "[]"] by (simp add: gpu_ids_def)
  with assms(3,4) show ?thesis by (simp add: Eval_Init_def choose_model_def gpu_ids_def SplitStr_def)
qed

theorem gpu_list_read_witness:
  "Eval_Init \<lparr>gpu_list = ''0,3'', num_eval_threads = 3, enable_dist = False, enable_async = False, dist_svr_addrs = [],
     enable_tensorrt = True, eval_batch_size = 4, eval_wait_batch_timeout_us = 100\<rparr> =
   Inr [Some (Trt_Model 0), Some (Trt_Model 3), Some (Trt_Model 0)]"
proof -
  have t: "to_string 0 = ''0''" "to_string 3 = ''3''" by code_simp+
  show ?thesis
    using gpu_list_read [of "[0, 3]" "\<lparr>gpu_list = ''0,3'', num_eval_threads = 3, enable_dist = False, enable_async = False,
      dist_svr_addrs = [], enable_tensorrt = True, eval_batch_size = 4, eval_wait_batch_timeout_us = 100\<rparr>"]
    by (simp add: t upt_rec)
qed

subsection \<open>Collecting a batch\<close>

record EvalTask =
  features :: "bool list"
  callback :: nat

definition arrivals :: "EvalTask list \<Rightarrow> EvalTask TaskQueue \<Rightarrow> EvalTask TaskQueue option" where
  "arrivals ts q = foldo Push ts q"

text \<open>What the loop ends with: the tasks, whether the thread terminates, and the queue. \<open>n\<close> is the
  number of iterations left; \<open>None\<close> while blocked.\<close>

fun collect :: "(nat \<Rightarrow> EvalTask list) \<Rightarrow> (nat \<Rightarrow> bool) \<Rightarrow> int \<Rightarrow> nat \<Rightarrow> nat \<Rightarrow> EvalTask list \<Rightarrow> EvalTask TaskQueue \<Rightarrow>
    (EvalTask list \<times> bool \<times> EvalTask TaskQueue) option" where
  "collect arrive expired timeout_us i 0 batch q = Some (batch, False, q)"
| "collect arrive expired timeout_us i (Suc n) batch q =
     do { q1 \<leftarrow> arrivals (arrive i) q;
          (r, q2) \<leftarrow> Pop (if i \<noteq> 0 then timeout_us else - 1) (expired i) q1;
          (case r of
             Some task \<Rightarrow> collect arrive expired timeout_us (Suc i) n (batch @ [task]) q2
           | None \<Rightarrow> if IsClose q2 then Some (batch, True, q2) else Some (batch, False, q2)) }"

text \<open>The results go to the callbacks: each entry is a callback with what it is given. A failed
  comparison of the sizes aborts, a missing value is read out of bounds (\<open>None\<close>).\<close>

type_synonym 'f answer = "nat \<times> int \<times> 'f list \<times> 'f"

definition deliver :: "'f \<Rightarrow> int \<Rightarrow> 'f list list \<Rightarrow> 'f list \<Rightarrow> EvalTask list \<Rightarrow> EvalTask TaskQueue \<Rightarrow>
    ('f answer list \<times> EvalTask TaskQueue) option" where
  "deliver zero ret policy val batch q =
     (if ret = ERR_FORWARD_TIMEOUT then Some ([], fold PushFront batch q)
      else if ret \<noteq> 0 then Some (map (\<lambda>t. (callback t, ret, [], zero)) batch, q)
      else if length batch = length policy \<and> length batch \<le> length val
      then Some (map (\<lambda>i. (callback (batch ! i), ret, policy ! i, val ! i)) [0..<length batch], q)
      else None)"

text \<open>One round of the thread: the batch it gives to the model and what becomes of it.\<close>

definition eval_round :: "'f \<Rightarrow> (bool list list \<Rightarrow> int \<times> 'f list list \<times> 'f list) \<Rightarrow> (nat \<Rightarrow> EvalTask list) \<Rightarrow> (nat \<Rightarrow> bool) \<Rightarrow>
    int \<Rightarrow> int \<Rightarrow> EvalTask TaskQueue \<Rightarrow> ('f answer list \<times> bool \<times> EvalTask TaskQueue) option" where
  "eval_round zero model arrive expired batch_size timeout_us q =
     do { (batch, stop, q1) \<leftarrow> collect arrive expired timeout_us 0 (nat batch_size) [] q;
          if stop then Some ([], True, q1)
          else do { let (ret, policy, val) = model (map features batch);
                    (answers, q2) \<leftarrow> deliver zero ret policy val batch q1;
                    Some (answers, False, q2) } }"

lemma arrivals_content:
  "arrivals ts q = Some q' \<Longrightarrow> m_queue q' = m_queue q @ ts \<and> m_is_close q' = m_is_close q"
  unfolding arrivals_def
proof (induction ts arbitrary: q)
  case (Cons t ts)
  then obtain q1 where "Push t q = Some q1" "foldo Push ts q1 = Some q'" by (auto split: option.splits)
  with Cons.IH task_queue.push_content [of t q q1] show ?case by auto
qed simp

lemma collect_grows:
  "collect arrive expired t i n batch q = Some (batch', stop, q') \<Longrightarrow> length batch \<le> length batch'"
proof (induction n arbitrary: i batch q)
  case (Suc n)
  show ?case using Suc.prems
    by (auto split: option.splits bind_splits if_splits dest!: Suc.IH)
qed simp

text \<open>Nothing is lost while collecting, and the order is kept.\<close>

lemma collect_fifo:
  assumes "collect arrive expired t i n batch q = Some (batch', stop, q')"
  shows "\<exists>k \<le> n. batch @ m_queue q @ concat (map arrive [i..<i + k]) = batch' @ m_queue q' \<and>
    length batch' \<le> length batch + n \<and> (stop \<longrightarrow> m_queue q' = [] \<and> m_is_close q') \<and>
    (\<not> stop \<longrightarrow> i = 0 \<longrightarrow> 0 < n \<longrightarrow> batch' \<noteq> [])"
  using assms
proof (induction n arbitrary: i batch q)
  case 0
  then show ?case by auto
next
  case (Suc n)
  obtain q1 where q1: "arrivals (arrive i) q = Some q1" "m_queue q1 = m_queue q @ arrive i"
    using Suc.prems arrivals_content by (auto split: bind_splits)
  with Suc.prems obtain r q2 where pop: "Pop (if i \<noteq> 0 then t else - 1) (expired i) q1 = Some (r, q2)"
    and rest: "(case r of Some task \<Rightarrow> collect arrive expired t (Suc i) n (batch @ [task]) q2
       | None \<Rightarrow> if IsClose q2 then Some (batch, True, q2) else Some (batch, False, q2)) = Some (batch', stop, q')"
    by (auto split: option.splits bind_splits)
  show ?case
  proof (cases r)
    case None
    with pop task_queue.pop_false have q2: "q2 = q1" "m_queue q1 = []" by blast+
    have "IsClose q2 \<or> i \<noteq> 0" using pop None q2 by (auto simp: Pop_def IsClose_def split: if_splits)
    with None rest q1 q2 show ?thesis
      by (intro exI [of _ 1]) (auto simp: IsClose_def split: if_splits)
  next
    case (Some task)
    with pop task_queue.pop_content [of _ _ q1 task q2] have q2: "m_queue q1 = task # m_queue q2" by blast
    from Some rest have run: "collect arrive expired t (Suc i) n (batch @ [task]) q2 = Some (batch', stop, q')" by simp
    from Suc.IH [OF run] obtain k where k: "k \<le> n"
      "(batch @ [task]) @ m_queue q2 @ concat (map arrive [Suc i..<Suc i + k]) = batch' @ m_queue q'"
      "length batch' \<le> length (batch @ [task]) + n" "stop \<longrightarrow> m_queue q' = [] \<and> m_is_close q'" by blast
    have u: "[i..<i + Suc k] = i # [Suc i..<Suc i + k]" by (simp add: upt_rec)
    have "batch @ m_queue q @ concat (map arrive [i..<i + Suc k]) =
        batch @ (m_queue q @ arrive i) @ concat (map arrive [Suc i..<Suc i + k])"
      unfolding u by simp
    also have "m_queue q @ arrive i = task # m_queue q2" using q1(2) q2 by simp
    finally have "batch @ m_queue q @ concat (map arrive [i..<i + Suc k]) = batch' @ m_queue q'" using k(2) by simp
    moreover have "batch' \<noteq> []" if "\<not> stop"
      using collect_grows [OF run] by auto
    ultimately show ?thesis using k(1,3,4) by (intro exI [of _ "Suc k"]) (simp del: upt_Suc)
  qed
qed


subsection \<open>Properties\<close>

lemma push_front_all: "m_queue (fold PushFront ts q) = rev ts @ m_queue q"
  by (induction ts arbitrary: q) (auto simp: PushFront_def)

lemma deliver_cases:
  assumes "deliver zero ret policy val batch q = Some (answers, q')"
  shows "if ret = ERR_FORWARD_TIMEOUT then answers = [] \<and> m_queue q' = rev batch @ m_queue q
    else map fst answers = map callback batch \<and> q' = q \<and>
      (\<forall>i < length batch. snd (answers ! i) = (if ret = 0 then (0, policy ! i, val ! i) else (ret, [], zero)))"
proof -
  have m: "map (\<lambda>i. callback (batch ! i)) [0..<length batch] = map callback batch"
    by (rule nth_equalityI) simp_all
  show ?thesis
    using assms m by (auto simp: deliver_def push_front_all comp_def split: if_splits)
qed


definition two_tasks :: "EvalTask TaskQueue" where
  "two_tasks = \<lparr>m_queue = [\<lparr>features = [True], callback = 4\<rparr>, \<lparr>features = [False], callback = 9\<rparr>], m_capacity = 0,
     m_size = 2, m_is_close = False\<rparr>"


text \<open>Two ways in which the order and the answers are not kept. A batch that timed out is
  put back in reverse order. And when the queue is closed while a batch is being collected, the
  thread ends with the tasks it has taken: they are in no queue and their callbacks never run.\<close>

theorem batch_irregularities:
  "deliver zero ERR_FORWARD_TIMEOUT policy val batch q = Some ([], fold PushFront batch q) \<and>
   m_queue (fold PushFront batch q) = rev batch @ m_queue q \<and>
   (\<exists>q'. eval_round zero model (\<lambda>_. []) expired 3 timeout_us (Close two_tasks) = Some ([], True, q') \<and> m_queue q' = [])"
proof -
  have "collect (\<lambda>_. []) expired timeout_us 0 3 [] (Close two_tasks) =
      Some (m_queue two_tasks, True, two_tasks\<lparr>m_queue := [], m_size := 0, m_is_close := True\<rparr>)"
    by (simp add: two_tasks_def Close_def arrivals_def Pop_def set_queue_def numeral_3_eq_3 IsClose_def)
  then show ?thesis by (simp add: deliver_def push_front_all eval_round_def)
qed

subsection \<open>Training data\<close>

record 'f TrainData =
  td_winner :: GoStoneColor
  td_policy :: "'f list"
  td_feature :: "bool list"

text \<open>The constructor aborts when a vector has the wrong size.\<close>

definition TrainData_new :: "bool list \<Rightarrow> 'f list \<Rightarrow> GoStoneColor \<Rightarrow> 'f TrainData option" where
  "TrainData_new feature policy winner =
     (if length feature = 361 * 17 \<and> length policy = 361 + 1
      then Some \<lparr>td_winner = winner, td_policy = policy, td_feature = feature\<rparr> else None)"

end
