(* ===== verification/Dist_Async.thy ===== *)
theory Dist_Async
  imports Dist_Model "HOL-Library.Multiset"
begin

text \<open>
  The asynchronous client (async_dist_zero_model_client.cc) and its queue of outstanding RPCs
  (async_rpc_queue.h). The client keeps a stack of available connections (stubs); a request
  takes one, its completion gives it back, or parks it until its leaky bucket is refilled. The
  operations are the atomic steps; the completions come in any order.
\<close>

subsection \<open>The queue of RPCs\<close>

text \<open>The completion queue of the RPC library is an argument: the tags it delivers, in order.\<close>

record AsyncRpcQueue =
  rq_size :: int
  rq_is_shutdown :: bool

definition AsyncRpcQueue_new :: AsyncRpcQueue where
  "AsyncRpcQueue_new = \<lparr>rq_size = 0, rq_is_shutdown = False\<rparr>"

text \<open>\<open>Call\<close> sets the deadline when the time limit is positive.\<close>

definition rpc_deadline :: "int \<Rightarrow> int \<Rightarrow> int option" where
  "rpc_deadline now_ms timeout = (if timeout > 0 then Some (now_ms + timeout) else None)"

definition rpc_Call :: "AsyncRpcQueue \<Rightarrow> AsyncRpcQueue" where
  "rpc_Call q = q\<lparr>rq_size := wrap32 (rq_size q + 1)\<rparr>"

definition rpc_Shutdown :: "AsyncRpcQueue \<Rightarrow> AsyncRpcQueue" where
  "rpc_Shutdown q = q\<lparr>rq_is_shutdown := True\<rparr>"

text \<open>The calls completed out of the tags delivered, those left, and the state of the client \<open>st\<close>
  that the callbacks change.\<close>

fun rpc_Complete :: "int \<Rightarrow> int \<Rightarrow> ('call \<Rightarrow> 'st \<Rightarrow> 'st) \<Rightarrow> 'call list \<Rightarrow> AsyncRpcQueue \<Rightarrow> 'st \<Rightarrow>
    'call list \<times> AsyncRpcQueue \<times> 'st" where
  "rpc_Complete n i callback [] q st = ([], q, st)"
| "rpc_Complete n i callback (c # cs) q st =
     (if (n < 0 \<or> i < n) \<and> \<not> rq_is_shutdown q
      then rpc_Complete n (i + 1) callback cs (q\<lparr>rq_size := wrap32 (rq_size q - 1)\<rparr>) (callback c st)
      else (c # cs, q, st))"

lemma rpc_Complete_all:
  "\<not> rq_is_shutdown q \<Longrightarrow> n < 0 \<or> i + int (length cs) \<le> n \<Longrightarrow>
   rpc_Complete n i callback cs q st =
     ([], q\<lparr>rq_size := (if cs = [] then rq_size q else wrap32 (rq_size q - int (length cs)))\<rparr>, fold callback cs st)"
proof (induction cs arbitrary: i q st)
  case (Cons c cs)
  show ?case using Cons.prems Cons.IH [of "q\<lparr>rq_size := wrap32 (rq_size q - 1)\<rparr>" "i + 1" "callback c st"]
    by (auto simp: diff_diff_eq)
qed simp

lemma calls_size:
  "rq_size ((rpc_Call ^^ n) AsyncRpcQueue_new) = wrap32 (int n) \<and> \<not> rq_is_shutdown ((rpc_Call ^^ n) AsyncRpcQueue_new)"
  by (induction n) (auto simp: rpc_Call_def AsyncRpcQueue_new_def ac_simps)

subsection \<open>Init and GetGlobalStep\<close>

text \<open>The RPCs to all servers are issued, then completed; \<open>arrivals\<close> are the answers in the order
  they come, each the index of its server, the status code and the response.\<close>

definition async_Init :: "nat \<Rightarrow> (nat \<times> int) list \<Rightarrow> int" where
  "async_Init stubs arrivals =
     snd (snd (rpc_Complete (int stubs) 0 (\<lambda>(i, status) ret. if status \<noteq> 0 then status else ret) arrivals
       ((rpc_Call ^^ stubs) AsyncRpcQueue_new) 0))"

definition step_answer :: "nat \<times> int \<times> int \<Rightarrow> int \<times> int list \<Rightarrow> int \<times> int list" where
  "step_answer a st =
     (let (i, status, step) = a; (ret, steps) = st
      in if status = 0 then (ret, steps[i := step]) else (status, steps))"

definition async_GetGlobalStep :: "nat \<Rightarrow> (nat \<times> int \<times> int) list \<Rightarrow> int \<times> int option" where
  "async_GetGlobalStep stubs arrivals =
     (let (_, _, ret, steps) = rpc_Complete (int stubs) 0 step_answer arrivals
            ((rpc_Call ^^ stubs) AsyncRpcQueue_new) (0, replicate stubs 0);
          ret1 = (if ret = 0 then fold (\<lambda>i r. if steps ! i \<noteq> steps ! 0 then ERR_GLOBAL_STEP_CONFLICT else r)
                    [1..<stubs] ret else ret)
      in if ret1 = 0 then (ret1, Some (steps ! 0)) else (ret1, None))"

lemma fold_flag: "fold (\<lambda>i r. if P i then e else r) xs (r :: int) = (if \<exists>x\<in>set xs. P x then e else r)"
  by (induction xs arbitrary: r) auto

lemma step_answers_ok:
  "\<forall>(i, status, step)\<in>set as. status = 0 \<Longrightarrow> fst (fold step_answer as (ret, ss)) = ret \<and>
   (distinct (map fst as) \<longrightarrow> (\<forall>(i, status, step)\<in>set as. i < length ss \<longrightarrow> snd (fold step_answer as (ret, ss)) ! i = step) \<and>
     (\<forall>j. j \<notin> fst ` set as \<longrightarrow> snd (fold step_answer as (ret, ss)) ! j = ss ! j))"
proof (induction as arbitrary: ss)
  case (Cons a as)
  obtain i status st where a: "a = (i, status, st)" by (cases a)
  with Cons.prems have [simp]: "status = 0" by simp
  have "step_answer a (ret, ss) = (ret, ss[i := st])" by (simp add: a step_answer_def)
  then have f: "fold step_answer (a # as) (ret, ss) = fold step_answer as (ret, ss[i := st])" by simp
  from Cons.prems Cons.IH [of "ss[i := st]"] show ?case
    unfolding f by (fastforce simp: a nth_list_update)
qed simp

lemma step_answers_error:
  "fst (fold step_answer as (ret, ss)) = 0 \<Longrightarrow> ret = 0 \<and> (\<forall>(i, status, step)\<in>set as. status = 0)"
proof (induction as arbitrary: ret ss)
  case (Cons a as)
  obtain i status st where a: "a = (i, status, st)" by (cases a)
  from Cons.prems Cons.IH [of "fst (step_answer a (ret, ss))" "snd (step_answer a (ret, ss))"] show ?case
    by (auto simp: a step_answer_def split: if_splits)
qed simp

lemma GetGlobalStep_run:
  assumes "length arrivals = stubs"
  shows "async_GetGlobalStep stubs arrivals =
    (let (ret, steps) = fold step_answer arrivals (0, replicate stubs 0);
         ret1 = (if ret = 0 then (if \<exists>i\<in>{1..<stubs}. steps ! i \<noteq> steps ! 0 then ERR_GLOBAL_STEP_CONFLICT else ret) else ret)
     in if ret1 = 0 then (ret1, Some (steps ! 0)) else (ret1, None))"
proof -
  have "rpc_Complete (int stubs) 0 step_answer arrivals ((rpc_Call ^^ stubs) AsyncRpcQueue_new) (0, replicate stubs 0) =
      ([], ((rpc_Call ^^ stubs) AsyncRpcQueue_new)\<lparr>rq_size := (if arrivals = [] then rq_size ((rpc_Call ^^ stubs) AsyncRpcQueue_new)
         else wrap32 (rq_size ((rpc_Call ^^ stubs) AsyncRpcQueue_new) - int (length arrivals)))\<rparr>,
       fold step_answer arrivals (0, replicate stubs 0))"
    using calls_size [of stubs] assms by (intro rpc_Complete_all) auto
  then show ?thesis
    unfolding async_GetGlobalStep_def
    by (cases "fold step_answer arrivals (0, replicate stubs 0)") (simp only: Let_def split_conv fold_flag set_upt)
qed

lemma length_step_answers: "length (snd (fold step_answer as (ret, ss))) = length ss"
proof (induction as arbitrary: ret ss)
  case (Cons a as)
  show ?case using Cons [of "fst (step_answer a (ret, ss))" "snd (step_answer a (ret, ss))"]
    by (simp add: step_answer_def case_prod_beta split: if_splits)
qed simp

text \<open>The client agrees on a global step only when all servers do: with one answer from each
  server, in any order, \<open>GetGlobalStep\<close> returns 0 and the step \<open>g\<close> exactly when every answer is OK
  and carries \<open>g\<close>.\<close>

theorem global_step_is_common:
  assumes "mset (map fst arrivals) = mset [0..<stubs]" and "0 < stubs"
  shows "async_GetGlobalStep stubs arrivals = (0, Some g) \<longleftrightarrow> (\<forall>(i, status, step)\<in>set arrivals. status = 0 \<and> step = g)"
proof -
  have len: "length arrivals = stubs" using arg_cong [OF assms(1), of size] by simp
  have dist: "distinct (map fst arrivals)" using mset_eq_imp_distinct_iff [OF assms(1)] by simp
  have ids: "fst ` set arrivals = {0..<stubs}" using mset_eq_setD [OF assms(1)] by simp
  obtain ret steps where F: "fold step_answer arrivals (0, replicate stubs 0) = (ret, steps)" by fastforce
  note R = GetGlobalStep_run [OF len, unfolded F]
  show ?thesis
  proof (cases "\<forall>(i, status, step)\<in>set arrivals. status = 0")
    case True
    from step_answers_ok [OF True, of 0 "replicate stubs 0"] dist
    have ok: "ret = 0" "\<forall>(i, status, step)\<in>set arrivals. i < stubs \<longrightarrow> steps ! i = step" by (auto simp: F)
    have at: "steps ! i = step" if "(i, status, step) \<in> set arrivals" for i status step
      using ok(2) that ids by force
    have "(\<forall>(i, status, step)\<in>set arrivals. status = 0 \<and> step = g) \<longleftrightarrow> (\<forall>i < stubs. steps ! i = g)"
    proof
      assume *: "\<forall>(i, status, step)\<in>set arrivals. status = 0 \<and> step = g"
      show "\<forall>i < stubs. steps ! i = g"
      proof (intro allI impI)
        fix i assume "i < stubs"
        then have "i \<in> fst ` set arrivals" using ids by simp
        then obtain status step where "(i, status, step) \<in> set arrivals" by force
        with at * show "steps ! i = g" by blast
      qed
    next
      assume *: "\<forall>i < stubs. steps ! i = g"
      show "\<forall>(i, status, step)\<in>set arrivals. status = 0 \<and> step = g"
      proof clarify
        fix i status step assume m: "(i, status, step) \<in> set arrivals"
        then have "i < stubs" using ids by force
        with at [OF m] * True m show "status = 0 \<and> step = g" by auto
      qed
    qed
    also have "\<dots> \<longleftrightarrow> steps ! 0 = g \<and> (\<forall>i\<in>{1..<stubs}. steps ! i = steps ! 0)"
      using assms(2) by (metis One_nat_def Suc_leI atLeastLessThan_iff neq0_conv not_less_eq_eq)
    finally show ?thesis using ok(1) by (auto simp: R)
  next
    case False
    then have "ret \<noteq> 0" using step_answers_error [of arrivals 0 "replicate stubs 0"] by (auto simp: F)
    with False show ?thesis by (fastforce simp: R)
  qed
qed

theorem global_step_is_common_witness:
  "async_GetGlobalStep 2 [(1, 0, 9), (0, 0, 9)] = (0, Some 9)"
  using global_step_is_common [of "[(1, 0, 9), (0, 0, 9)]" 2 9] by (simp add: upt_rec add_mset_commute)


subsection \<open>The connections\<close>

text \<open>
  \<open>ac_avail\<close> is the stack, top first; \<open>ac_rpcs\<close> the outstanding requests, each with its stub and
  its callback; \<open>ac_parked\<close> the stubs of the detached threads of \<open>DisableStub\<close>; \<open>ac_done\<close> the
  callbacks that have run, with their results; \<open>ac_calls\<close> numbers the callbacks.
\<close>

record ('s, 'f) AsyncClient =
  ac_config :: DistConfig
  ac_addrs :: "string list"
  ac_stubs :: "'s list"
  ac_avail :: "nat list"
  ac_buckets :: "LeakyBucket list"
  ac_queue :: AsyncRpcQueue
  ac_rpcs :: "(nat \<times> nat) list"
  ac_parked :: "nat list"
  ac_done :: "(nat \<times> int \<times> 'f list list \<times> 'f list) list"
  ac_calls :: nat

text \<open>The constructor insists on at least one address.\<close>

definition AsyncClient_new :: "(string \<Rightarrow> 's) \<Rightarrow> int \<Rightarrow> string list \<Rightarrow> DistConfig \<Rightarrow> ('s, 'f) AsyncClient option" where
  "AsyncClient_new new_stub now addrs config =
     (if addrs = [] then None
      else Some \<lparr>ac_config = config, ac_addrs = addrs, ac_stubs = map new_stub addrs,
        ac_avail = fold Cons [0..<length addrs] [],
        ac_buckets = map (\<lambda>_. LeakyBucket_new now (leaky_bucket_size config) (leaky_bucket_refill_period_ms config)) addrs,
        ac_queue = AsyncRpcQueue_new, ac_rpcs = [], ac_parked = [], ac_done = [], ac_calls = 0\<rparr>)"

definition GetStub :: "('s, 'f) AsyncClient \<Rightarrow> (nat \<times> ('s, 'f) AsyncClient) option" where
  "GetStub c = (case ac_avail c of [] \<Rightarrow> None | s # rest \<Rightarrow> Some (s, c\<lparr>ac_avail := rest\<rparr>))"

definition ReleaseStub :: "nat \<Rightarrow> ('s, 'f) AsyncClient \<Rightarrow> ('s, 'f) AsyncClient" where
  "ReleaseStub stub_id c = c\<lparr>ac_avail := stub_id # ac_avail c\<rparr>"

definition DisableStub :: "nat \<Rightarrow> ('s, 'f) AsyncClient \<Rightarrow> ('s, 'f) AsyncClient" where
  "DisableStub stub_id c = c\<lparr>ac_parked := ac_parked c @ [stub_id]\<rparr>"

text \<open>The end of the thread \<open>DisableStub\<close> starts.\<close>

definition reenable :: "nat \<Rightarrow> int \<Rightarrow> ('s, 'f) AsyncClient \<Rightarrow> ('s, 'f) AsyncClient" where
  "reenable k wake c =
     (let s = ac_parked c ! k;
          c1 = c\<lparr>ac_parked := take k (ac_parked c) @ drop (Suc k) (ac_parked c),
                 ac_buckets := (ac_buckets c)[s := WaitRefill wake (ac_buckets c ! s)]\<rparr>
      in ReleaseStub s c1)"

definition run_callback :: "nat \<Rightarrow> int \<Rightarrow> 'f list list \<Rightarrow> 'f list \<Rightarrow> ('s, 'f) AsyncClient \<Rightarrow> ('s, 'f) AsyncClient" where
  "run_callback cb ret policy val c = c\<lparr>ac_done := ac_done c @ [(cb, ret, policy, val)]\<rparr>"

text \<open>\<open>Forward\<close> with a new callback; \<open>None\<close> while no stub is available.\<close>

definition async_Forward :: "bool list list \<Rightarrow> ('s, 'f) AsyncClient \<Rightarrow> ('s, 'f) AsyncClient option" where
  "async_Forward inputs c0 =
     (let cb = ac_calls c0; c = c0\<lparr>ac_calls := Suc cb\<rparr>
      in case GetStub c of None \<Rightarrow> None
         | Some (stub_id, c1) \<Rightarrow>
             (case forward_request inputs of
                None \<Rightarrow> Some (run_callback cb ERR_INVALID_INPUT [] [] c1)
              | Some req \<Rightarrow> Some (c1\<lparr>ac_queue := rpc_Call (ac_queue c1), ac_rpcs := ac_rpcs c1 @ [(stub_id, cb)]\<rparr>)))"

text \<open>The callback of the RPC: the \<open>k\<close>-th outstanding request is answered.\<close>

definition async_answer ::
    "(string \<Rightarrow> 's) \<Rightarrow> int \<Rightarrow> nat \<Rightarrow> int \<Rightarrow> ('f list \<times> 'f) list \<Rightarrow> ('s, 'f) AsyncClient \<Rightarrow> ('s, 'f) AsyncClient" where
  "async_answer new_stub now k status0 outputs c =
     (let (stub_id, cb) = ac_rpcs c ! k;
          c1 = c\<lparr>ac_rpcs := take k (ac_rpcs c) @ drop (Suc k) (ac_rpcs c),
                 ac_queue := (ac_queue c)\<lparr>rq_size := wrap32 (rq_size (ac_queue c) - 1)\<rparr>\<rparr>;
          status = (if status0 = 0 \<and> outputs = [] then ERR_EMPTY_RESP else status0);
          c2 = (if status \<noteq> 0 then c1\<lparr>ac_stubs := (ac_stubs c1)[stub_id := new_stub (ac_addrs c1 ! stub_id)]\<rparr> else c1);
          c3 = (if status \<noteq> 0 \<and> enable_leaky_bucket (ac_config c2)
                then c2\<lparr>ac_buckets := (ac_buckets c2)[stub_id := ConsumeToken now (ac_buckets c2 ! stub_id)]\<rparr> else c2);
          release_now = (if status \<noteq> 0 \<and> enable_leaky_bucket (ac_config c2)
                         then \<not> Bucket_Empty (ac_buckets c3 ! stub_id) else True);
          c4 = (if release_now then ReleaseStub stub_id c3 else DisableStub stub_id c3)
      in if status = 0 then run_callback cb 0 (map fst outputs) (map snd outputs) c4
         else if status = DEADLINE_EXCEEDED then run_callback cb ERR_FORWARD_TIMEOUT [] [] c4
         else run_callback cb status [] [] c4)"

definition async_Wait_ready :: "('s, 'f) AsyncClient \<Rightarrow> bool" where
  "async_Wait_ready c \<longleftrightarrow> ac_avail c \<noteq> []"

text \<open>The destructor waits for this.\<close>

definition all_released :: "('s, 'f) AsyncClient \<Rightarrow> bool" where
  "all_released c \<longleftrightarrow> length (ac_avail c) = length (ac_stubs c)"

inductive client_step :: "(bool list list \<Rightarrow> bool) \<Rightarrow> (string \<Rightarrow> 's) \<Rightarrow> ('s, 'f) AsyncClient \<Rightarrow> ('s, 'f) AsyncClient \<Rightarrow> bool"
  for ok new_stub where
  forward: "ok inputs \<Longrightarrow> async_Forward inputs c = Some c' \<Longrightarrow> client_step ok new_stub c c'"
| answer: "k < length (ac_rpcs c) \<Longrightarrow> client_step ok new_stub c (async_answer new_stub now k status outputs c)"
| refill: "k < length (ac_parked c) \<Longrightarrow> client_step ok new_stub c (reenable k wake c)"

inductive client_reach :: "(bool list list \<Rightarrow> bool) \<Rightarrow> (string \<Rightarrow> 's) \<Rightarrow> ('s, 'f) AsyncClient \<Rightarrow> ('s, 'f) AsyncClient \<Rightarrow> bool"
  for ok new_stub c0 where
  start: "client_reach ok new_stub c0 c0"
| step: "client_reach ok new_stub c0 c \<Longrightarrow> client_step ok new_stub c c' \<Longrightarrow> client_reach ok new_stub c0 c'"

definition well_formed :: "bool list list \<Rightarrow> bool" where
  "well_formed inputs \<longleftrightarrow> (\<forall>f\<in>set inputs. length f = INPUT_DIM)"

lemma mset_remove_nth: "k < length xs \<Longrightarrow> mset xs = add_mset (xs ! k) (mset (take k xs @ drop (Suc k) xs))"
  by (subst id_take_nth_drop [of k xs]) simp_all

definition client_inv :: "nat \<Rightarrow> ('s, 'f) AsyncClient \<Rightarrow> bool" where
  "client_inv n c \<longleftrightarrow> length (ac_stubs c) = n \<and>
     mset (ac_avail c) + mset (map fst (ac_rpcs c)) + mset (ac_parked c) = mset [0..<n] \<and>
     mset (map fst (ac_done c)) + mset (map snd (ac_rpcs c)) = mset [0..<ac_calls c]"

lemma client_inv_forward:
  assumes inv: "client_inv n c" and ok: "well_formed inputs" and f: "async_Forward inputs c = Some c'"
  shows "client_inv n c'"
proof -
  obtain s rest where av: "ac_avail c = s # rest" using f
    by (cases "ac_avail c") (auto simp: async_Forward_def GetStub_def Let_def)
  have "forward_request inputs = Some (map encode_features inputs)"
    using ok forward_request_ok by (simp add: well_formed_def)
  with f av have "c' = c\<lparr>ac_calls := Suc (ac_calls c), ac_avail := rest, ac_queue := rpc_Call (ac_queue c),
      ac_rpcs := ac_rpcs c @ [(s, ac_calls c)]\<rparr>"
    by (simp add: async_Forward_def GetStub_def Let_def)
  with inv av show ?thesis by (simp add: client_inv_def)
qed

lemma client_inv_answer:
  assumes inv: "client_inv n c" and k: "k < length (ac_rpcs c)"
  shows "client_inv n (async_answer new_stub now k status outputs c)"
proof -
  obtain s cb where sc: "ac_rpcs c ! k = (s, cb)" by fastforce
  let ?r = "take k (ac_rpcs c) @ drop (Suc k) (ac_rpcs c)" and ?c = "async_answer new_stub now k status outputs c"
  from mset_remove_nth [OF k] sc have m: "mset (ac_rpcs c) = add_mset (s, cb) (mset ?r)" by simp
  have "mset (map fst (ac_rpcs c)) = add_mset s (mset (map fst ?r))" "mset (map snd (ac_rpcs c)) = add_mset cb (mset (map snd ?r))"
    using m by (simp_all only: mset_map image_mset_add_mset fst_conv snd_conv)
  moreover have "ac_rpcs ?c = ?r" "length (ac_stubs ?c) = length (ac_stubs c)" "ac_calls ?c = ac_calls c"
    "mset (map fst (ac_done ?c)) = add_mset cb (mset (map fst (ac_done c)))"
    "mset (ac_avail ?c) + mset (ac_parked ?c) = add_mset s (mset (ac_avail c) + mset (ac_parked c))"
    by (simp_all add: async_answer_def sc Let_def run_callback_def ReleaseStub_def DisableStub_def)
  ultimately show ?thesis using inv by (simp add: client_inv_def ac_simps)
qed

lemma client_inv_refill:
  assumes inv: "client_inv n c" and k: "k < length (ac_parked c)"
  shows "client_inv n (reenable k wake c)"
  using inv mset_remove_nth [OF k]
  by (simp add: client_inv_def reenable_def ReleaseStub_def Let_def del: mset_append)


definition one_server :: DistConfig where
  "one_server = \<lparr>timeout_ms = 0, enable_leaky_bucket = True, leaky_bucket_size = 1, leaky_bucket_refill_period_ms = 1\<rparr>"


text \<open>A request of the wrong size loses its connection: it is answered with the error, but
  the stub it took is not given back, so with one server the client is stuck after it, no
  request ever being accepted and the destructor waiting for ever.\<close>

theorem invalid_input_loses_stub:
  assumes "AsyncClient_new new_stub now [addr] config = Some c0" and "length f \<noteq> INPUT_DIM"
  shows "\<exists>c. async_Forward [f] c0 = Some c \<and> ac_done c = [(0, ERR_INVALID_INPUT, [], [])] \<and>
    (\<forall>c'. client_reach (\<lambda>_. True) new_stub c c' \<longrightarrow> c' = c) \<and> \<not> all_released c \<and> \<not> async_Wait_ready c"
proof -
  let ?c = "c0\<lparr>ac_calls := 1, ac_avail := [], ac_done := [(0, ERR_INVALID_INPUT, [], [])]\<rparr>"
  have c0: "ac_avail c0 = [0]" "ac_calls c0 = 0" "ac_done c0 = []" "length (ac_stubs c0) = 1"
      "ac_rpcs c0 = []" "ac_parked c0 = []"
    using assms(1) by (auto simp: AsyncClient_new_def)
  then have f: "async_Forward [f] c0 = Some ?c"
    using assms(2) by (simp add: async_Forward_def GetStub_def Let_def run_callback_def)
  have "c' = ?c" if "client_reach (\<lambda>_. True) new_stub ?c c'" for c'
    using that
  proof induction
    case (step c c')
    then show ?case using c0 by (auto simp: async_Forward_def GetStub_def Let_def elim!: client_step.cases)
  qed simp
  with f c0 show ?thesis by (intro exI [of _ ?c]) (simp add: all_released_def async_Wait_ready_def)
qed

theorem invalid_input_loses_stub_witness:
  "\<exists>c :: (unit, int) AsyncClient. \<not> all_released c \<and> \<not> async_Wait_ready c"
proof -
  have "AsyncClient_new (\<lambda>_. ()) 0 [''a''] one_server \<noteq> (None :: (unit, int) AsyncClient option)"
    by (simp add: AsyncClient_new_def)
  then obtain c0 :: "(unit, int) AsyncClient" where c0: "AsyncClient_new (\<lambda>_. ()) 0 [''a''] one_server = Some c0"
    by auto
  have "length [True] \<noteq> INPUT_DIM" by (simp add: INPUT_DIM_def)
  from invalid_input_loses_stub [OF c0 this] show ?thesis by blast
qed

end
