(* ===== verification/Mcts_Config.thy ===== *)
theory Mcts_Config
  imports Main
begin

text \<open>
  The configuration of mcts_config.proto, with the fields that mcts_engine.cc and mcts_main.cc
  read. Floats are of type \<open>'f\<close>.
\<close>

record 'f EarlyStopConfig =
  es_enable :: bool
  check_every_ms :: int
  sims_factor :: 'f
  sims_threshold :: int

record 'f UnstableOvertimeConfig =
  uo_enable :: bool
  uo_time_factor :: 'f

record 'f BehindOvertimeConfig =
  bo_enable :: bool
  act_threshold :: 'f
  bo_time_factor :: 'f

record 'f TimeControlConfig =
  tc_enable :: bool
  main_time :: 'f
  tc_byo_yomi_time :: 'f
  c_denom :: int
  c_maxply :: int
  reserved_time :: 'f
  min_time :: 'f
  byo_yomi_after :: int

record 'f MCTSConfig =
  num_search_threads :: nat
  max_search_tree_size :: int
  max_children_per_node :: int
  timeout_ms_per_step :: int
  max_simulations_per_step :: int
  genmove_temperature :: 'f
  c_puct :: 'f
  virtual_loss :: 'f
  virtual_loss_mode :: int
  enable_resign :: bool
  v_resign_threshold :: 'f
  resign_mode :: int
  enable_dirichlet_noise :: bool
  dirichlet_noise_ratio :: 'f
  get_best_move_mode :: int
  enable_background_search :: bool
  enable_policy_temperature :: bool
  policy_temperature :: 'f
  disable_transform :: bool
  disable_pass :: bool
  default_act :: 'f
  inherit_default_act :: bool
  inherit_default_act_factor :: 'f
  clear_search_tree_per_move :: bool
  enable_async :: bool
  disable_double_pass_scoring :: bool
  disable_positional_superko :: bool
  max_gen_passes :: int
  enable_pass_pass :: bool
  early_stop :: "'f EarlyStopConfig"
  unstable_overtime :: "'f UnstableOvertimeConfig"
  behind_overtime :: "'f BehindOvertimeConfig"
  time_control :: "'f TimeControlConfig"

text \<open>The default of proto3: every field is zero. \<open>z\<close> is the float 0.\<close>

definition default_config :: "'f \<Rightarrow> 'f MCTSConfig" where
  "default_config z = \<lparr>num_search_threads = 0, max_search_tree_size = 0, max_children_per_node = 0,
     timeout_ms_per_step = 0, max_simulations_per_step = 0, genmove_temperature = z, c_puct = z, virtual_loss = z,
     virtual_loss_mode = 0, enable_resign = False, v_resign_threshold = z, resign_mode = 0,
     enable_dirichlet_noise = False, dirichlet_noise_ratio = z, get_best_move_mode = 0,
     enable_background_search = False, enable_policy_temperature = False, policy_temperature = z,
     disable_transform = False, disable_pass = False, default_act = z, inherit_default_act = False,
     inherit_default_act_factor = z, clear_search_tree_per_move = False, enable_async = False,
     disable_double_pass_scoring = False, disable_positional_superko = False, max_gen_passes = 0,
     enable_pass_pass = False,
     early_stop = \<lparr>es_enable = False, check_every_ms = 0, sims_factor = z, sims_threshold = 0\<rparr>,
     unstable_overtime = \<lparr>uo_enable = False, uo_time_factor = z\<rparr>,
     behind_overtime = \<lparr>bo_enable = False, act_threshold = z, bo_time_factor = z\<rparr>,
     time_control = \<lparr>tc_enable = False, main_time = z, tc_byo_yomi_time = z, c_denom = 0, c_maxply = 0,
       reserved_time = z, min_time = z, byo_yomi_after = 0\<rparr>\<rparr>"

end
