(* ===== verification/Mcts_Tree.thy ===== *)
theory Mcts_Tree
  imports Cpp_Float Go_Game Mcts_Config
begin

text \<open>
  The search tree of mcts_engine.cc: nodes in an explicit store, linked by addresses, the
  children of a node contiguous. \<open>new\<close> takes fresh addresses, \<open>delete\<close> removes them from
  \<open>h_live\<close>; deleting what is not live, undefined in C++, is \<open>None\<close>. The counters are 32-bit, the action sums 64-bit, and wrap. Floats are of type
  \<open>'f\<close>, computed by the arithmetic that is an argument.
\<close>

type_synonym addr = nat

definition nullptr :: addr where [simp]: "nullptr = 0"
definition k_action_value_base :: int where [simp]: "k_action_value_base = 2 ^ 16"
definition k_unexpanded :: int where [simp]: "k_unexpanded = 0"
definition k_expanding :: int where [simp]: "k_expanding = 1"
definition k_expanded :: int where [simp]: "k_expanded = 2"

record 'f TreeNode =
  fa :: addr
  ch :: addr
  ch_len :: int
  node_size :: int
  expand_state :: int
  node_move :: GoCoordId
  visit_count :: int
  virtual_loss_count :: int
  total_action :: int
  prior_prob :: 'f
  node_value :: 'f

record 'f heap =
  h_node :: "addr \<Rightarrow> 'f TreeNode"
  h_live :: "addr set"
  h_next :: addr

subsection \<open>Nodes\<close>

definition kids :: "'f heap \<Rightarrow> addr \<Rightarrow> addr list" where
  "kids h n = map (\<lambda>i. ch (h_node h n) + i) [0..<nat (ch_len (h_node h n))]"

definition upd :: "addr \<Rightarrow> ('f TreeNode \<Rightarrow> 'f TreeNode) \<Rightarrow> 'f heap \<Rightarrow> 'f heap" where
  "upd n f h = h\<lparr>h_node := (h_node h)(n := f (h_node h n))\<rparr>"

definition fresh_node :: "'f arith \<Rightarrow> addr \<Rightarrow> GoCoordId \<Rightarrow> 'f \<Rightarrow> 'f TreeNode" where
  "fresh_node A f m p = \<lparr>fa = f, ch = nullptr, ch_len = 0, node_size = 1, expand_state = k_unexpanded, node_move = m,
     visit_count = 0, virtual_loss_count = 0, total_action = 0, prior_prob = p, node_value = f_nan A\<rparr>"

definition InitNode :: "'f arith \<Rightarrow> addr \<Rightarrow> addr \<Rightarrow> GoCoordId \<Rightarrow> 'f \<Rightarrow> 'f heap \<Rightarrow> 'f heap" where
  "InitNode A n f m p h = upd n (\<lambda>_. fresh_node A f m p) h"

text \<open>\<open>new TreeNode[n]\<close>.\<close>

definition new_nodes :: "nat \<Rightarrow> 'f heap \<Rightarrow> addr \<times> 'f heap" where
  "new_nodes n h = (h_next h, h\<lparr>h_live := h_live h \<union> {h_next h..<h_next h + n}, h_next := h_next h + n\<rparr>)"

definition delete_nodes :: "addr list \<Rightarrow> 'f heap \<Rightarrow> 'f heap option" where
  "delete_nodes ns h = (if set ns \<subseteq> h_live h then Some (h\<lparr>h_live := h_live h - set ns\<rparr>) else None)"

text \<open>The null pointer when there is no such child.\<close>

definition FindChild :: "'f heap \<Rightarrow> addr \<Rightarrow> GoCoordId \<Rightarrow> addr" where
  "FindChild h n m = (case List.find (\<lambda>c. node_move (h_node h c) = m) (kids h n) of None \<Rightarrow> nullptr | Some c \<Rightarrow> c)"

subsection \<open>Selection\<close>

definition bit_clear :: "int \<Rightarrow> int \<Rightarrow> bool" where
  "bit_clear m b \<longleftrightarrow> m AND b = 0"

text \<open>The virtual loss and the action sum of a child as floats.\<close>

definition child_loss :: "'f arith \<Rightarrow> 'f MCTSConfig \<Rightarrow> 'f TreeNode \<Rightarrow> 'f" where
  "child_loss A c x = f_mul A (f_of_int A (virtual_loss_count x)) (virtual_loss c)"

definition child_action :: "'f arith \<Rightarrow> 'f TreeNode \<Rightarrow> 'f" where
  "child_action A x = f_div A (f_of_int A (total_action x)) (f_of_int A k_action_value_base)"

definition sqrt_visits :: "'f arith \<Rightarrow> 'f MCTSConfig \<Rightarrow> 'f TreeNode list \<Rightarrow> 'f" where
  "sqrt_visits A c xs =
     (let sigma0 = f_of_int A (fold (\<lambda>x s. s + visit_count x) xs 0);
          sigma = (if bit_clear (virtual_loss_mode c) 1
                   then f_add A sigma0 (accumulate A (map (child_loss A c) xs) (f_lit A 0)) else sigma0)
      in f_max A (f_sqrt A sigma) (f_lit A 1))"

definition default_action :: "'f arith \<Rightarrow> 'f MCTSConfig \<Rightarrow> 'f TreeNode \<Rightarrow> 'f" where
  "default_action A c x =
     (if inherit_default_act c \<and> visit_count x \<noteq> 0 then
        let d = f_div A (f_div A (f_neg A (f_of_int A (total_action x))) (f_of_int A k_action_value_base))
                  (f_of_int A (visit_count x))
        in if f_gt A (inherit_default_act_factor c) (f_lit A 0) then f_mul A d (inherit_default_act_factor c) else d
      else default_act c)"

definition child_score :: "'f arith \<Rightarrow> 'f MCTSConfig \<Rightarrow> 'f \<Rightarrow> 'f \<Rightarrow> 'f TreeNode \<Rightarrow> 'f" where
  "child_score A c d sq x =
     (let n = visit_count x; l = child_loss A c x; w = child_action A x;
          act = (if n = 0 \<and> f_eq A l (f_lit A 0) then d
                 else if bit_clear (virtual_loss_mode c) 2 then f_div A (f_sub A w l) (f_add A (f_of_int A n) l)
                 else f_div A w (f_of_int A n));
          pq = f_mul A (f_mul A (c_puct c) (prior_prob x)) sq;
          ucb = (if bit_clear (virtual_loss_mode c) 1 then f_div A pq (f_add A (f_of_int A (1 + n)) l)
                 else f_div A pq (f_of_int A (1 + n)))
      in f_add A act ucb)"

text \<open>The best child so far and its score.\<close>

definition better :: "'f arith \<Rightarrow> (addr \<Rightarrow> 'f) \<Rightarrow> addr \<Rightarrow> addr option \<Rightarrow> addr option" where
  "better A score x best = (case best of None \<Rightarrow> Some x | Some b \<Rightarrow> if f_gt A (score x) (score b) then Some x else best)"

text \<open>No child is a failed check, more than 362 overflow the arrays (\<open>None\<close>).\<close>

definition SelectChild :: "'f arith \<Rightarrow> 'f MCTSConfig \<Rightarrow> 'f heap \<Rightarrow> addr \<Rightarrow> addr option" where
  "SelectChild A c h n =
     (let cs = kids h n; xs = map (h_node h) cs
      in if ch_len (h_node h n) > 0 \<and> length cs \<le> 362
         then fold (better A (\<lambda>x. child_score A c (default_action A c (h_node h n)) (sqrt_visits A c xs) (h_node h x))) cs None
         else None)"

definition add_virtual_loss :: "addr \<Rightarrow> 'f heap \<Rightarrow> 'f heap" where
  "add_virtual_loss n h = upd n (\<lambda>x. x\<lparr>virtual_loss_count := wrap32 (virtual_loss_count x + 1)\<rparr>) h"

text \<open>The loop of \<open>Select\<close>; a move the board refuses is a failed check.\<close>

partial_function (option) select_loop :: "'f arith \<Rightarrow> 'f MCTSConfig \<Rightarrow> zobrist \<Rightarrow> addr \<Rightarrow> GoState \<Rightarrow> 'f heap \<Rightarrow>
    (addr \<times> GoState \<times> 'f heap) option" where
  "select_loop A c Z n b h =
     (if expand_state (h_node h n) = k_expanded then
        Option.bind (SelectChild A c h n) (\<lambda>n'.
        Option.bind (Move Z (node_move (h_node h n')) b) (\<lambda>(r, b').
        if r = 0 then select_loop A c Z n' b' (add_virtual_loss n' h) else None))
      else Some (n, b, h))"

definition Select :: "'f arith \<Rightarrow> 'f MCTSConfig \<Rightarrow> zobrist \<Rightarrow> addr \<Rightarrow> GoState \<Rightarrow> 'f heap \<Rightarrow> (addr \<times> GoState \<times> 'f heap) option" where
  "Select A c Z rt b h = select_loop A c Z rt b (add_virtual_loss rt h)"

subsection \<open>Expansion\<close>

text \<open>
  The moves: the legal points in order, then 361 for pass; \<open>policy_at\<close> reads the policy vector,
  whose size the caller has checked. \<open>nth_element\<close> is the standard algorithm: it may permute
  the moves so that the first ones have the largest probabilities.
\<close>

definition legal_moves :: "GoState \<Rightarrow> nat list" where
  "legal_moves b = filter (\<lambda>i. legal_move_map b (int i)) [0..<361]"

definition expand_moves :: "'f MCTSConfig \<Rightarrow> (nat \<Rightarrow> 'f list \<Rightarrow> nat list \<Rightarrow> nat list) \<Rightarrow> 'f list \<Rightarrow> GoState \<Rightarrow> nat list" where
  "expand_moves c nth_element policy b =
     (let moves = legal_moves b @ [361]; m = max_children_per_node c
      in if m > 0 \<and> int (length moves) > m then take (nat m) (nth_element (nat m) policy moves) else moves)"

definition policy_sum :: "'f arith \<Rightarrow> 'f list \<Rightarrow> GoState \<Rightarrow> 'f" where
  "policy_sum A policy b =
     f_add A (accumulate A (map (\<lambda>i. policy ! i) (legal_moves b)) (f_lit A 0)) (last policy)"

definition move_id :: "nat \<Rightarrow> GoCoordId" where
  "move_id m = (if m = 361 then COORD_PASS else int m)"

definition init_children :: "'f arith \<Rightarrow> addr \<Rightarrow> addr \<Rightarrow> 'f list \<Rightarrow> 'f \<Rightarrow> nat list \<Rightarrow> 'f heap \<Rightarrow> 'f heap" where
  "init_children A n base policy s ms h =
     fold (\<lambda>i. InitNode A (base + i) n (move_id (ms ! i)) (f_div A (policy ! (ms ! i)) s)) [0..<length ms] h"

definition Expand :: "'f arith \<Rightarrow> 'f MCTSConfig \<Rightarrow> (nat \<Rightarrow> 'f list \<Rightarrow> nat list \<Rightarrow> nat list) \<Rightarrow> addr \<Rightarrow> GoState \<Rightarrow> 'f list \<Rightarrow>
    'f heap \<Rightarrow> int \<times> 'f heap" where
  "Expand A c nth_element n b policy h =
     (if \<not> disable_double_pass_scoring c \<and> is_double_pass b
      then (0, upd n (\<lambda>x. x\<lparr>expand_state := k_unexpanded\<rparr>) h)
      else let ms = expand_moves c nth_element policy b;
               (base, h1) = new_nodes (length ms) h;
               h2 = init_children A n base policy (policy_sum A policy b) ms h1
           in (int (length ms), upd n (\<lambda>x. x\<lparr>ch := base, ch_len := int (length ms), expand_state := k_expanded\<rparr>) h2))"

subsection \<open>Backup\<close>

definition backup_node :: "int \<Rightarrow> int \<Rightarrow> 'f TreeNode \<Rightarrow> 'f TreeNode" where
  "backup_node len v x = x\<lparr>node_size := wrap32 (node_size x + len), visit_count := wrap32 (visit_count x + 1),
     virtual_loss_count := wrap32 (virtual_loss_count x - 1), total_action := wrap64 (total_action x + v)\<rparr>"

partial_function (option) backup_loop :: "int \<Rightarrow> addr \<Rightarrow> int \<Rightarrow> 'f heap \<Rightarrow> 'f heap option" where
  "backup_loop len n v h =
     (if n \<noteq> nullptr then backup_loop len (fa (h_node h n)) (wrap64 (- v)) (upd n (backup_node len v) h) else Some h)"

definition Backup :: "'f arith \<Rightarrow> addr \<Rightarrow> 'f \<Rightarrow> int \<Rightarrow> 'f heap \<Rightarrow> 'f heap option" where
  "Backup A n value_f len h =
     backup_loop len n (f_scale A k_action_value_base value_f) (upd n (\<lambda>x. x\<lparr>node_value := value_f\<rparr>) h)"

definition remove_virtual_loss :: "'f TreeNode \<Rightarrow> 'f TreeNode" where
  "remove_virtual_loss x = x\<lparr>virtual_loss_count := wrap32 (virtual_loss_count x - 1)\<rparr>"

partial_function (option) UndoVirtualLoss :: "addr \<Rightarrow> 'f heap \<Rightarrow> 'f heap option" where
  "UndoVirtualLoss n h =
     (if n \<noteq> nullptr then UndoVirtualLoss (fa (h_node h n)) (upd n remove_virtual_loss h) else Some h)"

subsection \<open>Changing the root, deleting trees\<close>

text \<open>The old root (null at first) goes to the delete queue, the list \<open>dq\<close>.\<close>

definition ChangeRoot :: "'f arith \<Rightarrow> addr \<Rightarrow> addr \<Rightarrow> addr list \<Rightarrow> 'f heap \<Rightarrow> addr \<times> addr list \<times> 'f heap" where
  "ChangeRoot A n m_root dq h =
     (let (rt, h1) = new_nodes 1 h;
          h2 = (if n \<noteq> nullptr then
                  let x = h_node h1 n;
                      ha = upd rt (\<lambda>_. x\<lparr>fa := nullptr\<rparr>) h1;
                      hb = fold (\<lambda>k. upd k (\<lambda>y. y\<lparr>fa := rt\<rparr>)) (kids ha n) ha
                  in upd n (\<lambda>y. y\<lparr>ch := nullptr, ch_len := 0\<rparr>) hb
                else InitNode A rt nullptr (- 1) (f_lit A 0) h1)
      in (rt, if m_root \<noteq> nullptr then dq @ [m_root] else dq, h2))"

text \<open>
  \<open>DeleteTree\<close> returns how many nodes it deletes, all below \<open>n\<close>. \<open>delete_trees\<close> is its loop over
  the children: for each of \<open>ns\<close>, the sizes of the subtrees of its children are added up and
  the array of the children is deleted.
\<close>

partial_function (option) delete_trees :: "addr list \<Rightarrow> 'f heap \<Rightarrow> (int \<times> 'f heap) option" where
  "delete_trees ns h =
     (case ns of [] \<Rightarrow> Some (0, h)
      | n # ns' \<Rightarrow>
          Option.bind (delete_trees (kids h n) h) (\<lambda>(s, h1).
          Option.bind (delete_nodes (kids h n) h1) (\<lambda>h2.
          Option.bind (delete_trees ns' h2) (\<lambda>(t, h3).
          Some (ch_len (h_node h n) + s + t, h3)))))"

definition DeleteTree :: "addr \<Rightarrow> 'f heap \<Rightarrow> (int \<times> 'f heap) option" where
  "DeleteTree n h = delete_trees [n] h"

text \<open>One round of \<open>DeleteRoutine\<close>: the tree, then the node.\<close>

definition delete_round :: "addr \<Rightarrow> 'f heap \<Rightarrow> (int \<times> 'f heap) option" where
  "delete_round n h = Option.bind (DeleteTree n h) (\<lambda>(s, h1). map_option (\<lambda>h2. (s + 1, h2)) (delete_nodes [n] h1))"

definition GetVisitCount :: "'f heap \<Rightarrow> addr \<Rightarrow> int list" where
  "GetVisitCount h n =
     fold (\<lambda>c v. v[(if node_move (h_node h c) = COORD_PASS then 361 else nat (node_move (h_node h c))) := visit_count (h_node h c)])
       (kids h n) (replicate 362 0)"

end
