(* ===== verification/Mcts_Walk.thy ===== *)
theory Mcts_Walk
  imports Mcts_Tree
begin

text \<open>
  Walks in the search tree. \<open>tree_ok h r T d\<close>: from the root \<open>r\<close> the nodes \<open>T\<close> form a tree, with
  depth \<open>d\<close>, whose parent pointers are right. \<open>seg h n p\<close>: the list \<open>p\<close> goes down from \<open>n\<close>.
  \<open>Select\<close> walks down and marks the way, \<open>UndoVirtualLoss\<close> and \<open>Backup\<close> walk the same way up.
\<close>

abbreviation mv :: "'f heap \<Rightarrow> addr \<Rightarrow> GoCoordId" where
  "mv h a \<equiv> node_move (h_node h a)"

definition tree_ok :: "'f heap \<Rightarrow> addr \<Rightarrow> addr set \<Rightarrow> (addr \<Rightarrow> nat) \<Rightarrow> bool" where
  "tree_ok h r T d \<longleftrightarrow> finite T \<and> r \<in> T \<and> 0 \<notin> T \<and> T \<subseteq> h_live h \<and> (\<forall>a\<in>h_live h. a < h_next h) \<and> 0 < h_next h \<and>
     fa (h_node h r) = 0 \<and> d r = 0 \<and>
     (\<forall>n\<in>T. \<forall>c\<in>set (kids h n). c \<in> T \<and> fa (h_node h c) = n \<and> d c = Suc (d n)) \<and>
     (\<forall>n\<in>T. n \<noteq> r \<longrightarrow> fa (h_node h n) \<in> T \<and> n \<in> set (kids h (fa (h_node h n)))) \<and>
     (\<forall>n\<in>T. 0 \<le> ch_len (h_node h n) \<and> ch_len (h_node h n) \<le> 362 \<and>
       (expand_state (h_node h n) = k_expanded \<longleftrightarrow> 0 < ch_len (h_node h n)))"

definition same_links :: "'f heap \<Rightarrow> 'f heap \<Rightarrow> bool" where
  "same_links h h' \<longleftrightarrow> h_live h' = h_live h \<and> h_next h' = h_next h \<and>
     (\<forall>a. fa (h_node h' a) = fa (h_node h a) \<and> ch (h_node h' a) = ch (h_node h a) \<and>
       ch_len (h_node h' a) = ch_len (h_node h a) \<and> node_move (h_node h' a) = node_move (h_node h a) \<and>
       (expand_state (h_node h' a) = k_expanded \<longleftrightarrow> expand_state (h_node h a) = k_expanded))"

lemma same_links_refl [simp]: "same_links h h"
  by (simp add: same_links_def)

lemma same_links_trans: "same_links h h' \<Longrightarrow> same_links h' h'' \<Longrightarrow> same_links h h''"
  by (simp add: same_links_def)

lemma same_links_kids: "same_links h h' \<Longrightarrow> kids h' n = kids h n"
  by (simp add: same_links_def kids_def)

lemma tree_ok_cong: "same_links h h' \<Longrightarrow> tree_ok h' r T d = tree_ok h r T d"
  unfolding tree_ok_def by (simp add: same_links_kids) (simp add: same_links_def)

lemma tree_okI:
  assumes "finite T" "r \<in> T" "0 \<notin> T" "T \<subseteq> h_live h" "\<And>a. a \<in> h_live h \<Longrightarrow> a < h_next h" "0 < h_next h"
    "fa (h_node h r) = 0" "d r = 0"
    "\<And>n c. n \<in> T \<Longrightarrow> c \<in> set (kids h n) \<Longrightarrow> c \<in> T \<and> fa (h_node h c) = n \<and> d c = Suc (d n)"
    "\<And>n. n \<in> T \<Longrightarrow> n \<noteq> r \<Longrightarrow> fa (h_node h n) \<in> T \<and> n \<in> set (kids h (fa (h_node h n)))"
    "\<And>n. n \<in> T \<Longrightarrow> 0 \<le> ch_len (h_node h n) \<and> ch_len (h_node h n) \<le> 362 \<and>
       (expand_state (h_node h n) = k_expanded \<longleftrightarrow> 0 < ch_len (h_node h n))"
  shows "tree_ok h r T d"
  using assms unfolding tree_ok_def by blast

lemma tree_okD:
  assumes "tree_ok h r T d"
  shows "finite T" "r \<in> T" "0 \<notin> T" "T \<subseteq> h_live h" "\<And>a. a \<in> h_live h \<Longrightarrow> a < h_next h" "fa (h_node h r) = 0" "d r = 0"
    "\<And>n c. n \<in> T \<Longrightarrow> c \<in> set (kids h n) \<Longrightarrow> c \<in> T \<and> fa (h_node h c) = n \<and> d c = Suc (d n)"
    "\<And>n. n \<in> T \<Longrightarrow> n \<noteq> r \<Longrightarrow> fa (h_node h n) \<in> T \<and> n \<in> set (kids h (fa (h_node h n)))"
    "\<And>n. n \<in> T \<Longrightarrow> 0 \<le> ch_len (h_node h n) \<and> ch_len (h_node h n) \<le> 362"
    "\<And>n. n \<in> T \<Longrightarrow> expand_state (h_node h n) = k_expanded \<longleftrightarrow> 0 < ch_len (h_node h n)"
  using assms unfolding tree_ok_def by blast+

lemma length_kids [simp]: "length (kids h n) = nat (ch_len (h_node h n))"
  by (simp add: kids_def)

lemma distinct_kids [simp]: "distinct (kids h n)"
  by (simp add: kids_def distinct_map inj_on_def)

subsection \<open>Touching the nodes of a list\<close>

definition touch :: "('f TreeNode \<Rightarrow> 'f TreeNode) \<Rightarrow> addr list \<Rightarrow> 'f heap \<Rightarrow> 'f heap" where
  "touch f p h = fold (\<lambda>n. upd n f) p h"

lemma touch_simps [simp]:
  "touch f [] h = h" "touch f (n # p) h = touch f p (upd n f h)" "touch f (p @ q) h = touch f q (touch f p h)"
  by (simp_all add: touch_def)

lemma upd_fields [simp]:
  "h_node (upd n f h) = (h_node h)(n := f (h_node h n))" "h_live (upd n f h) = h_live h" "h_next (upd n f h) = h_next h"
  by (simp_all add: upd_def)

definition keeps_links :: "('f TreeNode \<Rightarrow> 'f TreeNode) \<Rightarrow> bool" where
  "keeps_links f \<longleftrightarrow> (\<forall>x. fa (f x) = fa x \<and> ch (f x) = ch x \<and> ch_len (f x) = ch_len x \<and>
     expand_state (f x) = expand_state x \<and> node_move (f x) = node_move x)"

lemma same_links_upd: "keeps_links f \<Longrightarrow> same_links h (upd n f h)"
  by (simp add: keeps_links_def same_links_def)

lemma touch_links: "keeps_links f \<Longrightarrow> same_links h (touch f p h)"
proof (induction p arbitrary: h)
  case (Cons n p)
  then show ?case using same_links_trans [OF same_links_upd [of f h n]] by simp
qed simp

lemma touch_node:
  "distinct p \<Longrightarrow> h_node (touch f p h) a = (if a \<in> set p then f (h_node h a) else h_node h a)"
  by (induction p arbitrary: h) auto

lemma touch_fields [simp]: "h_live (touch f p h) = h_live h" "h_next (touch f p h) = h_next h"
  by (induction p arbitrary: h) auto

abbreviation vl_add :: "'f TreeNode \<Rightarrow> 'f TreeNode" where
  "vl_add x \<equiv> x\<lparr>virtual_loss_count := wrap32 (virtual_loss_count x + 1)\<rparr>"

lemma keeps_vl: "keeps_links vl_add" "keeps_links remove_virtual_loss" "keeps_links (backup_node len v)"
  by (simp_all add: keeps_links_def remove_virtual_loss_def backup_node_def)

subsection \<open>Ways down and up\<close>

fun seg :: "'f heap \<Rightarrow> addr \<Rightarrow> addr list \<Rightarrow> bool" where
  "seg h n [] = True"
| "seg h n (c # p) \<longleftrightarrow> c \<in> set (kids h n) \<and> seg h c p"

lemma seg_cong: "same_links h h' \<Longrightarrow> seg h' n p = seg h n p"
  by (induction p arbitrary: n) (simp_all add: same_links_kids)

lemma seg_append: "seg h n (p @ q) \<longleftrightarrow> seg h n p \<and> seg h (last (n # p)) q"
  by (induction p arbitrary: n) auto

lemma seg_tree:
  assumes "tree_ok h r T d"
  shows "n \<in> T \<Longrightarrow> seg h n p \<Longrightarrow> set (n # p) \<subseteq> T \<and> d (last (n # p)) = d n + length p \<and>
    distinct (n # p) \<and> (\<forall>x\<in>set p. d n < d x)"
proof (induction p arbitrary: n)
  case (Cons c p)
  from Cons.prems tree_okD(8) [OF assms] have c: "c \<in> T" "d c = Suc (d n)" "seg h c p" by auto
  from Cons.IH [OF c(1,3)] c(2) Cons.prems(1) show ?case by auto
qed simp

text \<open>The way up from the end of a way down.\<close>

fun up :: "'f heap \<Rightarrow> addr list \<Rightarrow> bool" where
  "up h [] = False"
| "up h [x] \<longleftrightarrow> x \<noteq> 0 \<and> fa (h_node h x) = 0"
| "up h (x # y # p) \<longleftrightarrow> x \<noteq> 0 \<and> fa (h_node h x) = y \<and> up h (y # p)"

lemma up_cong: "same_links h h' \<Longrightarrow> up h' p = up h p"
  by (induction h p rule: up.induct) (simp_all add: same_links_def)

lemma up_snoc_last: "up h (q @ [n]) \<Longrightarrow> c \<noteq> 0 \<Longrightarrow> fa (h_node h c) = hd (q @ [n]) \<Longrightarrow> up h (c # q @ [n])"
  by (cases q) auto

lemma seg_up:
  assumes ok: "tree_ok h r T d"
  shows "seg h r p \<Longrightarrow> up h (rev (r # p))"
proof (induction p rule: rev_induct)
  case Nil
  have "r \<noteq> 0" using tree_okD(2,3) [OF ok] by metis
  then show ?case using tree_okD(6) [OF ok] by simp
next
  case (snoc c p)
  then have p: "seg h r p" "c \<in> set (kids h (last (r # p)))" by (simp_all add: seg_append)
  have "last (r # p) \<in> set (r # p)" by (rule last_in_set) simp
  with seg_tree [OF ok tree_okD(2) [OF ok] p(1)] have "last (r # p) \<in> T" by blast
  from tree_okD(8) [OF ok this p(2)] tree_okD(3) [OF ok]
  have "c \<noteq> 0" "fa (h_node h c) = last (r # p)" by (metis, simp)
  moreover have "last (r # p) = hd (rev (r # p))" by (simp add: hd_rev)
  ultimately show ?case using snoc.IH [OF p(1)] up_snoc_last [of h "rev p" r c] by simp
qed

lemma up_nonzero: "up h p \<Longrightarrow> 0 \<notin> set p"
  by (induction h p rule: up.induct) auto

lemma undo_up: "up h p \<Longrightarrow> UndoVirtualLoss (hd p) h = Some (touch remove_virtual_loss p h)"
proof (induction p arbitrary: h)
  case (Cons x p)
  let ?h = "upd x remove_virtual_loss h"
  have links: "same_links h ?h" by (rule same_links_upd [OF keeps_vl(2)])
  have x: "x \<noteq> 0" "UndoVirtualLoss x h = UndoVirtualLoss (fa (h_node h x)) ?h"
    using up_nonzero [OF Cons.prems] by (simp, subst UndoVirtualLoss.simps, simp)
  show ?case
  proof (cases p)
    case Nil
    with Cons.prems x show ?thesis by (simp add: UndoVirtualLoss.simps [of 0])
  next
    case (Cons y q)
    with Cons.prems have "up h p" "fa (h_node h x) = hd p" by simp_all
    with Cons.IH [of ?h] up_cong [OF links] x(2) show ?thesis by simp
  qed
qed simp

text \<open>The effect of a backup: the value changes sign at every step up.\<close>

fun backed_up :: "int \<Rightarrow> int \<Rightarrow> addr list \<Rightarrow> 'f heap \<Rightarrow> 'f heap" where
  "backed_up len v [] h = h"
| "backed_up len v (n # p) h = backed_up len (wrap64 (- v)) p (upd n (backup_node len v) h)"

lemma backup_up: "up h p \<Longrightarrow> backup_loop len (hd p) v h = Some (backed_up len v p h)"
proof (induction p arbitrary: h v)
  case (Cons x p)
  let ?h = "upd x (backup_node len v) h"
  have links: "same_links h ?h" by (rule same_links_upd [OF keeps_vl(3)])
  have x: "x \<noteq> 0" "backup_loop len x v h = backup_loop len (fa (h_node h x)) (wrap64 (- v)) ?h"
    using up_nonzero [OF Cons.prems] by (simp, subst backup_loop.simps, simp)
  show ?case
  proof (cases p)
    case Nil
    with Cons.prems x show ?thesis by (simp add: backup_loop.simps [of _ 0])
  next
    case (Cons y q)
    with Cons.prems have "up h p" "fa (h_node h x) = hd p" by simp_all
    with Cons.IH [of ?h] up_cong [OF links] x(2) show ?thesis by simp
  qed
qed simp

lemma backed_up_links: "same_links h (backed_up len v p h)"
proof (induction p arbitrary: h v)
  case (Cons n p)
  show ?case using same_links_trans [OF same_links_upd [OF keeps_vl(3)] Cons] by simp
qed simp

lemma backed_up_other: "a \<notin> set p \<Longrightarrow> h_node (backed_up len v p h) a = h_node h a"
  by (induction p arbitrary: h v) auto

text \<open>The value with which the \<open>k\<close>-th node on the way is updated.\<close>

fun flipped :: "int \<Rightarrow> nat \<Rightarrow> int" where
  "flipped v 0 = v"
| "flipped v (Suc k) = flipped (wrap64 (- v)) k"

lemma backed_up_node:
  "distinct p \<Longrightarrow> k < length p \<Longrightarrow> h_node (backed_up len v p h) (p ! k) = backup_node len (flipped v k) (h_node h (p ! k))"
proof (induction p arbitrary: h v k)
  case (Cons n p)
  show ?case
  proof (cases k)
    case 0
    with Cons.prems show ?thesis by (simp add: backed_up_other)
  next
    case (Suc j)
    with Cons.prems have "j < length p" "distinct p" "p ! j \<noteq> n" by auto
    with Cons.IH [of j "wrap64 (- v)" "upd n (backup_node len v) h"] Suc show ?thesis by simp
  qed
qed simp

lemma flipped_small: "- (2 ^ 63) < v \<Longrightarrow> v < 2 ^ 63 \<Longrightarrow> flipped v k = (if even k then v else - v)"
  by (induction k arbitrary: v) auto

subsection \<open>Selection\<close>

text \<open>The moves of a list on a board, all accepted.\<close>

definition play_moves :: "zobrist \<Rightarrow> GoCoordId list \<Rightarrow> GoState \<Rightarrow> GoState option" where
  "play_moves Z ms b = foldo (\<lambda>m b. case Move Z m b of Some (r, b') \<Rightarrow> (if r = 0 then Some b' else None) | None \<Rightarrow> None) ms b"

lemma play_moves_simps [simp]:
  "play_moves Z [] b = Some b"
  "play_moves Z (m # ms) b = (case Move Z m b of Some (r, b') \<Rightarrow> (if r = 0 then play_moves Z ms b' else None) | None \<Rightarrow> None)"
  by (auto simp: play_moves_def split: option.splits)

lemma play_moves_append:
  "play_moves Z (ms @ ns) b = (case play_moves Z ms b of None \<Rightarrow> None | Some b' \<Rightarrow> play_moves Z ns b')"
  by (simp add: play_moves_def foldo_append split: option.split)

text \<open>Every way down from \<open>n\<close> can be played on \<open>b\<close>.\<close>

definition fits :: "'f heap \<Rightarrow> zobrist \<Rightarrow> addr \<Rightarrow> GoState \<Rightarrow> bool" where
  "fits h Z n b \<longleftrightarrow> (\<forall>p. seg h n p \<longrightarrow> play_moves Z (map (mv h) p) b \<noteq> None)"

lemma fits_cong: "same_links h h' \<Longrightarrow> fits h' Z n b = fits h Z n b"
  unfolding fits_def by (simp add: seg_cong) (simp add: same_links_def)

lemma fits_child:
  assumes "fits h Z n b" and "c \<in> set (kids h n)"
  shows "\<exists>b'. Move Z (mv h c) b = Some (0, b') \<and> fits h Z c b'"
proof -
  from assms have "play_moves Z (map (mv h) [c]) b \<noteq> None" unfolding fits_def by (metis seg.simps)
  then obtain b' where b': "Move Z (mv h c) b = Some (0, b')" by (auto split: option.splits if_splits)
  have "play_moves Z (map (mv h) p) b' \<noteq> None" if "seg h c p" for p
    using assms that b' unfolding fits_def by (auto dest: spec [of _ "c # p"])
  with b' show ?thesis by (auto simp: fits_def)
qed

lemma better_some: "\<exists>b. fold (better A sc) cs (Some x) = Some b \<and> (b = x \<or> b \<in> set cs)"
proof (induction cs arbitrary: x)
  case (Cons c cs)
  show ?case using Cons [of x] Cons [of c] by (auto simp: better_def)
qed simp

lemma SelectChild_child:
  assumes "0 < ch_len (h_node h n)" and "ch_len (h_node h n) \<le> 362"
  shows "\<exists>c \<in> set (kids h n). SelectChild A cf h n = Some c"
proof -
  have "kids h n \<noteq> []" using assms(1) by (simp add: kids_def)
  then obtain c cs where k: "kids h n = c # cs" by (cases "kids h n") auto
  have "length (kids h n) \<le> 362" using assms(2) by simp
  with better_some [of A _ cs c] k assms show ?thesis
    by (fastforce simp: SelectChild_def Let_def better_def simp del: length_kids)
qed

text \<open>The scan for the best child is \<open>std::max_element\<close> of the scores: the first maximum.\<close>

lemma max_element_less: "xs \<noteq> [] \<Longrightarrow> max_element lt xs < length xs"
proof -
  assume "xs \<noteq> []"
  have "fold (\<lambda>i b. if lt (xs ! b) (xs ! i) then i else b) is b < length xs"
    if "set is \<subseteq> {..<length xs}" "b < length xs" for "is" b
    using that by (induction "is" arbitrary: b) auto
  moreover have "set [1..<length xs] \<subseteq> {..<length xs}" by auto
  ultimately show ?thesis using \<open>xs \<noteq> []\<close> by (simp add: max_element_def)
qed

lemma max_element_snoc:
  assumes "xs \<noteq> []"
  shows "max_element lt (xs @ [x]) = (if lt (xs ! max_element lt xs) x then length xs else max_element lt xs)"
proof -
  have 1: "Suc 0 \<le> length xs" using assms by (cases xs) auto
  have "fold (\<lambda>i b. if lt ((xs @ [x]) ! b) ((xs @ [x]) ! i) then i else b) is b =
      fold (\<lambda>i b. if lt (xs ! b) (xs ! i) then i else b) is b"
    if "set is \<subseteq> {..<length xs}" "b < length xs" for "is" b
    using that by (induction "is" arbitrary: b) (auto simp: nth_append)
  moreover have "set [1..<length xs] \<subseteq> {..<length xs}" by auto
  ultimately have
    "fold (\<lambda>i b. if lt ((xs @ [x]) ! b) ((xs @ [x]) ! i) then i else b) [1..<length xs] 0 = max_element lt xs"
    using assms by (simp add: max_element_def)
  with max_element_less [OF assms, of lt] 1 show ?thesis
    unfolding max_element_def [of lt "xs @ [x]"] by (simp add: nth_append)
qed

lemma best_is_max_element:
  "cs \<noteq> [] \<Longrightarrow> fold (better A sc) cs None = Some (cs ! max_element (f_lt A) (map sc cs))"
proof (induction cs rule: rev_induct)
  case (snoc c cs)
  show ?case
  proof (cases "cs = []")
    case True
    then show ?thesis by (simp add: better_def max_element_def)
  next
    case False
    with snoc.IH max_element_snoc [of "map sc cs" "f_lt A" "sc c"] max_element_less [of "map sc cs" "f_lt A"]
    show ?thesis by (simp add: better_def f_gt_def nth_append)
  qed
qed simp

abbreviation scores :: "'f arith \<Rightarrow> 'f MCTSConfig \<Rightarrow> 'f heap \<Rightarrow> addr \<Rightarrow> 'f list" where
  "scores A c h n \<equiv> map (\<lambda>x. child_score A c (default_action A c (h_node h n)) (sqrt_visits A c (map (h_node h) (kids h n)))
     (h_node h x)) (kids h n)"

lemma SelectChild_max:
  assumes "0 < ch_len (h_node h n)" and "ch_len (h_node h n) \<le> 362"
  shows "SelectChild A c h n = Some (kids h n ! max_element (f_lt A) (scores A c h n))"
proof -
  have "kids h n \<noteq> []" "length (kids h n) \<le> 362" using assms by (simp add: kids_def, simp)
  with best_is_max_element [OF this(1), of A] assms show ?thesis
    by (simp add: SelectChild_def Let_def del: length_kids)
qed

text \<open>A way on which every step is the choice of \<open>SelectChild\<close>.\<close>

fun follows :: "'f arith \<Rightarrow> 'f MCTSConfig \<Rightarrow> 'f heap \<Rightarrow> addr \<Rightarrow> addr list \<Rightarrow> bool" where
  "follows A c h n [] = True"
| "follows A c h n (x # p) \<longleftrightarrow> SelectChild A c h n = Some x \<and> follows A c h x p"

lemma better_cong:
  "\<forall>y\<in>S. sc' y = sc y \<Longrightarrow> set ys \<subseteq> S \<Longrightarrow> set_option b \<subseteq> S \<Longrightarrow> fold (better A sc') ys b = fold (better A sc) ys b"
proof (induction ys arbitrary: b)
  case (Cons y ys)
  then have "better A sc' y b = better A sc y b" "set_option (better A sc y b) \<subseteq> S"
    by (cases b; simp add: better_def)+
  with Cons show ?case by simp
qed simp

lemma SelectChild_upd: "x \<notin> set (kids h n) \<Longrightarrow> SelectChild A c (upd x vl_add h) n = SelectChild A c h n"
proof -
  assume x: "x \<notin> set (kids h n)"
  have k: "kids (upd x vl_add h) n = kids h n" by (rule same_links_kids [OF same_links_upd [OF keeps_vl(1)]])
  have same: "h_node (upd x vl_add h) y = h_node h y" if "y \<in> set (kids h n)" for y using that x by auto
  then have m: "map (h_node (upd x vl_add h)) (kids h n) = map (h_node h) (kids h n)" by simp
  have d: "default_action A c (h_node (upd x vl_add h) n) = default_action A c (h_node h n)"
    by (cases "n = x") (simp_all add: default_action_def)
  have "fold (better A (\<lambda>y. child_score A c q r (h_node (upd x vl_add h) y))) (kids h n) None =
      fold (better A (\<lambda>y. child_score A c q r (h_node h y))) (kids h n) None" for q r
    by (rule better_cong [where S = "set (kids h n)"]) (use same in simp_all)
  then show ?thesis
    by (simp add: SelectChild_def k m d Let_def del: upd_fields(1) length_kids) simp
qed

lemma follows_upd:
  assumes ok: "tree_ok h r T d"
  shows "n \<in> T \<Longrightarrow> seg h n p \<Longrightarrow> d x \<le> d n \<Longrightarrow> follows A c (upd x vl_add h) n p = follows A c h n p"
proof (induction p arbitrary: n)
  case (Cons y p)
  have y: "y \<in> T" "d y = Suc (d n)" using tree_okD(8) [OF ok Cons.prems(1)] Cons.prems(2) by auto
  have "x \<notin> set (kids h n)" using tree_okD(8) [OF ok Cons.prems(1), of x] Cons.prems(3) by auto
  with Cons.IH [OF y(1)] Cons.prems y(2) SelectChild_upd [of x h n A c] show ?case by simp
qed simp

lemma select_loop_spec:
  assumes ok: "tree_ok h r T d"
  shows "n \<in> T \<Longrightarrow> fits h Z n b \<Longrightarrow> \<exists>p b'. seg h n p \<and> play_moves Z (map (mv h) p) b = Some b' \<and>
    expand_state (h_node h (last (n # p))) \<noteq> k_expanded \<and> follows A cf h n p \<and>
    select_loop A cf Z n b h = Some (last (n # p), b', touch vl_add p h)"
  using ok
proof (induction "Max (d ` T) - d n" arbitrary: n b h rule: less_induct)
  case less
  note ok = less.prems(3)
  show ?case
  proof (cases "expand_state (h_node h n) = k_expanded")
    case False
    then show ?thesis
      by (intro exI [of _ "[]"]) (simp add: select_loop.simps)
  next
    case True
    with tree_okD(10,11) [OF ok less.prems(1)] have "0 < ch_len (h_node h n)" "ch_len (h_node h n) \<le> 362" by simp_all
    from SelectChild_child [OF this] obtain c where c: "c \<in> set (kids h n)" "SelectChild A cf h n = Some c" by blast
    from fits_child [OF less.prems(2) c(1)] obtain b1 where b1: "Move Z (mv h c) b = Some (0, b1)" "fits h Z c b1" by blast
    let ?h = "upd c vl_add h"
    have links: "same_links h ?h" by (rule same_links_upd [OF keeps_vl(1)])
    from tree_okD(8) [OF ok less.prems(1) c(1)] have cT: "c \<in> T" "d c = Suc (d n)" by simp_all
    have "d c \<le> Max (d ` T)" using tree_okD(1) [OF ok] cT(1) by simp
    then have "Max (d ` T) - d c < Max (d ` T) - d n" using cT(2) by simp
    from less.hyps [OF this cT(1)] b1(2) ok obtain p b' where p: "seg ?h c p" "play_moves Z (map (mv ?h) p) b1 = Some b'"
      "expand_state (h_node ?h (last (c # p))) \<noteq> k_expanded" "follows A cf ?h c p"
      "select_loop A cf Z c b1 ?h = Some (last (c # p), b', touch vl_add p ?h)"
      using fits_cong [OF links] tree_ok_cong [OF links] by blast
    have mvs: "mv ?h = mv h" "expand_state (h_node ?h x) = expand_state (h_node h x)" for x
      by (auto simp: fun_eq_iff)
    have "select_loop A cf Z n b h = Some (last (c # p), b', touch vl_add (c # p) h)"
      using True c(2) b1(1) p(5) by (subst select_loop.simps) (simp add: add_virtual_loss_def)
    moreover have "follows A cf h c p"
      using follows_upd [OF ok cT(1), of p c] p(1,4) seg_cong [OF links] by simp
    ultimately show ?thesis using p(1-3) b1(1) c seg_cong [OF links] mvs
      by (intro exI [of _ "c # p"] exI [of _ b']) simp
  qed
qed

lemma Select_spec:
  assumes ok: "tree_ok h r T d" and fits: "fits h Z r b"
  shows "\<exists>p b'. seg h r p \<and> play_moves Z (map (mv h) p) b = Some b' \<and>
    expand_state (h_node h (last (r # p))) \<noteq> k_expanded \<and> follows A cf h r p \<and>
    Select A cf Z r b h = Some (last (r # p), b', touch vl_add (r # p) h)"
proof -
  let ?h = "upd r vl_add h"
  have links: "same_links h ?h" by (rule same_links_upd [OF keeps_vl(1)])
  have "mv ?h = mv h" "expand_state (h_node ?h x) = expand_state (h_node h x)" for x
    by (auto simp: fun_eq_iff)
  moreover obtain p b' where "seg ?h r p" "play_moves Z (map (mv ?h) p) b = Some b'" "follows A cf ?h r p"
    "expand_state (h_node ?h (last (r # p))) \<noteq> k_expanded"
    "select_loop A cf Z r b ?h = Some (last (r # p), b', touch vl_add p ?h)"
    using select_loop_spec [of ?h r T d r Z b A cf] tree_ok_cong [OF links] fits_cong [OF links]
      ok fits tree_okD(2) [OF ok] by blast
  ultimately show ?thesis using follows_upd [OF ok tree_okD(2) [OF ok], of p r A cf] seg_cong [OF links]
    by (intro exI [of _ p] exI [of _ b']) (simp add: Select_def add_virtual_loss_def)
qed

end
