(* ===== verification/Mcts_Expand.thy ===== *)
theory Mcts_Expand
  imports Mcts_Walk "HOL-Library.Multiset"
begin

text \<open>
  Expanding a leaf of a search tree: which moves become children, that the tree grows by exactly
  these nodes, and that each of them is a legal move in the position of the leaf.
\<close>

subsection \<open>The moves\<close>

text \<open>What the search relies on of \<open>std::nth_element\<close>: it permutes.\<close>

definition permutes_moves :: "(nat \<Rightarrow> 'f list \<Rightarrow> nat list \<Rightarrow> nat list) \<Rightarrow> bool" where
  "permutes_moves ne \<longleftrightarrow> (\<forall>k policy ms. mset (ne k policy ms) = mset ms)"

lemma legal_moves_set: "set (legal_moves b) = {i. i < 361 \<and> legal_move_map b (int i)}" "distinct (legal_moves b)"
  by (auto simp: legal_moves_def)

lemma expand_moves_ok:
  assumes "permutes_moves ne"
  shows "set (expand_moves c ne policy b) \<subseteq> insert 361 (set (legal_moves b))" "distinct (expand_moves c ne policy b)"
    "expand_moves c ne policy b \<noteq> []" "length (expand_moves c ne policy b) \<le> 362"
proof -
  let ?ms = "legal_moves b @ [361]" and ?m = "nat (max_children_per_node c)"
  have perm: "mset (ne k policy ms) = mset ms" for k ms using assms by (simp add: permutes_moves_def)
  have dist: "distinct ?ms" using legal_moves_set [of b] by auto
  have e: "expand_moves c ne policy b = ?ms \<or>
      0 < ?m \<and> ?m < length ?ms \<and> expand_moves c ne policy b = take ?m (ne ?m policy ?ms)"
    by (auto simp: expand_moves_def Let_def)
  have "set (ne k policy ?ms) = set ?ms" "distinct (ne k policy ?ms)" "length (ne k policy ?ms) = length ?ms" for k
    using perm [of k ?ms] dist by (metis mset_eq_setD, metis mset_eq_imp_distinct_iff, metis mset_eq_length)
  note ne = this [of ?m]
  from e show "set (expand_moves c ne policy b) \<subseteq> insert 361 (set (legal_moves b))"
    using set_take_subset [of ?m "ne ?m policy ?ms"] ne(1) by auto
  from e show "distinct (expand_moves c ne policy b)" using ne(2) dist distinct_take by metis
  have "expand_moves c ne policy b = [] \<Longrightarrow> length (expand_moves c ne policy b) = 0" by simp
  with e show "expand_moves c ne policy b \<noteq> []" using ne(3) by auto
  have "card (set (legal_moves b)) \<le> card {..<361::nat}"
    by (rule card_mono) (auto simp: legal_moves_set)
  then have "length ?ms \<le> 362" using distinct_card [OF legal_moves_set(2), of b] by simp
  then show "length (expand_moves c ne policy b) \<le> 362" using e by auto
qed

text \<open>Every one of them is accepted by the board.\<close>

lemma expand_move_legal:
  assumes "reachable Z (GoState_new sk raw) k H b" and "k \<le> 253" and "m = 361 \<or> m \<in> set (legal_moves b)"
  shows "\<exists>b' H'. Move Z (move_id m) b = Some (0, b') \<and> reachable Z (GoState_new sk raw) (Suc k) H' b'"
proof -
  have inv: "gs_inv Z H b" using reachable_gs_inv [OF assms(1)] assms(2) by simp
  have m: "InBoard (move_id m) \<or> move_id m = COORD_PASS" using assms(3) by (auto simp: move_id_def legal_moves_set InBoard_def)
  moreover have "move_id m \<noteq> COORD_PASS \<longrightarrow> sensible Z H b (move_id m)"
    using inv assms(3) by (auto simp: gs_inv_def move_id_def legal_moves_set InBoard_def)
  ultimately obtain b' where "Move Z (move_id m) b = Some (0, b')"
    using Move_contract_helper [OF inv reachable_room [OF assms(1,2)] m] by (auto split: if_splits)
  with reachable.move [OF assms(1) m] show ?thesis by blast
qed

subsection \<open>The new nodes\<close>

lemma fold_upd_node:
  "distinct xs \<Longrightarrow> h_node (fold (\<lambda>i. upd (base + i) (\<lambda>_. F i)) xs h) a =
    (if a \<in> (+) base ` set xs then F (a - base) else h_node h a)"
  by (induction xs arbitrary: h) auto

lemma fold_upd_mem [simp]:
  "h_live (fold (\<lambda>i. upd (g i) (F i)) xs h) = h_live h" "h_next (fold (\<lambda>i. upd (g i) (F i)) xs h) = h_next h"
  by (induction xs arbitrary: h) simp_all

text \<open>The heap after an expansion: \<open>n\<close> gets \<open>len\<close> children at \<open>base\<close>.\<close>

definition grown :: "addr \<Rightarrow> addr \<Rightarrow> nat \<Rightarrow> (nat \<Rightarrow> 'f TreeNode) \<Rightarrow> 'f heap \<Rightarrow> 'f heap \<Rightarrow> bool" where
  "grown n base len F h h' \<longleftrightarrow> base = h_next h \<and> h_next h' = base + len \<and> h_live h' = h_live h \<union> {base..<base + len} \<and>
     (\<forall>i<len. h_node h' (base + i) = F i) \<and>
     h_node h' n = (h_node h n)\<lparr>ch := base, ch_len := int len, expand_state := k_expanded\<rparr> \<and>
     (\<forall>a. a \<noteq> n \<longrightarrow> a \<notin> {base..<base + len} \<longrightarrow> h_node h' a = h_node h a)"

lemma InitNode_upd: "InitNode A n f m p = upd n (\<lambda>_. fresh_node A f m p)"
  by (simp add: InitNode_def fun_eq_iff)

lemma Expand_grown:
  assumes "\<not> (\<not> disable_double_pass_scoring c \<and> is_double_pass b)" and "n < h_next h"
  shows "\<exists>h' F. Expand A c ne n b policy h = (int (length (expand_moves c ne policy b)), h') \<and>
    grown n (h_next h) (length (expand_moves c ne policy b)) F h h' \<and>
    (\<forall>i < length (expand_moves c ne policy b). \<exists>q. F i = fresh_node A n (move_id (expand_moves c ne policy b ! i)) q)"
proof -
  let ?ms = "expand_moves c ne policy b" and ?b = "h_next h"
  let ?F = "\<lambda>i. fresh_node A n (move_id (?ms ! i)) (f_div A (policy ! (?ms ! i)) (policy_sum A policy b))"
  let ?h1 = "snd (new_nodes (length ?ms) h)"
  let ?h2 = "fold (\<lambda>i. upd (?b + i) (\<lambda>_. ?F i)) [0..<length ?ms] ?h1"
  let ?h3 = "upd n (\<lambda>x. x\<lparr>ch := ?b, ch_len := int (length ?ms), expand_state := k_expanded\<rparr>) ?h2"
  have img: "(+) ?b ` set [0..<length ?ms] = {?b..<?b + length ?ms}" by (simp add: image_add_atLeastLessThan add.commute)
  have node: "h_node ?h2 a = (if a \<in> {?b..<?b + length ?ms} then ?F (a - ?b) else h_node h a)" for a
    using fold_upd_node [of "[0..<length ?ms]" ?b ?F ?h1 a] unfolding img by (simp add: new_nodes_def)
  have "grown n ?b (length ?ms) ?F h ?h3"
    using assms(2) by (simp add: grown_def node) (simp add: new_nodes_def)
  moreover have "Expand A c ne n b policy h = (int (length ?ms), ?h3)"
    using assms(1) by (simp only: Expand_def Let_def new_nodes_def init_children_def InitNode_upd if_False split_conv fst_conv snd_conv)
  ultimately show ?thesis by blast
qed

lemma grown_kids:
  assumes g: "grown n base len F h h'" and F: "\<And>i. i < len \<Longrightarrow> ch_len (F i) = 0"
  shows "kids h' n = map ((+) base) [0..<len]"
    "\<And>a. a \<noteq> n \<Longrightarrow> a \<notin> {base..<base + len} \<Longrightarrow> kids h' a = kids h a"
    "\<And>a. a \<noteq> n \<Longrightarrow> a \<in> {base..<base + len} \<Longrightarrow> kids h' a = []"
proof -
  show "kids h' n = map ((+) base) [0..<len]" "\<And>a. a \<noteq> n \<Longrightarrow> a \<notin> {base..<base + len} \<Longrightarrow> kids h' a = kids h a"
    using g by (simp_all add: grown_def kids_def)
  fix a assume "a \<in> {base..<base + len}"
  then have "a - base < len" "a = base + (a - base)" by auto
  then obtain i where "i < len" "a = base + i" by blast
  then have "h_node h' a = F i" using g unfolding grown_def by blast
  with F [OF \<open>i < len\<close>] show "kids h' a = []" by (simp add: kids_def)
qed

text \<open>The tree after an expansion.\<close>

lemma grown_facts:
  assumes g: "grown n base len F h h'" and ok: "tree_ok h rt T d" and n: "n \<in> T" "kids h n = []"
    and F: "\<forall>i<len. fa (F i) = n \<and> ch_len (F i) = 0 \<and> expand_state (F i) = k_unexpanded"
  shows "T \<inter> {base..<base + len} = {}"
    "\<And>a. a \<in> {base..<base + len} \<Longrightarrow> h_node h' a = F (a - base) \<and> kids h' a = []"
    "\<And>a. a \<in> T \<Longrightarrow> a \<noteq> n \<Longrightarrow> h_node h' a = h_node h a"
    "\<And>a. a \<in> T \<Longrightarrow> a \<noteq> n \<Longrightarrow> kids h' a = kids h a"
    "set (kids h' n) = {base..<base + len}"
    "h_node h' n = (h_node h n)\<lparr>ch := base, ch_len := int len, expand_state := k_expanded\<rparr>"
proof -
  have base: "base = h_next h" using g by (simp add: grown_def)
  have T: "a < base" if "a \<in> T" for a using tree_okD(4,5) [OF ok] that base by blast
  then show disj: "T \<inter> {base..<base + len} = {}" by fastforce
  have F0: "\<And>i. i < len \<Longrightarrow> ch_len (F i) = 0" using F by simp
  note kids = grown_kids [OF g F0]
  show "set (kids h' n) = {base..<base + len}" using kids(1) by (simp add: image_add_atLeastLessThan add.commute)
  show "kids h' a = kids h a" if "a \<in> T" "a \<noteq> n" for a using kids(2) disj that by blast
  show "h_node h' a = h_node h a" if "a \<in> T" "a \<noteq> n" for a
    using g disj that unfolding grown_def by blast
  show "h_node h' n = (h_node h n)\<lparr>ch := base, ch_len := int len, expand_state := k_expanded\<rparr>"
    using g by (simp add: grown_def)
  fix a assume a: "a \<in> {base..<base + len}"
  then have "a - base < len" "base + (a - base) = a" by auto
  then have "h_node h' a = F (a - base)" using g unfolding grown_def by metis
  moreover have "a \<noteq> n" using a disj n(1) by blast
  ultimately show "h_node h' a = F (a - base) \<and> kids h' a = []" using kids(3) a by blast
qed

lemma grown_tree:
  assumes g: "grown n base len F h h'" and ok: "tree_ok h rt T d" and n: "n \<in> T" "kids h n = []"
    and F: "\<forall>i<len. fa (F i) = n \<and> ch_len (F i) = 0 \<and> expand_state (F i) = k_unexpanded"
    and len: "0 < len" "len \<le> 362"
  shows "tree_ok h' rt (T \<union> {base..<base + len}) (\<lambda>a. if a \<in> T then d a else Suc (d n))"
proof -
  let ?N = "{base..<base + len}"
  note G = grown_facts [OF g ok n F] and K = tree_okD [OF ok]
  have node: "fa (h_node h' a) = fa (h_node h a)" if "a \<in> T" for a
    using G(3) [OF that] G(6) by (cases "a = n") simp_all
  have new: "fa (h_node h' a) = n" "ch_len (h_node h' a) = 0" "expand_state (h_node h' a) = k_unexpanded"
    if "a \<in> ?N" for a
    using G(2) [OF that] F [rule_format, of "a - base"] that by auto
  have live: "h_live h' = h_live h \<union> ?N" "h_next h' = base + len" "base = h_next h" using g by (simp_all add: grown_def)
  have mem: "T \<union> ?N \<subseteq> h_live h'" "\<And>a. a \<in> h_live h' \<Longrightarrow> a < h_next h'" "0 < h_next h'" "0 \<notin> ?N"
    using K(4,5) live len ok by (auto simp: tree_ok_def less_Suc_eq_le intro: trans_less_add1)
  have kid: "c \<in> T \<union> ?N \<and> fa (h_node h' c) = a \<and> (if c \<in> T then d c else Suc (d n)) = Suc (if a \<in> T then d a else Suc (d n))"
    if a: "a \<in> T \<union> ?N" and c: "c \<in> set (kids h' a)" for a c
  proof (cases "a = n")
    case True
    then have "c \<in> ?N" using c G(5) by simp
    with True new G(1) n(1) show ?thesis by auto
  next
    case False
    then have a: "a \<in> T" "c \<in> set (kids h a)" using a c G(2,4) by auto
    with K(8) [OF a] node show ?thesis by simp
  qed
  have parent: "fa (h_node h' a) \<in> T \<union> ?N \<and> a \<in> set (kids h' (fa (h_node h' a)))" if a: "a \<in> T \<union> ?N" "a \<noteq> rt" for a
  proof (cases "a \<in> ?N")
    case True
    then show ?thesis using new(1) G(5) n(1) by simp
  next
    case False
    then have "a \<in> T" using a by blast
    from K(9) [OF this a(2)] have f: "fa (h_node h a) \<in> T" "a \<in> set (kids h (fa (h_node h a)))" by simp_all
    then have "fa (h_node h a) \<noteq> n" using n(2) by auto
    with f G(4) node \<open>a \<in> T\<close> show ?thesis by simp
  qed
  have lens: "0 \<le> ch_len (h_node h' a) \<and> ch_len (h_node h' a) \<le> 362 \<and>
      (expand_state (h_node h' a) = k_expanded \<longleftrightarrow> 0 < ch_len (h_node h' a))" if a: "a \<in> T \<union> ?N" for a
  proof (cases "a \<in> ?N")
    case True
    then show ?thesis using new by simp
  next
    case False
    then have "a \<in> T" using a by blast
    then show ?thesis using G(3) [of a] G(6) len K(10,11) [of a] by (cases "a = n") simp_all
  qed
  have rt: "rt \<in> T \<union> ?N" "finite (T \<union> ?N)" "0 \<notin> T \<union> ?N" "(if rt \<in> T then d rt else Suc (d n)) = 0" "fa (h_node h' rt) = 0"
    using K(1-3,6,7) mem(4) node [OF K(2)] by simp_all
  show ?thesis by (rule tree_okI [OF rt(2,1,3) mem(1-3) rt(5,4) kid parent lens])
qed

lemma grown_seg:
  assumes g: "grown n base len F h h'" and ok: "tree_ok h rt T d" and n: "n \<in> T" "kids h n = []"
    and F: "\<forall>i<len. fa (F i) = n \<and> ch_len (F i) = 0 \<and> expand_state (F i) = k_unexpanded"
  shows "x \<in> T \<Longrightarrow> seg h' x q \<longleftrightarrow>
    seg h x q \<or> (\<exists>p y. q = p @ [y] \<and> y \<in> {base..<base + len} \<and> seg h x p \<and> last (x # p) = n)"
proof (induction q arbitrary: x)
  case (Cons c q)
  note G = grown_facts [OF g ok n F]
  show ?case
  proof (cases "x = n")
    case True
    have "seg h' c q \<longleftrightarrow> q = []" if "c \<in> {base..<base + len}" using G(2) [OF that] by (cases q) auto
    moreover have "p = []" if "seg h n p" for p using that n(2) by (cases p) auto
    moreover have "\<not> seg h n (c # q)" using n(2) by simp
    ultimately show ?thesis using True G(5) by (auto simp: Cons_eq_append_conv)
  next
    case False
    have k: "kids h' x = kids h x" by (rule G(4) [OF Cons.prems False])
    have c: "c \<in> set (kids h x) \<Longrightarrow> c \<in> T" using tree_okD(8) [OF ok Cons.prems] by blast
    show ?thesis using Cons.IH [OF c] k False by (fastforce simp: Cons_eq_append_conv)
  qed
qed simp

end
