(* ===== verification/Mcts_Sim.thy ===== *)
theory Mcts_Sim
  imports Mcts_Expand
begin

text \<open>
  Simulations. The search threads start simulations (\<open>Select\<close>, then the claim of the node by
  compare-and-swap) and the evaluation answers them in any order; several are in flight at a
  time. Each start and each answer is one step. The invariant says that the tree stays a tree
  whose ways are legal games, and what its counters count.
\<close>

subsection \<open>The steps\<close>

text \<open>
  \<open>s_flying\<close> are the callbacks handed to \<open>Eval\<close> and not yet called: the node and the board each
  has captured. \<open>s_running\<close> is whether the conductor runs; a pause by the callback clears it.
\<close>

record 'f search =
  s_heap :: "'f heap"
  s_flying :: "(addr \<times> GoState) list"
  s_counter :: int
  s_running :: bool

definition set_state :: "int \<Rightarrow> addr \<Rightarrow> 'f heap \<Rightarrow> 'f heap" where
  "set_state e n h = upd n (\<lambda>x. x\<lparr>expand_state := e\<rparr>) h"

text \<open>One round of the loop of \<open>SearchRoutine\<close>, up to the call of \<open>Eval\<close>.\<close>

definition begin_simulation :: "'f arith \<Rightarrow> 'f MCTSConfig \<Rightarrow> zobrist \<Rightarrow> addr \<Rightarrow> GoState \<Rightarrow> 'f search \<Rightarrow> 'f search option" where
  "begin_simulation A c Z rt b s =
     Option.bind (Select A c Z rt b (s_heap s)) (\<lambda>(n, b', h).
       if expand_state (h_node h n) = k_unexpanded
       then Some (s\<lparr>s_heap := set_state k_expanding n h, s_flying := s_flying s @ [(n, b')]\<rparr>)
       else map_option (\<lambda>h'. s\<lparr>s_heap := h'\<rparr>) (UndoVirtualLoss n h))"

text \<open>The callback.\<close>

definition simulation_answer :: "'f arith \<Rightarrow> 'f MCTSConfig \<Rightarrow> (nat \<Rightarrow> 'f list \<Rightarrow> nat list \<Rightarrow> nat list) \<Rightarrow> addr \<Rightarrow> addr \<Rightarrow> GoState \<Rightarrow>
    int \<Rightarrow> 'f list \<Rightarrow> 'f \<Rightarrow> 'f search \<Rightarrow> 'f search option" where
  "simulation_answer A c ne rt n b ret policy v s =
     (if ret \<noteq> 0 then map_option (\<lambda>h. s\<lparr>s_heap := h\<rparr>) (UndoVirtualLoss n (set_state k_unexpanded n (s_heap s)))
      else case Expand A c ne n b policy (s_heap s) of (len, h1) \<Rightarrow>
        map_option (\<lambda>h2.
          let k = wrap32 (s_counter s + 1);
              full = max_simulations_per_step c > 0 \<and> k > max_simulations_per_step c;
              large = node_size (h_node h2 rt) > max_search_tree_size c
          in s\<lparr>s_heap := h2, s_counter := k, s_running := s_running s \<and> \<not> full \<and> \<not> large\<rparr>)
        (Backup A n v len h1))"

text \<open>
  A thread starts a simulation when the conductor runs and the thread is free: \<open>Eval\<close> blocks it
  until the answer, unless the evaluation is asynchronous.
\<close>

inductive sim_step :: "'f arith \<Rightarrow> 'f MCTSConfig \<Rightarrow> (nat \<Rightarrow> 'f list \<Rightarrow> nat list \<Rightarrow> nat list) \<Rightarrow> zobrist \<Rightarrow> addr \<Rightarrow> GoState \<Rightarrow>
    'f search \<Rightarrow> 'f search \<Rightarrow> bool" for A c ne Z rt b where
  start: "s_running s \<Longrightarrow> enable_async c \<or> length (s_flying s) < num_search_threads c \<Longrightarrow>
    begin_simulation A c Z rt b s = Some s' \<Longrightarrow> sim_step A c ne Z rt b s s'"
| answer: "s_flying s = fs @ (n, b') # gs \<Longrightarrow> length policy = 362 \<Longrightarrow>
    simulation_answer A c ne rt n b' ret policy v (s\<lparr>s_flying := fs @ gs\<rparr>) = Some s' \<Longrightarrow> sim_step A c ne Z rt b s s'"

inductive_cases sim_stepE: "sim_step A c ne Z rt b s s'"

subsection \<open>Ways in a tree\<close>

text \<open>The nodes above a node, itself included.\<close>

partial_function (option) way_up :: "'f heap \<Rightarrow> addr \<Rightarrow> addr list option" where
  "way_up h n = (if n = 0 then Some [] else Option.bind (way_up h (fa (h_node h n))) (\<lambda>p. Some (n # p)))"

definition on_way :: "'f heap \<Rightarrow> addr \<Rightarrow> addr \<Rightarrow> bool" where
  "on_way h a n \<longleftrightarrow> (case way_up h n of None \<Rightarrow> False | Some p \<Rightarrow> a \<in> set p)"

lemma way_up_up: "up h p \<Longrightarrow> way_up h (hd p) = Some p"
proof (induction h p rule: up.induct)
  case (2 h x)
  then show ?case by (simp add: way_up.simps [of h x] way_up.simps [of h 0])
next
  case (3 h x y p)
  then show ?case by (simp add: way_up.simps [of h x])
qed simp

lemma tree_way:
  assumes "tree_ok h r T d" and "seg h r p"
  shows "way_up h (last (r # p)) = Some (rev (r # p))" "on_way h a (last (r # p)) \<longleftrightarrow> a \<in> set (r # p)"
proof -
  have "hd (rev (r # p)) = last (r # p)" by (simp only: hd_rev)
  with way_up_up [OF seg_up [OF assms]] show "way_up h (last (r # p)) = Some (rev (r # p))" by simp
  then show "on_way h a (last (r # p)) \<longleftrightarrow> a \<in> set (r # p)" unfolding on_way_def by simp
qed

lemma seg_unique:
  assumes "tree_ok h r T d" and "seg h r p" and "seg h r q" and "last (r # p) = last (r # q)"
  shows "p = q"
proof -
  from tree_way(1) [OF assms(1,2)] tree_way(1) [OF assms(1,3)] assms(4)
  have "rev (r # p) = rev (r # q)" by (metis option.inject)
  then show ?thesis by simp
qed

text \<open>Every node of the tree is at the end of a way.\<close>

lemma way_exists:
  assumes ok: "tree_ok h r T d"
  shows "n \<in> T \<Longrightarrow> \<exists>p. seg h r p \<and> last (r # p) = n"
proof (induction "d n" arbitrary: n rule: less_induct)
  case less
  show ?case
  proof (cases "n = r")
    case True
    then show ?thesis by (intro exI [of _ "[]"]) simp
  next
    case False
    let ?f = "fa (h_node h n)"
    from tree_okD(9) [OF ok less.prems False] have f: "?f \<in> T" "n \<in> set (kids h ?f)" by simp_all
    with tree_okD(8) [OF ok f] have "d ?f < d n" by simp
    from less.hyps [OF this f(1)] obtain p where "seg h r p" "last (r # p) = ?f" by blast
    with f(2) show ?thesis by (intro exI [of _ "p @ [n]"]) (simp add: seg_append)
  qed
qed

text \<open>A way takes one of the children of each of its nodes but the last.\<close>

lemma seg_kids:
  assumes ok: "tree_ok h r T d"
  shows "n \<in> T \<Longrightarrow> seg h n p \<Longrightarrow> x \<in> T \<Longrightarrow>
    card (set (kids h x) \<inter> set p) = (if x \<in> set (n # p) \<and> x \<noteq> last (n # p) then 1 else 0)"
proof (induction p arbitrary: n)
  case (Cons c q)
  from tree_okD(8) [OF ok Cons.prems(1)] Cons.prems(2) have c: "c \<in> T" "fa (h_node h c) = n" "seg h c q" by auto
  from seg_tree [OF ok Cons.prems(1,2)] have dist: "distinct (n # c # q)" by blast
  note IH = Cons.IH [OF c(1,3) Cons.prems(3)]
  show ?case
  proof (cases "x = n")
    case True
    have "last (c # q) \<in> set (c # q)" by (rule last_in_set) simp
    with dist have "last (c # q) \<noteq> n" by auto
    moreover have "set (kids h x) \<inter> set (c # q) = insert c (set (kids h x) \<inter> set q)"
      using True Cons.prems(2) by auto
    moreover have "card (set (kids h x) \<inter> set q) = 0" using IH True dist by auto
    ultimately show ?thesis using True dist by simp
  next
    case False
    with tree_okD(8) [OF ok Cons.prems(3), of c] c(2) have "c \<notin> set (kids h x)" by blast
    then have "set (kids h x) \<inter> set (c # q) = set (kids h x) \<inter> set q" by auto
    with IH False show ?thesis by simp
  qed
qed simp

subsection \<open>The invariant\<close>

text \<open>Every way from the root is a legal game from the board of the root.\<close>

definition played :: "zobrist \<Rightarrow> GoState \<Rightarrow> nat \<Rightarrow> GoState \<Rightarrow> addr \<Rightarrow> 'f heap \<Rightarrow> bool" where
  "played Z s0 k b rt h \<longleftrightarrow> (\<forall>p. seg h rt p \<longrightarrow>
     (\<exists>b' H. play_moves Z (map (mv h) p) b = Some b' \<and> reachable Z s0 (k + length p) H b'))"

text \<open>\<open>n\<close> is the node of the position \<open>b'\<close>.\<close>

definition at_node :: "zobrist \<Rightarrow> GoState \<Rightarrow> addr \<Rightarrow> 'f heap \<Rightarrow> addr \<Rightarrow> GoState \<Rightarrow> bool" where
  "at_node Z b rt h n b' \<longleftrightarrow> (\<exists>p. seg h rt p \<and> last (rt # p) = n \<and> play_moves Z (map (mv h) p) b = Some b')"

text \<open>The simulations in flight are at the nodes being expanded.\<close>

definition flights_ok :: "zobrist \<Rightarrow> GoState \<Rightarrow> addr \<Rightarrow> addr set \<Rightarrow> (addr \<times> GoState) list \<Rightarrow> 'f heap \<Rightarrow> bool" where
  "flights_ok Z b rt T fl h \<longleftrightarrow> distinct (map fst fl) \<and> (\<forall>(n, b')\<in>set fl. at_node Z b rt h n b') \<and>
     {n \<in> T. expand_state (h_node h n) = k_expanding} = fst ` set fl"

text \<open>The virtual loss of a node counts the simulations in flight through it, up to \<open>e\<close> at the root.\<close>

definition losses_ok :: "addr \<Rightarrow> int \<Rightarrow> addr set \<Rightarrow> (addr \<times> GoState) list \<Rightarrow> 'f heap \<Rightarrow> bool" where
  "losses_ok rt e T fl h \<longleftrightarrow> (\<forall>a\<in>T. virtual_loss_count (h_node h a) =
     wrap32 ((if a = rt then e else 0) + int (length (filter (\<lambda>f. on_way h a (fst f)) fl))))"

text \<open>The size of a node counts the nodes below it, and itself.\<close>

definition sizes_ok :: "addr set \<Rightarrow> 'f heap \<Rightarrow> bool" where
  "sizes_ok T h \<longleftrightarrow> (\<forall>n\<in>T. node_size (h_node h n) = wrap32 (1 + (\<Sum>c\<in>set (kids h n). node_size (h_node h c))))"

text \<open>An expanded node was visited once for itself and once for every visit of a child; another was
  not visited, unless it ends the game by a double pass.\<close>

definition visits_ok :: "'f MCTSConfig \<Rightarrow> zobrist \<Rightarrow> GoState \<Rightarrow> addr \<Rightarrow> addr set \<Rightarrow> 'f heap \<Rightarrow> bool" where
  "visits_ok c Z b rt T h \<longleftrightarrow> (\<forall>n\<in>T. wrap32 (visit_count (h_node h n)) = visit_count (h_node h n) \<and>
    (if expand_state (h_node h n) = k_expanded
     then visit_count (h_node h n) = wrap32 (1 + (\<Sum>k\<in>set (kids h n). visit_count (h_node h k)))
     else visit_count (h_node h n) = 0 \<or> \<not> disable_double_pass_scoring c \<and> (\<exists>b'. at_node Z b rt h n b' \<and> is_double_pass b')))"

definition sim_inv :: "'f MCTSConfig \<Rightarrow> zobrist \<Rightarrow> GoState \<Rightarrow> nat \<Rightarrow> GoState \<Rightarrow> addr \<Rightarrow> int \<Rightarrow> addr set \<Rightarrow> 'f search \<Rightarrow> bool" where
  "sim_inv c Z s0 k b rt e T s \<longleftrightarrow> (\<exists>d. tree_ok (s_heap s) rt T d) \<and> played Z s0 k b rt (s_heap s) \<and>
     flights_ok Z b rt T (s_flying s) (s_heap s) \<and> losses_ok rt e T (s_flying s) (s_heap s) \<and>
     sizes_ok T (s_heap s) \<and> visits_ok c Z b rt T (s_heap s)"

lemma sim_invI:
  "s_heap s = h \<Longrightarrow> tree_ok h rt T d \<Longrightarrow> s_flying s = fl \<Longrightarrow> played Z s0 k b rt h \<Longrightarrow> flights_ok Z b rt T fl h \<Longrightarrow>
   losses_ok rt e T fl h \<Longrightarrow> sizes_ok T h \<Longrightarrow> visits_ok c Z b rt T h \<Longrightarrow> sim_inv c Z s0 k b rt e T s"
  unfolding sim_inv_def by blast

lemma search_fields:
  "s_heap (s\<lparr>s_heap := h, s_flying := fl\<rparr>) = h" "s_flying (s\<lparr>s_heap := h, s_flying := fl\<rparr>) = fl"
  by simp_all

subsection \<open>What keeps it\<close>

text \<open>Outside the tree nothing changes.\<close>

definition frame :: "addr set \<Rightarrow> 'f heap \<Rightarrow> addr set \<Rightarrow> 'f heap \<Rightarrow> bool" where
  "frame T h T' h' \<longleftrightarrow> (\<forall>a\<in>h_live h - T. h_node h' a = h_node h a) \<and> h_live h' - T' = h_live h - T"

lemma frame_refl [simp]: "frame T h T h"
  by (simp add: frame_def)

lemma frame_trans: "frame T h T1 h1 \<Longrightarrow> frame T1 h1 T2 h2 \<Longrightarrow> frame T h T2 h2"
  unfolding frame_def by simp

lemma frame_upd: "n \<in> T \<Longrightarrow> frame T h T (upd n f h)"
  by (auto simp: frame_def)

lemma frame_touch: "set p \<subseteq> T \<Longrightarrow> frame T h T (touch f p h)"
proof (induction p arbitrary: h)
  case (Cons n p)
  then show ?case using frame_trans [OF frame_upd [of n T h f]] by simp
qed simp

lemma frame_backed_up: "set p \<subseteq> T \<Longrightarrow> frame T h T (backed_up len v p h)"
proof (induction p arbitrary: h v)
  case (Cons n p)
  then show ?case using frame_trans [OF frame_upd [of n T h "backup_node len v"]] by simp
qed simp

lemma on_way_same:
  assumes "tree_ok h r T d" and "tree_ok h' r T' d'" and "\<And>p. seg h r p \<Longrightarrow> seg h' r p" and "n \<in> T"
  shows "on_way h' a n = on_way h a n"
proof -
  from way_exists [OF assms(1,4)] obtain p where "seg h r p" "last (r # p) = n" by blast
  with tree_way(2) [OF assms(1), of p a] tree_way(2) [OF assms(2) assms(3), of p a] show ?thesis by simp
qed

lemma same_links_mv: "same_links h h' \<Longrightarrow> mv h' a = mv h a"
  by (simp add: same_links_def)

lemma played_cong: "same_links h h' \<Longrightarrow> played Z s0 k b rt h' = played Z s0 k b rt h"
  unfolding played_def by (simp add: seg_cong same_links_mv)

lemma played_fits: "played Z s0 k b rt h \<Longrightarrow> fits h Z rt b"
  unfolding played_def fits_def by blast

lemma at_node_mono:
  "at_node Z b rt h n b' \<Longrightarrow> (\<And>p. seg h rt p \<Longrightarrow> seg h' rt p \<and> map (mv h') p = map (mv h) p) \<Longrightarrow> at_node Z b rt h' n b'"
  unfolding at_node_def by metis

lemma at_node_cong: "same_links h h' \<Longrightarrow> at_node Z b rt h' n b' = at_node Z b rt h n b'"
  unfolding at_node_def by (simp add: seg_cong same_links_mv)

lemma wrap32_sum: "finite S \<Longrightarrow> wrap32 (a + (\<Sum>c\<in>S. wrap32 (f c))) = wrap32 (a + (\<Sum>c\<in>S. f c))"
proof (induction S arbitrary: a rule: finite_induct)
  case (insert x S)
  have "wrap32 (a + (\<Sum>c\<in>insert x S. wrap32 (f c))) = wrap32 (wrap32 (f x) + (a + (\<Sum>c\<in>S. wrap32 (f c))))"
    using insert.hyps by (simp add: ac_simps)
  also have "\<dots> = wrap32 ((f x + a) + (\<Sum>c\<in>S. wrap32 (f c)))" by (simp only: wrap32_add add.assoc)
  also have "\<dots> = wrap32 ((f x + a) + (\<Sum>c\<in>S. f c))" by (rule insert.IH)
  finally show ?case using insert.hyps by (simp add: ac_simps)
qed simp

lemma wrap32_idem [simp]: "wrap32 (wrap32 a) = wrap32 a"
  using wrap32_add(1) [of a 0] by simp

text \<open>Adding \<open>x\<close> along a way adds it once below every node of the way but the last.\<close>

lemma way_sum:
  assumes ok: "tree_ok h rt T d" and p: "seg h rt p" and n: "n \<in> T"
    and g: "\<And>c. c \<in> set (kids h n) \<Longrightarrow> g' c = wrap32 (g c + (if c \<in> set (rt # p) then x else 0))"
  shows "wrap32 (1 + (\<Sum>c\<in>set (kids h n). g' c)) =
    wrap32 (1 + (\<Sum>c\<in>set (kids h n). g c) + (if n \<in> set (rt # p) \<and> n \<noteq> last (rt # p) then x else 0))"
proof -
  let ?K = "set (kids h n)"
  have "rt \<notin> ?K" using tree_okD(7,8) [OF ok] n by fastforce
  then have "?K \<inter> set (rt # p) = ?K \<inter> set p" by auto
  with seg_kids [OF ok tree_okD(2) [OF ok] p n]
  have c: "card (?K \<inter> set (rt # p)) = (if n \<in> set (rt # p) \<and> n \<noteq> last (rt # p) then 1 else 0)" by simp
  have "(\<Sum>c\<in>?K. g c + (if c \<in> set (rt # p) then x else 0)) = (\<Sum>c\<in>?K. g c) + (\<Sum>c\<in>?K \<inter> set (rt # p). x)"
    by (simp only: sum.distrib sum.inter_restrict finite_set)
  also have "(\<Sum>c\<in>?K \<inter> set (rt # p). x) = (if n \<in> set (rt # p) \<and> n \<noteq> last (rt # p) then x else 0)"
    unfolding sum_constant c by simp
  finally have "(\<Sum>c\<in>?K. g c + (if c \<in> set (rt # p) then x else 0)) =
    (\<Sum>c\<in>?K. g c) + (if n \<in> set (rt # p) \<and> n \<noteq> last (rt # p) then x else 0)" .
  moreover have "(\<Sum>c\<in>?K. g' c) = (\<Sum>c\<in>?K. wrap32 (g c + (if c \<in> set (rt # p) then x else 0)))"
    by (rule sum.cong) (use g in auto)
  ultimately show ?thesis by (simp only: wrap32_sum [OF finite_set] ac_simps)
qed

lemma undo_after_select:
  assumes ok: "tree_ok h rt T d" and p: "seg h rt p"
    and range: "\<And>a. a \<in> set (rt # p) \<Longrightarrow> virtual_loss_count (h_node h a) = wrap32 (w a)"
  shows "UndoVirtualLoss (last (rt # p)) (touch vl_add (rt # p) h) = Some h"
proof -
  let ?h = "touch vl_add (rt # p) h"
  have links: "same_links h ?h" by (rule touch_links [OF keeps_vl(1)])
  have dist: "distinct (rt # p)" using seg_tree [OF ok tree_okD(2) [OF ok] p] by blast
  have "up ?h (rev (rt # p))"
    using seg_up [of ?h rt T d p] tree_ok_cong [OF links] seg_cong [OF links] ok p by simp
  from undo_up [OF this] have "UndoVirtualLoss (last (rt # p)) ?h = Some (touch remove_virtual_loss (rev (rt # p)) ?h)"
    by (simp only: hd_rev)
  moreover have "h_node (touch remove_virtual_loss (rev (rt # p)) ?h) a = h_node h a" for a
  proof -
    have "distinct (rev (rt # p))" using dist by (simp only: distinct_rev)
    then have "h_node (touch remove_virtual_loss (rev (rt # p)) ?h) a =
        (if a \<in> set (rt # p) then remove_virtual_loss (h_node ?h a) else h_node ?h a)"
      by (simp only: touch_node set_rev)
    then have "h_node (touch remove_virtual_loss (rev (rt # p)) ?h) a =
        (if a \<in> set (rt # p) then remove_virtual_loss (vl_add (h_node h a)) else h_node h a)"
      unfolding touch_node [OF dist, of vl_add h a] by presburger
    then show ?thesis using range by (auto simp: remove_virtual_loss_def)
  qed
  ultimately show ?thesis by (simp add: heap.equality fun_eq_iff del: touch_simps)
qed

lemma sizes_cong:
  "same_links h h' \<Longrightarrow> (\<And>a. node_size (h_node h' a) = node_size (h_node h a)) \<Longrightarrow> sizes_ok T h' = sizes_ok T h"
  by (simp add: sizes_ok_def same_links_kids)

lemma visits_cong:
  "same_links h h' \<Longrightarrow> (\<And>a. visit_count (h_node h' a) = visit_count (h_node h a)) \<Longrightarrow>
   visits_ok c Z b rt T h' = visits_ok c Z b rt T h"
  by (simp add: visits_ok_def same_links_kids at_node_cong) (simp add: same_links_def)

lemma flights_in_tree: "flights_ok Z b rt T fl h \<Longrightarrow> f \<in> set fl \<Longrightarrow> fst f \<in> T"
  unfolding flights_ok_def by blast

lemma losses_add:
  assumes "losses_ok rt e T fl h" and ok: "tree_ok h rt T d" "tree_ok h' rt T' d'" and mono: "\<And>p. seg h rt p \<Longrightarrow> seg h' rt p"
    and fl: "fst ` set fl \<subseteq> T" and p: "seg h rt p"
    and v: "\<And>a. a \<in> T \<Longrightarrow> virtual_loss_count (h_node h' a) =
      (if a \<in> set (rt # p) then wrap32 (virtual_loss_count (h_node h a) + 1) else virtual_loss_count (h_node h a))"
  shows "losses_ok rt e T (fl @ [(last (rt # p), b')]) h'"
proof -
  have "last (rt # p) \<in> T" using seg_tree [OF ok(1) tree_okD(2) [OF ok(1)] p] by auto
  note same = on_way_same [OF ok mono]
  have "filter (\<lambda>f. on_way h' a (fst f)) fl = filter (\<lambda>f. on_way h a (fst f)) fl" for a
    by (rule filter_cong) (use same fl in auto)
  moreover have "on_way h' a (last (rt # p)) \<longleftrightarrow> a \<in> set (rt # p)" for a
    by (rule tree_way(2) [OF ok(2) mono [OF p]])
  ultimately show ?thesis
    using assms(1) v by (simp add: losses_ok_def ac_simps del: last.simps list.set(2))
qed

lemma losses_remove:
  assumes "losses_ok rt e T (fs @ (n, b') # gs) h" and ok: "tree_ok h rt T d" "tree_ok h' rt T' d'"
    and mono: "\<And>p. seg h rt p \<Longrightarrow> seg h' rt p"
    and fl: "fst ` set (fs @ (n, b') # gs) \<subseteq> T" and p: "seg h rt p" "last (rt # p) = n"
    and v: "\<And>a. a \<in> T \<Longrightarrow> virtual_loss_count (h_node h' a) =
      (if a \<in> set (rt # p) then wrap32 (virtual_loss_count (h_node h a) - 1) else virtual_loss_count (h_node h a))"
  shows "losses_ok rt e T (fs @ gs) h'"
proof -
  note same = on_way_same [OF ok mono]
  have "filter (\<lambda>f. on_way h' a (fst f)) fl = filter (\<lambda>f. on_way h a (fst f)) fl" if "fst ` set fl \<subseteq> T" for a fl
    by (rule filter_cong) (use same that in auto)
  moreover have "fst ` set (fs @ gs) \<subseteq> T" using fl by auto
  ultimately have
    "filter (\<lambda>f. on_way h' a (fst f)) (fs @ gs) = filter (\<lambda>f. on_way h a (fst f)) (fs @ gs)" for a
    by blast
  moreover have "on_way h a n \<longleftrightarrow> a \<in> set (rt # p)" for a using tree_way(2) [OF ok(1) p(1)] p(2) by simp
  ultimately show ?thesis
    using assms(1) v by (simp add: losses_ok_def algebra_simps del: list.set(2) filter_append) (simp add: ac_simps)
qed

lemma same_links_state:
  "expand_state (h_node h n) \<noteq> k_expanded \<Longrightarrow> e \<noteq> k_expanded \<Longrightarrow> same_links h (set_state e n h)"
  by (simp add: same_links_def set_state_def)

lemma set_state_node [simp]:
  "h_node (set_state e n h) a = (if a = n then (h_node h n)\<lparr>expand_state := e\<rparr> else h_node h a)"
  by (simp add: set_state_def)

lemma losses_range: "losses_ok rt e T fl h \<Longrightarrow> a \<in> T \<Longrightarrow> \<exists>x. virtual_loss_count (h_node h a) = wrap32 x"
  unfolding losses_ok_def by blast

lemma flights_add:
  assumes fl: "flights_ok Z b rt T fl h"
    and new: "{x \<in> T. expand_state (h_node h' x) = k_expanding} = insert n {x \<in> T. expand_state (h_node h x) = k_expanding}"
      "n \<notin> fst ` set fl" "at_node Z b rt h' n b'"
    and old: "\<And>x y. at_node Z b rt h x y \<Longrightarrow> at_node Z b rt h' x y"
  shows "flights_ok Z b rt T (fl @ [(n, b')]) h'"
  using fl new old unfolding flights_ok_def by (simp only: map_append distinct_append) auto

lemma begin_ok:
  assumes inv: "sim_inv c Z s0 k b rt e T s"
  shows "\<exists>s'. begin_simulation A c Z rt b s = Some s' \<and> sim_inv c Z s0 k b rt e T s' \<and>
    s_counter s' = s_counter s \<and> s_running s' = s_running s \<and> length (s_flying s') \<le> Suc (length (s_flying s)) \<and>
    frame T (s_heap s) T (s_heap s')"
proof -
  let ?h = "s_heap s" and ?fl = "s_flying s"
  from inv obtain d where ok: "tree_ok ?h rt T d" and pl: "played Z s0 k b rt ?h" and fl: "flights_ok Z b rt T ?fl ?h"
    and vl: "losses_ok rt e T ?fl ?h" and sz: "sizes_ok T ?h" and vs: "visits_ok c Z b rt T ?h"
    unfolding sim_inv_def by blast
  from Select_spec [OF ok played_fits [OF pl], of A c] obtain p b' where p: "seg ?h rt p"
    "play_moves Z (map (mv ?h) p) b = Some b'" "expand_state (h_node ?h (last (rt # p))) \<noteq> k_expanded"
    "Select A c Z rt b ?h = Some (last (rt # p), b', touch vl_add (rt # p) ?h)" by blast
  let ?n = "last (rt # p)" and ?h1 = "touch vl_add (rt # p) ?h"
  from seg_tree [OF ok tree_okD(2) [OF ok] p(1)] have sub: "set (rt # p) \<subseteq> T" and dist: "distinct (rt # p)" by blast+
  have nT: "?n \<in> T" using sub by auto
  note node = touch_node [OF dist, of vl_add ?h]
  have links: "same_links ?h ?h1" by (rule touch_links [OF keeps_vl(1)])
  show ?thesis
  proof (cases "expand_state (h_node ?h1 ?n) = k_unexpanded")
    case False
    from losses_range [OF vl] sub have "\<exists>w. \<forall>a\<in>set (rt # p). virtual_loss_count (h_node ?h a) = wrap32 (w a)"
      by (intro bchoice) blast
    then obtain w where "\<And>a. a \<in> set (rt # p) \<Longrightarrow> virtual_loss_count (h_node ?h a) = wrap32 (w a)" by blast
    from undo_after_select [OF ok p(1) this] have "UndoVirtualLoss ?n ?h1 = Some ?h" .
    with False p(4) have "begin_simulation A c Z rt b s = Some s"
      by (simp add: begin_simulation_def del: touch_simps last.simps)
    with inv show ?thesis by simp
  next
    case True
    let ?h2 = "set_state k_expanding ?n ?h1" and ?fl2 = "?fl @ [(?n, b')]"
    have links2: "same_links ?h ?h2"
      using True by (intro same_links_trans [OF links same_links_state]) simp_all
    have unexp: "expand_state (h_node ?h ?n) = k_unexpanded" using True unfolding node by (simp split: if_splits)
    from p(4) True have s': "begin_simulation A c Z rt b s = Some (s\<lparr>s_heap := ?h2, s_flying := ?fl2\<rparr>)"
      by (simp add: begin_simulation_def del: touch_simps last.simps)
    have ok2: "tree_ok ?h2 rt T d" using ok by (simp only: tree_ok_cong [OF links2])
    have mono: "seg ?h rt q \<Longrightarrow> seg ?h2 rt q" for q by (simp only: seg_cong [OF links2])
    have "fst ` set ?fl \<subseteq> T" using flights_in_tree [OF fl] by blast
    from losses_add [OF vl ok ok2 mono this p(1)] have "losses_ok rt e T ?fl2 ?h2"
      by (simp add: node del: touch_simps last.simps list.set(2))
    moreover have "flights_ok Z b rt T ?fl2 ?h2"
    proof -
      have "expand_state (h_node ?h2 a) = (if a = ?n then k_expanding else expand_state (h_node ?h a))" for a
        by (simp add: node del: touch_simps last.simps)
      then have 1: "{x \<in> T. expand_state (h_node ?h2 x) = k_expanding} = insert ?n {x \<in> T. expand_state (h_node ?h x) = k_expanding}"
        using nT by auto
      have 2: "?n \<notin> fst ` set ?fl"
      proof -
        have "?n \<notin> {n \<in> T. expand_state (h_node ?h n) = k_expanding}" using unexp by (simp del: last.simps)
        then show ?thesis using fl unfolding flights_ok_def by metis
      qed
      have 3: "at_node Z b rt ?h2 ?n b'"
        unfolding at_node_cong [OF links2] unfolding at_node_def using p(1,2) by blast
      have "at_node Z b rt ?h x y \<Longrightarrow> at_node Z b rt ?h2 x y" for x y by (simp only: at_node_cong [OF links2])
      from flights_add [OF fl 1 2 3 this] show ?thesis .
    qed
    moreover have "sizes_ok T ?h2 = sizes_ok T ?h"
      by (rule sizes_cong [OF links2]) (simp add: node del: touch_simps last.simps)
    moreover have "visits_ok c Z b rt T ?h2 = visits_ok c Z b rt T ?h"
      by (rule visits_cong [OF links2]) (simp add: node del: touch_simps last.simps)
    moreover have "played Z s0 k b rt ?h2" using pl by (simp only: played_cong [OF links2])
    ultimately have "sim_inv c Z s0 k b rt e T (s\<lparr>s_heap := ?h2, s_flying := ?fl2\<rparr>)"
      using ok2 sz vs by (intro sim_invI [where h = ?h2 and fl = ?fl2 and d = d]) (simp_all only: search_fields)
    moreover have "frame T ?h T ?h2"
      unfolding set_state_def by (rule frame_trans [OF frame_touch [OF sub] frame_upd [OF nT]])
    ultimately show ?thesis using s' by simp
  qed
qed

lemma flights_remove:
  assumes fl: "flights_ok Z b rt T (fs @ (n, b') # gs) h"
    and new: "{x \<in> T'. expand_state (h_node h' x) = k_expanding} = {x \<in> T. expand_state (h_node h x) = k_expanding} - {n}"
    and old: "\<And>x y. at_node Z b rt h x y \<Longrightarrow> at_node Z b rt h' x y"
  shows "flights_ok Z b rt T' (fs @ gs) h'"
proof -
  from fl have d: "distinct (map fst (fs @ (n, b') # gs))" and at: "\<And>x y. (x, y) \<in> set (fs @ gs) \<Longrightarrow> at_node Z b rt h x y"
    and e: "{x \<in> T. expand_state (h_node h x) = k_expanding} = fst ` set (fs @ (n, b') # gs)"
    by (auto simp: flights_ok_def)
  have "fst ` set (fs @ (n, b') # gs) - {n} = fst ` set (fs @ gs)" using d by auto
  then show ?thesis using d at old unfolding flights_ok_def new e by auto
qed

text \<open>A flight and its way.\<close>

lemma flight_way:
  assumes ok: "tree_ok h rt T d" and fl: "flights_ok Z b rt T (fs @ (n, b') # gs) h"
  obtains p where "seg h rt p" "last (rt # p) = n" "play_moves Z (map (mv h) p) b = Some b'" "set (rt # p) \<subseteq> T"
    "distinct (rt # p)" "n \<in> T" "expand_state (h_node h n) = k_expanding" "kids h n = []"
proof -
  have "at_node Z b rt h n b'" using fl by (simp add: flights_ok_def)
  then obtain p where p: "seg h rt p" "last (rt # p) = n" "play_moves Z (map (mv h) p) b = Some b'"
    unfolding at_node_def by blast
  from seg_tree [OF ok tree_okD(2) [OF ok] p(1)] have s: "set (rt # p) \<subseteq> T" "distinct (rt # p)" by blast+
  have "n \<in> fst ` set (fs @ (n, b') # gs)" by simp
  then have n: "n \<in> T" "expand_state (h_node h n) = k_expanding" using fl unfolding flights_ok_def by blast+
  with tree_okD(10,11) [OF ok n(1)] have "kids h n = []" by (simp add: kids_def)
  with that p s n show thesis by blast
qed

lemma Backup_result:
  assumes ok: "tree_ok h rt T d" and p: "seg h rt p" "last (rt # p) = n"
  shows "\<exists>h'. Backup A n v len h = Some h' \<and> same_links h h' \<and>
    (\<forall>a. expand_state (h_node h' a) = expand_state (h_node h a) \<and>
      node_size (h_node h' a) = (if a \<in> set (rt # p) then wrap32 (node_size (h_node h a) + len) else node_size (h_node h a)) \<and>
      visit_count (h_node h' a) = (if a \<in> set (rt # p) then wrap32 (visit_count (h_node h a) + 1) else visit_count (h_node h a)) \<and>
      virtual_loss_count (h_node h' a) =
        (if a \<in> set (rt # p) then wrap32 (virtual_loss_count (h_node h a) - 1) else virtual_loss_count (h_node h a))) \<and>
    frame T h T h'"
proof -
  let ?h = "upd n (\<lambda>x. x\<lparr>node_value := v\<rparr>) h" and ?w = "f_scale A k_action_value_base v" and ?P = "rev (rt # p)"
  have links: "same_links h ?h" by (rule same_links_upd) (simp add: keeps_links_def)
  have "up ?h ?P" using seg_up [of ?h rt T d p] ok p(1) tree_ok_cong [OF links] seg_cong [OF links] by simp
  moreover have hd: "hd ?P = n" using p(2) by (simp only: hd_rev)
  ultimately have b: "Backup A n v len h = Some (backed_up len ?w ?P ?h)"
    using backup_up [of ?h ?P len ?w] by (simp only: Backup_def)
  have dist: "distinct ?P" using seg_tree [OF ok tree_okD(2) [OF ok] p(1)] by (simp only: distinct_rev)
  have node: "\<exists>w. h_node (backed_up len ?w ?P ?h) a = backup_node len w (h_node ?h a)" if "a \<in> set ?P" for a
  proof -
    from that obtain k where "k < length ?P" "?P ! k = a" unfolding in_set_conv_nth by blast
    with backed_up_node [OF dist this(1), of len ?w ?h] show ?thesis by metis
  qed
  have set: "set ?P = set (rt # p)" by (rule set_rev)
  have on: "expand_state (h_node (backed_up len ?w ?P ?h) a) = expand_state (h_node h a) \<and>
      node_size (h_node (backed_up len ?w ?P ?h) a) = wrap32 (node_size (h_node h a) + len) \<and>
      visit_count (h_node (backed_up len ?w ?P ?h) a) = wrap32 (visit_count (h_node h a) + 1) \<and>
      virtual_loss_count (h_node (backed_up len ?w ?P ?h) a) = wrap32 (virtual_loss_count (h_node h a) - 1)"
    if "a \<in> set (rt # p)" for a
    using node [of a] that unfolding set by (auto simp: backup_node_def)
  have off: "h_node (backed_up len ?w ?P ?h) a = h_node h a" if "a \<notin> set (rt # p)" for a
  proof -
    have "n \<in> set (rt # p)" unfolding p(2) [symmetric] by (rule last_in_set) simp
    then have "a \<noteq> n" using that by blast
    with backed_up_other [of a ?P len ?w ?h] that show ?thesis unfolding set by simp
  qed
  have "expand_state (h_node (backed_up len ?w ?P ?h) a) = expand_state (h_node h a) \<and>
      node_size (h_node (backed_up len ?w ?P ?h) a) =
        (if a \<in> set (rt # p) then wrap32 (node_size (h_node h a) + len) else node_size (h_node h a)) \<and>
      visit_count (h_node (backed_up len ?w ?P ?h) a) =
        (if a \<in> set (rt # p) then wrap32 (visit_count (h_node h a) + 1) else visit_count (h_node h a)) \<and>
      virtual_loss_count (h_node (backed_up len ?w ?P ?h) a) =
        (if a \<in> set (rt # p) then wrap32 (virtual_loss_count (h_node h a) - 1) else virtual_loss_count (h_node h a))" for a
    using on [of a] off [of a] by (cases "a \<in> set (rt # p)") (simp_all only: if_True if_False simp_thms)
  moreover have "frame T h T (backed_up len ?w ?P ?h)"
  proof -
    have "n \<in> set (rt # p)" unfolding p(2) [symmetric] by (rule last_in_set) simp
    with seg_tree [OF ok tree_okD(2) [OF ok] p(1)] have "n \<in> T" "set ?P \<subseteq> T" unfolding set by blast+
    then show ?thesis by (rule frame_trans [OF frame_upd frame_backed_up])
  qed
  ultimately show ?thesis using b same_links_trans [OF links backed_up_links] by blast
qed

lemma answer_failed:
  assumes inv: "sim_inv c Z s0 k b rt e T s" and fl: "s_flying s = fs @ (n, b') # gs" and ret: "ret \<noteq> 0"
  shows "\<exists>s'. simulation_answer A c ne rt n b' ret policy v (s\<lparr>s_flying := fs @ gs\<rparr>) = Some s' \<and>
    sim_inv c Z s0 k b rt e T s' \<and> s_flying s' = fs @ gs \<and> s_counter s' = s_counter s \<and> s_running s' = s_running s \<and>
    frame T (s_heap s) T (s_heap s')"
proof -
  let ?h = "s_heap s"
  from inv fl obtain d where ok: "tree_ok ?h rt T d" and pl: "played Z s0 k b rt ?h"
    and fo: "flights_ok Z b rt T (fs @ (n, b') # gs) ?h" and vl: "losses_ok rt e T (fs @ (n, b') # gs) ?h"
    and sz: "sizes_ok T ?h" and vs: "visits_ok c Z b rt T ?h"
    unfolding sim_inv_def by auto
  from ok fo obtain p where p: "seg ?h rt p" "last (rt # p) = n" "set (rt # p) \<subseteq> T" "distinct (rt # p)" "n \<in> T"
    "expand_state (h_node ?h n) = k_expanding" by (rule flight_way)
  let ?hu = "set_state k_unexpanded n ?h"
  let ?h2 = "touch remove_virtual_loss (rev (rt # p)) ?hu"
  have l0: "same_links ?h ?hu" by (rule same_links_state) (simp_all add: p(6))
  have links: "same_links ?h ?h2" by (rule same_links_trans [OF l0 touch_links [OF keeps_vl(2)]])
  have "up ?hu (rev (rt # p))" using seg_up [of ?hu rt T d p] ok p(1) tree_ok_cong [OF l0] seg_cong [OF l0] by simp
  moreover have "hd (rev (rt # p)) = n" using p(2) by (simp only: hd_rev)
  ultimately have undo: "UndoVirtualLoss n ?hu = Some ?h2" using undo_up [of ?hu "rev (rt # p)"] by (simp only:)
  have "distinct (rev (rt # p))" using p(4) by (simp only: distinct_rev)
  from touch_node [OF this] have node: "h_node ?h2 a = (if a \<in> set (rt # p) then remove_virtual_loss (h_node ?hu a) else h_node ?hu a)" for a
    by (simp only: set_rev)
  have fields: "node_size (h_node ?h2 a) = node_size (h_node ?h a)" "visit_count (h_node ?h2 a) = visit_count (h_node ?h a)"
    "expand_state (h_node ?h2 a) = (if a = n then k_unexpanded else expand_state (h_node ?h a))"
    "virtual_loss_count (h_node ?h2 a) =
      (if a \<in> set (rt # p) then wrap32 (virtual_loss_count (h_node ?h a) - 1) else virtual_loss_count (h_node ?h a))" for a
    unfolding node by (auto simp: remove_virtual_loss_def)
  have ok2: "tree_ok ?h2 rt T d" using ok by (simp only: tree_ok_cong [OF links])
  have mono: "seg ?h rt q \<Longrightarrow> seg ?h2 rt q" for q by (simp only: seg_cong [OF links])
  have sub: "fst ` set (fs @ (n, b') # gs) \<subseteq> T" using flights_in_tree [OF fo] by blast
  note vl2 = losses_remove [OF vl ok ok2 mono sub p(1,2) fields(4)]
  have "{x \<in> T. expand_state (h_node ?h2 x) = k_expanding} = {x \<in> T. expand_state (h_node ?h x) = k_expanding} - {n}"
    unfolding fields by auto
  moreover have "at_node Z b rt ?h x y \<Longrightarrow> at_node Z b rt ?h2 x y" for x y by (simp only: at_node_cong [OF links])
  ultimately have fo2: "flights_ok Z b rt T (fs @ gs) ?h2" by (rule flights_remove [OF fo])
  have "sim_inv c Z s0 k b rt e T (s\<lparr>s_flying := fs @ gs, s_heap := ?h2\<rparr>)"
  proof (rule sim_invI [where d = d and h = ?h2 and fl = "fs @ gs"])
    show "played Z s0 k b rt ?h2" using pl by (simp only: played_cong [OF links])
    show "sizes_ok T ?h2" using sz sizes_cong [OF links fields(1)] by simp
    show "visits_ok c Z b rt T ?h2" using vs visits_cong [OF links fields(2)] by simp
  qed (use ok2 vl2 fo2 in simp_all)
  moreover have "set (rev (rt # p)) \<subseteq> T" using p(3) by (simp only: set_rev)
  then have "frame T ?h T ?h2"
    unfolding set_state_def by (rule frame_trans [OF frame_upd [OF p(5)] frame_touch])
  ultimately show ?thesis using undo ret by (simp add: simulation_answer_def)
qed

text \<open>A counter that a backup increases along the way still sums up.\<close>

lemma way_total:
  assumes ok: "tree_ok h rt T d" and p: "seg h rt p" "last (rt # p) = n" and x: "x \<in> T"
    and g: "\<And>c. c \<in> T \<Longrightarrow> wrap32 (g c) = g c"
    and g': "\<And>c. c \<in> T \<Longrightarrow> g' c = (if c \<in> set (rt # p) then wrap32 (g c + i) else g c)"
    and now: "wrap32 (1 + (\<Sum>c\<in>set (kids h x). g c)) = wrap32 (g x + (if x = n then i else 0))"
  shows "g' x = wrap32 (1 + (\<Sum>c\<in>set (kids h x). g' c))"
proof -
  have n: "n \<in> set (rt # p)" unfolding p(2) [symmetric] by (rule last_in_set) simp
  have "g' c = wrap32 (g c + (if c \<in> set (rt # p) then i else 0))" if "c \<in> set (kids h x)" for c
    using tree_okD(8) [OF ok x that] g [of c] g' [of c] by simp
  from way_sum [OF ok p(1) x this] have "wrap32 (1 + (\<Sum>c\<in>set (kids h x). g' c)) =
      wrap32 (1 + (\<Sum>c\<in>set (kids h x). g c) + (if x \<in> set (rt # p) \<and> x \<noteq> n then i else 0))" unfolding p(2) .
  also have "\<dots> = wrap32 (wrap32 (1 + (\<Sum>c\<in>set (kids h x). g c)) + (if x \<in> set (rt # p) \<and> x \<noteq> n then i else 0))"
    by (simp only: wrap32_add)
  also have "\<dots> = wrap32 (g x + (if x \<in> set (rt # p) then i else 0))"
    unfolding now wrap32_add using n by (cases "x = n") simp_all
  also have "\<dots> = g' x" using g [OF x] g' [OF x] by simp
  finally show ?thesis by simp
qed

text \<open>The answer of a successful evaluation, once the node is expanded: \<open>h1\<close> is the heap then.\<close>

lemma answer_backup:
  assumes ok: "tree_ok h1 rt T d" and pl: "played Z s0 k b rt h1" and fo: "flights_ok Z b rt T fl h1"
    and vl: "losses_ok rt e T ((n, b') # fl) h1" and fl: "fst ` set ((n, b') # fl) \<subseteq> T"
    and p: "seg h1 rt p" "last (rt # p) = n"
    and sz: "\<And>x. x \<in> T \<Longrightarrow> wrap32 (node_size (h_node h1 x)) = node_size (h_node h1 x) \<and>
      wrap32 (1 + (\<Sum>c\<in>set (kids h1 x). node_size (h_node h1 c))) = wrap32 (node_size (h_node h1 x) + (if x = n then len else 0))"
    and vs: "\<And>x. x \<in> T \<Longrightarrow> wrap32 (visit_count (h_node h1 x)) = visit_count (h_node h1 x)"
    and ex: "\<And>x. x \<in> T \<Longrightarrow> expand_state (h_node h1 x) = k_expanded \<Longrightarrow>
      wrap32 (1 + (\<Sum>c\<in>set (kids h1 x). visit_count (h_node h1 c))) =
        wrap32 (visit_count (h_node h1 x) + (if x = n then 1 else 0))"
    and un: "\<And>x. x \<in> T \<Longrightarrow> expand_state (h_node h1 x) \<noteq> k_expanded \<Longrightarrow> x \<noteq> n \<Longrightarrow> visit_count (h_node h1 x) = 0 \<or>
      \<not> disable_double_pass_scoring c \<and> (\<exists>b'. at_node Z b rt h1 x b' \<and> is_double_pass b')"
    and end_node: "expand_state (h_node h1 n) \<noteq> k_expanded \<Longrightarrow>
      \<not> disable_double_pass_scoring c \<and> (\<exists>b'. at_node Z b rt h1 n b' \<and> is_double_pass b')"
  shows "\<exists>h2. Backup A n v len h1 = Some h2 \<and> frame T h1 T h2 \<and>
    (\<forall>s. s_heap s = h2 \<longrightarrow> s_flying s = fl \<longrightarrow> sim_inv c Z s0 k b rt e T s)"
proof -
  let ?P = "set (rt # p)"
  from Backup_result [OF ok p, of A v len] obtain h2 where b: "Backup A n v len h1 = Some h2" and links: "same_links h1 h2"
    and f: "\<And>a. expand_state (h_node h2 a) = expand_state (h_node h1 a)"
      "\<And>a. node_size (h_node h2 a) = (if a \<in> ?P then wrap32 (node_size (h_node h1 a) + len) else node_size (h_node h1 a))"
      "\<And>a. visit_count (h_node h2 a) = (if a \<in> ?P then wrap32 (visit_count (h_node h1 a) + 1) else visit_count (h_node h1 a))"
      "\<And>a. virtual_loss_count (h_node h2 a) =
        (if a \<in> ?P then wrap32 (virtual_loss_count (h_node h1 a) - 1) else virtual_loss_count (h_node h1 a))"
      "frame T h1 T h2"
    by blast
  have ok2: "tree_ok h2 rt T d" using ok by (simp only: tree_ok_cong [OF links])
  have mono: "seg h1 rt q \<Longrightarrow> seg h2 rt q" for q by (simp only: seg_cong [OF links])
  have at: "at_node Z b rt h2 = at_node Z b rt h1" by (intro ext) (rule at_node_cong [OF links])
  have vl2: "losses_ok rt e T fl h2"
    using losses_remove [of rt e T "[]" n b' fl h1, OF _ ok ok2 mono _ p f(4)] vl fl by simp
  have fo2: "flights_ok Z b rt T fl h2" using fo unfolding flights_ok_def f(1) at .
  have sz2: "sizes_ok T h2"
    unfolding sizes_ok_def same_links_kids [OF links]
    by (intro ballI way_total [OF ok p _ _ f(2)]) (use sz in blast)+
  have "visits_ok c Z b rt T h2" unfolding visits_ok_def f(1) at same_links_kids [OF links]
  proof (intro ballI conjI)
    fix x assume x: "x \<in> T"
    show "wrap32 (visit_count (h_node h2 x)) = visit_count (h_node h2 x)" using f(3) vs [OF x] by simp
    show "if expand_state (h_node h1 x) = k_expanded
      then visit_count (h_node h2 x) = wrap32 (1 + (\<Sum>k\<in>set (kids h1 x). visit_count (h_node h2 k)))
      else visit_count (h_node h2 x) = 0 \<or> \<not> disable_double_pass_scoring c \<and> (\<exists>b'. at_node Z b rt h1 x b' \<and> is_double_pass b')"
    proof (cases "expand_state (h_node h1 x) = k_expanded")
      case True
      with way_total [OF ok p x vs f(3)] ex [OF x] show ?thesis by simp
    next
      case False
      have "x \<notin> ?P" if "x \<noteq> n"
      proof
        assume "x \<in> ?P"
        with seg_kids [OF ok tree_okD(2) [OF ok] p(1) x] p(2) that have "card (set (kids h1 x) \<inter> set p) = 1" by simp
        then have "kids h1 x \<noteq> []" by auto
        then have "0 < ch_len (h_node h1 x)" using tree_okD(10) [OF ok x] by (auto simp: kids_def)
        with tree_okD(11) [OF ok x] False show False by simp
      qed
      with un [OF x False] end_node False f(3) [of x] show ?thesis by (cases "x = n") auto
    qed
  qed
  moreover have "played Z s0 k b rt h2" using pl by (simp only: played_cong [OF links])
  ultimately show ?thesis using b ok2 vl2 fo2 sz2 f(5) by (blast intro: sim_invI)
qed

lemma losses_frame:
  assumes "losses_ok rt e T (fs @ (n, b') # gs) h" and ok: "tree_ok h rt T d" "tree_ok h' rt T' d'"
    and mono: "\<And>p. seg h rt p \<Longrightarrow> seg h' rt p" and fl: "fst ` set (fs @ (n, b') # gs) \<subseteq> T"
    and v: "\<And>a. a \<in> T \<Longrightarrow> virtual_loss_count (h_node h' a) = virtual_loss_count (h_node h a)"
  shows "losses_ok rt e T ((n, b') # fs @ gs) h'"
proof -
  have "filter (\<lambda>f. on_way h' a (fst f)) (fs @ (n, b') # gs) = filter (\<lambda>f. on_way h a (fst f)) (fs @ (n, b') # gs)" for a
    by (rule filter_cong) (use on_way_same [OF ok mono] fl in auto)
  moreover have "length (filter P (x # fs @ gs)) = length (filter P (fs @ x # gs))" for P x by simp
  ultimately show ?thesis using assms(1) v unfolding losses_ok_def by metis
qed

text \<open>The counters after an answer.\<close>

abbreviation answered_state :: "'f MCTSConfig \<Rightarrow> addr \<Rightarrow> (addr \<times> GoState) list \<Rightarrow> 'f heap \<Rightarrow> 'f search \<Rightarrow> 'f search" where
  "answered_state c rt fl h s \<equiv> s\<lparr>s_flying := fl, s_heap := h, s_counter := wrap32 (s_counter s + 1),
     s_running := s_running s \<and> \<not> (max_simulations_per_step c > 0 \<and> wrap32 (s_counter s + 1) > max_simulations_per_step c) \<and>
       \<not> node_size (h_node h rt) > max_search_tree_size c\<rparr>"

lemma answer_scored:
  assumes inv: "sim_inv c Z s0 k b rt e T s" and fl: "s_flying s = fs @ (n, b') # gs"
    and dp: "\<not> disable_double_pass_scoring c" "is_double_pass b'"
  shows "\<exists>h2. simulation_answer A c ne rt n b' 0 policy v (s\<lparr>s_flying := fs @ gs\<rparr>) = Some (answered_state c rt (fs @ gs) h2 s) \<and>
    sim_inv c Z s0 k b rt e T (answered_state c rt (fs @ gs) h2 s) \<and> frame T (s_heap s) T h2"
proof -
  let ?h = "s_heap s"
  from inv fl obtain d where ok: "tree_ok ?h rt T d" and pl: "played Z s0 k b rt ?h"
    and fo: "flights_ok Z b rt T (fs @ (n, b') # gs) ?h" and vl: "losses_ok rt e T (fs @ (n, b') # gs) ?h"
    and sz: "sizes_ok T ?h" and vs: "visits_ok c Z b rt T ?h"
    unfolding sim_inv_def by auto
  from ok fo obtain p where p: "seg ?h rt p" "last (rt # p) = n" "n \<in> T" "expand_state (h_node ?h n) = k_expanding"
    by (rule flight_way)
  let ?h1 = "set_state k_unexpanded n ?h"
  have links: "same_links ?h ?h1" by (rule same_links_state) (simp_all add: p(4))
  have at: "at_node Z b rt ?h1 = at_node Z b rt ?h" by (intro ext) (rule at_node_cong [OF links])
  have ok1: "tree_ok ?h1 rt T d" using ok by (simp only: tree_ok_cong [OF links])
  have mono: "seg ?h rt q \<Longrightarrow> seg ?h1 rt q" for q by (simp only: seg_cong [OF links])
  have sub: "fst ` set (fs @ (n, b') # gs) \<subseteq> T" using flights_in_tree [OF fo] by blast
  have fields: "node_size (h_node ?h1 x) = node_size (h_node ?h x)" "visit_count (h_node ?h1 x) = visit_count (h_node ?h x)"
    "virtual_loss_count (h_node ?h1 x) = virtual_loss_count (h_node ?h x)"
    "expand_state (h_node ?h1 x) = (if x = n then k_unexpanded else expand_state (h_node ?h x))" for x by simp_all
  have st: "{x \<in> T. expand_state (h_node ?h1 x) = k_expanding} = {x \<in> T. expand_state (h_node ?h x) = k_expanding} - {n}"
    by auto
  have "\<exists>h2. Backup A n v 0 ?h1 = Some h2 \<and> frame T ?h1 T h2 \<and> (\<forall>s. s_heap s = h2 \<longrightarrow> s_flying s = fs @ gs \<longrightarrow> sim_inv c Z s0 k b rt e T s)"
  proof (rule answer_backup [OF ok1 _ _ losses_frame [OF vl ok ok1 mono sub fields(3)] _ _ p(2)])
    show "played Z s0 k b rt ?h1" using pl by (simp only: played_cong [OF links])
    show "flights_ok Z b rt T (fs @ gs) ?h1" by (rule flights_remove [OF fo st]) (simp only: at)
    show "fst ` set ((n, b') # fs @ gs) \<subseteq> T" using sub by auto
    show "seg ?h1 rt p" by (rule mono [OF p(1)])
    fix x assume x: "x \<in> T"
    show "wrap32 (node_size (h_node ?h1 x)) = node_size (h_node ?h1 x) \<and>
        wrap32 (1 + (\<Sum>c\<in>set (kids ?h1 x). node_size (h_node ?h1 c))) =
          wrap32 (node_size (h_node ?h1 x) + (if x = n then 0 else 0))"
      using sz x unfolding same_links_kids [OF links] fields sizes_ok_def by (metis wrap32_idem add.right_neutral)
    have v: "wrap32 (visit_count (h_node ?h x)) = visit_count (h_node ?h x)"
      "expand_state (h_node ?h x) = k_expanded \<Longrightarrow>
        visit_count (h_node ?h x) = wrap32 (1 + (\<Sum>k\<in>set (kids ?h x). visit_count (h_node ?h k)))"
      "expand_state (h_node ?h x) \<noteq> k_expanded \<Longrightarrow> visit_count (h_node ?h x) = 0 \<or>
        \<not> disable_double_pass_scoring c \<and> (\<exists>b'. at_node Z b rt ?h x b' \<and> is_double_pass b')"
      using vs x unfolding visits_ok_def by metis+
    show "wrap32 (visit_count (h_node ?h1 x)) = visit_count (h_node ?h1 x)" unfolding fields by (rule v(1))
    { assume "expand_state (h_node ?h1 x) = k_expanded"
      then have "x \<noteq> n" "expand_state (h_node ?h x) = k_expanded" by (auto split: if_splits)
      with v(2) show "wrap32 (1 + (\<Sum>c\<in>set (kids ?h1 x). visit_count (h_node ?h1 c))) =
          wrap32 (visit_count (h_node ?h1 x) + (if x = n then 1 else 0))"
        unfolding same_links_kids [OF links] fields by (simp only: wrap32_idem add_0_right if_False) }
    { assume "expand_state (h_node ?h1 x) \<noteq> k_expanded" "x \<noteq> n"
      then show "visit_count (h_node ?h1 x) = 0 \<or>
          \<not> disable_double_pass_scoring c \<and> (\<exists>b'. at_node Z b rt ?h1 x b' \<and> is_double_pass b')"
        using v(3) unfolding at fields by simp }
  next
    have "at_node Z b rt ?h n b'" using fo by (simp add: flights_ok_def)
    then show "\<not> disable_double_pass_scoring c \<and> (\<exists>b'. at_node Z b rt ?h1 n b' \<and> is_double_pass b')"
      unfolding at using dp by blast
  qed
  then obtain h2 where h2: "Backup A n v 0 ?h1 = Some h2" and fr: "frame T ?h1 T h2"
    and inv': "\<And>s. s_heap s = h2 \<Longrightarrow> s_flying s = fs @ gs \<Longrightarrow> sim_inv c Z s0 k b rt e T s" by blast
  have "simulation_answer A c ne rt n b' 0 policy v (s\<lparr>s_flying := fs @ gs\<rparr>) = Some (answered_state c rt (fs @ gs) h2 s)"
    using h2 dp by (simp add: simulation_answer_def Expand_def set_state_def Let_def)
  moreover have "sim_inv c Z s0 k b rt e T (answered_state c rt (fs @ gs) h2 s)" by (rule inv') simp_all
  moreover have "frame T ?h T h2"
    by (rule frame_trans [OF _ fr]) (simp only: set_state_def frame_upd [OF p(3)])
  ultimately show ?thesis by blast
qed

text \<open>What an expansion of \<open>n\<close> changes: it opens the new nodes \<open>N\<close>.\<close>

definition opens :: "addr set \<Rightarrow> addr \<Rightarrow> addr set \<Rightarrow> 'f heap \<Rightarrow> 'f heap \<Rightarrow> bool" where
  "opens T n N h h' \<longleftrightarrow> T \<inter> N = {} \<and> n \<in> T \<and> kids h n = [] \<and> set (kids h' n) = N \<and>
     (\<forall>a\<in>N. node_size (h_node h' a) = 1 \<and> visit_count (h_node h' a) = 0 \<and> virtual_loss_count (h_node h' a) = 0 \<and>
       expand_state (h_node h' a) = k_unexpanded \<and> kids h' a = []) \<and>
     (\<forall>a\<in>T. node_size (h_node h' a) = node_size (h_node h a) \<and> visit_count (h_node h' a) = visit_count (h_node h a) \<and>
       virtual_loss_count (h_node h' a) = virtual_loss_count (h_node h a) \<and> mv h' a = mv h a \<and>
       expand_state (h_node h' a) = (if a = n then k_expanded else expand_state (h_node h a)) \<and>
       (a \<noteq> n \<longrightarrow> kids h' a = kids h a)) \<and> frame T h (T \<union> N) h'"

lemma opensD:
  assumes "opens T n N h h'"
  shows "T \<inter> N = {}" "n \<in> T" "kids h n = []" "set (kids h' n) = N"
    "\<And>a. a \<in> N \<Longrightarrow> node_size (h_node h' a) = 1 \<and> visit_count (h_node h' a) = 0 \<and> virtual_loss_count (h_node h' a) = 0 \<and>
       expand_state (h_node h' a) = k_unexpanded \<and> kids h' a = []"
    "\<And>a. a \<in> T \<Longrightarrow> node_size (h_node h' a) = node_size (h_node h a) \<and> visit_count (h_node h' a) = visit_count (h_node h a) \<and>
       virtual_loss_count (h_node h' a) = virtual_loss_count (h_node h a) \<and> mv h' a = mv h a \<and>
       expand_state (h_node h' a) = (if a = n then k_expanded else expand_state (h_node h a))"
    "\<And>a. a \<in> T \<Longrightarrow> a \<noteq> n \<Longrightarrow> kids h' a = kids h a" "frame T h (T \<union> N) h'"
  using assms unfolding opens_def by blast+

lemma Expand_opens:
  assumes ok: "tree_ok h rt T d" and n: "n \<in> T" "kids h n = []" and ne: "permutes_moves ne"
    and dp: "\<not> (\<not> disable_double_pass_scoring c \<and> is_double_pass b')"
  obtains h1 N d1 where "Expand A c ne n b' policy h = (int (card N), h1)" "opens T n N h h1" "tree_ok h1 rt (T \<union> N) d1"
    "\<And>q. seg h1 rt q \<longleftrightarrow> seg h rt q \<or> (\<exists>p y. q = p @ [y] \<and> y \<in> N \<and> seg h rt p \<and> last (rt # p) = n)"
    "\<And>a. a \<in> N \<Longrightarrow> \<exists>m. mv h1 a = move_id m \<and> (m = 361 \<or> m \<in> set (legal_moves b'))"
proof -
  note ms = expand_moves_ok [OF ne, of c policy b']
  let ?ms = "expand_moves c ne policy b'"
  let ?len = "length ?ms"
  let ?N = "{h_next h..<h_next h + ?len}"
  have "n < h_next h" using tree_okD(4,5) [OF ok] n(1) by blast
  from Expand_grown [OF dp this, of A ne policy] obtain h1 F where ex: "Expand A c ne n b' policy h = (int ?len, h1)"
    and g: "grown n (h_next h) ?len F h h1" and F: "\<forall>i<?len. \<exists>q. F i = fresh_node A n (move_id (?ms ! i)) q" by blast
  have F0: "\<forall>i<?len. fa (F i) = n \<and> ch_len (F i) = 0 \<and> expand_state (F i) = k_unexpanded"
    using F by (auto simp: fresh_node_def)
  note G = grown_facts [OF g ok n F0]
  have new: "node_size (h_node h1 a) = 1 \<and> visit_count (h_node h1 a) = 0 \<and> virtual_loss_count (h_node h1 a) = 0 \<and>
      expand_state (h_node h1 a) = k_unexpanded \<and> kids h1 a = [] \<and> (\<exists>m. mv h1 a = move_id m \<and> m \<in> set ?ms)"
    if a: "a \<in> ?N" for a
  proof -
    have i: "a - h_next h < ?len" using a by auto
    with F obtain q where "F (a - h_next h) = fresh_node A n (move_id (?ms ! (a - h_next h))) q" by blast
    moreover have "?ms ! (a - h_next h) \<in> set ?ms" using i by (rule nth_mem)
    ultimately show ?thesis using G(2) [OF a] by (auto simp: fresh_node_def)
  qed
  have "node_size (h_node h1 a) = node_size (h_node h a) \<and> visit_count (h_node h1 a) = visit_count (h_node h a) \<and>
      virtual_loss_count (h_node h1 a) = virtual_loss_count (h_node h a) \<and> mv h1 a = mv h a \<and>
      expand_state (h_node h1 a) = (if a = n then k_expanded else expand_state (h_node h a))"
    if "a \<in> T" for a
    using G(3) [OF that] G(6) by (cases "a = n") simp_all
  moreover have "frame T h (T \<union> ?N) h1"
  proof -
    have "a < h_next h" if "a \<in> h_live h" for a using tree_okD(5) [OF ok that] .
    then show ?thesis using g n(1) unfolding frame_def grown_def by fastforce
  qed
  ultimately have op: "opens T n ?N h h1" unfolding opens_def using G(1,4,5) n new by blast
  have ok1: "tree_ok h1 rt (T \<union> ?N) (\<lambda>a. if a \<in> T then d a else Suc (d n))"
    by (rule grown_tree [OF g ok n F0]) (use ms(3,4) in simp_all)
  have card: "Expand A c ne n b' policy h = (int (card ?N), h1)" using ex by simp
  have seg: "seg h1 rt q \<longleftrightarrow> seg h rt q \<or> (\<exists>p y. q = p @ [y] \<and> y \<in> ?N \<and> seg h rt p \<and> last (rt # p) = n)" for q
    by (rule grown_seg [OF g ok n F0 tree_okD(2) [OF ok]])
  have "\<exists>m. mv h1 a = move_id m \<and> (m = 361 \<or> m \<in> set (legal_moves b'))" if "a \<in> ?N" for a
  proof -
    from new [OF that] obtain m where "mv h1 a = move_id m" "m \<in> set ?ms" by blast
    with ms(1) show ?thesis by blast
  qed
  from card op ok1 seg this show thesis by (rule that)
qed

lemma opens_played:
  assumes op: "opens T n N h h1" and ok: "tree_ok h rt T d" and pl: "played Z s0 k b rt h"
    and seg: "\<And>q. seg h1 rt q \<longleftrightarrow> seg h rt q \<or> (\<exists>p y. q = p @ [y] \<and> y \<in> N \<and> seg h rt p \<and> last (rt # p) = n)"
    and moves: "\<And>a. a \<in> N \<Longrightarrow> \<exists>m. mv h1 a = move_id m \<and> (m = 361 \<or> m \<in> set (legal_moves b'))"
    and p: "seg h rt p" "last (rt # p) = n" "play_moves Z (map (mv h) p) b = Some b'"
    and s0: "s0 = GoState_new sk raw" and deep: "k + length p \<le> 253"
  shows "played Z s0 k b rt h1" "\<And>x y. at_node Z b rt h x y \<Longrightarrow> at_node Z b rt h1 x y"
proof -
  have mvs: "map (mv h1) q = map (mv h) q" if "seg h rt q" for q
    using seg_tree [OF ok tree_okD(2) [OF ok] that] opensD(6) [OF op] by auto
  show "at_node Z b rt h x y \<Longrightarrow> at_node Z b rt h1 x y" for x y
    by (erule at_node_mono) (use seg mvs in blast)
  show "played Z s0 k b rt h1"
    unfolding played_def
  proof (intro allI impI)
    fix q assume "seg h1 rt q"
    with seg consider "seg h rt q" | p' y where "q = p' @ [y]" "y \<in> N" "seg h rt p'" "last (rt # p') = n" by blast
    then show "\<exists>b' H. play_moves Z (map (mv h1) q) b = Some b' \<and> reachable Z s0 (k + length q) H b'"
    proof cases
      case 1
      with pl show ?thesis unfolding played_def mvs [OF 1] by blast
    next
      case 2
      from seg_unique [OF ok 2(3) p(1)] 2(4) p(2) have p': "p' = p" by simp
      from pl p(1,3) obtain H where r: "reachable Z s0 (k + length p) H b'"
        unfolding played_def by force
      from moves [OF 2(2)] obtain m where m: "mv h1 y = move_id m" "m = 361 \<or> m \<in> set (legal_moves b')" by blast
      from expand_move_legal [OF r [unfolded s0] deep m(2)] obtain b2 H' where
        "Move Z (move_id m) b' = Some (0, b2)" "reachable Z s0 (Suc (k + length p)) H' b2" unfolding s0 by blast
      moreover have "play_moves Z (map (mv h1) p) b = Some b'" unfolding mvs [OF p(1)] by (rule p(3))
      ultimately show ?thesis using 2(1) p' m(1)
        by (intro exI [of _ b2] exI [of _ H']) (simp add: play_moves_append)
    qed
  qed
qed

lemma opens_losses:
  assumes op: "opens T n N h h1" and ok: "tree_ok h rt T d" "tree_ok h1 rt (T \<union> N) d1"
    and mono: "\<And>q. seg h rt q \<Longrightarrow> seg h1 rt q"
    and vl: "losses_ok rt e T (fs @ (n, b') # gs) h" and sub: "fst ` set (fs @ (n, b') # gs) \<subseteq> T"
  shows "losses_ok rt e (T \<union> N) ((n, b') # fs @ gs) h1"
proof -
  have "losses_ok rt e T ((n, b') # fs @ gs) h1"
    by (rule losses_frame [OF vl ok mono sub]) (simp_all add: opensD(6) [OF op])
  moreover have "virtual_loss_count (h_node h1 a) = wrap32 ((if a = rt then e else 0) +
      int (length (filter (\<lambda>f. on_way h1 a (fst f)) ((n, b') # fs @ gs))))" if a: "a \<in> N" for a
  proof -
    have "\<not> on_way h1 a x" if "x \<in> T" for x
    proof -
      from way_exists [OF ok(1) that] obtain q where q: "seg h rt q" "last (rt # q) = x" by blast
      with tree_way(2) [OF ok(2) mono [OF q(1)]] seg_tree [OF ok(1) tree_okD(2) [OF ok(1)] q(1)] opensD(1) [OF op] a
      show ?thesis by blast
    qed
    with sub have "filter (\<lambda>f. on_way h1 a (fst f)) ((n, b') # fs @ gs) = []" by (auto simp: filter_empty_conv)
    moreover have "a \<noteq> rt" using tree_okD(2) [OF ok(1)] opensD(1) [OF op] a by blast
    ultimately show ?thesis using opensD(5) [OF op a] by simp
  qed
  ultimately show ?thesis unfolding losses_ok_def by blast
qed

lemma opens_sums:
  assumes op: "opens T n N h h1" and ok: "tree_ok h rt T d"
  shows "(\<Sum>c\<in>set (kids h1 n). node_size (h_node h1 c)) = int (card N)"
    "(\<Sum>c\<in>set (kids h1 n). visit_count (h_node h1 c)) = 0"
    "\<And>x. x \<in> N \<Longrightarrow> (\<Sum>c\<in>set (kids h1 x). node_size (h_node h1 c)) = 0"
    "\<And>x. x \<in> T \<Longrightarrow> x \<noteq> n \<Longrightarrow> (\<Sum>c\<in>set (kids h1 x). node_size (h_node h1 c)) = (\<Sum>c\<in>set (kids h x). node_size (h_node h c))"
    "\<And>x. x \<in> T \<Longrightarrow> x \<noteq> n \<Longrightarrow> (\<Sum>c\<in>set (kids h1 x). visit_count (h_node h1 c)) = (\<Sum>c\<in>set (kids h x). visit_count (h_node h c))"
proof -
  note O = opensD [OF op]
  show "(\<Sum>c\<in>set (kids h1 n). node_size (h_node h1 c)) = int (card N)"
    "(\<Sum>c\<in>set (kids h1 n). visit_count (h_node h1 c)) = 0" using O(5) unfolding O(4) by simp_all
  show "(\<Sum>c\<in>set (kids h1 x). node_size (h_node h1 c)) = 0" if "x \<in> N" for x using O(5) [OF that] by simp
  fix x assume x: "x \<in> T" "x \<noteq> n"
  have "c \<in> T" if "c \<in> set (kids h x)" for c using tree_okD(8) [OF ok x(1) that] by blast
  with O(6) show "(\<Sum>c\<in>set (kids h1 x). node_size (h_node h1 c)) = (\<Sum>c\<in>set (kids h x). node_size (h_node h c))"
    "(\<Sum>c\<in>set (kids h1 x). visit_count (h_node h1 c)) = (\<Sum>c\<in>set (kids h x). visit_count (h_node h c))"
    unfolding O(7) [OF x] by (auto intro: sum.cong)
qed

text \<open>Expanding the leaf \<open>n\<close> and backing up from it.\<close>

lemma expand_backup:
  assumes ok: "tree_ok h rt T d" and pl: "played Z s0 k b rt h" and sz: "sizes_ok T h" and vs: "visits_ok c Z b rt T h"
    and vl: "losses_ok rt e T (fs @ (n, b') # gs) h" and sub: "fst ` set (fs @ (n, b') # gs) \<subseteq> T"
    and fo: "distinct (map fst (fs @ gs))" "\<forall>(x, y)\<in>set (fs @ gs). at_node Z b rt h x y"
      "{x \<in> T. expand_state (h_node h x) = k_expanding} - {n} = fst ` set (fs @ gs)"
    and p: "seg h rt p" "last (rt # p) = n" "play_moves Z (map (mv h) p) b = Some b'" "n \<in> T"
    and leaf: "expand_state (h_node h n) \<noteq> k_expanded" "kids h n = []" and ne: "permutes_moves ne"
    and dp: "\<not> (\<not> disable_double_pass_scoring c \<and> is_double_pass b')"
    and s0: "s0 = GoState_new sk raw" and deep: "k + length p \<le> 253"
  obtains h1 N h2 where "Expand A c ne n b' policy h = (int (card N), h1)" "Backup A n v (int (card N)) h1 = Some h2"
    "frame T h (T \<union> N) h2" "N \<noteq> {}" "kids h2 n \<noteq> []" "expand_state (h_node h2 n) = k_expanded"
    "\<And>s. s_heap s = h2 \<Longrightarrow> s_flying s = fs @ gs \<Longrightarrow> sim_inv c Z s0 k b rt e (T \<union> N) s"
proof -
  from ok p(4) leaf(2) ne dp obtain h1 N d1 where
    ex: "Expand A c ne n b' policy h = (int (card N), h1)" and op: "opens T n N h h1" and ok1: "tree_ok h1 rt (T \<union> N) d1"
    and seg: "\<And>q. seg h1 rt q \<longleftrightarrow> seg h rt q \<or> (\<exists>p y. q = p @ [y] \<and> y \<in> N \<and> seg h rt p \<and> last (rt # p) = n)"
    and moves: "\<And>a. a \<in> N \<Longrightarrow> \<exists>m. mv h1 a = move_id m \<and> (m = 361 \<or> m \<in> set (legal_moves b'))" by (rule Expand_opens) (rule that)
  note O = opensD [OF op] and sums = opens_sums [OF op ok]
    and pl1 = opens_played [OF op ok pl seg moves p(1-3) s0 deep]
  have mono: "seg h rt q \<Longrightarrow> seg h1 rt q" for q using seg by blast
  have st: "{x \<in> T \<union> N. expand_state (h_node h1 x) = k_expanding} = {x \<in> T. expand_state (h_node h x) = k_expanding} - {n}"
  proof -
    have "x \<in> N \<Longrightarrow> expand_state (h_node h1 x) \<noteq> k_expanding" for x using O(5) [of x] by simp
    moreover have "x \<in> T \<Longrightarrow> expand_state (h_node h1 x) = k_expanding \<longleftrightarrow> x \<noteq> n \<and> expand_state (h_node h x) = k_expanding" for x
      using O(6) [of x] by simp
    ultimately show ?thesis by blast
  qed
  have fo1: "flights_ok Z b rt (T \<union> N) (fs @ gs) h1"
    unfolding flights_ok_def st using fo(1,3) pl1(2) fo(2) by blast
  have sz0: "x \<in> T \<Longrightarrow> wrap32 (1 + (\<Sum>c\<in>set (kids h x). node_size (h_node h c))) = node_size (h_node h x)" for x
    using sz unfolding sizes_ok_def by simp
  have sz1: "x \<in> T \<Longrightarrow> wrap32 (node_size (h_node h x)) = node_size (h_node h x)" for x
    using wrap32_idem sz0 by metis
  have vs0: "x \<in> T \<Longrightarrow> wrap32 (visit_count (h_node h x)) = visit_count (h_node h x)"
    "x \<in> T \<Longrightarrow> expand_state (h_node h x) = k_expanded \<Longrightarrow>
      wrap32 (1 + (\<Sum>k\<in>set (kids h x). visit_count (h_node h k))) = visit_count (h_node h x)"
    "x \<in> T \<Longrightarrow> expand_state (h_node h x) \<noteq> k_expanded \<Longrightarrow> visit_count (h_node h x) = 0 \<or>
      \<not> disable_double_pass_scoring c \<and> (\<exists>b'. at_node Z b rt h x b' \<and> is_double_pass b')" for x
    using vs unfolding visits_ok_def by metis+
  have n0: "node_size (h_node h n) = 1" "visit_count (h_node h n) = 0"
  proof -
    show "node_size (h_node h n) = 1" using sz0 [OF p(4)] leaf(2) by simp
    have "\<not> at_node Z b rt h n b2 \<or> b2 = b'" for b2
      using seg_unique [OF ok _ p(1)] p(2,3) unfolding at_node_def by (metis option.inject)
    with vs0(3) [OF p(4) leaf(1)] dp show "visit_count (h_node h n) = 0" by auto
  qed
  have "\<exists>h2. Backup A n v (int (card N)) h1 = Some h2 \<and> frame (T \<union> N) h1 (T \<union> N) h2 \<and>
    (\<forall>s. s_heap s = h2 \<longrightarrow> s_flying s = fs @ gs \<longrightarrow> sim_inv c Z s0 k b rt e (T \<union> N) s)"
  proof (rule answer_backup [OF ok1 pl1(1) fo1 opens_losses [OF op ok ok1 mono vl sub] _ mono [OF p(1)] p(2)])
    show "fst ` set ((n, b') # fs @ gs) \<subseteq> T \<union> N" using sub by auto
    have "x \<in> N \<Longrightarrow> x \<noteq> n" for x using O(1,2) by blast
    fix x assume x: "x \<in> T \<union> N"
    then consider "x = n" | "x \<in> N" "x \<noteq> n" | "x \<in> T" "x \<noteq> n" using O(1,2) by blast
    note cases = this
    from cases show "wrap32 (node_size (h_node h1 x)) = node_size (h_node h1 x) \<and>
        wrap32 (1 + (\<Sum>c\<in>set (kids h1 x). node_size (h_node h1 c))) =
          wrap32 (node_size (h_node h1 x) + (if x = n then int (card N) else 0))"
      by cases (use sums(1,3,4) O(2,5,6) n0 sz0 sz1 in simp_all)
    from cases show "wrap32 (visit_count (h_node h1 x)) = visit_count (h_node h1 x)"
      by cases (use O(2,5,6) n0 vs0(1) in simp_all)
    show "wrap32 (1 + (\<Sum>c\<in>set (kids h1 x). visit_count (h_node h1 c))) =
        wrap32 (visit_count (h_node h1 x) + (if x = n then 1 else 0))" if "expand_state (h_node h1 x) = k_expanded"
      using cases
    proof cases
      case 3
      then have e: "expand_state (h_node h x) = k_expanded" using O(6) [OF 3(1)] that by simp
      show ?thesis using sums(5) [OF 3] vs0(2) [OF 3(1) e] vs0(1) [OF 3(1)] O(6) [OF 3(1)] 3(2) by simp
    qed (use that sums(2) O(2,5,6) n0 in simp_all)
    show "visit_count (h_node h1 x) = 0 \<or> \<not> disable_double_pass_scoring c \<and> (\<exists>b'. at_node Z b rt h1 x b' \<and> is_double_pass b')"
      if "expand_state (h_node h1 x) \<noteq> k_expanded" "x \<noteq> n"
      using cases
    proof cases
      case 3
      then have e: "expand_state (h_node h x) \<noteq> k_expanded" using O(6) [OF 3(1)] that by simp
      from vs0(3) [OF 3(1) e] pl1(2) show ?thesis using O(6) [OF 3(1)] by metis
    qed (use that(2) O(5) in simp_all)
  qed (use O(6) [OF O(2)] in simp_all)
  then obtain h2 where h2: "Backup A n v (int (card N)) h1 = Some h2" and fr: "frame (T \<union> N) h1 (T \<union> N) h2"
    and inv': "\<And>s. s_heap s = h2 \<Longrightarrow> s_flying s = fs @ gs \<Longrightarrow> sim_inv c Z s0 k b rt e (T \<union> N) s" by blast
  from Backup_result [OF ok1 mono [OF p(1)] p(2), of A v "int (card N)"] h2
  have links: "same_links h1 h2" "expand_state (h_node h2 n) = expand_state (h_node h1 n)" by auto
  have len: "0 < ch_len (h_node h1 n)" using tree_okD(11) [OF ok1, of n] O(2,6) by simp
  then have "kids h1 n \<noteq> []" by (simp add: kids_def)
  moreover from this O(4) have "N \<noteq> {}" by auto
  ultimately show thesis
    using that [OF ex h2 frame_trans [OF O(8) fr]] same_links_kids [OF links(1)] links(2) O(6) [OF O(2)] inv' by simp
qed

lemma answer_expanded:
  assumes inv: "sim_inv c Z s0 k b rt e T s" and fl: "s_flying s = fs @ (n, b') # gs" and ne: "permutes_moves ne"
    and dp: "\<not> (\<not> disable_double_pass_scoring c \<and> is_double_pass b')"
    and s0: "s0 = GoState_new sk raw" and deep: "\<And>p. seg (s_heap s) rt p \<Longrightarrow> k + length p \<le> 253"
  shows "\<exists>T' h2. simulation_answer A c ne rt n b' 0 policy v (s\<lparr>s_flying := fs @ gs\<rparr>) = Some (answered_state c rt (fs @ gs) h2 s) \<and>
    sim_inv c Z s0 k b rt e T' (answered_state c rt (fs @ gs) h2 s) \<and> frame T (s_heap s) T' h2 \<and> T \<subseteq> T'"
proof -
  let ?h = "s_heap s"
  from inv fl obtain d where ok: "tree_ok ?h rt T d" and pl: "played Z s0 k b rt ?h"
    and fo: "flights_ok Z b rt T (fs @ (n, b') # gs) ?h" and vl: "losses_ok rt e T (fs @ (n, b') # gs) ?h"
    and sz: "sizes_ok T ?h" and vs: "visits_ok c Z b rt T ?h"
    unfolding sim_inv_def by auto
  from ok fo obtain p where p: "seg ?h rt p" "last (rt # p) = n" "play_moves Z (map (mv ?h) p) b = Some b'" "n \<in> T"
    "expand_state (h_node ?h n) = k_expanding" "kids ?h n = []" by (rule flight_way)
  have sub: "fst ` set (fs @ (n, b') # gs) \<subseteq> T" using flights_in_tree [OF fo] by blast
  have fo': "distinct (map fst (fs @ gs))" "\<forall>(x, y)\<in>set (fs @ gs). at_node Z b rt ?h x y"
    "{x \<in> T. expand_state (h_node ?h x) = k_expanding} - {n} = fst ` set (fs @ gs)"
    using fo by (auto simp: flights_ok_def)
  have leaf: "expand_state (h_node ?h n) \<noteq> k_expanded" by (simp add: p(5))
  obtain h1 N h2 where ex: "Expand A c ne n b' policy ?h = (int (card N), h1)" and h2: "Backup A n v (int (card N)) h1 = Some h2"
    and fr: "frame T ?h (T \<union> N) h2"
    and inv': "\<And>s. s_heap s = h2 \<Longrightarrow> s_flying s = fs @ gs \<Longrightarrow> sim_inv c Z s0 k b rt e (T \<union> N) s"
    by (rule expand_backup [OF ok pl sz vs vl sub fo' p(1-4) leaf p(6) ne dp s0 deep [OF p(1)]]) (rule that)
  have "simulation_answer A c ne rt n b' 0 policy v (s\<lparr>s_flying := fs @ gs\<rparr>) = Some (answered_state c rt (fs @ gs) h2 s)"
    using h2 ex by (simp add: simulation_answer_def Let_def)
  moreover have "sim_inv c Z s0 k b rt e (T \<union> N) (answered_state c rt (fs @ gs) h2 s)" by (rule inv') simp_all
  ultimately show ?thesis using fr by blast
qed

text \<open>The evaluation of the root before a search, which has no simulation in flight.\<close>

lemma root_expanded:
  assumes inv: "sim_inv c Z s0 k b rt e T s" and fl: "s_flying s = []" and ne: "permutes_moves ne"
    and un: "expand_state (h_node (s_heap s) rt) = k_unexpanded"
    and dp: "\<not> (\<not> disable_double_pass_scoring c \<and> is_double_pass b)" and s0: "s0 = GoState_new sk raw" and k: "k \<le> 253"
  obtains h1 N h2 where "Expand A c ne rt b policy (s_heap s) = (int (card N), h1)" "Backup A rt v (int (card N)) h1 = Some h2"
    "frame T (s_heap s) (T \<union> N) h2" "expand_state (h_node h2 rt) = k_expanded"
    "\<And>s. s_heap s = h2 \<Longrightarrow> s_flying s = [] \<Longrightarrow> sim_inv c Z s0 k b rt (e - 1) (T \<union> N) s"
proof -
  let ?h = "s_heap s"
  from inv fl obtain d where ok: "tree_ok ?h rt T d" and pl: "played Z s0 k b rt ?h"
    and fo: "flights_ok Z b rt T [] ?h" and vl: "losses_ok rt e T [] ?h" and sz: "sizes_ok T ?h" and vs: "visits_ok c Z b rt T ?h"
    unfolding sim_inv_def by auto
  have rt: "rt \<in> T" by (rule tree_okD(2) [OF ok])
  have kids: "kids ?h rt = []" using tree_okD(10,11) [OF ok rt] un by (simp add: kids_def)
  have way: "on_way ?h a rt \<longleftrightarrow> a = rt" for a using tree_way(2) [OF ok, of "[]" a] by simp
  have vl': "losses_ok rt (e - 1) T ([] @ (rt, b) # []) ?h" using vl by (auto simp: losses_ok_def way)
  have sub: "fst ` set ([] @ (rt, b) # []) \<subseteq> T" using rt by simp
  have fo': "distinct (map fst ([] @ []))" "\<forall>(x, y)\<in>set ([] @ []). at_node Z b rt ?h x y"
    "{x \<in> T. expand_state (h_node ?h x) = k_expanding} - {rt} = fst ` set ([] @ [])" using fo by (auto simp: flights_ok_def)
  have p: "seg ?h rt []" "last (rt # []) = rt" "play_moves Z (map (mv ?h) []) b = Some b" by simp_all
  have leaf: "expand_state (h_node ?h rt) \<noteq> k_expanded" by (simp add: un)
  have k': "k + length [] \<le> 253" using k by simp
  show thesis
    by (rule expand_backup [OF ok pl sz vs vl' sub fo' p rt leaf kids ne dp s0 k']) (rule that; simp)
qed

end
