(* ===== verification/Mcts_Root.thy ===== *)
theory Mcts_Root
  imports Mcts_Sim
begin

text \<open>
  Trees given up. \<open>ChangeRoot\<close> keeps the subtree of the move played and queues the rest, which
  the delete thread frees: the rest can be deleted, node by node and each once, and the subtree
  keeps the invariant of the search.
\<close>

subsection \<open>What can be deleted\<close>

definition deletable :: "'f heap \<Rightarrow> addr \<Rightarrow> addr set \<Rightarrow> (addr \<Rightarrow> nat) \<Rightarrow> bool" where
  "deletable h q Q d \<longleftrightarrow> finite Q \<and> q \<in> Q \<and> Q \<subseteq> h_live h \<and> d q = 0 \<and>
     (\<forall>n\<in>Q. 0 \<le> ch_len (h_node h n)) \<and>
     (\<forall>n\<in>Q. \<forall>c\<in>set (kids h n). c \<in> Q \<and> d c = Suc (d n)) \<and>
     (\<forall>n\<in>Q. \<forall>m\<in>Q. n \<noteq> m \<longrightarrow> set (kids h n) \<inter> set (kids h m) = {}) \<and>
     (\<forall>n\<in>Q. n \<noteq> q \<longrightarrow> (\<exists>m\<in>Q. n \<in> set (kids h m)))"

lemma deletableD:
  assumes "deletable h q Q d"
  shows "finite Q" "q \<in> Q" "Q \<subseteq> h_live h" "d q = 0" "\<And>n. n \<in> Q \<Longrightarrow> 0 \<le> ch_len (h_node h n)"
    "\<And>n c. n \<in> Q \<Longrightarrow> c \<in> set (kids h n) \<Longrightarrow> c \<in> Q \<and> d c = Suc (d n)"
    "\<And>n m x. n \<in> Q \<Longrightarrow> m \<in> Q \<Longrightarrow> x \<in> set (kids h n) \<Longrightarrow> x \<in> set (kids h m) \<Longrightarrow> n = m"
    "\<And>n. n \<in> Q \<Longrightarrow> n \<noteq> q \<Longrightarrow> \<exists>m\<in>Q. n \<in> set (kids h m)"
  using assms unfolding deletable_def by blast+

lemma deletableI:
  assumes "finite Q" "q \<in> Q" "Q \<subseteq> h_live h" "d q = 0" "\<And>n. n \<in> Q \<Longrightarrow> 0 \<le> ch_len (h_node h n)"
    "\<And>n c. n \<in> Q \<Longrightarrow> c \<in> set (kids h n) \<Longrightarrow> c \<in> Q \<and> d c = Suc (d n)"
    "\<And>n m. n \<in> Q \<Longrightarrow> m \<in> Q \<Longrightarrow> n \<noteq> m \<Longrightarrow> set (kids h n) \<inter> set (kids h m) = {}"
    "\<And>n. n \<in> Q \<Longrightarrow> n \<noteq> q \<Longrightarrow> \<exists>m\<in>Q. n \<in> set (kids h m)"
  shows "deletable h q Q d"
  using assms unfolding deletable_def by blast

text \<open>The nodes at or below \<open>n\<close>, and those properly below.\<close>

definition desc :: "'f heap \<Rightarrow> addr \<Rightarrow> addr set" where
  "desc h n = {x. \<exists>p. seg h n p \<and> last (n # p) = x}"

lemma descI: "seg h n p \<Longrightarrow> last (n # p) = x \<Longrightarrow> x \<in> desc h n"
  unfolding desc_def by blast

lemma desc_self [simp]: "n \<in> desc h n"
  by (rule descI [of _ _ "[]"]) simp_all

lemma desc_kids: "desc h n = insert n (\<Union>c\<in>set (kids h n). desc h c)"
proof (intro equalityI subsetI)
  fix x assume "x \<in> desc h n"
  then obtain p where p: "seg h n p" "last (n # p) = x" by (auto simp: desc_def)
  show "x \<in> insert n (\<Union>c\<in>set (kids h n). desc h c)"
  proof (cases p)
    case (Cons c q)
    with p have "c \<in> set (kids h n)" "x \<in> desc h c" by (simp, intro descI [of _ _ q]) simp_all
    then show ?thesis by blast
  qed (use p in simp)
next
  fix x assume "x \<in> insert n (\<Union>c\<in>set (kids h n). desc h c)"
  then consider "x = n" | c p where "c \<in> set (kids h n)" "seg h c p" "last (c # p) = x" by (auto simp: desc_def)
  then show "x \<in> desc h n"
  proof cases
    case 2
    then show ?thesis by (intro descI [of _ _ "c # p"]) simp_all
  qed simp
qed

lemma del_seg:
  assumes del: "deletable h q Q d"
  shows "n \<in> Q \<Longrightarrow> seg h n p \<Longrightarrow> set p \<subseteq> Q \<and> d (last (n # p)) = d n + length p"
proof (induction p arbitrary: n)
  case (Cons c p)
  with deletableD(6) [OF del Cons.prems(1), of c] have c: "c \<in> Q" "d c = Suc (d n)" "seg h c p" by simp_all
  with Cons.IH [OF c(1,3)] show ?case by simp
qed simp

lemma desc_sub:
  assumes "deletable h q Q d" and "n \<in> Q" and "x \<in> desc h n"
  shows "x \<in> Q" "d n \<le> d x" "x \<noteq> n \<Longrightarrow> d n < d x"
proof -
  from assms(3) obtain p where p: "seg h n p" "last (n # p) = x" by (auto simp: desc_def)
  with del_seg [OF assms(1,2) p(1)] assms(2) show "x \<in> Q" "d n \<le> d x" by (cases p; fastforce)+
  show "d n < d x" if "x \<noteq> n"
    using del_seg [OF assms(1,2) p(1)] p(2) that by (cases p) auto
qed

text \<open>Two nodes of the same depth have nothing below in common.\<close>

lemma desc_disjoint:
  assumes del: "deletable h q Q d"
  shows "n \<in> Q \<Longrightarrow> m \<in> Q \<Longrightarrow> d n = d m \<Longrightarrow> x \<in> desc h n \<Longrightarrow> x \<in> desc h m \<Longrightarrow> n = m"
proof -
  assume n: "n \<in> Q" and m: "m \<in> Q" and d: "d n = d m"
  have eq: "n = m" if "seg h n p" "seg h m r" "length p = length r" "last (n # p) = last (m # r)" for p r
    using that
  proof (induction p arbitrary: r rule: rev_induct)
    case (snoc c p)
    then obtain r' c' where r: "r = r' @ [c']" by (cases r rule: rev_cases) auto
    with snoc.prems have s: "seg h n p" "c \<in> set (kids h (last (n # p)))" "seg h m r'" "c \<in> set (kids h (last (m # r')))"
      by (auto simp: seg_append)
    have in_Q: "last (n # p) \<in> Q" "last (m # r') \<in> Q"
      using del_seg [OF del n s(1)] del_seg [OF del m s(3)] n m
      by (metis last_in_set list.distinct(1) set_ConsD subsetD)+
    from deletableD(7) [OF del in_Q s(2,4)] snoc.IH [OF s(1,3)] snoc.prems(3) r show ?case by simp
  qed simp
  assume "x \<in> desc h n" "x \<in> desc h m"
  then obtain p r where p: "seg h n p" "last (n # p) = x" and r: "seg h m r" "last (m # r) = x" by (auto simp: desc_def)
  moreover have "length p = length r" using del_seg [OF del n p(1)] del_seg [OF del m r(1)] p(2) r(2) d by simp
  ultimately show "n = m" using eq [of p r] by simp
qed

subsection \<open>Deletion\<close>

definition with_live :: "addr set \<Rightarrow> 'f heap \<Rightarrow> 'f heap" where
  "with_live L h = h\<lparr>h_live := L\<rparr>"

lemma with_live_simps [simp]:
  "kids (with_live L h) n = kids h n" "h_node (with_live L h) = h_node h" "h_live (with_live L h) = L"
  "h_next (with_live L h) = h_next h" "with_live M (with_live L h) = with_live M h" "with_live (h_live h) h = h"
  by (simp_all add: with_live_def kids_def)

lemma delete_with_live: "delete_nodes ns (with_live L h) = (if set ns \<subseteq> L then Some (with_live (L - set ns) h) else None)"
  by (simp add: delete_nodes_def with_live_def)

abbreviation below :: "'f heap \<Rightarrow> addr list \<Rightarrow> addr set" where
  "below h ns \<equiv> (\<Union>n\<in>set ns. desc h n - {n})"

text \<open>Deleting below nodes of one depth.\<close>

lemma delete_trees_spec:
  assumes del: "deletable h q Q d"
  shows "set ns \<subseteq> Q \<Longrightarrow> distinct ns \<Longrightarrow> \<forall>n\<in>set ns. d n = e \<Longrightarrow> \<forall>x\<in>Q. d x < e + k \<Longrightarrow> below h ns \<subseteq> L \<Longrightarrow>
    delete_trees ns (with_live L h) = Some (int (card (below h ns)), with_live (L - below h ns) h)"
proof (induction k arbitrary: ns e L)
  case 0
  then have "ns = []" by (cases ns) force+
  then show ?case by (simp add: delete_trees.simps)
next
  case (Suc k)
  show ?case using Suc.prems
  proof (induction ns arbitrary: L)
    case Nil
    then show ?case by (simp add: delete_trees.simps)
  next
    case (Cons n ns)
    let ?K = "kids h n" and ?B = "desc h n - {n}"
    have n: "n \<in> Q" "d n = e" using Cons.prems by auto
    have K: "set ?K \<subseteq> Q" "\<forall>c\<in>set ?K. d c = Suc e" using deletableD(6) [OF del n(1)] n(2) by auto
    have B: "?B = set ?K \<union> below h ?K"
    proof -
      have "n \<notin> desc h c" if "c \<in> set ?K" for c using desc_sub(2) [OF del, of c n] K that n by fastforce
      then show ?thesis unfolding desc_kids [of h n] by auto
    qed
    have disj: "set ?K \<inter> below h ?K = {}"
    proof -
      have "x \<notin> desc h c - {c}" if "c \<in> set ?K" "x \<in> set ?K" for c x
        using desc_sub(3) [OF del, of c x] K that by fastforce
      then show ?thesis by blast
    qed
    have fin: "finite ?B" using desc_sub(1) [OF del n(1)] deletableD(1) [OF del] by (meson finite_subset subsetI DiffD1)
    have BL: "?B \<subseteq> L" using Cons.prems(5) by simp
    from Suc.IH [of ?K "Suc e" L] K Cons.prems(4) BL B
    have 1: "delete_trees ?K (with_live L h) = Some (int (card (below h ?K)), with_live (L - below h ?K) h)" by simp
    have 2: "delete_nodes ?K (with_live (L - below h ?K) h) = Some (with_live (L - ?B) h)"
    proof -
      have "set ?K \<subseteq> L - below h ?K" using BL B disj by blast
      moreover have "L - below h ?K - set ?K = L - ?B" using B by blast
      ultimately show ?thesis by (simp only: delete_with_live if_True)
    qed
    have away: "?B \<inter> below h ns = {}"
    proof -
      have "desc h n \<inter> desc h m = {}" if m: "m \<in> set ns" for m
      proof -
        have "n \<noteq> m" "m \<in> Q" "d n = d m" using Cons.prems(1-3) m n(2) by auto
        with desc_disjoint [OF del n(1), of m] show ?thesis by blast
      qed
      then show ?thesis by blast
    qed
    have fin2: "finite (below h ns)"
      by (rule finite_subset [OF _ deletableD(1) [OF del]]) (use desc_sub(1) [OF del] Cons.prems(1) in auto)
    have "below h ns \<subseteq> L - ?B" using Cons.prems(5) away by auto
    with Cons.IH [of "L - ?B"] Cons.prems
    have 3: "delete_trees ns (with_live (L - ?B) h) = Some (int (card (below h ns)), with_live (L - ?B - below h ns) h)" by simp
    have "ch_len (h_node h n) = int (card (set ?K))"
      using deletableD(5) [OF del n(1)] by (simp add: distinct_card)
    moreover have "card ?B = card (set ?K) + card (below h ?K)"
      unfolding B by (rule card_Un_disjoint) (use fin disj B in auto)
    moreover have "card (below h (n # ns)) = card ?B + card (below h ns)"
      using card_Un_disjoint [OF fin fin2 away] by simp
    moreover have "L - ?B - below h ns = L - below h (n # ns)" by auto
    ultimately show ?case
      by (subst delete_trees.simps) (simp add: 1 2 3)
  qed
qed

lemma desc_all:
  assumes del: "deletable h q Q d"
  shows "desc h q = Q"
proof
  show "desc h q \<subseteq> Q" using desc_sub(1) [OF del deletableD(2) [OF del]] by blast
  have "x \<in> desc h q" if "x \<in> Q" for x
    using that
  proof (induction "d x" arbitrary: x rule: less_induct)
    case less
    show ?case
    proof (cases "x = q")
      case False
      from deletableD(8) [OF del less.prems False] obtain m where m: "m \<in> Q" "x \<in> set (kids h m)" by blast
      with deletableD(6) [OF del m] less.hyps [of m] have "m \<in> desc h q" by simp
      then obtain p where p: "seg h q p" "last (q # p) = m" by (auto simp: desc_def)
      then have "seg h q (p @ [x])" using m(2) by (simp add: seg_append)
      then show ?thesis by (rule descI) simp
    qed simp
  qed
  then show "Q \<subseteq> desc h q" by blast
qed

lemma delete_round_spec:
  assumes del: "deletable h q Q d"
  shows "delete_round q h = Some (int (card Q), with_live (h_live h - Q) h)"
proof -
  have "\<forall>x\<in>Q. d x < 0 + Suc (Max (d ` Q))" using deletableD(1) [OF del] by (auto simp: less_Suc_eq_le)
  from delete_trees_spec [OF del, of "[q]" 0 "Suc (Max (d ` Q))" "h_live h"] this deletableD(2,3,4) [OF del]
  have "DeleteTree q h = Some (int (card (Q - {q})), with_live (h_live h - (Q - {q})) h)"
    by (auto simp: DeleteTree_def desc_all [OF del])
  moreover have "int (card (Q - {q})) + 1 = int (card Q)"
    using deletableD(1,2) [OF del] by (metis card_Suc_Diff1 of_nat_Suc add.commute)
  moreover have "delete_nodes [q] (with_live (h_live h - (Q - {q})) h) = Some (with_live (h_live h - Q) h)"
    using deletableD(2,3) [OF del] by (auto simp: delete_with_live intro: arg_cong [where f = "\<lambda>L. with_live L h"])
  ultimately show ?thesis by (simp add: delete_round_def)
qed

subsection \<open>The queue of trees to delete\<close>

text \<open>The nodes \<open>S\<close> are exactly the nodes of the queued trees, which are disjoint.\<close>

fun forest :: "'f heap \<Rightarrow> addr set \<Rightarrow> addr list \<Rightarrow> bool" where
  "forest h S [] \<longleftrightarrow> S = {}"
| "forest h S (q # qs) \<longleftrightarrow> (\<exists>Q d. deletable h q Q d \<and> Q \<subseteq> S \<and> forest h (S - Q) qs)"

lemma kids_same: "h_node h' n = h_node h n \<Longrightarrow> kids h' n = kids h n"
  by (simp add: kids_def)

lemma deletable_frame:
  assumes "deletable h q Q d" and same: "\<And>a. a \<in> Q \<Longrightarrow> h_node h' a = h_node h a" and "Q \<subseteq> h_live h'"
  shows "deletable h' q Q d"
proof -
  have "kids h' a = kids h a" if "a \<in> Q" for a by (rule kids_same [OF same [OF that]])
  with assms show ?thesis unfolding deletable_def by simp
qed

lemma forest_frame:
  "forest h S qs \<Longrightarrow> (\<And>a. a \<in> S \<Longrightarrow> h_node h' a = h_node h a) \<Longrightarrow> S \<subseteq> h_live h' \<Longrightarrow> forest h' S qs"
proof (induction qs arbitrary: S)
  case (Cons q qs)
  then obtain Q d where Q: "deletable h q Q d" "Q \<subseteq> S" "forest h (S - Q) qs" by auto
  have "deletable h' q Q d" by (rule deletable_frame [OF Q(1)]) (use Cons.prems Q(2) in auto)
  moreover have "forest h' (S - Q) qs" by (rule Cons.IH [OF Q(3)]) (use Cons.prems in auto)
  ultimately show ?case using Q(2) by auto
qed simp

lemma forest_snoc: "forest h S qs \<Longrightarrow> deletable h q Q d \<Longrightarrow> Q \<inter> S = {} \<Longrightarrow> forest h (S \<union> Q) (qs @ [q])"
proof (induction qs arbitrary: S)
  case Nil
  then show ?case by auto
next
  case (Cons x qs)
  then obtain P e where P: "deletable h x P e" "P \<subseteq> S" "forest h (S - P) qs" by auto
  have "forest h ((S - P) \<union> Q) (qs @ [q])" using Cons.IH [OF P(3) Cons.prems(2)] Cons.prems(3) by blast
  moreover have "(S - P) \<union> Q = S \<union> Q - P" using Cons.prems(3) P(2) by blast
  ultimately show ?case using P by auto
qed

lemma forest_step: "frame T h T' h' \<Longrightarrow> forest h (h_live h - T) qs \<Longrightarrow> forest h' (h_live h' - T') qs"
  unfolding frame_def by (auto elim: forest_frame)

text \<open>Deleting the first tree of the queue does not touch the others, nor the search tree.\<close>

lemma forest_delete:
  assumes f: "forest h (h_live h - T) (q # qs)"
  shows "\<exists>n L. delete_round q h = Some (n, with_live L h) \<and> L \<subseteq> h_live h \<and> h_live h \<inter> T \<subseteq> L \<and> forest (with_live L h) (L - T) qs \<and>
    n = int (card (h_live h - L))"
proof -
  from f obtain Q d where Q: "deletable h q Q d" "Q \<subseteq> h_live h - T" "forest h (h_live h - T - Q) qs" by auto
  have "forest (with_live (h_live h - Q) h) (h_live h - T - Q) qs" by (rule forest_frame [OF Q(3)]) auto
  moreover have "h_live h - T - Q = h_live h - Q - T" "h_live h - (h_live h - Q) = Q" using Q(2) by blast+
  ultimately show ?thesis using delete_round_spec [OF Q(1)] Q(2)
    by (intro exI [of _ "int (card Q)"] exI [of _ "h_live h - Q"]) auto
qed

text \<open>The invariant reads the nodes only.\<close>

lemma seg_nodes: "h_node h' = h_node h \<Longrightarrow> seg h' n p = seg h n p"
  by (induction p arbitrary: n) (simp_all add: kids_def)

lemma tree_live: "tree_ok h rt T d \<Longrightarrow> T \<subseteq> L \<Longrightarrow> L \<subseteq> h_live h \<Longrightarrow> tree_ok (with_live L h) rt T d"
  unfolding tree_ok_def by auto

lemma sim_inv_live:
  assumes "sim_inv c Z s0 k b rt e T s" and "T \<subseteq> L" "L \<subseteq> h_live (s_heap s)"
  shows "sim_inv c Z s0 k b rt e T (s\<lparr>s_heap := with_live L (s_heap s)\<rparr>)"
proof -
  let ?h = "s_heap s" and ?g = "with_live L (s_heap s)"
  from assms(1) obtain d where ok: "tree_ok ?h rt T d" and pl: "played Z s0 k b rt ?h"
    and fo: "flights_ok Z b rt T (s_flying s) ?h" and vl: "losses_ok rt e T (s_flying s) ?h"
    and sz: "sizes_ok T ?h" and vs: "visits_ok c Z b rt T ?h"
    unfolding sim_inv_def by auto
  have seg: "seg ?g = seg ?h" by (intro ext seg_nodes) simp
  have at: "at_node Z b rt ?g = at_node Z b rt ?h" by (intro ext) (simp add: at_node_def seg)
  have ok': "tree_ok ?g rt T d" by (rule tree_live [OF ok assms(2,3)])
  have "filter (\<lambda>f. on_way ?g a (fst f)) (s_flying s) = filter (\<lambda>f. on_way ?h a (fst f)) (s_flying s)" for a
    by (rule filter_cong) (use on_way_same [OF ok ok'] flights_in_tree [OF fo] seg in auto)
  then have "losses_ok rt e T (s_flying s) ?g" using vl by (simp add: losses_ok_def)
  moreover have "visits_ok c Z b rt T ?g" using vs by (simp add: visits_ok_def at)
  moreover have "flights_ok Z b rt T (s_flying s) ?g" using fo by (simp add: flights_ok_def at)
  moreover have "played Z s0 k b rt ?g" using pl by (simp add: played_def seg)
  moreover have "sizes_ok T ?g" using sz by (simp add: sizes_ok_def)
  ultimately show ?thesis using ok' by (intro sim_invI [where h = ?g and fl = "s_flying s" and d = d]) simp_all
qed

subsection \<open>Changing the root\<close>

lemma tree_deletable: "tree_ok h r T d \<Longrightarrow> deletable h r T d"
proof -
  assume ok: "tree_ok h r T d"
  note K = tree_okD [OF ok]
  have "set (kids h n) \<inter> set (kids h m) = {}" if "n \<in> T" "m \<in> T" "n \<noteq> m" for n m
    using K(8) [OF that(1)] K(8) [OF that(2)] that(3) by blast
  moreover have "\<exists>m\<in>T. n \<in> set (kids h m)" if "n \<in> T" "n \<noteq> r" for n using K(9) [OF that] by blast
  ultimately show ?thesis unfolding deletable_def by (intro conjI ballI impI) (use K in \<open>simp_all, blast?\<close>)
qed

lemma FindChild_spec:
  shows "FindChild h n m = 0 \<and> (\<forall>c\<in>set (kids h n). mv h c \<noteq> m) \<or>
    FindChild h n m \<in> set (kids h n) \<and> mv h (FindChild h n m) = m"
proof (cases "List.find (\<lambda>c. mv h c = m) (kids h n)")
  case None
  then have "\<forall>c\<in>set (kids h n). mv h c \<noteq> m" unfolding find_None_iff by blast
  with None show ?thesis by (simp add: FindChild_def)
next
  case (Some c)
  then have "c \<in> set (kids h n)" "mv h c = m" unfolding find_Some_iff by auto
  with Some show ?thesis by (simp add: FindChild_def)
qed

text \<open>A new tree of one node.\<close>

lemma ChangeRoot_null:
  assumes mem: "\<And>a. a \<in> h_live h \<Longrightarrow> a < h_next h" "0 < h_next h"
    and f: "forest h (h_live h - T) dq" and old: "rt = 0 \<and> T = {} \<or> tree_ok h rt T d"
    and r: "reachable Z s0 k H b" and s: "s_heap s = snd (snd (ChangeRoot A 0 rt dq h))" "s_flying s = []"
  shows "sim_inv c Z s0 k b (h_next h) 0 {h_next h} s" "fst (ChangeRoot A 0 rt dq h) = h_next h"
    "forest (s_heap s) (h_live (s_heap s) - {h_next h}) (fst (snd (ChangeRoot A 0 rt dq h)))"
    "expand_state (h_node (s_heap s) (h_next h)) = k_unexpanded"
proof -
  let ?r = "h_next h" and ?h = "s_heap s"
  have node: "h_node ?h a = (if a = ?r then fresh_node A 0 (- 1) (f_lit A 0) else h_node h a)" for a
    using s by (simp add: ChangeRoot_def new_nodes_def InitNode_def)
  have live: "h_live ?h = insert ?r (h_live h)" "h_next ?h = Suc ?r"
    using s by (auto simp: ChangeRoot_def new_nodes_def InitNode_def)
  have k: "kids ?h ?r = []" by (simp add: kids_def node fresh_node_def)
  have ok: "tree_ok ?h ?r {?r} (\<lambda>_. 0)"
    by (rule tree_okI) (use mem in \<open>auto simp: live k node fresh_node_def less_Suc_eq\<close>)
  have seg: "seg ?h ?r p \<longleftrightarrow> p = []" for p by (cases p) (simp_all add: k)
  show "sim_inv c Z s0 k b ?r 0 {?r} s"
    by (rule sim_invI [where h = ?h and fl = "[]" and d = "\<lambda>_. 0", OF refl ok s(2)])
      (use r in \<open>auto simp: played_def seg flights_ok_def losses_ok_def sizes_ok_def visits_ok_def k node fresh_node_def\<close>)
  show "fst (ChangeRoot A 0 rt dq h) = ?r" by (simp add: ChangeRoot_def new_nodes_def)
  show "expand_state (h_node ?h ?r) = k_unexpanded" by (simp add: node fresh_node_def)
  have r0: "?r \<notin> h_live h" using mem(1) by blast
  have f': "forest ?h (h_live h - T) dq" by (rule forest_frame [OF f]) (use node live r0 in auto)
  show "forest ?h (h_live ?h - {?r}) (fst (snd (ChangeRoot A 0 rt dq h)))"
    using old
  proof
    assume "rt = 0 \<and> T = {}"
    with f' live r0 show ?thesis by (simp add: ChangeRoot_def new_nodes_def)
  next
    assume t: "tree_ok h rt T d"
    then have rt: "rt \<noteq> 0" "T \<subseteq> h_live h" using tree_okD(2,3,4) [OF t] by (metis, blast)
    have "deletable ?h rt T d"
      by (rule deletable_frame [OF tree_deletable [OF t]]) (use node live rt r0 in auto)
    then have "forest ?h (h_live h - T \<union> T) (dq @ [rt])" by (rule forest_snoc [OF f']) auto
    moreover have "h_live h - T \<union> T = h_live ?h - {?r}" using live r0 rt(2) by auto
    ultimately show ?thesis using rt(1) by (simp add: ChangeRoot_def new_nodes_def)
  qed
qed

text \<open>Moving down to a child \<open>c\<close>: \<open>r\<close> is the new root, \<open>U\<close> what was below \<open>c\<close>.\<close>

definition moved_down :: "addr \<Rightarrow> addr \<Rightarrow> 'f heap \<Rightarrow> 'f heap \<Rightarrow> bool" where
  "moved_down c r h h' \<longleftrightarrow> r = h_next h \<and> h_next h' = Suc r \<and> h_live h' = insert r (h_live h) \<and>
     h_node h' r = (h_node h c)\<lparr>fa := 0\<rparr> \<and> h_node h' c = (h_node h c)\<lparr>ch := 0, ch_len := 0\<rparr> \<and>
     (\<forall>a\<in>set (kids h c). h_node h' a = (h_node h a)\<lparr>fa := r\<rparr>) \<and>
     (\<forall>a. a \<noteq> r \<longrightarrow> a \<noteq> c \<longrightarrow> a \<notin> set (kids h c) \<longrightarrow> h_node h' a = h_node h a)"

lemma moved_nodes:
  assumes "moved_down c r h h'"
  shows "h_node h' r = (h_node h c)\<lparr>fa := 0\<rparr>" "h_live h' = insert r (h_live h)"
    "\<And>a. a \<noteq> r \<Longrightarrow> a \<noteq> c \<Longrightarrow> h_node h' a = h_node h a \<or> h_node h' a = (h_node h a)\<lparr>fa := r\<rparr>"
    "\<And>a. a \<noteq> r \<Longrightarrow> a \<noteq> c \<Longrightarrow> a \<notin> set (kids h c) \<Longrightarrow> h_node h' a = h_node h a"
  using assms unfolding moved_down_def by blast+

lemma fold_fa:
  "h_node (fold (\<lambda>k. upd k (\<lambda>y. y\<lparr>fa := r\<rparr>)) ks h) a = (if a \<in> set ks then (h_node h a)\<lparr>fa := r\<rparr> else h_node h a)"
  by (induction ks arbitrary: h) auto

lemma ChangeRoot_child:
  assumes "c \<noteq> 0" and "c \<noteq> h_next h" "c \<notin> set (kids h c)" "h_next h \<notin> set (kids h c)" and "rt \<noteq> 0"
  shows "\<exists>h'. ChangeRoot A c rt dq h = (h_next h, dq @ [rt], h') \<and> moved_down c (h_next h) h h'"
proof -
  let ?r = "h_next h" and ?h1 = "snd (new_nodes 1 h)"
  let ?ha = "upd ?r (\<lambda>_. (h_node h c)\<lparr>fa := 0\<rparr>) ?h1"
  let ?hb = "fold (\<lambda>k. upd k (\<lambda>y. y\<lparr>fa := ?r\<rparr>)) (kids h c) ?ha"
  let ?hc = "upd c (\<lambda>y. y\<lparr>ch := 0, ch_len := 0\<rparr>) ?hb"
  have "kids ?ha c = kids h c" using assms(2) by (intro kids_same) (simp add: new_nodes_def)
  then have "ChangeRoot A c rt dq h = (?r, dq @ [rt], ?hc)"
    using assms(1,5) by (simp add: ChangeRoot_def new_nodes_def Let_def)
  moreover have "moved_down c ?r h ?hc"
    using assms(2-4) by (auto simp: moved_down_def fold_fa) (simp_all add: new_nodes_def)
  ultimately show ?thesis by blast
qed

lemma moved_facts:
  assumes mv: "moved_down c r h h'" and ok: "tree_ok h rt T d" and c: "c \<in> set (kids h rt)"
    and U: "U = desc h c - {c}"
  shows "c \<in> T" "c \<noteq> rt" "d c = 1" "U \<subseteq> T" "rt \<notin> U" "r \<notin> h_live h" "r \<notin> T" "set (kids h c) \<subseteq> U" "c \<notin> U"
    "\<And>x. x \<in> U \<Longrightarrow> set (kids h x) \<subseteq> U"
    "\<And>x. x \<in> U \<Longrightarrow> x \<notin> set (kids h c) \<Longrightarrow> fa (h_node h x) \<in> U"
    "kids h' r = kids h c" "kids h' c = []" "\<And>x. x \<noteq> r \<Longrightarrow> x \<noteq> c \<Longrightarrow> kids h' x = kids h x"
    "\<And>x. x \<in> U \<Longrightarrow> 1 < d x"
    "\<And>x. x \<in> U \<Longrightarrow> \<exists>p. seg h rt (c # p) \<and> last (c # p) = x \<and> p \<noteq> []"
proof -
  note K = tree_okD [OF ok] and del = tree_deletable [OF ok]
  from K(2,7) K(8) [OF K(2) c] show cT: "c \<in> T" and cr: "c \<noteq> rt" and dc: "d c = 1" by auto
  from desc_sub [OF del cT] U show UT: "U \<subseteq> T" by blast
  show d1: "1 < d x" if "x \<in> U" for x using desc_sub(3) [OF del cT, of x] that U dc by simp
  with K(7) show "rt \<notin> U" by fastforce
  have r: "r = h_next h" using mv by (simp add: moved_down_def)
  with K(4,5) show rl: "r \<notin> h_live h" and "r \<notin> T" by blast+
  show cU: "c \<notin> U" using U by simp
  have kc: "x \<notin> set (kids h x)" if "x \<in> T" for x using K(8) [OF that, of x] by auto
  show kU: "set (kids h c) \<subseteq> U" using desc_kids [of h c] kc [OF cT] U by auto
  show "set (kids h x) \<subseteq> U" if x: "x \<in> U" for x
  proof
    fix y assume y: "y \<in> set (kids h x)"
    from x U obtain p where "seg h c p" "last (c # p) = x" by (auto simp: desc_def)
    with y have "seg h c (p @ [y])" by (simp add: seg_append)
    then have "y \<in> desc h c" by (rule descI) simp
    moreover have "y \<noteq> c" using K(8) [of x y] y x UT d1 [OF x] dc by auto
    ultimately show "y \<in> U" using U by simp
  qed
  show way: "\<exists>p. seg h rt (c # p) \<and> last (c # p) = x \<and> p \<noteq> []" if "x \<in> U" for x
  proof -
    from that U obtain p where p: "seg h c p" "last (c # p) = x" by (auto simp: desc_def)
    moreover have "p \<noteq> []" using p(2) that cU by auto
    ultimately show ?thesis using c by auto
  qed
  show "fa (h_node h x) \<in> U" if x: "x \<in> U" "x \<notin> set (kids h c)" for x
  proof -
    from x(1) U obtain p where p: "seg h c p" "last (c # p) = x" by (auto simp: desc_def)
    with x(1) cU obtain q y where q: "p = q @ [y]" by (cases p rule: rev_cases) auto
    with p have y: "y = x" "seg h c q" "x \<in> set (kids h (last (c # q)))" by (auto simp: seg_append)
    let ?l = "last (c # q)"
    have l: "?l \<in> desc h c" using y(2) by (rule descI) simp
    with desc_sub(1) [OF del cT] have "?l \<in> T" by blast
    with K(8) [OF this y(3)] have "fa (h_node h x) = ?l" by simp
    moreover have "?l \<noteq> c" using x(2) y(3) by metis
    ultimately show ?thesis using l U by simp
  qed
  have nr: "r \<noteq> c" "r \<notin> set (kids h c)" using rl cT K(4) kU UT by blast+
  have "h_node h' r = (h_node h c)\<lparr>fa := 0\<rparr>" "h_node h' c = (h_node h c)\<lparr>ch := 0, ch_len := 0\<rparr>"
    using mv unfolding moved_down_def by blast+
  then show "kids h' r = kids h c" "kids h' c = []" by (simp_all add: kids_def)
  show "kids h' x = kids h x" if "x \<noteq> r" "x \<noteq> c" for x
    using mv that by (cases "x \<in> set (kids h c)") (simp_all add: moved_down_def kids_def)
qed

lemma moved_tree:
  assumes mv: "moved_down c r h h'" and ok: "tree_ok h rt T d" and c: "c \<in> set (kids h rt)" and U: "U = desc h c - {c}"
  shows "tree_ok h' r (insert r U) (\<lambda>x. if x = r then 0 else d x - 1)"
proof -
  note F = moved_facts [OF mv ok c U] and K = tree_okD [OF ok]
  have M: "r = h_next h" "h_next h' = Suc r" "h_live h' = insert r (h_live h)" "h_node h' r = (h_node h c)\<lparr>fa := 0\<rparr>"
    "\<And>a. a \<in> set (kids h c) \<Longrightarrow> h_node h' a = (h_node h a)\<lparr>fa := r\<rparr>"
    "\<And>a. a \<noteq> r \<Longrightarrow> a \<noteq> c \<Longrightarrow> a \<notin> set (kids h c) \<Longrightarrow> h_node h' a = h_node h a"
    using mv unfolding moved_down_def by blast+
  have Ur: "x \<noteq> r" "x \<noteq> c" "x \<in> T" if "x \<in> U" for x using that F(4,7,9) by auto
  have mem: "finite (insert r U)" "r \<in> insert r U" "0 \<notin> insert r U" "insert r U \<subseteq> h_live h'"
    "\<And>a. a \<in> h_live h' \<Longrightarrow> a < h_next h'" "0 < h_next h'"
    using K(1,3,4,5) F(4) M(1-3) ok by (auto simp: tree_ok_def finite_subset less_Suc_eq)
  have root: "fa (h_node h' r) = 0" "(if r = r then 0 else d r - 1) = 0" using M(4) by simp_all
  have kid: "x \<in> insert r U \<and> fa (h_node h' x) = n \<and> (if x = r then 0 else d x - 1) = Suc (if n = r then 0 else d n - 1)"
    if n: "n \<in> insert r U" and x: "x \<in> set (kids h' n)" for n x
  proof (cases "n = r")
    case True
    with x F(12) have x: "x \<in> set (kids h c)" by simp
    with M(5) [OF x] F(8) Ur(1) [of x] K(8) [OF F(1) x] F(3) True show ?thesis by auto
  next
    case False
    with n have n: "n \<in> U" by simp
    with x F(14) [OF False] Ur have x: "x \<in> set (kids h n)" by simp
    with F(10) [OF n] have xU: "x \<in> U" by blast
    have k: "fa (h_node h x) = n" "d x = Suc (d n)" using K(8) [OF Ur(3) [OF n] x] by simp_all
    have "x \<notin> set (kids h c)" using K(8) [OF F(1), of x] k(1) Ur(2) [OF n] by blast
    with M(6) [of x] Ur [OF xU] have "h_node h' x = h_node h x" by simp
    with k xU Ur(1) [OF xU] F(15) [OF n] False show ?thesis by simp
  qed
  have parent: "fa (h_node h' n) \<in> insert r U \<and> n \<in> set (kids h' (fa (h_node h' n)))" if n: "n \<in> insert r U" "n \<noteq> r" for n
  proof (cases "n \<in> set (kids h c)")
    case True
    with M(5) [OF True] F(12) show ?thesis by simp
  next
    case False
    with n have nU: "n \<in> U" by simp
    with M(6) [of n] Ur False have "h_node h' n = h_node h n" by simp
    moreover note f = F(11) [OF nU False]
    moreover have "n \<noteq> rt" using F(5) nU by auto
    ultimately show ?thesis using K(9) [OF Ur(3) [OF nU]] F(14) Ur [OF f] by simp
  qed
  have lens: "0 \<le> ch_len (h_node h' n) \<and> ch_len (h_node h' n) \<le> 362 \<and>
      (expand_state (h_node h' n) = k_expanded \<longleftrightarrow> 0 < ch_len (h_node h' n))" if n: "n \<in> insert r U" for n
  proof (cases "n = r")
    case True
    then show ?thesis using M(4) K(10,11) [OF F(1)] by simp
  next
    case False
    with n have n: "n \<in> U" by simp
    then have "ch_len (h_node h' n) = ch_len (h_node h n)" "expand_state (h_node h' n) = expand_state (h_node h n)"
      using M(5,6) [of n] Ur by (cases "n \<in> set (kids h c)"; simp)+
    with K(10,11) [OF Ur(3) [OF n]] show ?thesis by simp
  qed
  show ?thesis by (rule tree_okI [OF mem root kid parent lens])
qed

lemma moved_rest:
  assumes mv: "moved_down c r h h'" and ok: "tree_ok h rt T d" and c: "c \<in> set (kids h rt)" and U: "U = desc h c - {c}"
  shows "deletable h' rt (T - U) d"
proof -
  note F = moved_facts [OF mv ok c U] and K = tree_okD [OF ok]
  have r: "x \<noteq> r" if "x \<in> T" for x using that F(7) by auto
  have kids: "set (kids h' x) = (if x = c then {} else set (kids h x))" if "x \<in> T" for x using F(13,14) r [OF that] by simp
  have out: "y \<notin> U" if x: "x \<in> T - U" "x \<noteq> c" and y: "y \<in> set (kids h x)" for x y
  proof
    assume yU: "y \<in> U"
    have fy: "fa (h_node h y) = x" using K(8) [OF _ y] x(1) by simp
    have "y \<in> set (kids h c) \<Longrightarrow> fa (h_node h y) = c" using K(8) [OF F(1), of y] by simp
    with F(11) [OF yU] fy x show False by blast
  qed
  have "ch_len (h_node h' x) = (if x = c then 0 else ch_len (h_node h x))" if "x \<in> T" for x
    using mv r [OF that] F(8,9) by (cases "x \<in> set (kids h c)") (auto simp: moved_down_def)
  then have 1: "0 \<le> ch_len (h_node h' x)" if "x \<in> T - U" for x using K(10) that by simp
  have 2: "\<exists>m\<in>T - U. x \<in> set (kids h' m)" if x: "x \<in> T - U" "x \<noteq> rt" for x
  proof -
    let ?f = "fa (h_node h x)"
    from K(9) [of x] x have f: "?f \<in> T" "x \<in> set (kids h ?f)" by simp_all
    have "?f \<notin> U" using F(10) [of ?f] f(2) x(1) by blast
    moreover have "?f \<noteq> c" using F(8) f(2) x(1) by auto
    ultimately show ?thesis using f kids [OF f(1)] by auto
  qed
  have 3: "T - U \<subseteq> h_live h'" using K(4) mv by (auto simp: moved_down_def)
  have 4: "y \<in> T - U \<and> d y = Suc (d x)" if "x \<in> T - U" "y \<in> set (kids h' x)" for x y
    using that kids [of x] out [of x y] K(8) [of x y] by (auto split: if_splits)
  have 5: "set (kids h' x) \<inter> set (kids h' y) = {}" if "x \<in> T - U" "y \<in> T - U" "x \<noteq> y" for x y
    using that kids [of x] kids [of y] deletableD(7) [OF tree_deletable [OF ok], of x y] by auto
  have "finite (T - U)" "rt \<in> T - U" using K(1,2) F(5) by simp_all
  then show ?thesis by (rule deletableI [OF _ _ 3 K(7) 1 4 5 2])
qed

lemma moved_seg:
  assumes mv: "moved_down c r h h'" and ok: "tree_ok h rt T d" and c: "c \<in> set (kids h rt)" and U: "U = desc h c - {c}"
  shows "seg h' r p = seg h c p" "seg h c p \<Longrightarrow> set p \<subseteq> U" "seg h c p \<Longrightarrow> map (mv h') p = map (mv h) p"
proof -
  note F = moved_facts [OF mv ok c U]
  have U': "seg h' x p = seg h x p" if "x \<in> U" for x p
    using that
  proof (induction p arbitrary: x)
    case (Cons y p)
    have "x \<noteq> r" "x \<noteq> c" using Cons.prems F(4,7,9) by auto
    with F(10,14) [of x] Cons show ?case by auto
  qed simp
  have sub: "seg h x p \<Longrightarrow> x \<in> U \<Longrightarrow> set p \<subseteq> U" for x p
    using F(10) by (induction p arbitrary: x) auto
  show "seg h' r p = seg h c p" using F(8,12) U' by (cases p) auto
  show s: "set p \<subseteq> U" if "seg h c p" using that F(8) sub by (cases p) auto
  have "mv h' x = mv h x" if "x \<in> U" for x
  proof -
    have "x \<noteq> r" "x \<noteq> c" using that F(4,7,9) by blast+
    then show ?thesis using moved_nodes(3) [OF mv, of x] by auto
  qed
  then show "seg h c p \<Longrightarrow> map (mv h') p = map (mv h) p" using s by auto
qed

lemma moved_inv:
  assumes inv: "sim_inv cf Z s0 k b rt e T s" and fl: "s_flying s = []" and mv: "moved_down c r (s_heap s) h'"
    and c: "c \<in> set (kids (s_heap s) rt)" and m: "Move Z (mv (s_heap s) c) b = Some (0, b')"
    and s': "s_heap s' = h'" "s_flying s' = []"
  shows "sim_inv cf Z s0 (Suc k) b' r 0 (insert r (desc (s_heap s) c - {c})) s'"
proof -
  let ?h = "s_heap s" let ?U = "desc ?h c - {c}"
  from inv obtain d where ok: "tree_ok ?h rt T d" and pl: "played Z s0 k b rt ?h" and fo: "flights_ok Z b rt T [] ?h"
    and vl: "losses_ok rt e T [] ?h" and sz: "sizes_ok T ?h" and vs: "visits_ok cf Z b rt T ?h"
    using fl unfolding sim_inv_def by auto
  note F = moved_facts [OF mv ok c refl] and S = moved_seg [OF mv ok c refl]
  have node: "node_size (h_node h' x) = node_size (h_node ?h x) \<and> visit_count (h_node h' x) = visit_count (h_node ?h x) \<and>
      virtual_loss_count (h_node h' x) = virtual_loss_count (h_node ?h x) \<and> expand_state (h_node h' x) = expand_state (h_node ?h x) \<and>
      kids h' x = kids ?h x" if "x \<in> ?U" for x
  proof -
    have x: "x \<noteq> r" "x \<noteq> c" using that F(4,7,9) by blast+
    then have "h_node h' x = h_node ?h x \<or> h_node h' x = (h_node ?h x)\<lparr>fa := r\<rparr>" by (rule moved_nodes(3) [OF mv])
    with F(14) [OF x] show ?thesis by auto
  qed
  have root: "node_size (h_node h' r) = node_size (h_node ?h c) \<and> visit_count (h_node h' r) = visit_count (h_node ?h c) \<and>
      virtual_loss_count (h_node h' r) = virtual_loss_count (h_node ?h c) \<and> expand_state (h_node h' r) = expand_state (h_node ?h c)"
    using moved_nodes(1) [OF mv] by simp
  let ?o = "\<lambda>x. if x = r then c else x"
  have old: "?o x \<in> T \<and> node_size (h_node h' x) = node_size (h_node ?h (?o x)) \<and>
      visit_count (h_node h' x) = visit_count (h_node ?h (?o x)) \<and> virtual_loss_count (h_node h' x) = virtual_loss_count (h_node ?h (?o x)) \<and>
      expand_state (h_node h' x) = expand_state (h_node ?h (?o x)) \<and> kids h' x = kids ?h (?o x) \<and> ?o x \<noteq> rt" if "x \<in> insert r ?U" for x
    using that node [of x] root F(1,2,4,5,12) by (cases "x = r") auto
  have kidU: "set (kids ?h (?o x)) \<subseteq> ?U" if "x \<in> insert r ?U" for x using that F(8,10) by (cases "x = r") auto
  have sums: "(\<Sum>y\<in>set (kids h' x). node_size (h_node h' y)) = (\<Sum>y\<in>set (kids ?h (?o x)). node_size (h_node ?h y))"
    "(\<Sum>y\<in>set (kids h' x). visit_count (h_node h' y)) = (\<Sum>y\<in>set (kids ?h (?o x)). visit_count (h_node ?h y))"
    if "x \<in> insert r ?U" for x
  proof -
    have "kids h' x = kids ?h (?o x)" using old [OF that] by blast
    then have k: "set (kids h' x) = set (kids ?h (?o x))" by simp
    show "(\<Sum>y\<in>set (kids h' x). node_size (h_node h' y)) = (\<Sum>y\<in>set (kids ?h (?o x)). node_size (h_node ?h y))"
      "(\<Sum>y\<in>set (kids h' x). visit_count (h_node h' y)) = (\<Sum>y\<in>set (kids ?h (?o x)). visit_count (h_node ?h y))"
      unfolding k by (rule sum.cong [OF refl]; use kidU [OF that] node in blast)+
  qed
  have at: "at_node Z b' r h' x b2" if x: "x \<in> insert r ?U" and a: "at_node Z b rt ?h (?o x) b2" for x b2
  proof -
    from a obtain q where q: "seg ?h rt q" "last (rt # q) = ?o x" "play_moves Z (map (mv ?h) q) b = Some b2"
      by (auto simp: at_node_def)
    obtain p where p: "seg ?h c p" "last (c # p) = ?o x" "last (r # p) = x"
    proof (cases "x = r")
      case True
      then show thesis using that [of "[]"] by simp
    next
      case False
      with x F(16) [of x] obtain p where "seg ?h rt (c # p)" "last (c # p) = x" "p \<noteq> []" by blast
      with that [of p] False show thesis by simp
    qed
    have "q = c # p" using seg_unique [OF ok q(1), of "c # p"] p(1,2) q(2) c by simp
    with q(3) m have "play_moves Z (map (mv ?h) p) b' = Some b2" by simp
    then have "play_moves Z (map (mv h') p) b' = Some b2" unfolding S(3) [OF p(1)] .
    moreover have "seg h' r p" unfolding S(1) by (rule p(1))
    ultimately show ?thesis using p(3) unfolding at_node_def by blast
  qed
  have "played Z s0 (Suc k) b' r h'"
    unfolding played_def
  proof (intro allI impI)
    fix p assume "seg h' r p"
    then have p: "seg ?h c p" using S(1) by simp
    with c have "seg ?h rt (c # p)" by simp
    with pl obtain b2 H where "play_moves Z (map (mv ?h) (c # p)) b = Some b2" "reachable Z s0 (k + length (c # p)) H b2"
      unfolding played_def by blast
    with m show "\<exists>b2 H. play_moves Z (map (mv h') p) b' = Some b2 \<and> reachable Z s0 (Suc k + length p) H b2"
      unfolding S(3) [OF p] by auto
  qed
  moreover have "flights_ok Z b' r (insert r ?U) [] h'"
  proof -
    have "\<forall>n\<in>T. expand_state (h_node ?h n) \<noteq> k_expanding" using fo by (auto simp: flights_ok_def)
    then have "\<forall>x\<in>insert r ?U. expand_state (h_node h' x) \<noteq> k_expanding" using old by simp
    then have "{x \<in> insert r ?U. expand_state (h_node h' x) = k_expanding} = {}" by blast
    then show ?thesis unfolding flights_ok_def by simp
  qed
  moreover have "losses_ok r 0 (insert r ?U) [] h'"
  proof -
    have "\<forall>n\<in>T. n \<noteq> rt \<longrightarrow> virtual_loss_count (h_node ?h n) = 0" using vl by (simp add: losses_ok_def)
    then have "\<forall>x\<in>insert r ?U. virtual_loss_count (h_node h' x) = 0" using old by simp
    then show ?thesis by (simp add: losses_ok_def)
  qed
  moreover have "sizes_ok (insert r ?U) h'"
    unfolding sizes_ok_def
  proof
    fix x assume x: "x \<in> insert r ?U"
    from sz old [OF x] have "node_size (h_node ?h (?o x)) = wrap32 (1 + (\<Sum>y\<in>set (kids ?h (?o x)). node_size (h_node ?h y)))"
      unfolding sizes_ok_def by blast
    with sums(1) [OF x] old [OF x] show "node_size (h_node h' x) = wrap32 (1 + (\<Sum>y\<in>set (kids h' x). node_size (h_node h' y)))"
      by simp
  qed
  moreover have "visits_ok cf Z b' r (insert r ?U) h'"
    unfolding visits_ok_def
  proof
    fix x assume x: "x \<in> insert r ?U"
    from vs old [OF x] have "wrap32 (visit_count (h_node ?h (?o x))) = visit_count (h_node ?h (?o x)) \<and>
      (if expand_state (h_node ?h (?o x)) = k_expanded
       then visit_count (h_node ?h (?o x)) = wrap32 (1 + (\<Sum>y\<in>set (kids ?h (?o x)). visit_count (h_node ?h y)))
       else visit_count (h_node ?h (?o x)) = 0 \<or>
         \<not> disable_double_pass_scoring cf \<and> (\<exists>b2. at_node Z b rt ?h (?o x) b2 \<and> is_double_pass b2))"
      unfolding visits_ok_def by blast
    with sums(2) [OF x] old [OF x] at [OF x] show "wrap32 (visit_count (h_node h' x)) = visit_count (h_node h' x) \<and>
      (if expand_state (h_node h' x) = k_expanded
       then visit_count (h_node h' x) = wrap32 (1 + (\<Sum>y\<in>set (kids h' x). visit_count (h_node h' y)))
       else visit_count (h_node h' x) = 0 \<or>
         \<not> disable_double_pass_scoring cf \<and> (\<exists>b2. at_node Z b' r h' x b2 \<and> is_double_pass b2))" by metis
  qed
  ultimately show ?thesis using moved_tree [OF mv ok c refl] s'
    by (intro sim_invI [where h = h' and fl = "[]"]) simp_all
qed

lemma moved_forest:
  assumes mv: "moved_down c r h h'" and ok: "tree_ok h rt T d" and c: "c \<in> set (kids h rt)"
    and f: "forest h (h_live h - T) dq"
  shows "forest h' (h_live h' - insert r (desc h c - {c})) (dq @ [rt])"
proof -
  note F = moved_facts [OF mv ok c refl] and K = tree_okD [OF ok]
  let ?U = "desc h c - {c}"
  have live: "h_live h' = insert r (h_live h)" using mv by (simp add: moved_down_def)
  have "forest h' (h_live h - T) dq"
  proof (rule forest_frame [OF f])
    fix a assume "a \<in> h_live h - T"
    then have "a \<noteq> r" "a \<noteq> c" "a \<notin> set (kids h c)" using F(1,4,6,8) by blast+
    then show "h_node h' a = h_node h a" by (rule moved_nodes(4) [OF mv])
  qed (use live in auto)
  from forest_snoc [OF this moved_rest [OF mv ok c refl]] have "forest h' ((h_live h - T) \<union> (T - ?U)) (dq @ [rt])" by blast
  moreover have "(h_live h - T) \<union> (T - ?U) = h_live h' - insert r ?U" using live K(4) F(4,6) by auto
  ultimately show ?thesis by simp
qed

end
