(* ===== verification/Mcts_Eval.thy ===== *)
theory Mcts_Eval
  imports Mcts_Config Eval_Cache Go_Score Go_Feature Cpp_Float
begin

text \<open>
  The evaluation of a position by the engine (\<open>Eval\<close>, \<open>TransformFeatures\<close>, \<open>TransformCoord\<close>,
  \<open>ApplyTemperature\<close> of mcts_engine.cc). The network, reached through the task queue, is the
  argument \<open>net\<close>; the random symmetry is the argument \<open>mode\<close>, of three bits.
\<close>

subsection \<open>Symmetries of the board\<close>

definition bit_on :: "int \<Rightarrow> int \<Rightarrow> bool" where
  "bit_on m k \<longleftrightarrow> m AND k \<noteq> 0"

definition TransformCoord :: "int \<Rightarrow> bool \<Rightarrow> GoCoordId \<times> GoCoordId \<Rightarrow> GoCoordId \<times> GoCoordId" where
  "TransformCoord mode rev_dir p =
     (let flip_x = (\<lambda>(x, y). if bit_on mode 1 then (BORDER_SIZE - x - 1, y) else (x, y));
          flip_y = (\<lambda>(x, y). if bit_on mode 2 then (x, BORDER_SIZE - y - 1) else (x, y));
          swap = (\<lambda>(x, y). if bit_on mode 4 then (y, x) else (x, y))
      in if rev_dir then flip_x (flip_y (swap p)) else swap (flip_y (flip_x p)))"

text \<open>The point from which the value of point \<open>i\<close> is taken.\<close>

definition source_point :: "int \<Rightarrow> bool \<Rightarrow> nat \<Rightarrow> nat" where
  "source_point mode rev_dir i =
     (let (x, y) = TransformCoord mode rev_dir (IdToCoord (int i)) in nat (CoordToId x y))"

text \<open>\<open>z\<close> is the zero of the element type, with which \<open>ret\<close> is filled first.\<close>

definition TransformFeatures :: "'f MCTSConfig \<Rightarrow> 'a \<Rightarrow> int \<Rightarrow> bool \<Rightarrow> 'a list \<Rightarrow> 'a list" where
  "TransformFeatures c z mode rev_dir fs =
     (if disable_transform c then fs
      else let depth = length fs div 361
           in fold (\<lambda>i ret. fold (\<lambda>k ret. ret[i * depth + k := fs ! (source_point mode rev_dir i * depth + k)]) [0..<depth] ret)
                [0..<361] (replicate (length fs) z))"

lemma TransformCoord_board: "InBoardXY x y \<Longrightarrow> (case TransformCoord m r (x, y) of (x', y') \<Rightarrow> InBoardXY x' y')"
  by (auto simp: TransformCoord_def InBoardXY_def Let_def split: if_splits)

lemma TransformCoord_inverse:
  "TransformCoord m True (TransformCoord m False p) = p" "TransformCoord m False (TransformCoord m True p) = p"
  by (cases p; simp add: TransformCoord_def Let_def)+

lemma source_point_ok:
  assumes "i < 361"
  shows "source_point m r i < 361" "source_point m (\<not> r) (source_point m r i) = i"
proof -
  have i: "InBoard (int i)" using assms by (simp add: InBoard_def)
  obtain x y where xy: "IdToCoord (int i) = (x, y)" "InBoardXY x y"
    using InBoardXY_IdToCoord [OF i] by (metis prod.collapse)
  obtain x' y' where t: "TransformCoord m r (x, y) = (x', y')" by fastforce
  have b: "InBoardXY x' y'" using TransformCoord_board [OF xy(2), of m r] t by simp
  then have c: "InBoard (CoordToId x' y')" by (rule InBoard_CoordToId)
  have s: "int (source_point m r i) = CoordToId x' y'" using xy(1) t c by (simp add: source_point_def InBoard_def)
  then show "source_point m r i < 361" using c by (simp add: InBoard_def)
  have "TransformCoord m (\<not> r) (x', y') = (x, y)" using TransformCoord_inverse [of m "(x, y)"] t by (cases r) simp_all
  moreover have "CoordToId x y = int i"
    using CoordToId_IdToCoord_board [OF i] i xy(1) by (simp add: IdToCoord_def InBoard_def split: if_splits)
  ultimately show "source_point m (\<not> r) (source_point m r i) = i"
    using s IdToCoord_CoordToId_board [OF b] by (simp add: source_point_def)
qed

lemma fold_update_row:
  "length (fold (\<lambda>k ret. ret[b + k := g k]) [0..<d] xs) = length xs \<and>
   (n < length xs \<longrightarrow> fold (\<lambda>k ret. ret[b + k := g k]) [0..<d] xs ! n = (if b \<le> n \<and> n < b + d then g (n - b) else xs ! n))"
  by (induction d) (auto simp: nth_list_update less_Suc_eq)

lemma fold_update_rows:
  "0 < d \<Longrightarrow> length (fold (\<lambda>i. fold (\<lambda>k ret. ret[i * d + k := g i k]) [0..<d]) [0..<m] xs) = length xs \<and>
   (n < length xs \<longrightarrow> fold (\<lambda>i. fold (\<lambda>k ret. ret[i * d + k := g i k]) [0..<d]) [0..<m] xs ! n =
     (if n < m * d then g (n div d) (n mod d) else xs ! n))"
proof (induction m)
  case (Suc m)
  let ?r = "fold (\<lambda>i. fold (\<lambda>k ret. ret[i * d + k := g i k]) [0..<d]) [0..<m] xs"
  have row: "n < length ?r \<longrightarrow> fold (\<lambda>k ret. ret[m * d + k := g m k]) [0..<d] ?r ! n =
      (if m * d \<le> n \<and> n < m * d + d then g m (n - m * d) else ?r ! n)"
    "length (fold (\<lambda>k ret. ret[m * d + k := g m k]) [0..<d] ?r) = length ?r"
    using fold_update_row [where b = "m * d" and g = "g m" and d = d and xs = ?r and n = n] by simp_all
  have "n div d = m \<and> n mod d = n - m * d" if "m * d \<le> n" "n < m * d + d"
  proof -
    have "n div d = m" using that Suc.prems by (intro div_nat_eqI) (simp_all add: algebra_simps)
    then show ?thesis using div_mult_mod_eq [of n d] by (metis add_diff_cancel_left')
  qed
  with row Suc show ?case by (auto simp: add.commute)
qed simp

lemma TransformFeatures_nth:
  assumes "\<not> disable_transform c" and "length fs = 361 * d"
  shows "length (TransformFeatures c z m r fs) = length fs"
    "i < 361 \<Longrightarrow> k < d \<Longrightarrow> TransformFeatures c z m r fs ! (i * d + k) = fs ! (source_point m r i * d + k)"
proof -
  show "length (TransformFeatures c z m r fs) = length fs"
    using assms fold_update_rows [of d "\<lambda>i k. fs ! (source_point m r i * d + k)" 361 "replicate (length fs) z"]
    by (cases "d = 0") (simp_all add: TransformFeatures_def fold_id)
  assume i: "i < 361" and k: "k < d"
  have "i * d + k < 361 * d"
  proof -
    have "i * d + k < (i + 1) * d" using k by simp
    also have "\<dots> \<le> 361 * d" using i by (intro mult_le_mono) simp_all
    finally show ?thesis .
  qed
  with assms i k fold_update_rows [of d "\<lambda>i k. fs ! (source_point m r i * d + k)" 361 "replicate (length fs) z" "i * d + k"]
  show "TransformFeatures c z m r fs ! (i * d + k) = fs ! (source_point m r i * d + k)"
    by (simp add: TransformFeatures_def)
qed

lemma TransformFeatures_length: "length fs = 361 * d \<Longrightarrow> length (TransformFeatures c z m r fs) = length fs"
proof (cases "disable_transform c")
  case False
  then show "length fs = 361 * d \<Longrightarrow> ?thesis" by (rule TransformFeatures_nth(1))
qed (simp add: TransformFeatures_def)

text \<open>Turning the board and turning it back: on data of whole points the reverse transformation
  undoes the transformation and conversely, for every symmetry, and both keep the size.\<close>

theorem transform_roundtrip:
  assumes "length fs = 361 * d"
  shows "TransformFeatures c z m (\<not> r) (TransformFeatures c z m r fs) = fs \<and>
    length (TransformFeatures c z m r fs) = length fs"
proof (cases "disable_transform c")
  case False
  note T = TransformFeatures_nth [OF False assms, where z = z and m = m and r = r]
  have l: "length (TransformFeatures c z m r fs) = 361 * d" using T(1) assms by simp
  note T' = TransformFeatures_nth [OF False l, where z = z and m = m and r = "\<not> r"]
  have "TransformFeatures c z m (\<not> r) (TransformFeatures c z m r fs) ! n = fs ! n" if n: "n < 361 * d" for n
  proof -
    have d: "0 < d" using n by (cases d) auto
    have i: "n div d < 361" "n mod d < d" "n div d * d + n mod d = n" using n d by (simp_all add: less_mult_imp_div_less)
    note s = source_point_ok [OF i(1), of m "\<not> r"]
    from T'(2) [OF i(1,2)] T(2) [OF s(1) i(2)] s(2) i(3) show ?thesis by simp
  qed
  then show ?thesis using T(1) T'(1) assms by (auto intro: nth_equalityI)
qed (simp add: TransformFeatures_def)

theorem transform_roundtrip_witness:
  "TransformFeatures (default_config (0::real)) 0 5 True (TransformFeatures (default_config (0::real)) 0 5 False [0..<361]) = [0..<361]"
  using transform_roundtrip [of "[0..<361]" 1 "default_config (0::real)" 0 5 False] by simp

subsection \<open>Evaluation\<close>

definition ApplyTemperature :: "'f arith \<Rightarrow> 'f list \<Rightarrow> 'f \<Rightarrow> 'f list" where
  "ApplyTemperature A probs temperature =
     (let rtemp = f_div A (f_lit A 1) temperature;
          ps = map (\<lambda>p. f_pow A p rtemp) probs;
          s = accumulate A ps (f_lit A 0)
      in map (\<lambda>p. f_div A p s) ps)"

text \<open>
  The function wrapped around the callback: it corrects a pass that would lose the game, checks
  the size (a failed check is \<open>None\<close>, as is reading the last entry of an empty vector), and for
  a fresh answer turns the policy back and puts it into the cache.
\<close>

definition eval_answer :: "'f arith \<Rightarrow> 'f MCTSConfig \<Rightarrow> u64 \<Rightarrow> bool \<Rightarrow> int \<Rightarrow> bool \<Rightarrow> int \<times> 'f list \<times> 'f \<Rightarrow> 'f EvalCache \<Rightarrow>
    ((int \<times> 'f list \<times> 'f) \<times> 'f EvalCache) option" where
  "eval_answer A c hash found mode dumb_pass ans cache =
     (case ans of (ret, policy, v) \<Rightarrow>
        if ret \<noteq> 0 then Some ((ret, policy, v), cache)
        else do {
          p1 \<leftarrow> (if dumb_pass \<and> f_lt A v (f_lit A (1/2)) \<and> \<not> disable_double_pass_scoring c
                 then if policy = [] then None
                      else Some (butlast policy @ [f_min A (last policy) (f_lit A (1/100000))])
                 else Some policy);
          if length p1 \<noteq> 362 then None
          else do {
            let p2 = (if found then p1
                      else TransformFeatures c (f_lit A 0) mode True (butlast p1) @ [last p1]);
            let cache2 = (if found then cache else Insert hash \<lparr>ev_value = v, ev_prob = p2\<rparr> cache);
            let p3 = (if enable_policy_temperature c then ApplyTemperature A p2 (policy_temperature c) else p2);
            Some ((ret, p3, v), cache2) } })"

definition dumb_pass :: "GoState \<Rightarrow> bool option" where
  "dumb_pass b = map_option (\<lambda>(w, _). w \<noteq> current_player b) (GetWinner b)"

text \<open>\<open>Eval\<close>, with the answer processed at once.\<close>

definition Eval :: "'f arith \<Rightarrow> 'f MCTSConfig \<Rightarrow> (bool list \<Rightarrow> int \<times> 'f list \<times> 'f) \<Rightarrow> int \<Rightarrow> GoState \<Rightarrow> 'f EvalCache \<Rightarrow>
    ((int \<times> 'f list \<times> 'f) \<times> 'f EvalCache) option" where
  "Eval A c net mode b cache =
     (if \<not> disable_double_pass_scoring c \<and> is_double_pass b
      then map_option (\<lambda>d. ((0, replicate 361 (f_lit A 0) @ [f_lit A 1], if d then f_lit A 1 else f_lit A (- 1)), cache)) (dumb_pass b)
      else do {
        features \<leftarrow> GetFeature b;
        d \<leftarrow> dumb_pass b;
        case Probe (zobrist_hash_value b) cache of
          Some e \<Rightarrow> eval_answer A c (zobrist_hash_value b) True mode d (0, ev_prob e, ev_value e) cache
        | None \<Rightarrow> eval_answer A c (zobrist_hash_value b) False mode d (net (TransformFeatures c False mode False features)) cache })"

subsection \<open>Properties\<close>

lemma reachable_line:
  assumes "reachable Z (GoState_new sk raw) n H s"
  shows "n \<le> 254 \<Longrightarrow> \<exists>bs. line Z (GoState_new sk raw) bs s \<and> length bs \<le> n"
  using assms
proof induction
  case start
  then show ?case using line.start by blast
next
  case (move n H s m r s')
  then obtain bs where bs: "line Z (GoState_new sk raw) bs s" "length bs \<le> n" by auto
  from Move_contract_helper [OF reachable_gs_inv [OF move.hyps(1)] reachable_room [OF move.hyps(1)] move.hyps(2)] move
  have "r = 0 \<or> s' = s" by (auto split: if_splits)
  then show ?case
  proof
    assume "r = 0"
    with line.move [OF bs(1) move.hyps(2)] move.hyps(3) bs(2) show ?thesis by force
  qed (use bs in auto)
qed

lemma ApplyTemperature_length [simp]: "length (ApplyTemperature A ps t) = length ps"
  by (simp add: ApplyTemperature_def Let_def)

definition cache_sized :: "'f EvalCache \<Rightarrow> bool" where
  "cache_sized cache \<longleftrightarrow> (\<forall>k e. Probe k cache = Some e \<longrightarrow> length (ev_prob e) = 362)"

lemma Insert_sized:
  assumes "cache_sized cache" and "length (ev_prob e) = 362"
  shows "cache_sized (Insert k e cache)"
proof -
  have "Probe k' (Insert k e cache) = Some x \<Longrightarrow> x = e \<or> Probe k' cache = Some x" for k' x
    by (auto simp: Insert_def AddCache_def Probe_def evict_def Let_def split: if_splits)
  with assms show ?thesis unfolding cache_sized_def by metis
qed

lemma eval_answer_spec:
  assumes "cache_sized cache" and "ret = 0 \<longrightarrow> length policy = 362"
  shows "\<exists>p cache'. eval_answer A c hash found mode d (ret, policy, v) cache = Some ((ret, p, v), cache') \<and>
    cache_sized cache' \<and> (ret = 0 \<longrightarrow> length p = 362)"
proof (cases "ret = 0")
  case True
  with assms(2) have l: "length policy = 362" by simp
  define p1 where "p1 = (if d \<and> f_lt A v (f_lit A (1/2)) \<and> \<not> disable_double_pass_scoring c
    then butlast policy @ [f_min A (last policy) (f_lit A (1/100000))] else policy)"
  define p2 where "p2 = (if found then p1 else TransformFeatures c (f_lit A 0) mode True (butlast p1) @ [last p1])"
  have p1: "length p1 = 362" using l by (simp add: p1_def)
  then have p2: "length p2 = 362" using TransformFeatures_length [of "butlast p1" 1 c "f_lit A 0" mode True] by (simp add: p2_def)
  have "eval_answer A c hash found mode d (ret, policy, v) cache =
    Some ((ret, if enable_policy_temperature c then ApplyTemperature A p2 (policy_temperature c) else p2, v),
      if found then cache else Insert hash \<lparr>ev_value = v, ev_prob = p2\<rparr> cache)"
    using True l p1 by (auto simp: eval_answer_def p1_def p2_def Let_def)
  with p2 assms(1) Insert_sized [OF assms(1), of "\<lparr>ev_value = v, ev_prob = p2\<rparr>" hash] show ?thesis by auto
next
  case False
  with assms(1) show ?thesis by (simp add: eval_answer_def)
qed

lemma reachable_eval:
  assumes "reachable Z (GoState_new sk raw) n H b" and "n \<le> 254"
  shows "\<exists>f. GetFeature b = Some f \<and> length f = 361 * 17"
    "\<exists>w. GetWinner b = Some w \<and> (fst w = WHITE \<longleftrightarrow> \<not> 8 \<le> int (card (area (board_state b) BLACK)) - int (card (area (board_state b) WHITE)))
      \<and> (fst w = WHITE \<or> fst w = BLACK)"
proof -
  from reachable_line [OF assms] assms(2) obtain bs where "line Z (GoState_new sk raw) bs b" "length bs \<le> 254" by auto
  from feature_planes [OF this] show "\<exists>f. GetFeature b = Some f \<and> length f = 361 * 17" by blast
  from reachable_gs_inv [OF assms] obtain L where "core (block_pool b) (stones b) (board_state b) (live b) L"
    by (auto simp: gs_inv_def)
  then have "colors_ok (board_state b)" by (simp add: core_def shape_def)
  from area_scores [OF this]
  show "\<exists>w. GetWinner b = Some w \<and> (fst w = WHITE \<longleftrightarrow> \<not> 8 \<le> int (card (area (board_state b) BLACK)) - int (card (area (board_state b) WHITE)))
      \<and> (fst w = WHITE \<or> fst w = BLACK)" by auto
qed

text \<open>Claim C26. In every position of a game, with a network that answers with 362 probabilities when
  it succeeds, \<open>Eval\<close> returns (no failed check), hands the search 362 probabilities whenever it
  reports success, and keeps this of the cache. After a double pass the network is not asked:
  all the weight is on pass and the value is -1 when the area score makes the side to move the
  winner and 1 otherwise.\<close>

theorem eval_gives_a_policy:
  assumes "reachable Z (GoState_new sk raw) n H b" and "n \<le> 254" and "cache_sized cache"
    and "\<And>f ret p v. net f = (ret, p, v) \<Longrightarrow> ret = 0 \<Longrightarrow> length p = 362"
  shows "\<exists>ret p v cache'. Eval A c net mode b cache = Some ((ret, p, v), cache') \<and> cache_sized cache' \<and>
    (ret = 0 \<longrightarrow> length p = 362) \<and>
    (\<not> disable_double_pass_scoring c \<and> is_double_pass b \<longrightarrow> ret = 0 \<and> p = replicate 361 (f_lit A 0) @ [f_lit A 1] \<and>
      v = (if current_player b = (if 8 \<le> int (card (area (board_state b) BLACK)) - int (card (area (board_state b) WHITE))
                                  then BLACK else WHITE) then f_lit A (- 1) else f_lit A 1) \<and> cache' = cache)"
proof -
  note E = reachable_eval [OF assms(1,2)]
  from E(2) obtain w where w: "GetWinner b = Some w"
    "fst w = (if 8 \<le> int (card (area (board_state b) BLACK)) - int (card (area (board_state b) WHITE)) then BLACK else WHITE)" by auto
  show ?thesis
  proof (cases "\<not> disable_double_pass_scoring c \<and> is_double_pass b")
    case True
    with w assms(3) show ?thesis by (cases w) (auto simp: Eval_def dumb_pass_def)
  next
    case False
    from E(1) obtain f where f: "GetFeature b = Some f" by blast
    let ?d = "fst w \<noteq> current_player b"
    have d: "dumb_pass b = Some ?d" using w by (cases w) (simp add: dumb_pass_def)
    show ?thesis
    proof (cases "Probe (zobrist_hash_value b) cache")
      case None
      obtain ret p v where n: "net (TransformFeatures c False mode False f) = (ret, p, v)" by (metis prod_cases3)
      with assms(4) have "ret = 0 \<longrightarrow> length p = 362" by blast
      from eval_answer_spec [OF assms(3) this, of A c "zobrist_hash_value b" False mode ?d v] None f d n False
      show ?thesis by (auto simp: Eval_def)
    next
      case (Some e)
      with assms(3) have "0 = 0 \<longrightarrow> length (ev_prob e) = 362" by (simp add: cache_sized_def)
      from eval_answer_spec [OF assms(3) this, of A c "zobrist_hash_value b" True mode ?d "ev_value e"] Some f d False
      show ?thesis by (auto simp: Eval_def)
    qed
  qed
qed

theorem eval_gives_a_policy_witness:
  "\<exists>ret p v cache'. Eval real_arith (default_config (0::real)) (\<lambda>f. (0, replicate 362 (1/362), 0)) 3 new_game EvalCache_new =
     Some ((ret, p, v), cache') \<and> cache_sized cache'"
proof -
  have "cache_sized (EvalCache_new :: real EvalCache)" by (simp add: cache_sized_def Probe_def EvalCache_new_def)
  from eval_gives_a_policy [OF reachable.start [of flat_weights "GoState_new True raw_memory"] _ this,
      of "\<lambda>f. (0, replicate 362 (1/362), 0)" real_arith "default_config (0::real)" 3]
  show ?thesis by auto
qed

text \<open>Claim C27. A fresh evaluation is in the coordinates of the board whatever symmetry was drawn: what
  the network sees at point i is the features of point T i, and the probability it gives to
  point i is the probability of T i in the policy, a permutation of the points; the probability
  of pass is the network's, except that a pass that loses the game gets at most 0.00001 while
  the value is below one half.\<close>

theorem eval_is_aligned:
  assumes "reachable Z (GoState_new sk raw) n H b" and "n \<le> 254" and "\<not> (\<not> disable_double_pass_scoring c \<and> is_double_pass b)"
    and "Probe (zobrist_hash_value b) cache = None" and "\<not> enable_policy_temperature c" and "\<not> disable_transform c"
    and "GetFeature b = Some f" and "net (TransformFeatures c False mode False f) = (0, q, v)" and "length q = 362"
  shows "(\<forall>i < 361. \<forall>k < 17. TransformFeatures c False mode False f ! (i * 17 + k) = f ! (source_point mode False i * 17 + k)) \<and>
    bij_betw (source_point mode False) {..<361} {..<361} \<and>
    (\<exists>p cache'. Eval A c net mode b cache = Some ((0, p, v), cache') \<and> length p = 362 \<and>
      cache' = Insert (zobrist_hash_value b) \<lparr>ev_value = v, ev_prob = p\<rparr> cache \<and>
      (\<forall>i < 361. p ! source_point mode False i = q ! i) \<and>
      p ! 361 = (if the (dumb_pass b) \<and> f_lt A v (f_lit A (1/2)) \<and> \<not> disable_double_pass_scoring c
                 then f_min A (q ! 361) (f_lit A (1/100000)) else q ! 361))"
proof (intro conjI)
  from reachable_eval(1) [OF assms(1,2)] assms(7) have lf: "length f = 361 * 17" by simp
  show "\<forall>i < 361. \<forall>k < 17. TransformFeatures c False mode False f ! (i * 17 + k) = f ! (source_point mode False i * 17 + k)"
    using TransformFeatures_nth(2) [OF assms(6) lf] by blast
  show "bij_betw (source_point mode False) {..<361} {..<361}"
    by (rule bij_betw_byWitness [where f' = "source_point mode True"])
      (use source_point_ok [of _ mode False] source_point_ok [of _ mode True] in auto)
  from reachable_eval(2) [OF assms(1,2)] obtain d where d: "dumb_pass b = Some d" by (auto simp: dumb_pass_def)
  define p1 where "p1 = (if d \<and> f_lt A v (f_lit A (1/2)) \<and> \<not> disable_double_pass_scoring c
    then butlast q @ [f_min A (last q) (f_lit A (1/100000))] else q)"
  let ?t = "TransformFeatures c (f_lit A 0) mode True (butlast p1)"
  have "q \<noteq> []" using assms(9) by (cases q) simp_all
  with assms(9) have q: "q \<noteq> []" "last q = q ! 361" by (simp_all add: last_conv_nth)
  have p1: "length p1 = 362" "butlast p1 = butlast q" using assms(9) by (simp_all add: p1_def)
  have last: "last p1 = (if d \<and> f_lt A v (f_lit A (1/2)) \<and> \<not> disable_double_pass_scoring c
    then f_min A (q ! 361) (f_lit A (1/100000)) else q ! 361)" using q by (simp add: p1_def)
  have lb: "length (butlast p1) = 361 * 1" using p1(1) by simp
  have "eval_answer A c (zobrist_hash_value b) False mode d (0, q, v) cache =
      Some ((0, ?t @ [last p1], v), Insert (zobrist_hash_value b) \<lparr>ev_value = v, ev_prob = ?t @ [last p1]\<rparr> cache)"
    using q(1) p1(1) assms(5,9) by (auto simp: eval_answer_def p1_def Let_def)
  then have "Eval A c net mode b cache =
      Some ((0, ?t @ [last p1], v), Insert (zobrist_hash_value b) \<lparr>ev_value = v, ev_prob = ?t @ [last p1]\<rparr> cache)"
    using assms(3,4,7,8) d by (auto simp: Eval_def)
  moreover have lt: "length ?t = 361" using TransformFeatures_length [OF lb] lb by simp
  moreover have "(?t @ [last p1]) ! source_point mode False i = q ! i" if i: "i < 361" for i
    using TransformFeatures_nth(2) [OF assms(6) lb, of "source_point mode False i" 0 "f_lit A 0" mode True]
      source_point_ok [OF i, of mode False] lt p1(2) i assms(9) by (simp add: nth_append nth_butlast)
  moreover have "(?t @ [last p1]) ! 361 = last p1" using lt by (simp add: nth_append)
  ultimately show "\<exists>p cache'. Eval A c net mode b cache = Some ((0, p, v), cache') \<and> length p = 362 \<and>
      cache' = Insert (zobrist_hash_value b) \<lparr>ev_value = v, ev_prob = p\<rparr> cache \<and>
      (\<forall>i < 361. p ! source_point mode False i = q ! i) \<and>
      p ! 361 = (if the (dumb_pass b) \<and> f_lt A v (f_lit A (1/2)) \<and> \<not> disable_double_pass_scoring c
                 then f_min A (q ! 361) (f_lit A (1/100000)) else q ! 361)"
    using last d by (intro exI [of _ "?t @ [last p1]"]) simp
qed

theorem eval_is_aligned_witness:
  "\<exists>p cache'. Eval real_arith (default_config (0::real)) (\<lambda>f. (0, map real [0..<362], 0)) 5 new_game EvalCache_new = Some ((0, p, 0), cache') \<and>
    p ! source_point 5 False 3 = 3"
proof -
  have r: "reachable flat_weights new_game 0 {} new_game" by (rule reachable.start)
  from reachable_eval(1) [OF r] obtain f where f: "GetFeature new_game = Some f" by auto
  have c: "\<not> (\<not> disable_double_pass_scoring (default_config (0::real)) \<and> is_double_pass new_game)"
    "Probe (zobrist_hash_value new_game) (EvalCache_new :: real EvalCache) = None"
    "\<not> enable_policy_temperature (default_config (0::real))" "\<not> disable_transform (default_config (0::real))"
    "length (map real [0..<362]) = 362"
    by (simp_all add: GoState_new_def Probe_def EvalCache_new_def default_config_def)
  from eval_is_aligned [OF r _ c(1-4) f _ c(5), of "\<lambda>f. (0, map real [0..<362], 0)" 5 0 real_arith]
  obtain p cache' where p: "Eval real_arith (default_config (0::real)) (\<lambda>f. (0, map real [0..<362], 0)) 5 new_game EvalCache_new =
      Some ((0, p, 0), cache')" "\<forall>i<361. p ! source_point 5 False i = map real [0..<362] ! i" by auto
  from p(2) have "p ! source_point 5 False 3 = map real [0..<362] ! 3" by simp
  moreover have "map real [0..<362] ! 3 = 3" by (subst nth_map) simp_all
  ultimately show ?thesis using p(1) by auto
qed

end
