(* ===== verification/Mcts_Choice.thy ===== *)
theory Mcts_Choice
  imports Mcts_Walk Timers
begin

text \<open>
  Decisions of the engine on the statistics of the root and its children: the best move and
  resignation (\<open>GetBestMove\<close>, \<open>GetSamplingMove\<close>), stopping early or thinking longer
  (\<open>CheckEarlyStop\<close>, \<open>CheckUnstable\<close>, \<open>CheckBehind\<close>), and the time for a move
  (\<open>GetSearchTimeoutUs\<close>, \<open>GetSearchOvertimeUs\<close>).
\<close>

subsection \<open>The best move\<close>

record 'f child_stats =
  st_visits :: int
  st_total :: 'f
  st_mean :: 'f
  st_prior :: 'f
  st_value :: 'f

definition IsPassDisable :: "'f MCTSConfig \<Rightarrow> int \<Rightarrow> bool" where
  "IsPassDisable c gen_passes \<longleftrightarrow> disable_pass c \<or> max_gen_passes c \<noteq> 0 \<and> gen_passes \<ge> max_gen_passes c"

definition stats_of :: "'f arith \<Rightarrow> bool \<Rightarrow> 'f TreeNode \<Rightarrow> 'f child_stats" where
  "stats_of A no_pass x =
     (if no_pass \<and> node_move x = COORD_PASS
      then \<lparr>st_visits = 0, st_total = f_lit A 0, st_mean = f_lit A 0, st_prior = f_lit A 0, st_value = f_lit A (- 1)\<rparr>
      else \<lparr>st_visits = visit_count x, st_total = child_action A x,
            st_mean = (if visit_count x = 0 then f_lit A (- 1) else f_div A (child_action A x) (f_of_int A (visit_count x))),
            st_prior = prior_prob x, st_value = node_value x\<rparr>)"

text \<open>An unknown mode is a fatal error.\<close>

definition best_choice :: "'f arith \<Rightarrow> int \<Rightarrow> 'f child_stats list \<Rightarrow> nat option" where
  "best_choice A mode xs =
     (if mode = 0 then Some (max_element (<) (map st_visits xs))
      else if mode = 1 then Some (max_element (f_lt A) (map st_total xs))
      else if mode = 2 then Some (max_element (f_lt A) (map st_mean xs))
      else if mode = 3 then Some (max_element (f_lt A) (map st_prior xs))
      else if mode = 4 then Some (max_element (f_lt A) (map st_value xs))
      else None)"

definition resign_value :: "'f arith \<Rightarrow> int \<Rightarrow> 'f TreeNode \<Rightarrow> 'f child_stats list \<Rightarrow> nat \<Rightarrow> 'f option" where
  "resign_value A mode rt xs i =
     (let root_action = f_div A (f_div A (f_neg A (f_of_int A (total_action rt))) (f_of_int A k_action_value_base))
                          (f_of_int A (visit_count rt));
          root_value = f_neg A (node_value rt);
          means = map st_mean xs; vals = map st_value xs
      in if mode = 0 then Some (f_max A root_action (means ! i))
         else if mode = 1 then Some (f_max A root_value (vals ! i))
         else if mode = 2 then Some (f_max A root_action (means ! max_element (f_lt A) means))
         else if mode = 3 then Some (f_max A root_value (vals ! max_element (f_lt A) vals))
         else None)"

text \<open>The move and \<open>v_resign\<close>; without children the code reads past the arrays.\<close>

definition GetBestMove :: "'f arith \<Rightarrow> 'f MCTSConfig \<Rightarrow> int \<Rightarrow> 'f heap \<Rightarrow> addr \<Rightarrow> (GoCoordId \<times> 'f) option" where
  "GetBestMove A c gen_passes h rt =
     (let cs = map (h_node h) (kids h rt); xs = map (stats_of A (IsPassDisable c gen_passes)) cs
      in if cs = [] \<or> length cs > 362 then None
         else Option.bind (best_choice A (get_best_move_mode c) xs) (\<lambda>i.
              Option.bind (resign_value A (resign_mode c) (h_node h rt) xs i) (\<lambda>v.
              Some (if enable_resign c \<and> f_lt A v (v_resign_threshold c) then COORD_RESIGN else node_move (cs ! i), v))))"

text \<open>\<open>sample\<close> is \<open>std::discrete_distribution\<close> applied to the weights.\<close>

definition GetSamplingMove :: "'f arith \<Rightarrow> 'f MCTSConfig \<Rightarrow> int \<Rightarrow> ('f list \<Rightarrow> nat) \<Rightarrow> 'f \<Rightarrow> 'f heap \<Rightarrow> addr \<Rightarrow> GoCoordId option" where
  "GetSamplingMove A c gen_passes sample temperature h rt =
     (let cs = map (h_node h) (kids h rt); rtemp = f_div A (f_lit A 1) temperature;
          probs = map (\<lambda>x. if IsPassDisable c gen_passes \<and> node_move x = COORD_PASS then f_lit A 0
                           else f_pow A (f_of_int A (visit_count x)) rtemp) cs
      in if length cs > 362 \<or> sample probs \<ge> length cs then None else Some (node_move (cs ! sample probs)))"

subsection \<open>Stopping early, thinking longer\<close>

text \<open>The loop over the visit counts that keeps the two largest.\<close>

definition top_two_step :: "int \<Rightarrow> int \<times> int \<Rightarrow> int \<times> int" where
  "top_two_step n m = (if n > snd m then if n > fst m then (n, fst m) else (fst m, n) else m)"

definition top_two :: "int list \<Rightarrow> int \<times> int" where
  "top_two ns = fold top_two_step ns (0, 0)"

text \<open>\<open>elapsed\<close> is what \<open>m_search_timer.us()\<close> returns.\<close>

definition remain_sims :: "'f arith \<Rightarrow> 'f MCTSConfig \<Rightarrow> int \<Rightarrow> int \<Rightarrow> int \<Rightarrow> 'f" where
  "remain_sims A c sims elapsed timeout =
     (let r = f_div A (f_mul A (f_of_int A sims) (f_of_int A (timeout - elapsed))) (f_of_int A elapsed)
      in if f_gt A (sims_factor (early_stop c)) (f_lit A 0) then f_mul A r (sims_factor (early_stop c)) else r)"

definition CheckEarlyStop :: "'f arith \<Rightarrow> 'f MCTSConfig \<Rightarrow> int \<Rightarrow> int \<Rightarrow> int \<Rightarrow> 'f heap \<Rightarrow> addr \<Rightarrow> bool" where
  "CheckEarlyStop A c sims elapsed timeout h rt \<longleftrightarrow>
     es_enable (early_stop c) \<and> \<not> sims < sims_threshold (early_stop c) \<and>
     (let (m0, m1) = top_two (map (\<lambda>a. visit_count (h_node h a)) (kids h rt))
      in f_gt A (f_of_int A (m0 - m1)) (remain_sims A c sims elapsed timeout))"

definition mean_or_zero :: "'f arith \<Rightarrow> 'f TreeNode \<Rightarrow> 'f" where
  "mean_or_zero A x = (if visit_count x = 0 then f_lit A 0 else f_div A (child_action A x) (f_of_int A (visit_count x)))"

definition CheckUnstable :: "'f arith \<Rightarrow> 'f MCTSConfig \<Rightarrow> 'f heap \<Rightarrow> addr \<Rightarrow> bool" where
  "CheckUnstable A c h rt \<longleftrightarrow> uo_enable (unstable_overtime c) \<and>
     (let cs = map (h_node h) (kids h rt)
      in max_element (<) (map visit_count cs) \<noteq> max_element (f_lt A) (map (mean_or_zero A) cs))"

definition CheckBehind :: "'f arith \<Rightarrow> 'f MCTSConfig \<Rightarrow> int \<Rightarrow> 'f heap \<Rightarrow> addr \<Rightarrow> bool option" where
  "CheckBehind A c gen_passes h rt =
     (if \<not> bo_enable (behind_overtime c) then Some False
      else Option.bind (GetBestMove A c gen_passes h rt) (\<lambda>(m, v).
        if m = COORD_RESIGN then Some True
        else let x = FindChild h rt m
             in if x = nullptr then None
                else Some (f_lt A (mean_or_zero A (h_node h x)) (act_threshold (behind_overtime c)))))"

subsection \<open>The time for a move\<close>

definition overtime_factor :: "'f arith \<Rightarrow> 'f MCTSConfig \<Rightarrow> 'f" where
  "overtime_factor A c =
     (let f0 = f_lit A 1;
          f1 = (if uo_enable (unstable_overtime c) then f_max A f0 (f_add A (f_lit A 1) (uo_time_factor (unstable_overtime c))) else f0)
      in if bo_enable (behind_overtime c) then f_max A f1 (f_add A (f_lit A 1) (bo_time_factor (behind_overtime c))) else f1)"

definition think_time :: "'f arith \<Rightarrow> 'f MCTSConfig \<Rightarrow> int \<Rightarrow> 'f \<Rightarrow> 'f \<Rightarrow> 'f" where
  "think_time A c num_moves remain byo =
     (let t = time_control c; k = overtime_factor A c;
          byo_time = f_div A (f_sub A byo (reserved_time t)) k;
          t0 = (if f_gt A remain (f_lit A 0) then
                  let t1 = f_div A remain (f_of_int A (c_denom t + max (c_maxply t - num_moves) 0));
                      t2 = f_min A t1 (f_div A (f_sub A remain (reserved_time t)) k)
                  in if num_moves \<ge> byo_yomi_after t then f_max A t2 byo_time else t2
                else byo_time)
      in f_max A t0 (min_time t))"

definition GetSearchTimeoutUs :: "'f arith \<Rightarrow> 'f MCTSConfig \<Rightarrow> int \<Rightarrow> int \<Rightarrow> GoStoneColor \<Rightarrow> 'f ByoYomiTimer \<Rightarrow> int" where
  "GetSearchTimeoutUs A c now num_moves player clock =
     (let t0 = (if IsEnable clock \<and> tc_enable (time_control c)
                then f_scale A 1000000 (think_time A c num_moves (GetRemainTime A now player clock) (GetByoYomiTime clock))
                else - 1)
      in if timeout_ms_per_step c > 0 \<and> (t0 = - 1 \<or> timeout_ms_per_step c * 1000 < t0)
         then timeout_ms_per_step c * 1000 else t0)"

definition GetSearchOvertimeUs :: "'f arith \<Rightarrow> 'f MCTSConfig \<Rightarrow> int \<Rightarrow> 'f heap \<Rightarrow> addr \<Rightarrow> int \<Rightarrow> int option" where
  "GetSearchOvertimeUs A c gen_passes h rt timeout =
     (if timeout > 0 then
        if CheckUnstable A c h rt then Some (f_scale A timeout (uo_time_factor (unstable_overtime c)))
        else map_option (\<lambda>b. if b then f_scale A timeout (bo_time_factor (behind_overtime c)) else 0) (CheckBehind A c gen_passes h rt)
      else Some 0)"

subsection \<open>The best move is the first maximum\<close>

text \<open>What the mode compares.\<close>

definition stat_less :: "'f arith \<Rightarrow> int \<Rightarrow> 'f child_stats \<Rightarrow> 'f child_stats \<Rightarrow> bool" where
  "stat_less A mode a b \<longleftrightarrow>
     (if mode = 0 then st_visits a < st_visits b else if mode = 1 then f_lt A (st_total a) (st_total b)
      else if mode = 2 then f_lt A (st_mean a) (st_mean b) else if mode = 3 then f_lt A (st_prior a) (st_prior b)
      else f_lt A (st_value a) (st_value b))"

lemma max_element_map: "max_element lt (map f xs) = max_element (\<lambda>a b. lt (f a) (f b)) xs"
proof (cases "xs = []")
  case False
  have "fold (\<lambda>i b. if lt (map f xs ! b) (map f xs ! i) then i else b) is b =
      fold (\<lambda>i b. if lt (f (xs ! b)) (f (xs ! i)) then i else b) is b"
    if "set is \<subseteq> {..<length xs}" "b < length xs" for "is" b
    using that by (induction "is" arbitrary: b) auto
  moreover have "set [1..<length xs] \<subseteq> {..<length xs}" by auto
  ultimately show ?thesis using False by (simp add: max_element_def)
qed (simp add: max_element_def)

lemma best_choice_max:
  "mode \<in> {0, 1, 2, 3, 4} \<Longrightarrow> best_choice A mode xs = Some (max_element (stat_less A mode) xs)"
  by (auto simp: best_choice_def max_element_map stat_less_def [abs_def])

lemma stat_less_visits: "strict_weak (stat_less A 0) S"
  by (auto simp: strict_weak_def stat_less_def)

lemma GetBestMove_spec:
  assumes "kids h rt \<noteq> []" and "length (kids h rt) \<le> 362" and "get_best_move_mode c \<in> {0, 1, 2, 3, 4}" and "resign_mode c \<in> {0, 1, 2, 3}"
    and xs: "xs = map (\<lambda>a. stats_of A (IsPassDisable c g) (h_node h a)) (kids h rt)"
    and i: "i = max_element (stat_less A (get_best_move_mode c)) xs"
  shows "\<exists>v. resign_value A (resign_mode c) (h_node h rt) xs i = Some v \<and> GetBestMove A c g h rt =
    Some (if enable_resign c \<and> f_lt A v (v_resign_threshold c) then COORD_RESIGN else mv h (kids h rt ! i), v)"
proof -
  have "xs \<noteq> []" using assms(1) xs by simp
  then have "i < length (kids h rt)" using max_element_less [of xs] i xs by simp
  moreover obtain v where v: "resign_value A (resign_mode c) (h_node h rt) xs i = Some v"
    using assms(4) by (auto simp: resign_value_def Let_def)
  moreover have "map (stats_of A (IsPassDisable c g)) (map (h_node h) (kids h rt)) = xs" using xs by simp
  ultimately show ?thesis using assms(1,2) best_choice_max [OF assms(3), of A xs] i
    by (simp add: GetBestMove_def Let_def del: length_kids)
qed

text \<open>What the modes compare, from the nodes: visits (0), total action (1), mean action (2), prior (3) or
  value (4). A pass counts as never visited when passes are disabled, by the flag or because enough
  of them have been generated: 0 visits, total, mean and prior 0, value \<open>-1\<close>. \<open>exceeds A c g mode x y\<close>:
  \<open>y\<close> is better than \<open>x\<close>.\<close>

definition pass_out :: "'f MCTSConfig \<Rightarrow> int \<Rightarrow> 'f TreeNode \<Rightarrow> bool" where
  "pass_out c g x \<longleftrightarrow> node_move x = COORD_PASS \<and> (disable_pass c \<or> 0 \<noteq> max_gen_passes c \<and> max_gen_passes c \<le> g)"

definition merit :: "'f arith \<Rightarrow> 'f MCTSConfig \<Rightarrow> int \<Rightarrow> int \<Rightarrow> 'f TreeNode \<Rightarrow> 'f" where
  "merit A c g mode x =
     (let total = f_div A (f_of_int A (total_action x)) (f_of_int A (2 ^ 16))
      in if pass_out c g x then f_lit A (if mode = 4 then - 1 else 0)
         else if mode = 1 then total
         else if mode = 2 then (if visit_count x = 0 then f_lit A (- 1) else f_div A total (f_of_int A (visit_count x)))
         else if mode = 3 then prior_prob x else node_value x)"

definition exceeds :: "'f arith \<Rightarrow> 'f MCTSConfig \<Rightarrow> int \<Rightarrow> int \<Rightarrow> 'f TreeNode \<Rightarrow> 'f TreeNode \<Rightarrow> bool" where
  "exceeds A c g mode x y =
     (if mode = 0 then (if pass_out c g x then 0 else visit_count x) < (if pass_out c g y then 0 else visit_count y)
      else f_lt A (merit A c g mode x) (merit A c g mode y))"

lemma pass_out_stats: "IsPassDisable c g \<and> node_move x = COORD_PASS \<longleftrightarrow> pass_out c g x"
  by (auto simp: pass_out_def IsPassDisable_def)

lemma stats_exceeds:
  "mode \<in> {0, 1, 2, 3, 4} \<Longrightarrow>
   stat_less A mode (stats_of A (IsPassDisable c g) x) (stats_of A (IsPassDisable c g) y) = exceeds A c g mode x y"
  unfolding stats_of_def pass_out_stats by (auto simp: stat_less_def exceeds_def merit_def child_action_def Let_def)

lemma stats_merit:
  "st_mean (stats_of A (IsPassDisable c g) x) = merit A c g 2 x" "st_value (stats_of A (IsPassDisable c g) x) = merit A c g 4 x"
  unfolding stats_of_def pass_out_stats by (auto simp: merit_def child_action_def Let_def)

text \<open>The first best of the nodes.\<close>

definition first_best :: "'f arith \<Rightarrow> 'f MCTSConfig \<Rightarrow> int \<Rightarrow> int \<Rightarrow> 'f TreeNode list \<Rightarrow> nat \<Rightarrow> bool" where
  "first_best A c g mode xs i \<longleftrightarrow> i < length xs \<and> (\<forall>j < length xs. \<not> exceeds A c g mode (xs ! i) (xs ! j)) \<and>
     (\<forall>j < i. exceeds A c g mode (xs ! j) (xs ! i))"

lemma max_is_first_best:
  assumes "strict_weak (exceeds A c g mode) (set xs)" and "xs \<noteq> []"
  shows "first_best A c g mode xs (max_element (exceeds A c g mode) xs)"
  using max_element_spec [OF assms] by (simp add: first_best_def)

text \<open>Claim C28. The move \<open>GetBestMove\<close> chooses is that of the first child that no other exceeds in what
  the mode compares (\<open>exceeds\<close>, where a pass counts as never visited when passes are disabled),
  unless the engine resigns, which it does exactly when resigning is enabled and the value
  returned is below the threshold. That value is the larger of the root's mean action (or its
  value) for the player to move and the mean (or value) of the chosen child, or of the child best
  in it. When visits are compared, a pass that is disabled is never the move if another
  child was visited. The comparison has to be a strict weak order on the values compared (no NaN).\<close>

theorem best_move_is_first_maximum:
  assumes "kids h rt \<noteq> []" and "length (kids h rt) \<le> 362" and modes: "get_best_move_mode c \<in> {0, 1, 2, 3, 4}" "resign_mode c \<in> {0, 1, 2, 3}"
    and xs: "xs = map (h_node h) (kids h rt)" and rm: "rm = (if resign_mode c \<in> {0, 2} then 2 else 4)"
    and "strict_weak (exceeds A c g (get_best_move_mode c)) (set xs)" and "strict_weak (exceeds A c g rm) (set xs)"
  shows "\<exists>m v i k. GetBestMove A c g h rt = Some (m, v) \<and> first_best A c g (get_best_move_mode c) xs i \<and>
    m = (if enable_resign c \<and> f_lt A v (v_resign_threshold c) then COORD_RESIGN else node_move (xs ! i)) \<and>
    v = f_max A (if rm = 2 then f_div A (f_div A (f_neg A (f_of_int A (total_action (h_node h rt)))) (f_of_int A (2 ^ 16)))
                   (f_of_int A (visit_count (h_node h rt)))
                 else f_neg A (node_value (h_node h rt))) (merit A c g rm (xs ! k)) \<and>
    (if resign_mode c < 2 then k = i else first_best A c g rm xs k) \<and>
    (get_best_move_mode c = 0 \<and> (\<exists>x\<in>set xs. node_move x \<noteq> COORD_PASS \<and> 0 < visit_count x) \<longrightarrow> \<not> pass_out c g (xs ! i))"
proof -
  let ?ys = "map (\<lambda>a. stats_of A (IsPassDisable c g) (h_node h a)) (kids h rt)"
  have ys: "?ys = map (stats_of A (IsPassDisable c g)) xs" by (simp add: xs)
  have ne: "xs \<noteq> []" using assms(1) xs by simp
  have max: "max_element (stat_less A mode) ?ys = max_element (exceeds A c g mode) xs" if "mode \<in> {0, 1, 2, 3, 4}" for mode
    unfolding ys max_element_map stats_exceeds [OF that] ..
  define i where "i = max_element (exceeds A c g (get_best_move_mode c)) xs"
  define k where "k = (if resign_mode c < 2 then i else max_element (exceeds A c g rm) xs)"
  have i: "first_best A c g (get_best_move_mode c) xs i" unfolding i_def by (rule max_is_first_best [OF assms(7) ne])
  have k: "if resign_mode c < 2 then k = i else first_best A c g rm xs k"
    using max_is_first_best [OF assms(8) ne] by (simp add: k_def)
  have less: "i < length xs" "k < length xs" using i k by (auto simp: first_best_def split: if_splits)
  from GetBestMove_spec [OF assms(1,2) modes refl refl, where g = g and A = A] obtain v where v:
    "resign_value A (resign_mode c) (h_node h rt) ?ys i = Some v"
    "GetBestMove A c g h rt = Some (if enable_resign c \<and> f_lt A v (v_resign_threshold c) then COORD_RESIGN else mv h (kids h rt ! i), v)"
    unfolding max [OF modes(1)] i_def [symmetric] by blast
  have means: "map st_mean ?ys = map (merit A c g 2) xs" and vals: "map st_value ?ys = map (merit A c g 4) xs"
    unfolding ys by (simp_all add: stats_merit comp_def)
  have mx: "max_element (f_lt A) (map (merit A c g rm) xs) = max_element (exceeds A c g rm) xs"
    unfolding max_element_map using rm by (simp add: exceeds_def [abs_def])
  have "v = f_max A (if rm = 2 then f_div A (f_div A (f_neg A (f_of_int A (total_action (h_node h rt)))) (f_of_int A (2 ^ 16)))
                   (f_of_int A (visit_count (h_node h rt)))
                 else f_neg A (node_value (h_node h rt))) (merit A c g rm (xs ! k))"
    using v(1) modes(2) rm mx less
    unfolding resign_value_def Let_def means vals k_def by (auto simp: nth_map split: if_splits)
  note val = this
  have mv: "mv h (kids h rt ! i) = node_move (xs ! i)" using less(1) by (simp add: xs)
  have "\<not> pass_out c g (xs ! i)" if m0: "get_best_move_mode c = 0" and x: "x \<in> set xs" "node_move x \<noteq> COORD_PASS" "0 < visit_count x" for x
  proof
    assume out: "pass_out c g (xs ! i)"
    from x(1) obtain j where "j < length xs" "xs ! j = x" by (auto simp: in_set_conv_nth)
    with i m0 have "\<not> exceeds A c g 0 (xs ! i) x" by (auto simp: first_best_def)
    with out x(2,3) show False by (simp add: exceeds_def pass_out_def)
  qed
  then have "get_best_move_mode c = 0 \<and> (\<exists>x\<in>set xs. node_move x \<noteq> COORD_PASS \<and> 0 < visit_count x) \<longrightarrow> \<not> pass_out c g (xs ! i)"
    by blast
  with v(2) [unfolded mv] i val k show ?thesis
    by (intro exI [of _ "if enable_resign c \<and> f_lt A v (v_resign_threshold c) then COORD_RESIGN else node_move (xs ! i)"]
        exI [of _ v] exI [of _ i] exI [of _ k] conjI refl)
qed

text \<open>A root with two children, a point and pass, for the examples.\<close>

definition two_children :: "real heap" where
  "two_children = \<lparr>h_node = (\<lambda>a.
       if a = 1 then (fresh_node real_arith 0 (- 1) 0)\<lparr>ch := 2, ch_len := 2, expand_state := k_expanded, visit_count := 8\<rparr>
       else if a = 2 then (fresh_node real_arith 1 60 (1/2))\<lparr>visit_count := 5, total_action := - 65536\<rparr>
       else (fresh_node real_arith 1 COORD_PASS (1/2))\<lparr>visit_count := 2, total_action := 0\<rparr>),
     h_live = {1, 2, 3}, h_next = 4\<rparr>"

lemma two_children_kids [simp]: "kids two_children (Suc 0) = [2, 3]"
  by (simp add: kids_def two_children_def fresh_node_def upt_rec)

lemma two_children_node:
  "h_node two_children 2 = (fresh_node real_arith 1 60 (1/2))\<lparr>visit_count := 5, total_action := - 65536\<rparr>"
  "h_node two_children 3 = (fresh_node real_arith 1 COORD_PASS (1/2))\<lparr>visit_count := 2, total_action := 0\<rparr>"
  by (simp_all add: two_children_def)

text \<open>The same with more visits of the pass.\<close>

definition two_children' :: "real heap" where
  "two_children' = upd 3 (\<lambda>x. x\<lparr>visit_count := 7\<rparr>) two_children"

lemma two_children'_node [simp]:
  "kids two_children' (Suc 0) = [2, 3]" "h_node two_children' 2 = h_node two_children 2"
  "h_node two_children' 3 = (h_node two_children 3)\<lparr>visit_count := 7\<rparr>"
  using two_children_kids by (simp_all add: two_children'_def kids_def upd_def)

theorem best_move_is_first_maximum_witness:
  "GetBestMove real_arith (default_config (0::real)) 0 two_children 1 = Some (60, 0) \<and>
   (\<exists>v. GetBestMove real_arith (default_config (0::real)\<lparr>disable_pass := True\<rparr>) 0 two_children' 1 = Some (60, v))"
proof -
  let ?c = "default_config (0::real)" and ?d = "default_config (0::real)\<lparr>disable_pass := True\<rparr>"
  have sw: "strict_weak (exceeds real_arith c g mode) S" for c g mode S
    by (auto simp: strict_weak_def exceeds_def)
  have c: "get_best_move_mode ?c = 0" "resign_mode ?c = 0" "\<not> enable_resign ?c" "\<not> pass_out ?c 0 x" for x
    by (simp_all add: default_config_def pass_out_def)
  from best_move_is_first_maximum [OF _ _ _ _ refl refl sw sw, of two_children 1 ?c 0] c obtain m v i where
    m: "GetBestMove real_arith ?c 0 two_children 1 = Some (m, v)" "first_best real_arith ?c 0 0 (map (h_node two_children) [2, 3]) i"
      "m = node_move (map (h_node two_children) [2, 3] ! i)"
      "v = max (- real_of_int (total_action (h_node two_children 1)) / 65536 / visit_count (h_node two_children 1))
         (merit real_arith ?c 0 2 (map (h_node two_children) [2, 3] ! i))"
    by auto
  from m(2) have "i = 0 \<or> i = 1" by (auto simp: first_best_def)
  moreover have "i \<noteq> 1"
    using m(2) c(4) by (auto simp: first_best_def exceeds_def two_children_node)
  ultimately have i: "i = 0" by simp
  have "total_action (h_node two_children 1) = 0" by (simp add: two_children_def fresh_node_def)
  with i m c(4) have one: "GetBestMove real_arith ?c 0 two_children 1 = Some (60, 0)"
    by (simp add: two_children_node fresh_node_def merit_def)
  have d: "get_best_move_mode ?d = 0" "resign_mode ?d = 0" "\<not> enable_resign ?d" by (simp_all add: default_config_def)
  from best_move_is_first_maximum [OF _ _ _ _ refl refl sw sw, of two_children' 1 ?d 0] d obtain m' v' i' where
    m': "GetBestMove real_arith ?d 0 two_children' 1 = Some (m', v')" "first_best real_arith ?d 0 0 (map (h_node two_children') [2, 3]) i'"
      "m' = node_move (map (h_node two_children') [2, 3] ! i')"
      "(\<exists>x\<in>set (map (h_node two_children') [2, 3]). node_move x \<noteq> COORD_PASS \<and> 0 < visit_count x) \<longrightarrow>
         \<not> pass_out ?d 0 (map (h_node two_children') [2, 3] ! i')"
    by auto
  from m'(2) have "i' = 0 \<or> i' = 1" by (auto simp: first_best_def)
  moreover have "i' \<noteq> 1"
    using m'(4) by (auto simp: pass_out_def two_children_node fresh_node_def)
  ultimately have "i' = 0" by simp
  with m' have "GetBestMove real_arith ?d 0 two_children' 1 = Some (60, v')"
    by (simp add: two_children_node fresh_node_def)
  with one show ?thesis by blast
qed

text \<open>A pass that is disabled can still be chosen: when children are compared by total or mean
  action, it counts as 0 and so beats every move that is losing. (With exact arithmetic.)\<close>

theorem disabled_pass_is_chosen:
  assumes "get_best_move_mode c \<in> {1, 2}" and "resign_mode c \<in> {0, 1, 2, 3}" and "\<not> enable_resign c" and "IsPassDisable c g"
    and "length (kids h rt) \<le> 362" and "p \<in> set (kids h rt)" "mv h p = COORD_PASS"
    and losing: "\<And>a. a \<in> set (kids h rt) \<Longrightarrow> mv h a \<noteq> COORD_PASS \<Longrightarrow> total_action (h_node h a) < 0 \<and> 0 < visit_count (h_node h a)"
  shows "\<exists>v. GetBestMove real_arith c g h rt = Some (COORD_PASS, v)"
proof -
  define xs where "xs = map (\<lambda>a. stats_of real_arith (IsPassDisable c g) (h_node h a)) (kids h rt)"
  let ?lt = "stat_less real_arith (get_best_move_mode c)" and ?i = "max_element (stat_less real_arith (get_best_move_mode c)) xs"
  have k: "kids h rt \<noteq> []" using assms(6) by auto
  have sw: "strict_weak ?lt (set xs)" using assms(1) by (auto simp: strict_weak_def stat_less_def)
  have len: "length xs = length (kids h rt)" by (simp add: xs_def del: length_kids)
  have i: "?i < length (kids h rt)" using max_element_less [of xs ?lt] k len by (simp add: xs_def)
  obtain j where j: "j < length (kids h rt)" "kids h rt ! j = p" using assms(6) unfolding in_set_conv_nth by blast
  have "xs \<noteq> []" using k by (simp add: xs_def)
  from max_element_spec(2) [OF sw this, of j] j len
  have "\<not> ?lt (stats_of real_arith True (h_node h (kids h rt ! ?i))) (stats_of real_arith True (h_node h p))"
    using assms(4) i by (simp add: xs_def del: length_kids)
  moreover have "?lt (stats_of real_arith True (h_node h a)) (stats_of real_arith True (h_node h p))"
    if "a \<in> set (kids h rt)" "mv h a \<noteq> COORD_PASS" for a
    using losing [OF that] that(2) assms(1,7) by (auto simp: stat_less_def stats_of_def child_action_def divide_neg_pos)
  ultimately have "mv h (kids h rt ! ?i) = COORD_PASS" using i nth_mem by blast
  moreover from GetBestMove_spec [OF k assms(5) _ assms(2) xs_def refl] assms(1,3) obtain v where
    "GetBestMove real_arith c g h rt = Some (mv h (kids h rt ! ?i), v)" by auto
  ultimately show ?thesis by auto
qed

theorem disabled_pass_is_chosen_witness:
  "\<exists>v. GetBestMove real_arith (default_config (0::real)\<lparr>disable_pass := True, get_best_move_mode := 1\<rparr>) 0 two_children 1 = Some (COORD_PASS, v)"
  by (rule disabled_pass_is_chosen [where p = 3])
    (auto simp: default_config_def IsPassDisable_def two_children_node fresh_node_def)

subsection \<open>Early stop\<close>

lemma top_two_snoc: "top_two (ns @ [n]) = top_two_step n (top_two ns)"
  by (simp add: top_two_def)

text \<open>The largest count and a bound for all the others.\<close>

lemma top_two_spec:
  assumes "\<forall>n\<in>set ns. 0 \<le> n" and "ns \<noteq> []"
  shows "0 \<le> snd (top_two ns) \<and> snd (top_two ns) \<le> fst (top_two ns) \<and>
    (\<exists>i < length ns. ns ! i = fst (top_two ns) \<and> (\<forall>j < length ns. j \<noteq> i \<longrightarrow> ns ! j \<le> snd (top_two ns)))"
  using assms
proof (induction ns rule: rev_induct)
  case (snoc n ns)
  show ?case
  proof (cases "ns = []")
    case True
    with snoc.prems show ?thesis by (auto simp: top_two_def top_two_step_def)
  next
    case False
    obtain a b where t: "top_two ns = (a, b)" by fastforce
    with snoc False obtain i where i: "0 \<le> b" "b \<le> a" "i < length ns" "ns ! i = a" "\<forall>j < length ns. j \<noteq> i \<longrightarrow> ns ! j \<le> b"
      by auto
    let ?i = "if n > b \<and> n > a then length ns else i"
    have "(ns @ [n]) ! ?i = fst (top_two (ns @ [n]))" using i t by (auto simp: top_two_snoc top_two_step_def nth_append)
    moreover have "(ns @ [n]) ! j \<le> snd (top_two (ns @ [n]))" if "j < length (ns @ [n])" "j \<noteq> ?i" for j
    proof (cases "j = length ns")
      case True
      with that t i(2) show ?thesis by (auto simp: top_two_snoc top_two_step_def)
    next
      case False
      with that have j: "j < length ns" by simp
      then have "ns ! j \<le> a" "j \<noteq> i \<Longrightarrow> ns ! j \<le> b" using i by (cases "j = i"; force)+
      with that(2) j t show ?thesis by (auto simp: top_two_snoc top_two_step_def nth_append split: if_splits)
    qed
    moreover have "0 \<le> snd (top_two (ns @ [n])) \<and> snd (top_two (ns @ [n])) \<le> fst (top_two (ns @ [n]))"
      using i t snoc.prems(1) by (auto simp: top_two_snoc top_two_step_def)
    ultimately show ?thesis using i(3) by (intro conjI exI [of _ ?i]) auto
  qed
qed simp

text \<open>Claim C29. When the search is stopped early, the stop is enabled, the threshold on the simulations is
  reached, and one child stays strictly ahead of every other even if all the simulations still expected
  went to that other one: those done, times the time left, over the time elapsed, times
  the factor if it is positive. (With exact arithmetic.)\<close>

theorem early_stop_is_safe:
  assumes "CheckEarlyStop real_arith c sims elapsed timeout h rt" and "kids h rt \<noteq> []"
    and "\<And>a. a \<in> set (kids h rt) \<Longrightarrow> 0 \<le> visit_count (h_node h a)"
  shows "es_enable (early_stop c) \<and> sims_threshold (early_stop c) \<le> sims \<and>
    (\<exists>a\<in>set (kids h rt). \<forall>b\<in>set (kids h rt). b = a \<or>
      real_of_int (visit_count (h_node h b)) +
        real_of_int sims * (real_of_int timeout - real_of_int elapsed) / real_of_int elapsed *
          (if 0 < sims_factor (early_stop c) then sims_factor (early_stop c) else 1)
      < real_of_int (visit_count (h_node h a)))"
proof -
  let ?ns = "map (\<lambda>a. visit_count (h_node h a)) (kids h rt)"
  let ?r = "real_of_int sims * (real_of_int timeout - real_of_int elapsed) / real_of_int elapsed *
          (if 0 < sims_factor (early_stop c) then sims_factor (early_stop c) else 1)"
  have r: "remain_sims real_arith c sims elapsed timeout = ?r" by (simp add: remain_sims_def Let_def f_gt_def)
  have early: "?r < of_int (fst (top_two ?ns) - snd (top_two ?ns))" "es_enable (early_stop c)" "sims_threshold (early_stop c) \<le> sims"
    using assms(1) unfolding r [symmetric] by (auto simp: CheckEarlyStop_def f_gt_def split: prod.splits)
  have "\<forall>n\<in>set ?ns. 0 \<le> n" "?ns \<noteq> []" using assms(2,3) by simp_all
  from top_two_spec [OF this] obtain i where i: "i < length ?ns" "?ns ! i = fst (top_two ?ns)"
    "\<forall>j < length ?ns. j \<noteq> i \<longrightarrow> ?ns ! j \<le> snd (top_two ?ns)" by blast
  let ?a = "kids h rt ! i"
  have a: "?a \<in> set (kids h rt)" "visit_count (h_node h ?a) = fst (top_two ?ns)"
    using i(1,2) by (simp_all del: length_kids)
  have "b = ?a \<or> of_int (visit_count (h_node h b)) + ?r < of_int (visit_count (h_node h ?a))" if b: "b \<in> set (kids h rt)" for b
  proof -
    from b obtain j where j: "j < length (kids h rt)" "kids h rt ! j = b" unfolding in_set_conv_nth by blast
    show ?thesis
    proof (cases "j = i")
      case True
      with j show ?thesis by simp
    next
      case False
      with i(3) j have "visit_count (h_node h b) \<le> snd (top_two ?ns)" by (auto simp del: length_kids)
      with early(1) a(2) show ?thesis by linarith
    qed
  qed
  with a(1) early(2,3) show ?thesis by blast
qed

theorem early_stop_is_safe_witness:
  "(\<lambda>c. CheckEarlyStop real_arith c 100 1000 1010 two_children 1 \<and>
     real_of_int (visit_count (h_node two_children 3)) + real_of_int 100 * (real_of_int 1010 - real_of_int 1000) / real_of_int 1000 * 1
       < real_of_int (visit_count (h_node two_children 2)))
     (default_config (0::real)\<lparr>early_stop := \<lparr>es_enable = True, check_every_ms = 10, sims_factor = 1, sims_threshold = 0\<rparr>\<rparr>)"
proof -
  let ?c = "default_config (0::real)\<lparr>early_stop := \<lparr>es_enable = True, check_every_ms = 10, sims_factor = 1, sims_threshold = 0\<rparr>\<rparr>"
  have c: "CheckEarlyStop real_arith ?c 100 1000 1010 two_children 1"
    by (simp add: CheckEarlyStop_def two_children_node top_two_def top_two_step_def remain_sims_def f_gt_def)
  have "0 \<le> visit_count (h_node two_children a)" if "a \<in> set (kids two_children 1)" for a
    using that by (auto simp: two_children_node)
  from early_stop_is_safe [OF c _ this]
  have "\<exists>a\<in>{2, 3}. \<forall>b\<in>{2, 3}. b = a \<or>
      real_of_int (visit_count (h_node two_children b)) + 1 < real_of_int (visit_count (h_node two_children a))" by simp
  then have "real_of_int (visit_count (h_node two_children 3)) + 1 < real_of_int (visit_count (h_node two_children 2))"
    by (auto simp: two_children_node)
  with c show ?thesis by simp
qed

subsection \<open>The time limit\<close>

lemma truncate_le: "0 \<le> x \<Longrightarrow> of_int (truncate_real x) \<le> x" "0 \<le> x \<Longrightarrow> 0 \<le> truncate_real x" "x < 0 \<Longrightarrow> truncate_real x \<le> 0"
  by (simp_all add: truncate_real_def)



end
