(* ===== verification/Mcts_Engine.thy ===== *)
theory Mcts_Engine
  imports Mcts_Root Mcts_Eval Mcts_Choice
begin

text \<open>
  The engine: its state and the operations of MCTSEngine. Random numbers, the readings of the
  clock, the answers of the evaluation and what the search threads do while the caller waits
  are arguments. \<open>None\<close> is a failed check, an undefined read or a loop that does not end.
\<close>

record 'f engine =
  m_config :: "'f MCTSConfig"
  m_pending_config :: "'f MCTSConfig option"
  m_root :: addr
  m_board :: GoState
  m_search :: "'f search"
  m_is_searching :: bool
  m_search_timer :: Timer
  m_delete_queue :: "addr list"
  m_num_moves :: int
  m_moves_str :: string
  m_show_moves_str :: string
  m_gen_passes :: int
  m_byo_yomi_timer :: "'f ByoYomiTimer"

text \<open>Memory before the first allocation; address 0 is the null pointer.\<close>

definition empty_heap :: "'f arith \<Rightarrow> 'f heap" where
  "empty_heap A = \<lparr>h_node = (\<lambda>_. fresh_node A 0 (- 1) (f_lit A 0)), h_live = {}, h_next = 1\<rparr>"

definition MCTSEngine_new :: "'f arith \<Rightarrow> GoState \<Rightarrow> int \<Rightarrow> 'f MCTSConfig \<Rightarrow> 'f engine" where
  "MCTSEngine_new A raw now config =
     \<lparr>m_config = config, m_pending_config = None, m_root = nullptr,
      m_board = GoState_new (\<not> disable_positional_superko config) raw,
      m_search = \<lparr>s_heap = empty_heap A, s_flying = [], s_counter = 0, s_running = False\<rparr>,
      m_is_searching = False, m_search_timer = Timer_new now, m_delete_queue = [], m_num_moves = 0,
      m_moves_str = [], m_show_moves_str = [], m_gen_passes = 0, m_byo_yomi_timer = ByoYomiTimer_new A now\<rparr>"

abbreviation heap_of :: "'f engine \<Rightarrow> 'f heap" where
  "heap_of e \<equiv> s_heap (m_search e)"

definition set_heap :: "'f heap \<Rightarrow> 'f engine \<Rightarrow> 'f engine" where
  "set_heap h e = e\<lparr>m_search := (m_search e)\<lparr>s_heap := h\<rparr>\<rparr>"

definition change_root :: "'f arith \<Rightarrow> addr \<Rightarrow> 'f engine \<Rightarrow> 'f engine" where
  "change_root A n e =
     (case ChangeRoot A n (m_root e) (m_delete_queue e) (heap_of e) of
        (rt, dq, h) \<Rightarrow> set_heap h (e\<lparr>m_root := rt, m_delete_queue := dq\<rparr>))"

definition set_root_move :: "GoCoordId \<Rightarrow> 'f engine \<Rightarrow> 'f engine" where
  "set_root_move m e = set_heap (upd (m_root e) (\<lambda>x. x\<lparr>node_move := m\<rparr>) (heap_of e)) e"

subsection \<open>Starting and stopping the search\<close>

text \<open>The loop of \<open>InitRoot\<close>; \<open>answers i\<close> is what its \<open>i\<close>-th evaluation calls back with.\<close>

partial_function (option) root_loop :: "'f arith \<Rightarrow> 'f MCTSConfig \<Rightarrow> (nat \<Rightarrow> 'f list \<Rightarrow> nat list \<Rightarrow> nat list) \<Rightarrow> addr \<Rightarrow> GoState \<Rightarrow>
    (nat \<Rightarrow> int \<times> 'f list \<times> 'f) \<Rightarrow> nat \<Rightarrow> 'f heap \<Rightarrow> 'f heap option" where
  "root_loop A c ne rt b answers i h =
     (if expand_state (h_node h rt) = k_unexpanded then
        case answers i of (ret, policy, v) \<Rightarrow>
          if ret \<noteq> 0 then root_loop A c ne rt b answers (Suc i) h
          else case Expand A c ne rt b policy h of (len, h1) \<Rightarrow>
            Option.bind (Backup A rt v len h1) (root_loop A c ne rt b answers (Suc i))
      else Some h)"

text \<open>Dirichlet noise: \<open>noise\<close> are the values drawn for the children.\<close>

definition add_noise :: "'f arith \<Rightarrow> 'f MCTSConfig \<Rightarrow> (nat \<Rightarrow> 'f) \<Rightarrow> addr \<Rightarrow> 'f heap \<Rightarrow> 'f heap" where
  "add_noise A c noise rt h =
     (let n = nat (ch_len (h_node h rt)); s = accumulate A (map noise [0..<n]) (f_lit A 0); r = dirichlet_noise_ratio c
      in fold (\<lambda>i. upd (kids h rt ! i) (\<lambda>x. x\<lparr>prior_prob :=
           f_add A (f_mul A (f_sub A (f_lit A 1) r) (prior_prob x)) (f_div A (f_mul A r (noise i)) s)\<rparr>)) [0..<n] h)"

definition damp_pass :: "'f arith \<Rightarrow> addr \<Rightarrow> 'f heap \<Rightarrow> 'f heap" where
  "damp_pass A rt h = fold (\<lambda>a h. if node_move (h_node h a) = COORD_PASS
     then upd a (\<lambda>x. x\<lparr>prior_prob := f_lit A (1/100000)\<rparr>) h else h) (kids h rt) h"

definition InitRoot :: "'f arith \<Rightarrow> (nat \<Rightarrow> 'f list \<Rightarrow> nat list \<Rightarrow> nat list) \<Rightarrow> (nat \<Rightarrow> int \<times> 'f list \<times> 'f) \<Rightarrow> (nat \<Rightarrow> 'f) \<Rightarrow>
    'f engine \<Rightarrow> 'f engine option" where
  "InitRoot A ne answers noise e =
     (let c = m_config e; rt = m_root e in
      if rt = nullptr then None
      else Option.bind (root_loop A c ne rt (m_board e) answers 0 (heap_of e)) (\<lambda>h.
        if enable_dirichlet_noise c then
          if ch_len (h_node h rt) > 362 then None
          else Option.bind (dumb_pass (m_board e)) (\<lambda>d.
            let h1 = add_noise A c noise rt h
            in Some (set_heap (if d \<and> f_lt A (node_value (h_node h1 rt)) (f_lit A (1/2)) \<and> \<not> disable_double_pass_scoring c
                               then damp_pass A rt h1 else h1) e))
        else Some (set_heap h e)))"

definition SearchResume :: "'f arith \<Rightarrow> (nat \<Rightarrow> 'f list \<Rightarrow> nat list \<Rightarrow> nat list) \<Rightarrow> (nat \<Rightarrow> int \<times> 'f list \<times> 'f) \<Rightarrow> (nat \<Rightarrow> 'f) \<Rightarrow> int \<Rightarrow>
    'f engine \<Rightarrow> 'f engine option" where
  "SearchResume A ne answers noise now e =
     (if m_is_searching e then Some e
      else let e1 = e\<lparr>m_search := (m_search e)\<lparr>s_counter := 0\<rparr>, m_search_timer := Timer_Reset now (m_search_timer e)\<rparr>;
               e2 = (if clear_search_tree_per_move (m_config e) then change_root A nullptr e1 else e1)
           in map_option (\<lambda>e3. e3\<lparr>m_search := (m_search e3)\<lparr>s_running := True\<rparr>, m_is_searching := True\<rparr>)
                (InitRoot A ne answers noise e2))"

text \<open>\<open>SearchPause\<close>, once the threads are parked.\<close>

definition SearchPause :: "'f engine \<Rightarrow> 'f engine" where
  "SearchPause e = (if m_is_searching e then e\<lparr>m_search := (m_search e)\<lparr>s_running := False\<rparr>, m_is_searching := False\<rparr> else e)"

definition Init :: "'f arith \<Rightarrow> (nat \<Rightarrow> 'f list \<Rightarrow> nat list \<Rightarrow> nat list) \<Rightarrow> (nat \<Rightarrow> int \<times> 'f list \<times> 'f) \<Rightarrow> (nat \<Rightarrow> 'f) \<Rightarrow> int \<Rightarrow>
    'f engine \<Rightarrow> 'f engine option" where
  "Init A ne answers noise now e =
     (let e1 = change_root A nullptr e
      in if enable_background_search (m_config e1) then SearchResume A ne answers noise now e1 else Some e1)"

subsection \<open>The commands\<close>

text \<open>Replaying a list of moves, three characters each; the result of \<open>Move\<close> is ignored.\<close>

definition replay_step :: "zobrist \<Rightarrow> string \<Rightarrow> nat \<Rightarrow> GoState \<times> GoCoordId \<Rightarrow> (GoState \<times> GoCoordId) option" where
  "replay_step Z moves i st =
     (case substr moves i 2 of Inl _ \<Rightarrow> None
      | Inr s \<Rightarrow> Option.bind (StrToCoord s) (\<lambda>(x, y).
          map_option (\<lambda>(r, b). (b, CoordToId x y)) (MoveXY Z x y (fst st))))"

definition replay :: "zobrist \<Rightarrow> string \<Rightarrow> GoState \<times> GoCoordId \<Rightarrow> (GoState \<times> GoCoordId) option" where
  "replay Z moves st = foldo (replay_step Z moves) (map (\<lambda>k. 3 * k) [0..<(length moves + 2) div 3]) st"

definition Reset :: "'f arith \<Rightarrow> zobrist \<Rightarrow> (nat \<Rightarrow> 'f list \<Rightarrow> nat list \<Rightarrow> nat list) \<Rightarrow> (nat \<Rightarrow> int \<times> 'f list \<times> 'f) \<Rightarrow> (nat \<Rightarrow> 'f) \<Rightarrow>
    GoState \<Rightarrow> int \<Rightarrow> string \<Rightarrow> 'f engine \<Rightarrow> 'f engine option" where
  "Reset A Z ne answers noise raw now init_moves e =
     (let e1 = change_root A nullptr (SearchPause e);
          e2 = e1\<lparr>m_search := (m_search e1)\<lparr>s_counter := 0\<rparr>, m_num_moves := int ((length init_moves + 1) div 3),
                  m_moves_str := init_moves, m_gen_passes := 0, m_byo_yomi_timer := ByoYomi_Reset A (m_byo_yomi_timer e1)\<rparr>
      in Option.bind (replay Z init_moves (GoState_new (\<not> disable_positional_superko (m_config e)) raw, mv (heap_of e2) (m_root e2)))
        (\<lambda>(b, m). let e3 = set_root_move m (e2\<lparr>m_board := b\<rparr>)
          in if enable_background_search (m_config e3) then SearchResume A ne answers noise now e3 else Some e3))"

text \<open>Setting the clock at the first move.\<close>

definition ensure_clock :: "'f arith \<Rightarrow> int \<Rightarrow> 'f engine \<Rightarrow> 'f engine" where
  "ensure_clock A now e =
     (let t = time_control (m_config e)
      in if \<not> IsEnable (m_byo_yomi_timer e) \<and> (f_gt A (main_time t) (f_lit A 0) \<or> f_gt A (tc_byo_yomi_time t) (f_lit A 0))
         then e\<lparr>m_byo_yomi_timer := ByoYomi_Set now (main_time t) (tc_byo_yomi_time t) (m_byo_yomi_timer e)\<rparr> else e)"

definition append_move :: "string \<Rightarrow> string \<Rightarrow> string" where
  "append_move s m = (if s \<noteq> [] then s @ '','' @ m else s @ m)"

text \<open>A move the board refuses is a failed check.\<close>

definition engine_Move :: "'f arith \<Rightarrow> zobrist \<Rightarrow> (nat \<Rightarrow> 'f list \<Rightarrow> nat list \<Rightarrow> nat list) \<Rightarrow> (nat \<Rightarrow> int \<times> 'f list \<times> 'f) \<Rightarrow> (nat \<Rightarrow> 'f) \<Rightarrow>
    int \<Rightarrow> GoCoordId \<Rightarrow> GoCoordId \<Rightarrow> 'f engine \<Rightarrow> 'f engine option" where
  "engine_Move A Z ne answers noise now x y e0 =
     (let e = SearchPause (ensure_clock A now e0)
      in if IsResignXY x y then Some e
         else Option.bind (MoveXY Z x y (m_board e)) (\<lambda>(ret, b).
           if ret \<noteq> 0 then None
           else let e1 = e\<lparr>m_board := b, m_num_moves := m_num_moves e + 1,
                            m_moves_str := append_move (m_moves_str e) (CoordToStr x y),
                            m_show_moves_str := append_move (m_show_moves_str e) (CoordToMoveStr x y)\<rparr>;
                    e2 = change_root A (FindChild (heap_of e1) (m_root e1) (CoordToId x y)) e1;
                    e3 = set_root_move (CoordToId x y) e2;
                    e4 = e3\<lparr>m_byo_yomi_timer := ByoYomi_HandOff A now (m_byo_yomi_timer e3)\<rparr>;
                    e5 = (case m_pending_config e4 of None \<Rightarrow> e4 | Some c \<Rightarrow> e4\<lparr>m_config := c, m_pending_config := None\<rparr>)
                in if \<not> disable_double_pass_scoring (m_config e5) \<and> is_double_pass (m_board e5) then Some e5
                   else if enable_background_search (m_config e5) then SearchResume A ne answers noise now e5
                   else Some (e5\<lparr>m_search := (m_search e5)\<lparr>s_counter := 0\<rparr>\<rparr>)))"

text \<open>\<open>Undo\<close>: with no move, false. \<open>size() - 3\<close> is unsigned.\<close>

definition Undo :: "'f arith \<Rightarrow> zobrist \<Rightarrow> (nat \<Rightarrow> 'f list \<Rightarrow> nat list \<Rightarrow> nat list) \<Rightarrow> (nat \<Rightarrow> int \<times> 'f list \<times> 'f) \<Rightarrow> (nat \<Rightarrow> 'f) \<Rightarrow>
    GoState \<Rightarrow> int \<Rightarrow> 'f engine \<Rightarrow> (bool \<times> 'f engine) option" where
  "Undo A Z ne answers noise raw now e =
     (if m_num_moves e = 0 then Some (False, e)
      else case substr (m_moves_str e) 0 (nat ((int (length (m_moves_str e)) - 3) mod 2 ^ 64)) of
        Inl _ \<Rightarrow> None
      | Inr s \<Rightarrow> map_option (Pair True) (Reset A Z ne answers noise raw now s e))"

text \<open>One round of \<open>DeleteRoutine\<close>.\<close>

definition delete_step :: "'f engine \<Rightarrow> (int \<times> 'f engine) option" where
  "delete_step e = (case m_delete_queue e of [] \<Rightarrow> None
     | q # qs \<Rightarrow> map_option (\<lambda>(n, h). (n, set_heap h (e\<lparr>m_delete_queue := qs\<rparr>))) (delete_round q (heap_of e)))"

text \<open>Several rounds, and how many nodes they delete.\<close>

fun delete_rounds :: "nat \<Rightarrow> 'f engine \<Rightarrow> (int \<times> 'f engine) option" where
  "delete_rounds 0 e = Some (0, e)"
| "delete_rounds (Suc n) e = Option.bind (delete_step e) (\<lambda>(k, e1). map_option (\<lambda>(m, e2). (k + m, e2)) (delete_rounds n e1))"

end
