(* ===== verification/Mcts_Search.thy ===== *)
theory Mcts_Search
  imports Mcts_Engine
begin

text \<open>
  Searching for a move: how long \<open>Search\<close> waits while the search threads work, and \<open>GenMove\<close>. What the
  threads do meanwhile is an argument: they change the state of the search and the delete queue only.
\<close>

subsection \<open>Waiting\<close>

text \<open>One call of \<open>SearchWait\<close>. \<open>w_now k j\<close> is the system clock at its reading \<open>j\<close> of round \<open>k\<close>. \<open>w_join k j d e\<close> is the
  call of \<open>Join\<close> after that reading, for \<open>d\<close> microseconds or (\<open>None\<close>) without a limit: whether all the threads
  have paused, and what the threads have made of the search; \<open>None\<close> if it does not end.\<close>

record 'f waits =
  w_now :: "nat \<Rightarrow> nat \<Rightarrow> int"
  w_join :: "nat \<Rightarrow> nat \<Rightarrow> int option \<Rightarrow> 'f engine \<Rightarrow> (bool \<times> 'f search \<times> addr list) option"

definition worked :: "'f search \<times> addr list \<Rightarrow> 'f engine \<Rightarrow> 'f engine" where
  "worked w e = e\<lparr>m_search := fst w, m_delete_queue := snd w\<rparr>"

definition waited_us :: "'f waits \<Rightarrow> nat \<Rightarrow> nat \<Rightarrow> 'f engine \<Rightarrow> int" where
  "waited_us w k j e = us (w_now w k j) (m_search_timer e)"

definition stops_early :: "'f arith \<Rightarrow> 'f waits \<Rightarrow> nat \<Rightarrow> nat \<Rightarrow> int \<Rightarrow> 'f engine \<Rightarrow> bool" where
  "stops_early A w k j timeout e =
     CheckEarlyStop A (m_config e) (s_counter (m_search e)) (waited_us w k j e) timeout (heap_of e) (m_root e)"

definition overtime_us :: "'f arith \<Rightarrow> int \<Rightarrow> 'f engine \<Rightarrow> int option" where
  "overtime_us A timeout e = GetSearchOvertimeUs A (m_config e) (m_gen_passes e) (heap_of e) (m_root e) timeout"

text \<open>The loop, with \<open>True\<close> for the returns inside it. Its third reading of the clock is in the call of
  \<open>CheckEarlyStop\<close> that decides whether the overtime would be stopped early, too.\<close>

partial_function (option) wait_loop :: "'f arith \<Rightarrow> 'f waits \<Rightarrow> bool \<Rightarrow> int \<Rightarrow> int \<Rightarrow> nat \<Rightarrow> 'f engine \<Rightarrow> (bool \<times> nat \<times> 'f engine) option" where
  "wait_loop A w over timeout check k e =
     (if waited_us w k 0 e + check < timeout then
        Option.bind (w_join w k 0 (Some check) e) (\<lambda>(paused, st).
          let e1 = worked st e
          in if paused then Some (True, k, e1)
             else if stops_early A w k 1 timeout e1 then
               (if over then Some (True, k, e1)
                else Option.bind (overtime_us A timeout e1) (\<lambda>ov.
                  Some (\<not> (ov > 0 \<and> \<not> stops_early A w k 2 (timeout + ov) e1), k, e1)))
             else wait_loop A w over timeout check (Suc k) e1)
      else Some (False, k, e))"

definition SearchWait :: "'f arith \<Rightarrow> 'f waits \<Rightarrow> int \<Rightarrow> bool \<Rightarrow> 'f engine \<Rightarrow> 'f engine option" where
  "SearchWait A w timeout over e =
     (if timeout = 0 then Some e
      else if timeout < 0 then map_option (\<lambda>(_, st). worked st e) (w_join w 0 0 None e)
      else if \<not> es_enable (early_stop (m_config e)) then map_option (\<lambda>(_, st). worked st e) (w_join w 0 0 (Some timeout) e)
      else let t = timeout + waited_us w 0 0 e
           in Option.bind (wait_loop A w over t (check_every_ms (early_stop (m_config e)) * 1000) 1 e) (\<lambda>(stop, k, e1).
                let remain = t - waited_us w k 3 e1
                in if stop \<or> remain \<le> 0 then Some e1
                   else map_option (\<lambda>(_, st). worked st e1) (w_join w k 3 (Some remain) e1)))"

text \<open>\<open>time_at\<close> is the clock when \<open>GetSearchTimeoutUs\<close> reads it, \<open>rest\<close> what the threads do from the final pause
  until the last of them is parked.\<close>

record 'f searching =
  time_at :: int
  wait_in :: "'f waits"
  wait_over :: "'f waits"
  rest :: "'f engine \<Rightarrow> 'f search \<times> addr list"

definition Search :: "'f arith \<Rightarrow> (nat \<Rightarrow> 'f list \<Rightarrow> nat list \<Rightarrow> nat list) \<Rightarrow> (nat \<Rightarrow> int \<times> 'f list \<times> 'f) \<Rightarrow> (nat \<Rightarrow> 'f) \<Rightarrow> int \<Rightarrow>
    'f searching \<Rightarrow> 'f engine \<Rightarrow> 'f engine option" where
  "Search A ne answers noise now W e =
     Option.bind (SearchResume A ne answers noise now e) (\<lambda>e1.
       let timeout = GetSearchTimeoutUs A (m_config e1) (time_at W) (m_num_moves e1) (current_player (m_board e1)) (m_byo_yomi_timer e1)
       in Option.bind (SearchWait A (wait_in W) timeout False e1) (\<lambda>e2.
            Option.bind (overtime_us A timeout e2) (\<lambda>ov.
              map_option (\<lambda>e3. SearchPause (worked (rest W e3) e3)) (SearchWait A (wait_over W) ov True e2))))"

subsection \<open>Generating a move\<close>

text \<open>\<open>sample\<close> draws for \<open>GetSamplingMove\<close>.\<close>

definition GenMove :: "'f arith \<Rightarrow> (nat \<Rightarrow> 'f list \<Rightarrow> nat list \<Rightarrow> nat list) \<Rightarrow> (nat \<Rightarrow> int \<times> 'f list \<times> 'f) \<Rightarrow> (nat \<Rightarrow> 'f) \<Rightarrow> int \<Rightarrow>
    'f searching \<Rightarrow> ('f list \<Rightarrow> nat) \<Rightarrow> 'f engine \<Rightarrow> (((GoCoordId \<times> GoCoordId) \<times> int list \<times> 'f) \<times> 'f engine) option" where
  "GenMove A ne answers noise now W sample e0 =
     (let e = ensure_clock A now e0; c = m_config e
      in if enable_pass_pass c \<and> last_position (m_board e) = COORD_PASS \<and> \<not> IsPassDisable c (m_gen_passes e)
         then Some (((COORD_PASS, COORD_PASS), GetVisitCount (heap_of e) (m_root e), f_lit A 1),
                    e\<lparr>m_gen_passes := m_gen_passes e + 1\<rparr>)
         else Option.bind (Search A ne answers noise now W e) (\<lambda>e2.
           let h = heap_of e2; rt = m_root e2
           in map_option (\<lambda>(m, v). ((IdToCoord m, GetVisitCount h rt, v),
                  if m = COORD_PASS then e2\<lparr>m_gen_passes := m_gen_passes e2 + 1\<rparr> else e2))
                (if f_eq A (genmove_temperature c) (f_lit A 0) then GetBestMove A c (m_gen_passes e2) h rt
                 else map_option (\<lambda>m. (m, f_lit A 1)) (GetSamplingMove A c (m_gen_passes e2) sample (genmove_temperature c) h rt))))"

end
