(* ===== verification/Mcts_Debug.thy ===== *)
theory Mcts_Debug
  imports Mcts_Engine
begin

text \<open>
  What mcts_debugger.cc, analyze.cc and \<open>OutputAnalysis\<close> write about the search tree. Printed floats are
  a parameter (\<open>show\<close> for \<open>std::to_string\<close>, \<open>two\<close> for \<open>%.2f\<close>). \<open>pick r vs\<close> is the index that
  \<open>std::nth_element\<close> leaves at position \<open>r\<close> when it orders the indices of \<open>vs\<close> by larger value; the standard
  fixes its value only, not the choice among equals.
\<close>

definition pick_ok :: "(nat \<Rightarrow> int list \<Rightarrow> nat) \<Rightarrow> bool" where
  "pick_ok pick \<longleftrightarrow> (\<forall>r vs. r < length vs \<longrightarrow> pick r vs < length vs \<and> vs ! pick r vs = rev (sort vs) ! r)"

definition picked :: "(nat \<Rightarrow> int list \<Rightarrow> nat) \<Rightarrow> 'f heap \<Rightarrow> nat \<Rightarrow> addr \<Rightarrow> addr" where
  "picked pick h rank n = kids h n ! pick rank (map (\<lambda>a. visit_count (h_node h a)) (kids h n))"

definition mean_action :: "'f arith \<Rightarrow> 'f TreeNode \<Rightarrow> 'f" where
  "mean_action A x = f_div A (child_action A x) (f_of_int A (visit_count x))"

subsection \<open>The debugger\<close>

text \<open>\<open>heights\<close> are the largest and the average height of the search tree, from the monitor.\<close>

definition GetDebugStr :: "'f arith \<Rightarrow> ('f \<Rightarrow> string) \<Rightarrow> int \<Rightarrow> int \<times> 'f \<Rightarrow> 'f engine \<Rightarrow> string" where
  "GetDebugStr A show now heights e =
     (let x = h_node (heap_of e) (m_root e); ith = m_num_moves e; q = mean_action A x
      in to_string ith @ ''th move('' @ [''wb'' ! nat (ith mod 2)] @ '')'' @ '': '' @ IdToMoveStr (node_move x) @
         '', winrate='' @ show (f_mul A (f_add A q (f_lit A 1)) (f_lit A 50)) @ ''%'' @
         '', N='' @ to_string (visit_count x) @ '', Q='' @ show q @ '', p='' @ show (prior_prob x) @ '', v='' @ show (node_value x) @
         (if s_counter (m_search e) > 0
          then '', cost '' @ show (fms A now (m_search_timer e)) @ ''ms'' @ '', sims='' @ to_string (s_counter (m_search e)) @
               '', height='' @ to_string (fst heights) @ '', avg_height='' @ show (snd heights)
          else []))"

text \<open>The buffer of \<open>snprintf\<close> holds 99 characters.\<close>

partial_function (option) main_path :: "'f arith \<Rightarrow> ('f \<Rightarrow> string) \<Rightarrow> (nat \<Rightarrow> int list \<Rightarrow> nat) \<Rightarrow> 'f heap \<Rightarrow> nat \<Rightarrow> addr \<Rightarrow> string \<Rightarrow> string option" where
  "main_path A two pick h rank n moves =
     (if expand_state (h_node h n) = k_expanded \<and> ch_len (h_node h n) > int rank then
        let b = picked pick h rank n; x = h_node h b
        in main_path A two pick h 0 b
             (append_move moves (IdToMoveStr (node_move x)) @
              take 99 (''('' @ to_string (visit_count x) @ '','' @ two (mean_action A x) @ '','' @ two (prior_prob x) @ '','' @ two (node_value x) @ '')''))
      else Some moves)"

definition GetMainMovePath :: "'f arith \<Rightarrow> ('f \<Rightarrow> string) \<Rightarrow> (nat \<Rightarrow> int list \<Rightarrow> nat) \<Rightarrow> nat \<Rightarrow> 'f engine \<Rightarrow> string option" where
  "GetMainMovePath A two pick rank e = main_path A two pick (heap_of e) rank (m_root e) []"

subsection \<open>The analysis\<close>

record 'f OutputAnalysisData =
  m_move :: string
  m_visits :: int
  m_winrate :: 'f
  m_policy_prior :: 'f
  m_pv :: string

definition analysis_before :: "'f arith \<Rightarrow> 'f OutputAnalysisData \<Rightarrow> 'f OutputAnalysisData \<Rightarrow> bool" where
  "analysis_before A a b \<longleftrightarrow> (if m_visits a = m_visits b then f_gt A (m_winrate a) (m_winrate b) else m_visits a > m_visits b)"

definition get_info_string :: "'f arith \<Rightarrow> int \<Rightarrow> 'f OutputAnalysisData \<Rightarrow> string" where
  "get_info_string A order d =
     ''info move '' @ m_move d @ '' visits '' @ to_string (m_visits d) @ '' winrate '' @ to_string (f_trunc A (m_winrate d)) @
     '' prior '' @ to_string (f_trunc A (m_policy_prior d)) @ '' lcb '' @ ''0'' @
     (if order \<ge> 0 then '' order '' @ to_string order else []) @ '' pv '' @ m_pv d"

text \<open>The first step of the loop for a child, at which its data are read, is in \<open>analyse_child\<close>.\<close>

partial_function (option) pv_loop :: "(nat \<Rightarrow> int list \<Rightarrow> nat) \<Rightarrow> 'f heap \<Rightarrow> addr \<Rightarrow> string \<Rightarrow> string option" where
  "pv_loop pick h n pv =
     (if ch_len (h_node h n) > 0
      then let b = picked pick h 0 n in pv_loop pick h b (pv @ IdToMoveStr (node_move (h_node h b)) @ '' '')
      else Some pv)"

definition analyse_child :: "'f arith \<Rightarrow> (nat \<Rightarrow> int list \<Rightarrow> nat) \<Rightarrow> 'f heap \<Rightarrow> addr \<Rightarrow> nat \<Rightarrow> 'f OutputAnalysisData option" where
  "analyse_child A pick h rt i =
     (let b = picked pick h i rt; x = h_node h b; m = IdToMoveStr (node_move x)
      in map_option (\<lambda>pv. \<lparr>m_move = m, m_visits = visit_count x,
             m_winrate = f_mul A (f_mul A (f_add A (mean_action A x) (f_lit A 1)) (f_lit A 50)) (f_lit A 100),
             m_policy_prior = f_mul A (prior_prob x) (f_lit A 100), m_pv = pv\<rparr>)
           (pv_loop pick h b (m @ '' '')))"

fun analyse_children :: "'f arith \<Rightarrow> (nat \<Rightarrow> int list \<Rightarrow> nat) \<Rightarrow> 'f heap \<Rightarrow> addr \<Rightarrow> nat list \<Rightarrow> 'f OutputAnalysisData list option" where
  "analyse_children A pick h rt [] = Some []"
| "analyse_children A pick h rt (i # is) =
     Option.bind (analyse_child A pick h rt i) (\<lambda>d. map_option ((#) d) (analyse_children A pick h rt is))"

text \<open>\<open>std::stable_sort\<close>.\<close>

fun insert_stable :: "('a \<Rightarrow> 'a \<Rightarrow> bool) \<Rightarrow> 'a \<Rightarrow> 'a list \<Rightarrow> 'a list" where
  "insert_stable lt x [] = [x]"
| "insert_stable lt x (y # ys) = (if lt y x then y # insert_stable lt x ys else x # y # ys)"

definition stable_sort :: "('a \<Rightarrow> 'a \<Rightarrow> bool) \<Rightarrow> 'a list \<Rightarrow> 'a list" where
  "stable_sort lt xs = foldr (insert_stable lt) xs []"

definition analysis_data :: "'f arith \<Rightarrow> (nat \<Rightarrow> int list \<Rightarrow> nat) \<Rightarrow> 'f engine \<Rightarrow> 'f OutputAnalysisData list option" where
  "analysis_data A pick e =
     map_option (stable_sort (analysis_before A))
       (analyse_children A pick (heap_of e) (m_root e) [0..<nat (ch_len (h_node (heap_of e) (m_root e)))])"

definition analysis_text :: "'f arith \<Rightarrow> 'f OutputAnalysisData list \<Rightarrow> string" where
  "analysis_text A ds =
     join_with (CHR '' '') (map (\<lambda>i. get_info_string A (int i) (ds ! i)) [0..<length ds]) @ [CHR 0x0A]"

definition OutputAnalysis :: "'f arith \<Rightarrow> (nat \<Rightarrow> int list \<Rightarrow> nat) \<Rightarrow> 'f engine \<Rightarrow> string option" where
  "OutputAnalysis A pick e =
     (if ch_len (h_node (heap_of e) (m_root e)) = 0 then Some []
      else map_option (analysis_text A) (analysis_data A pick e))"

end
