(* ===== verification/Gtp.thy ===== *)
theory Gtp
  imports Mcts_Search Mcts_Debug
begin

text \<open>
  The GTP front end of mcts_main.cc: the notation of moves, the commands, the loop that reads lines and
  writes replies. An uncaught exception and an undefined read end the program, like a failed check (\<open>None\<close>).
\<close>

subsection \<open>Reading from a string stream\<close>

text \<open>A stream that has failed is \<open>None\<close>; reading from it changes nothing.\<close>

type_synonym istream = "string option"

fun get_word :: "istream \<Rightarrow> string \<times> istream" where
  "get_word None = ([], None)"
| "get_word (Some s) =
     (let t = dropWhile isspace s
      in if t = [] then ([], None) else (takeWhile (\<lambda>c. \<not> isspace c) t, Some (dropWhile (\<lambda>c. \<not> isspace c) t)))"

text \<open>The value read is \<open>None\<close> when the variable stays unset. Without digits 0 is stored, a number out of
  range is replaced by the nearest one; both fail.\<close>

fun get_int :: "istream \<Rightarrow> int option \<times> istream" where
  "get_int None = (None, None)"
| "get_int (Some s) =
     (let t = dropWhile isspace s; neg = (t \<noteq> [] \<and> hd t = CHR ''-'');
          u = (if t \<noteq> [] \<and> (hd t = CHR ''-'' \<or> hd t = CHR ''+'') then tl t else t);
          m = int (parse_digits 0 u); n = (if neg then - m else m)
      in if t = [] then (None, None)
         else if u = [] \<or> \<not> isdigit (hd u) then (Some 0, None)
         else if n < - (2 ^ 31) then (Some (- (2 ^ 31)), None)
         else if n \<ge> 2 ^ 31 then (Some (2 ^ 31 - 1), None)
         else (Some n, Some (dropWhile isdigit u)))"

text \<open>All the words to the end.\<close>

function words :: "string \<Rightarrow> string list" where
  "words s = (case get_word (Some s) of (w, None) \<Rightarrow> [] | (w, Some r) \<Rightarrow> w # words r)"
  by pat_completeness auto
termination
proof (relation "measure length", simp)
  fix s :: string and w y r
  assume defs: "(w, y) = get_word (Some s)" "y = Some r"
  let ?t = "dropWhile isspace s"
  have t: "?t \<noteq> []" "r = dropWhile (\<lambda>c. \<not> isspace c) ?t"
    using defs by (auto simp: Let_def split: if_splits)
  from t(1) have "\<not> isspace (hd ?t)" by (rule hd_dropWhile)
  then have "length r < length ?t"
    using t by (cases ?t) (simp_all add: le_imp_less_Suc length_dropWhile_le)
  also have "\<dots> \<le> length s" by (rule length_dropWhile_le)
  finally show "(r, s) \<in> measure length" by simp
qed

subsection \<open>Notation\<close>

definition EncodeMove :: "GoCoordId \<Rightarrow> GoCoordId \<Rightarrow> string" where
  "EncodeMove x y =
     (if IsPassXY x y then ''pass'' else if IsResignXY x y then ''resign''
      else [if x > 7 then to_char (66 + x) else to_char (65 + x)] @ to_string (y + 1))"

text \<open>\<open>substr\<close> and \<open>stoi\<close> may throw; the difference of an \<open>int\<close> may overflow.\<close>

definition DecodeMove :: "string \<Rightarrow> (GoCoordId \<times> GoCoordId) option" where
  "DecodeMove s =
     (if s = ''pass'' then Some (COORD_PASS, COORD_PASS)
      else if s = ''resign'' then Some (COORD_RESIGN, COORD_RESIGN)
      else Option.bind (str_at s 0) (\<lambda>c.
        let x = (if c > 105 then c - 98 else c - 97)
        in case substr s 1 (length s) of Inl _ \<Rightarrow> None
           | Inr t \<Rightarrow> (case stoi t of Inl _ \<Rightarrow> None
               | Inr n \<Rightarrow> if n = - (2 ^ 31) then None else Some (wrap16 x, wrap16 (n - 1)))))"

definition DecodeColor :: "string \<Rightarrow> GoStoneColor" where
  "DecodeColor s = (if s = ''b'' \<or> s = ''black'' then BLACK else if s = ''w'' \<or> s = ''white'' then WHITE else COLOR_UNKNOWN)"

subsection \<open>The server\<close>

text \<open>What one call of the engine takes from outside: the clock, the answers of the evaluation, random numbers, what
  the threads do before the call (until its pause has parked them) and during a search.\<close>

record 'f outside =
  x_now :: int
  x_answers :: "nat \<Rightarrow> int \<times> 'f list \<times> 'f"
  x_noise :: "nat \<Rightarrow> 'f"
  x_before :: "'f engine \<Rightarrow> 'f search \<times> addr list"
  x_search :: "'f searching"
  x_sample :: "'f list \<Rightarrow> nat"
  x_heights :: "int \<times> 'f"

text \<open>And one command: its calls in order, and the configuration file, if it can be read.\<close>

record 'f world =
  x_call :: "nat \<Rightarrow> 'f outside"
  config_file :: "string option"

text \<open>The libraries: the parser of protobuf texts (whether it succeeds, and what it leaves in the message), the comparison
  of messages, reading and printing floats.\<close>

record 'f library =
  ParseFromString :: "string \<Rightarrow> bool \<times> 'f MCTSConfig"
  Equals :: "'f MCTSConfig \<Rightarrow> 'f MCTSConfig \<Rightarrow> bool"
  read_float :: "istream \<Rightarrow> 'f option \<times> istream"
  show_float :: "'f \<Rightarrow> string"

text \<open>What does not change: arithmetic, random weights of the hash, \<open>std::nth_element\<close>, libraries, and the memory in which
  boards are created.\<close>

record 'f platform =
  p_arith :: "'f arith"
  p_zobrist :: zobrist
  p_nth :: "nat \<Rightarrow> 'f list \<Rightarrow> nat list \<Rightarrow> nat list"
  p_lib :: "'f library"
  p_raw :: GoState

record 'f server =
  the_engine :: "'f engine"
  g_config :: "'f MCTSConfig option"
  FLAGS_lizzie :: bool

subsection \<open>The configuration\<close>

text \<open>mcts_config.cc. The message is created first, so that a file that cannot be read or parsed leaves a configuration,
  too. (The list of GPUs that \<open>InitConfig\<close> overrides is not among the fields of the engine.)\<close>

definition LoadConfig :: "'f platform \<Rightarrow> string option \<Rightarrow> 'f MCTSConfig option" where
  "LoadConfig P file =
     (let c = default_config (f_lit (p_arith P) 0)
      in case file of None \<Rightarrow> Some c
         | Some text \<Rightarrow> (case ParseFromString (p_lib P) text of (ok, c') \<Rightarrow> if \<not> ok then Some c' else Some c'))"

definition InitConfig :: "'f platform \<Rightarrow> string option \<Rightarrow> 'f MCTSConfig option" where
  "InitConfig P file = LoadConfig P file"

definition SetPendingConfig :: "'f MCTSConfig \<Rightarrow> 'f engine \<Rightarrow> 'f engine" where
  "SetPendingConfig c e = e\<lparr>m_pending_config := Some c\<rparr>"

text \<open>\<open>std::move\<close> leaves the global pointer null.\<close>

definition ReloadConfig :: "'f platform \<Rightarrow> string option \<Rightarrow> 'f server \<Rightarrow> 'f server" where
  "ReloadConfig P file sv =
     (case InitConfig P file of None \<Rightarrow> sv\<lparr>g_config := None\<rparr>
      | Some c \<Rightarrow> if Equals (p_lib P) (m_config (the_engine sv)) c then sv\<lparr>g_config := Some c\<rparr>
                  else sv\<lparr>the_engine := SetPendingConfig c (the_engine sv), g_config := None\<rparr>)"

subsection \<open>Commands that move\<close>

abbreviation before_call :: "'f outside \<Rightarrow> 'f engine \<Rightarrow> 'f engine" where
  "before_call x e \<equiv> worked (x_before x e) e"

definition do_move :: "'f platform \<Rightarrow> 'f outside \<Rightarrow> GoCoordId \<times> GoCoordId \<Rightarrow> 'f engine \<Rightarrow> 'f engine option" where
  "do_move P x m e = engine_Move (p_arith P) (p_zobrist P) (p_nth P) (x_answers x) (x_noise x) (x_now x) (fst m) (snd m) (before_call x e)"

definition do_reset :: "'f platform \<Rightarrow> 'f outside \<Rightarrow> string \<Rightarrow> 'f engine \<Rightarrow> 'f engine option" where
  "do_reset P x moves e =
     Reset (p_arith P) (p_zobrist P) (p_nth P) (x_answers x) (x_noise x) (p_raw P) (x_now x) moves (before_call x e)"

text \<open>A pass first when it is the other side's turn.\<close>

definition pass_first :: "'f platform \<Rightarrow> 'f outside \<Rightarrow> GoStoneColor \<Rightarrow> 'f engine \<Rightarrow> 'f engine option" where
  "pass_first P x c e = (if c \<noteq> current_player (m_board e) then do_move P x (- 1, - 1) e else Some e)"

text \<open>The stones of a handicap, with passes between them; a move that cannot be decoded throws.\<close>

fun handicap :: "'f platform \<Rightarrow> (nat \<Rightarrow> 'f outside) \<Rightarrow> nat \<Rightarrow> (GoCoordId \<times> GoCoordId) option list \<Rightarrow> 'f engine \<Rightarrow> 'f engine option" where
  "handicap P xs i [] e = Some e"
| "handicap P xs i (m # rest_of) e =
     Option.bind (if i > 0 then do_move P (xs (2 * i)) (- 1, - 1) e else Some e) (\<lambda>e1.
     Option.bind m (\<lambda>p. Option.bind (do_move P (xs (2 * i + 1)) p e1) (handicap P xs (Suc i) rest_of)))"

definition k_handicaps :: "(GoCoordId \<times> GoCoordId) list" where
  "k_handicaps = [(3, 3), (15, 15), (15, 3), (3, 15), (9, 9)]"

definition place_free_handicap :: "'f platform \<Rightarrow> 'f world \<Rightarrow> istream \<Rightarrow> 'f engine \<Rightarrow> ((bool \<times> string) \<times> 'f engine) option" where
  "place_free_handicap P W ss e =
     (let n = (case fst (get_int ss) of None \<Rightarrow> 0 | Some n \<Rightarrow> n); stones = take (nat n) k_handicaps
      in if n > 5 then Some ((False, ''invalid number of stones''), e)
         else map_option (Pair (True, if stones = [] then [] else case last stones of (x, y) \<Rightarrow> EncodeMove x y))
                (handicap P (x_call W) 0 (map Some stones) e))"

definition set_free_handicap :: "'f platform \<Rightarrow> 'f world \<Rightarrow> istream \<Rightarrow> 'f engine \<Rightarrow> ((bool \<times> string) \<times> 'f engine) option" where
  "set_free_handicap P W ss e =
     map_option (Pair (True, [])) (handicap P (x_call W) 0 (map DecodeMove (case ss of None \<Rightarrow> [] | Some s \<Rightarrow> words s)) e)"

text \<open>\<open>play\<close> also prints the debug string of the last move, which is always empty.\<close>

definition gtp_play :: "'f platform \<Rightarrow> 'f world \<Rightarrow> istream \<Rightarrow> 'f server \<Rightarrow> ((bool \<times> string) \<times> 'f server) option" where
  "gtp_play P W ss sv0 =
     (let sv = ReloadConfig P (config_file W) sv0; (c, ss1) = get_word ss; (move, ss2) = get_word ss1
      in Option.bind (DecodeMove move) (\<lambda>m.
         Option.bind (pass_first P (x_call W 0) (DecodeColor c) (the_engine sv)) (\<lambda>e1.
         map_option (\<lambda>e2. ((True, []), sv\<lparr>the_engine := e2\<rparr>)) (do_move P (x_call W 1) m e1))))"

definition gtp_genmove :: "'f platform \<Rightarrow> 'f world \<Rightarrow> istream \<Rightarrow> 'f server \<Rightarrow> ((bool \<times> string) \<times> 'f server) option" where
  "gtp_genmove P W ss sv0 =
     (let sv = ReloadConfig P (config_file W) sv0; x = x_call W 1
      in Option.bind (pass_first P (x_call W 0) (DecodeColor (fst (get_word ss))) (the_engine sv)) (\<lambda>e1.
         Option.bind (GenMove (p_arith P) (p_nth P) (x_answers x) (x_noise x) (x_now x) (x_search x) (x_sample x) (before_call x e1))
           (\<lambda>((m, _), e2).
         map_option (\<lambda>e3. ((True, EncodeMove (fst m) (snd m)), sv\<lparr>the_engine := e3\<rparr>)) (do_move P (x_call W 2) m e2))))"

subsection \<open>The clock\<close>

definition gtp_time_settings :: "'f platform \<Rightarrow> 'f outside \<Rightarrow> istream \<Rightarrow> 'f engine \<Rightarrow> 'f engine option" where
  "gtp_time_settings P x ss e =
     (let (a, s1) = get_int ss; (b, s2) = get_int s1
      in Option.bind a (\<lambda>main_time. Option.bind b (\<lambda>byo.
           Some (e\<lparr>m_byo_yomi_timer := ByoYomi_Set (x_now x) (f_of_int (p_arith P) main_time) (f_of_int (p_arith P) byo) (m_byo_yomi_timer e)\<rparr>))))"

definition gtp_time_left :: "'f platform \<Rightarrow> 'f outside \<Rightarrow> istream \<Rightarrow> 'f engine \<Rightarrow> 'f engine option" where
  "gtp_time_left P x ss e =
     (let (c, s1) = get_word ss; (t, s2) = get_int s1; (n, s3) = get_int s2
      in Option.bind n (\<lambda>stones_left. map_option (\<lambda>time. e\<lparr>m_byo_yomi_timer :=
             SetRemainTime (x_now x) (DecodeColor c) (f_of_int (p_arith P) time) (m_byo_yomi_timer e)\<rparr>)
           (if stones_left \<noteq> 0 then Some 0 else t)))"

subsection \<open>All the commands\<close>

definition newline :: char where
  "newline = CHR 0x0A"

definition constant_reply :: "string \<Rightarrow> string option" where
  "constant_reply = map_of
     [(''name'', ''Leela Zero''), (''version'', ''0.17''), (''protocol_version'', ''2''),
      (''list_commands'', join_with newline
         [''name'', ''version'', ''protocol_version'', ''list_commands'', ''quit'', ''clear_board'', ''boardsize'', ''komi'',
          ''time_settings'', ''time_left'', ''place_free_handicap'', ''set_free_handicap'', ''play'', ''genmove'', ''final_score'',
          ''get_debug_info'', ''get_last_move_debug_info'', ''undo'', ''lz-analyze'']),
      (''quit'', [])]"

text \<open>\<open>with_engine\<close> puts the engine back after a command that works on it alone.\<close>

definition with_engine :: "'f server \<Rightarrow> ((bool \<times> string) \<times> 'f engine) option \<Rightarrow> ((bool \<times> string) \<times> 'f server) option" where
  "with_engine sv r = map_option (\<lambda>(reply, e). (reply, sv\<lparr>the_engine := e\<rparr>)) r"

definition GTPExecute :: "'f platform \<Rightarrow> 'f world \<Rightarrow> string \<Rightarrow> 'f server \<Rightarrow> ((bool \<times> string) \<times> 'f server) option" where
  "GTPExecute P W cmd sv0 =
     (let sv = sv0\<lparr>FLAGS_lizzie := False\<rparr>; e = the_engine sv; A = p_arith P; x = x_call W 0; (op, ss) = get_word (Some cmd)
      in case constant_reply op of Some t \<Rightarrow> Some ((True, t), sv)
      | None \<Rightarrow>
        if op = ''clear_board'' then with_engine sv (map_option (Pair (True, [])) (do_reset P x [] e))
        else if op = ''boardsize'' then
          Option.bind (fst (get_int ss)) (\<lambda>n. if n \<noteq> 19 then Some ((False, ''unacceptable size''), sv)
            else with_engine sv (map_option (Pair (True, [])) (do_reset P x [] e)))
        else if op = ''komi'' then
          Option.bind (fst (read_float (p_lib P) ss)) (\<lambda>k. if \<not> f_eq A k (f_lit A (15/2)) then Some ((False, ''unacceptable komi''), sv)
            else Some ((True, []), sv))
        else if op = ''time_settings'' then with_engine sv (map_option (Pair (True, [])) (gtp_time_settings P x ss e))
        else if op = ''time_left'' then with_engine sv (map_option (Pair (True, [])) (gtp_time_left P x ss e))
        else if op = ''get_remain_time'' then
          Some ((True, show_float (p_lib P) (GetRemainTime A (x_now x) (DecodeColor (fst (get_word ss))) (m_byo_yomi_timer e))), sv)
        else if op = ''place_free_handicap'' then with_engine sv (place_free_handicap P W ss e)
        else if op = ''set_free_handicap'' then with_engine sv (set_free_handicap P W ss e)
        else if op = ''play'' then gtp_play P W ss sv
        else if op = ''genmove'' then gtp_genmove P W ss sv
        else if op = ''final_score'' then Some ((True, if current_player (m_board e) = BLACK then ''W+0.5'' else ''B+0.5''), sv)
        else if op = ''get_debug_info'' then Some ((True, GetDebugStr A (show_float (p_lib P)) (x_now x) (x_heights x) e), sv)
        else if op = ''get_last_move_debug_info'' then Some ((True, []), sv)
        else if op = ''undo'' then
          with_engine sv (map_option (\<lambda>(ok, e'). if ok then ((True, []), e') else ((False, ''stack empty''), e'))
            (Undo A (p_zobrist P) (p_nth P) (x_answers x) (x_noise x) (p_raw P) (x_now x) (before_call x e)))
        else if op = ''lz-analyze'' then Some ((True, []), sv\<lparr>FLAGS_lizzie := True\<rparr>)
        else Some ((False, ''unknown command''), sv))"

subsection \<open>Serving\<close>

text \<open>\<open>serve\<close> has one world for every line.\<close>

text \<open>The number in front of a command. When it ends the line, \<open>getline\<close> fails and leaves the line as it is.\<close>

definition read_id :: "string \<Rightarrow> int option \<times> string" where
  "read_id cmd = (case get_int (Some cmd) of (Some n, Some r) \<Rightarrow> (Some n, if r = [] then cmd else r) | _ \<Rightarrow> (None, cmd))"

definition gtp_reply :: "int option \<Rightarrow> bool \<times> string \<Rightarrow> string" where
  "gtp_reply tag r =
     (if fst r then ''='' else ''?'') @ (case tag of None \<Rightarrow> [] | Some n \<Rightarrow> to_string n) @
     (if snd r \<noteq> [] then CHR '' '' # snd r else []) @ [newline, newline]"

fun contains :: "string \<Rightarrow> string \<Rightarrow> bool" where
  "contains w [] \<longleftrightarrow> w = []"
| "contains w (c # s) \<longleftrightarrow> take (length w) (c # s) = w \<or> contains w s"

fun serve :: "'f platform \<Rightarrow> 'f world list \<Rightarrow> string list \<Rightarrow> 'f server \<Rightarrow> (string list \<times> 'f server) option" where
  "serve P (W # Ws) (l # ls) sv =
     (case read_id (map tolower l) of (tag, cmd) \<Rightarrow>
        Option.bind (GTPExecute P W cmd sv) (\<lambda>(r, sv1).
          if contains ''quit'' cmd then Some ([gtp_reply tag r], sv1)
          else map_option (\<lambda>(rs, sv2). (gtp_reply tag r # rs, sv2)) (serve P Ws ls sv1)))"
| "serve P Ws ls sv = Some ([], sv)"

text \<open>\<open>W\<close> is the world of the start: the constructor, a reset to the initial moves, the start of the threads.\<close>

definition InitEngine :: "'f platform \<Rightarrow> 'f world \<Rightarrow> 'f server option" where
  "InitEngine P W =
     map_option (\<lambda>c. \<lparr>the_engine = MCTSEngine_new (p_arith P) (p_raw P) (x_now (x_call W 0)) c, g_config = Some c, FLAGS_lizzie = False\<rparr>)
       (InitConfig P (config_file W))"

definition start_engine :: "'f platform \<Rightarrow> 'f world \<Rightarrow> string \<Rightarrow> 'f server option" where
  "start_engine P W init_moves =
     Option.bind (InitEngine P W) (\<lambda>sv.
     Option.bind (if init_moves \<noteq> [] then do_reset P (x_call W 0) init_moves (the_engine sv) else Some (the_engine sv)) (\<lambda>e1.
     let x = x_call W 1
     in map_option (\<lambda>e2. sv\<lparr>the_engine := e2\<rparr>) (Init (p_arith P) (p_nth P) (x_answers x) (x_noise x) (x_now x) e1)))"

definition GTPServing :: "'f platform \<Rightarrow> 'f world \<Rightarrow> string \<Rightarrow> 'f world list \<Rightarrow> string list \<Rightarrow> (string list \<times> 'f server) option" where
  "GTPServing P W init_moves Ws lines = Option.bind (start_engine P W init_moves) (serve P Ws lines)"

definition GenMoveOnce :: "'f platform \<Rightarrow> 'f world \<Rightarrow> string \<Rightarrow> (string \<times> 'f engine) option" where
  "GenMoveOnce P W init_moves =
     Option.bind (start_engine P W init_moves) (\<lambda>sv.
     let x = x_call W 2
     in Option.bind (GenMove (p_arith P) (p_nth P) (x_answers x) (x_noise x) (x_now x) (x_search x) (x_sample x) (before_call x (the_engine sv)))
          (\<lambda>((m, _), e). map_option (\<lambda>e'.
             (CHR ''{'' # CHR 0x22 # ''Px'' @ [CHR 0x22] @ '':'' @ to_string (fst m) @ '', '' @ [CHR 0x22] @ ''Py'' @ [CHR 0x22] @ '':'' @ to_string (snd m) @
              '', '' @ [CHR 0x22] @ ''Result'' @ [CHR 0x22] @ '':0, '' @ [CHR 0x22] @ ''Board'' @ [CHR 0x22] @ '':'' @ [CHR 0x22, CHR 0x22] @
              '', '' @ [CHR 0x22] @ ''Debug'' @ [CHR 0x22] @ '':'' @ [CHR 0x22, CHR 0x22] @ ''}'', e'))
            (do_move P (x_call W 3) m e)))"

end
