(* ===== verification/Mcts_Record.thy ===== *)
theory Mcts_Record
  imports Mcts_Engine
begin

text \<open>
  The record of the game: the engine writes its moves into a string, and takes a move back by
  replaying a shorter string.
\<close>

subsection \<open>The string of the moves\<close>

abbreviation playable :: "GoCoordId \<Rightarrow> bool" where
  "playable m \<equiv> InBoard m \<or> m = COORD_PASS"

definition moves_str :: "GoCoordId list \<Rightarrow> string" where
  "moves_str xs = join_with (CHR '','') (map IdToStr xs)"

lemma length_IdToStr [simp]: "length (IdToStr m) = 2"
  by (simp add: IdToStr_def CoordToStr_def split: prod.split)

lemma IdToStr_nonempty [simp]: "IdToStr m \<noteq> []"
  using length_IdToStr [of m] by force

lemma moves_str_simps [simp]:
  "moves_str [] = []" "moves_str [m] = IdToStr m" "moves_str (m # n # xs) = IdToStr m @ CHR '','' # moves_str (n # xs)"
  by (simp_all add: moves_str_def)

lemma moves_str_empty [simp]: "moves_str xs = [] \<longleftrightarrow> xs = []"
  by (cases xs rule: remdups_adj.cases) simp_all

lemma moves_str_snoc: "moves_str (xs @ [m]) = append_move (moves_str xs) (IdToStr m)"
  by (cases "xs = []") (simp_all add: append_move_def, simp add: moves_str_def join_with_snoc)

lemma length_moves_str: "length (moves_str xs) = 3 * length xs - 1"
proof (induction xs)
  case (Cons m xs)
  then show ?case by (cases xs) simp_all
qed simp

lemma drop_moves_str: "k < length xs \<Longrightarrow> drop (3 * k) (moves_str xs) = moves_str (drop k xs)"
proof (induction xs arbitrary: k)
  case (Cons m xs)
  show ?case
  proof (cases k)
    case (Suc j)
    with Cons.prems obtain n ys where "xs = n # ys" by (cases xs) auto
    with Suc Cons.IH [of j] Cons.prems show ?thesis by (simp add: numeral_3_eq_3)
  qed simp
qed simp

lemma substr_moves_str: "k < length xs \<Longrightarrow> substr (moves_str xs) (3 * k) 2 = Inr (IdToStr (xs ! k))"
proof -
  assume k: "k < length xs"
  then have "take 2 (drop (3 * k) (moves_str xs)) = IdToStr (xs ! k)"
    by (simp add: drop_moves_str Cons_nth_drop_Suc [symmetric]) (cases "drop (Suc k) xs"; simp)
  then show ?thesis using k by (simp add: substr_def length_moves_str)
qed

lemma read_back: "playable m \<Longrightarrow> \<exists>x y. StrToCoord (IdToStr m) = Some (x, y) \<and> CoordToId x y = m"
  using str_id_back [of m] by (auto simp: StrToId_def split: option.splits)

lemma CoordToStr_id: "playable (CoordToId x y) \<Longrightarrow> CoordToStr x y = IdToStr (CoordToId x y)"
  by (auto simp: IdToStr_def CoordToStr_def point_defs)

subsection \<open>Replaying\<close>

lemma foldo_snoc: "foldo f (xs @ [x]) s = Option.bind (foldo f xs s) (f x)"
  by (simp add: foldo_append split: option.split)

lemma replay_moves:
  assumes "\<forall>m\<in>set xs. playable m" and "play_moves Z xs b = Some b'"
  shows "replay Z (moves_str xs) (b, m0) = Some (b', last (m0 # xs))"
proof -
  have "\<exists>b1. play_moves Z (take n xs) b = Some b1 \<and>
      foldo (replay_step Z (moves_str xs)) (map (\<lambda>k. 3 * k) [0..<n]) (b, m0) = Some (b1, last (m0 # take n xs))"
    if "n \<le> length xs" for n
    using that
  proof (induction n)
    case (Suc n)
    then obtain b1 where b1: "play_moves Z (take n xs) b = Some b1"
      "foldo (replay_step Z (moves_str xs)) (map (\<lambda>k. 3 * k) [0..<n]) (b, m0) = Some (b1, last (m0 # take n xs))" by auto
    have t: "take (Suc n) xs = take n xs @ [xs ! n]" using Suc.prems by (simp add: take_Suc_conv_app_nth)
    have "play_moves Z (take (Suc n) xs @ drop (Suc n) xs) b \<noteq> None" using assms(2) by simp
    then obtain b2 where b2: "Move Z (xs ! n) b1 = Some (0, b2)" "play_moves Z (take (Suc n) xs) b = Some b2"
      unfolding play_moves_append t by (auto simp: play_moves_append b1(1) split: option.splits if_splits)
    from assms(1) Suc.prems obtain x y where "StrToCoord (IdToStr (xs ! n)) = Some (x, y)" "CoordToId x y = xs ! n"
      using read_back [of "xs ! n"] by (meson Suc_le_lessD nth_mem)
    with Suc.prems b2(1) have "replay_step Z (moves_str xs) (3 * n) (b1, last (m0 # take n xs)) = Some (b2, xs ! n)"
      by (simp add: replay_step_def substr_moves_str MoveXY_def)
    with b1(2) b2(2) show ?case by (simp add: foldo_snoc t)
  qed simp
  from this [of "length xs"] assms(2) have
    "foldo (replay_step Z (moves_str xs)) (map (\<lambda>k. 3 * k) [0..<length xs]) (b, m0) = Some (b', last (m0 # xs))" by simp
  moreover have "(length (moves_str xs) + 2) div 3 = length xs" by (cases xs) (simp_all add: length_moves_str)
  ultimately show ?thesis by (simp add: replay_def)
qed

lemma play_reachable:
  "play_moves Z xs s0 = Some b \<Longrightarrow> \<forall>m\<in>set xs. playable m \<Longrightarrow> \<exists>H. reachable Z s0 (length xs) H b"
proof (induction xs arbitrary: b rule: rev_induct)
  case Nil
  then show ?case using reachable.start by auto
next
  case (snoc m xs)
  from snoc.prems(1) obtain b1 where b1: "play_moves Z xs s0 = Some b1" "Move Z m b1 = Some (0, b)"
    by (auto simp: play_moves_append split: option.splits if_splits)
  with snoc obtain H where "reachable Z s0 (length xs) H b1" by auto
  from reachable.move [OF this _ b1(2)] snoc.prems(2) show ?case by auto
qed

end
