(* ===== verification/Mcts_States.thy ===== *)
theory Mcts_States
  imports Mcts_Root
begin

text \<open>
  Every node is unexpanded, being expanded or expanded, whatever the order of the operations:
  the values of \<open>expand_state\<close> form a state machine of three states.
\<close>

definition states_ok :: "'f heap \<Rightarrow> bool" where
  "states_ok h \<longleftrightarrow> (\<forall>a. expand_state (h_node h a) \<in> {k_unexpanded, k_expanding, k_expanded})"

lemma states_upd:
  "states_ok h \<Longrightarrow> (\<And>x. expand_state x \<in> {k_unexpanded, k_expanding, k_expanded} \<Longrightarrow>
    expand_state (f x) \<in> {k_unexpanded, k_expanding, k_expanded}) \<Longrightarrow> states_ok (upd n f h)"
  by (simp add: states_ok_def)

lemma states_fold: "(\<And>x g. x \<in> set xs \<Longrightarrow> states_ok g \<Longrightarrow> states_ok (step x g)) \<Longrightarrow> states_ok h \<Longrightarrow> states_ok (fold step xs h)"
  by (induction xs arbitrary: h) auto

lemma states_same: "states_ok h \<Longrightarrow> (\<And>a. expand_state (h_node h' a) = expand_state (h_node h a)) \<Longrightarrow> states_ok h'"
  by (simp add: states_ok_def)

lemma backup_state:
  assumes "backup_loop len n v h = Some h'"
  shows "expand_state (h_node h' a) = expand_state (h_node h a)"
proof (rule backup_loop.raw_induct [where P = "\<lambda>len n v h h'. expand_state (h_node h' a) = expand_state (h_node h a)", OF _ assms])
  fix loop len n v h h'
  assume IH: "\<And>len n v h h'. loop len n v h = Some h' \<Longrightarrow> expand_state (h_node h' a) = expand_state (h_node h a)"
    and eq: "(if n \<noteq> nullptr then loop len (fa (h_node h n)) (wrap64 (- v)) (upd n (backup_node len v) h) else Some h) = Some h'"
  show "expand_state (h_node h' a) = expand_state (h_node h a)"
  proof (cases "n = nullptr")
    case False
    with eq have "loop len (fa (h_node h n)) (wrap64 (- v)) (upd n (backup_node len v) h) = Some h'" by simp
    from IH [OF this] show ?thesis by (simp add: backup_node_def)
  qed (use eq in simp)
qed

lemma undo_state:
  assumes "UndoVirtualLoss n h = Some h'"
  shows "expand_state (h_node h' a) = expand_state (h_node h a)"
proof (rule UndoVirtualLoss.raw_induct [where P = "\<lambda>n h h'. expand_state (h_node h' a) = expand_state (h_node h a)", OF _ assms])
  fix loop n h h'
  assume IH: "\<And>n h h'. loop n h = Some h' \<Longrightarrow> expand_state (h_node h' a) = expand_state (h_node h a)"
    and eq: "(if n \<noteq> nullptr then loop (fa (h_node h n)) (upd n remove_virtual_loss h) else Some h) = Some h'"
  show "expand_state (h_node h' a) = expand_state (h_node h a)"
  proof (cases "n = nullptr")
    case False
    with eq have "loop (fa (h_node h n)) (upd n remove_virtual_loss h) = Some h'" by simp
    from IH [OF this] show ?thesis by (simp add: remove_virtual_loss_def)
  qed (use eq in simp)
qed

lemma select_state:
  assumes "select_loop A c Z n b h = Some r"
  shows "expand_state (h_node (snd (snd r)) a) = expand_state (h_node h a)"
proof (rule select_loop.raw_induct [where P = "\<lambda>A c Z n b h r. expand_state (h_node (snd (snd r)) a) = expand_state (h_node h a)", OF _ assms])
  fix loop A c Z n b h r
  assume IH: "\<And>A c Z n b h r. loop A c Z n b h = Some r \<Longrightarrow> expand_state (h_node (snd (snd r)) a) = expand_state (h_node h a)"
    and eq: "(if expand_state (h_node h n) = k_expanded then
        Option.bind (SelectChild A c h n) (\<lambda>n'. Option.bind (Move Z (node_move (h_node h n')) b) (\<lambda>(r, b').
        if r = 0 then loop A c Z n' b' (add_virtual_loss n' h) else None)) else Some (n, b, h)) = Some r"
  show "expand_state (h_node (snd (snd r)) a) = expand_state (h_node h a)"
  proof (cases "expand_state (h_node h n) = k_expanded")
    case True
    with eq obtain n' b' where "loop A c Z n' b' (add_virtual_loss n' h) = Some r"
      by (auto simp: bind_eq_Some_conv split: prod.splits if_splits)
    from IH [OF this] show ?thesis by (simp add: add_virtual_loss_def)
  qed (use eq in auto)
qed

lemma states_Backup: "Backup A n v len h = Some h' \<Longrightarrow> states_ok h \<Longrightarrow> states_ok h'"
proof -
  assume b: "Backup A n v len h = Some h'" and ok: "states_ok h"
  have "states_ok (upd n (\<lambda>x. x\<lparr>node_value := v\<rparr>) h)" by (rule states_upd [OF ok]) simp
  then show ?thesis by (rule states_same) (rule backup_state [OF b [unfolded Backup_def]])
qed

lemma states_Undo:
  assumes "UndoVirtualLoss n h = Some h'" and "states_ok h"
  shows "states_ok h'"
  by (rule states_same [OF assms(2) undo_state [OF assms(1)]])

lemma states_Select:
  assumes "Select A c Z rt b h = Some (n, b', h')" and "states_ok h"
  shows "states_ok h'"
proof -
  have "states_ok (add_virtual_loss rt h)" unfolding add_virtual_loss_def by (rule states_upd [OF assms(2)]) simp
  then show ?thesis by (rule states_same) (use select_state [OF assms(1) [unfolded Select_def]] in simp)
qed

lemma states_new [simp]: "states_ok (snd (new_nodes k h)) = states_ok h"
  by (simp add: states_ok_def new_nodes_def)

lemma states_init: "states_ok h \<Longrightarrow> states_ok (InitNode A n f m q h)"
  unfolding InitNode_upd by (rule states_upd) (simp_all add: fresh_node_def)

lemma states_Expand:
  assumes "states_ok h"
  shows "states_ok (snd (Expand A c ne n b policy h))"
proof -
  let ?ms = "expand_moves c ne policy b"
  have "states_ok (init_children A n (fst (new_nodes (length ?ms) h)) policy (policy_sum A policy b) ?ms (snd (new_nodes (length ?ms) h)))"
    unfolding init_children_def by (rule states_fold) (use assms states_init in auto)
  then have "states_ok (upd n (\<lambda>x. x\<lparr>ch := fst (new_nodes (length ?ms) h), ch_len := int (length ?ms), expand_state := k_expanded\<rparr>)
    (init_children A n (fst (new_nodes (length ?ms) h)) policy (policy_sum A policy b) ?ms (snd (new_nodes (length ?ms) h))))"
    by (rule states_upd) simp
  moreover have "states_ok (upd n (\<lambda>x. x\<lparr>expand_state := k_unexpanded\<rparr>) h)" by (rule states_upd [OF assms]) simp
  ultimately show ?thesis by (cases "new_nodes (length ?ms) h") (simp add: Expand_def Let_def)
qed

lemma states_ChangeRoot:
  assumes "states_ok h"
  shows "states_ok (snd (snd (ChangeRoot A n rt dq h)))"
proof -
  obtain r h1 where n: "new_nodes 1 h = (r, h1)" by (cases "new_nodes 1 h") auto
  have ok: "states_ok h1" using assms states_new [of 1 h] unfolding n by simp
  then have "expand_state (h_node h1 n) \<in> {k_unexpanded, k_expanding, k_expanded}" unfolding states_ok_def by blast
  then have "states_ok (upd r (\<lambda>_. (h_node h1 n)\<lparr>fa := nullptr\<rparr>) h1)" by (intro states_upd [OF ok]) simp
  then have "states_ok (upd n (\<lambda>y. y\<lparr>ch := nullptr, ch_len := 0\<rparr>)
     (fold (\<lambda>k. upd k (\<lambda>y. y\<lparr>fa := r\<rparr>)) (kids (upd r (\<lambda>_. (h_node h1 n)\<lparr>fa := nullptr\<rparr>) h1) n) (upd r (\<lambda>_. (h_node h1 n)\<lparr>fa := nullptr\<rparr>) h1)))"
    by (intro states_upd [OF states_fold]) (auto intro: states_upd)
  with n ok show ?thesis by (simp add: ChangeRoot_def Let_def states_init)
qed

lemma states_begin: "begin_simulation A c Z rt b s = Some s' \<Longrightarrow> states_ok (s_heap s) \<Longrightarrow> states_ok (s_heap s')"
  unfolding begin_simulation_def set_state_def
  by (auto simp: bind_eq_Some_conv split: if_splits prod.splits dest!: states_Select intro: states_Undo intro!: states_upd)

lemma states_answer:
  "simulation_answer A c ne rt n b ret policy v s = Some s' \<Longrightarrow> states_ok (s_heap s) \<Longrightarrow> states_ok (s_heap s')"
proof -
  assume a: "simulation_answer A c ne rt n b ret policy v s = Some s'" and ok: "states_ok (s_heap s)"
  show ?thesis
  proof (cases "ret = 0")
    case False
    have "states_ok (set_state k_unexpanded n (s_heap s))" unfolding set_state_def by (rule states_upd [OF ok]) simp
    with a False show ?thesis by (auto simp: simulation_answer_def intro: states_Undo)
  next
    case True
    obtain len h1 where e: "Expand A c ne n b policy (s_heap s) = (len, h1)" by (cases "Expand A c ne n b policy (s_heap s)") auto
    with states_Expand [OF ok, of A c ne n b policy] have "states_ok h1" by simp
    with a True e show ?thesis by (auto simp: simulation_answer_def Let_def intro: states_Backup)
  qed
qed

lemma states_sim: "sim_step A c ne Z rt b s s' \<Longrightarrow> states_ok (s_heap s) \<Longrightarrow> states_ok (s_heap s')"
  by (erule sim_stepE) (auto intro: states_begin dest: states_answer)

end
