(* ===== verification/Mcts_Inv.thy ===== *)
theory Mcts_Inv
  imports Mcts_Record Mcts_States
begin

text \<open>
  The invariant of the engine: the game so far, the board it gives, a search tree for that
  board and the queue of trees to delete, which together own the memory exactly. Every command
  of the engine and every step of the search threads keeps it.
\<close>

subsection \<open>Changes the tree invariant does not see\<close>

lemma sim_inv_cong:
  assumes inv: "sim_inv c Z s0 k b rt e T s" and fl: "s_flying s' = s_flying s"
    and mem: "h_live (s_heap s') = h_live (s_heap s)" "h_next (s_heap s') = h_next (s_heap s)"
    and node: "\<And>a. fa (h_node (s_heap s') a) = fa (h_node (s_heap s) a) \<and> ch (h_node (s_heap s') a) = ch (h_node (s_heap s) a) \<and>
      ch_len (h_node (s_heap s') a) = ch_len (h_node (s_heap s) a) \<and>
      expand_state (h_node (s_heap s') a) = expand_state (h_node (s_heap s) a) \<and>
      node_size (h_node (s_heap s') a) = node_size (h_node (s_heap s) a) \<and>
      visit_count (h_node (s_heap s') a) = visit_count (h_node (s_heap s) a) \<and>
      virtual_loss_count (h_node (s_heap s') a) = virtual_loss_count (h_node (s_heap s) a)"
    and move: "\<And>a. a \<noteq> rt \<Longrightarrow> mv (s_heap s') a = mv (s_heap s) a"
  shows "sim_inv c Z s0 k b rt e T s'"
proof -
  let ?h = "s_heap s" and ?g = "s_heap s'"
  from inv obtain d where ok: "tree_ok ?h rt T d" and pl: "played Z s0 k b rt ?h"
    and fo: "flights_ok Z b rt T (s_flying s) ?h" and vl: "losses_ok rt e T (s_flying s) ?h"
    and sz: "sizes_ok T ?h" and vs: "visits_ok c Z b rt T ?h"
    unfolding sim_inv_def by auto
  have kids: "kids ?g = kids ?h" using node by (auto simp: kids_def)
  have seg: "seg ?g x p = seg ?h x p" for x p by (induction p arbitrary: x) (simp_all add: kids)
  have ok': "tree_ok ?g rt T d" using ok unfolding tree_ok_def kids by (simp add: mem node)
  have mvs: "map (mv ?g) p = map (mv ?h) p" if w: "seg ?h rt p" for p
  proof (rule map_cong [OF refl])
    fix x assume "x \<in> set p"
    then have "x \<noteq> rt" using seg_tree [OF ok tree_okD(2) [OF ok] w] by auto
    then show "mv ?g x = mv ?h x" by (rule move)
  qed
  have at: "at_node Z b rt ?g = at_node Z b rt ?h"
    by (intro ext) (simp add: at_node_def seg mvs cong: conj_cong)
  have "filter (\<lambda>f. on_way ?g a (fst f)) (s_flying s) = filter (\<lambda>f. on_way ?h a (fst f)) (s_flying s)" for a
    by (rule filter_cong) (use on_way_same [OF ok ok'] flights_in_tree [OF fo] seg in auto)
  then have "losses_ok rt e T (s_flying s) ?g" using vl by (simp add: losses_ok_def node)
  moreover have "visits_ok c Z b rt T ?g" using vs by (simp add: visits_ok_def at node kids)
  moreover have "flights_ok Z b rt T (s_flying s) ?g" using fo by (simp add: flights_ok_def at node)
  moreover have "played Z s0 k b rt ?g" using pl by (simp add: played_def seg mvs cong: imp_cong)
  moreover have "sizes_ok T ?g" using sz by (simp add: sizes_ok_def node kids)
  ultimately show ?thesis using ok' fl by (intro sim_invI [where h = ?g and fl = "s_flying s" and d = d]) simp_all
qed

lemma sim_inv_search: "sim_inv c Z s0 k b rt e T s \<Longrightarrow> s_heap s' = s_heap s \<Longrightarrow> s_flying s' = s_flying s \<Longrightarrow> sim_inv c Z s0 k b rt e T s'"
  unfolding sim_inv_def by simp

lemma sim_inv_config:
  "sim_inv c Z s0 k b rt e T s \<Longrightarrow> disable_double_pass_scoring c' = disable_double_pass_scoring c \<Longrightarrow> sim_inv c' Z s0 k b rt e T s"
  unfolding sim_inv_def visits_ok_def by simp

text \<open>The tree of a board \<open>b\<close> at move \<open>k\<close>, and the queue of old trees: together they own the memory.
  \<open>InitRoot\<close> backs up the root without a virtual loss before, so the root may be one short.\<close>

definition has_tree :: "'f MCTSConfig \<Rightarrow> zobrist \<Rightarrow> GoState \<Rightarrow> nat \<Rightarrow> GoState \<Rightarrow> addr set \<Rightarrow> 'f search \<Rightarrow> addr \<Rightarrow> addr list \<Rightarrow> bool" where
  "has_tree c Z s0 k b T s rt dq \<longleftrightarrow>
     (\<exists>v. sim_inv c Z s0 k b rt v T s \<and> (v = 0 \<or> v = - 1 \<and> expand_state (h_node (s_heap s) rt) = k_expanded)) \<and>
     forest (s_heap s) (h_live (s_heap s) - T) dq \<and> states_ok (s_heap s)"

lemma sim_inv_tree: "sim_inv c Z s0 k b rt v T s \<Longrightarrow> \<exists>d. tree_ok (s_heap s) rt T d"
  by (auto simp: sim_inv_def)

lemma has_treeE:
  assumes "has_tree c Z s0 k b T s rt dq"
  obtains v d where "sim_inv c Z s0 k b rt v T s" "v = 0 \<or> v = - 1 \<and> expand_state (h_node (s_heap s) rt) = k_expanded"
    "forest (s_heap s) (h_live (s_heap s) - T) dq" "tree_ok (s_heap s) rt T d" "states_ok (s_heap s)"
  using assms sim_inv_tree unfolding has_tree_def by blast

lemma has_treeI:
  "sim_inv c Z s0 k b rt v T s \<Longrightarrow> v = 0 \<or> v = - 1 \<and> expand_state (h_node (s_heap s) rt) = k_expanded \<Longrightarrow>
   forest (s_heap s) (h_live (s_heap s) - T) dq \<Longrightarrow> states_ok (s_heap s) \<Longrightarrow> has_tree c Z s0 k b T s rt dq"
  unfolding has_tree_def by blast

lemma has_tree_search:
  "has_tree c Z s0 k b T s rt dq \<Longrightarrow> s_heap s' = s_heap s \<Longrightarrow> s_flying s' = s_flying s \<Longrightarrow> has_tree c Z s0 k b T s' rt dq"
  using sim_inv_search unfolding has_tree_def by metis

lemma has_tree_config:
  "has_tree c Z s0 k b T s rt dq \<Longrightarrow> disable_double_pass_scoring c' = disable_double_pass_scoring c \<Longrightarrow> has_tree c' Z s0 k b T s rt dq"
  using sim_inv_config unfolding has_tree_def by metis

text \<open>Changes of the moves of the root and of the priors.\<close>

lemma has_tree_cong:
  assumes ht: "has_tree c Z s0 k b T s rt dq" and fl: "s_flying s' = s_flying s"
    and mem: "h_live (s_heap s') = h_live (s_heap s)" "h_next (s_heap s') = h_next (s_heap s)"
    and node: "\<And>a. \<exists>m q. (a = rt \<or> m = mv (s_heap s) a) \<and> (a \<in> T \<or> q = prior_prob (h_node (s_heap s) a)) \<and>
      h_node (s_heap s') a = (h_node (s_heap s) a)\<lparr>node_move := m, prior_prob := q\<rparr>"
  shows "has_tree c Z s0 k b T s' rt dq"
proof -
  from ht obtain v d where i: "sim_inv c Z s0 k b rt v T s" "v = 0 \<or> v = - 1 \<and> expand_state (h_node (s_heap s) rt) = k_expanded"
    "forest (s_heap s) (h_live (s_heap s) - T) dq" "tree_ok (s_heap s) rt T d" "states_ok (s_heap s)" by (rule has_treeE)
  have fields: "fa (h_node (s_heap s') a) = fa (h_node (s_heap s) a) \<and> ch (h_node (s_heap s') a) = ch (h_node (s_heap s) a) \<and>
      ch_len (h_node (s_heap s') a) = ch_len (h_node (s_heap s) a) \<and>
      expand_state (h_node (s_heap s') a) = expand_state (h_node (s_heap s) a) \<and>
      node_size (h_node (s_heap s') a) = node_size (h_node (s_heap s) a) \<and>
      visit_count (h_node (s_heap s') a) = visit_count (h_node (s_heap s) a) \<and>
      virtual_loss_count (h_node (s_heap s') a) = virtual_loss_count (h_node (s_heap s) a)" for a
    using node [of a] by auto
  have move: "mv (s_heap s') a = mv (s_heap s) a" if "a \<noteq> rt" for a using node [of a] that by auto
  have same: "h_node (s_heap s') a = h_node (s_heap s) a" if "a \<in> h_live (s_heap s) - T" for a
  proof -
    have "a \<noteq> rt" using that tree_okD(2) [OF i(4)] by auto
    with node [of a] that show ?thesis by auto
  qed
  have f: "forest (s_heap s') (h_live (s_heap s) - T) dq" by (rule forest_frame [OF i(3)]) (use same mem in auto)
  have st: "states_ok (s_heap s')" by (rule states_same [OF i(5)]) (use fields in blast)
  show ?thesis
    by (rule has_treeI [OF sim_inv_cong [OF i(1) fl mem fields move] _ _ st]) (use i(2) fields f mem in auto)
qed

subsection \<open>Changing the root\<close>

lemma change_root_fields [simp]:
  "m_config (change_root A n e) = m_config e" "m_pending_config (change_root A n e) = m_pending_config e"
  "m_board (change_root A n e) = m_board e" "m_is_searching (change_root A n e) = m_is_searching e"
  "m_num_moves (change_root A n e) = m_num_moves e" "m_moves_str (change_root A n e) = m_moves_str e"
  "s_flying (m_search (change_root A n e)) = s_flying (m_search e)"
  "s_running (m_search (change_root A n e)) = s_running (m_search e)"
  by (simp_all add: change_root_def set_heap_def split: prod.split)

lemma change_root_result:
  "m_root (change_root A n e) = fst (ChangeRoot A n (m_root e) (m_delete_queue e) (heap_of e))"
  "m_delete_queue (change_root A n e) = fst (snd (ChangeRoot A n (m_root e) (m_delete_queue e) (heap_of e)))"
  "heap_of (change_root A n e) = snd (snd (ChangeRoot A n (m_root e) (m_delete_queue e) (heap_of e)))"
  by (simp_all add: change_root_def set_heap_def split: prod.split)

text \<open>The engine's memory, apart from the game.\<close>

definition memory_ok :: "'f engine \<Rightarrow> bool" where
  "memory_ok e \<longleftrightarrow> (\<forall>a\<in>h_live (heap_of e). a < h_next (heap_of e)) \<and> 0 < h_next (heap_of e) \<and>
     (\<exists>T d. (m_root e = nullptr \<and> T = {} \<or> tree_ok (heap_of e) (m_root e) T d) \<and>
       forest (heap_of e) (h_live (heap_of e) - T) (m_delete_queue e)) \<and> states_ok (heap_of e)"

lemma memory_of_tree: "has_tree c Z s0 k b T (m_search e) (m_root e) (m_delete_queue e) \<Longrightarrow> memory_ok e"
proof (erule has_treeE)
  fix d assume f: "forest (heap_of e) (h_live (heap_of e) - T) (m_delete_queue e)" and ok: "tree_ok (heap_of e) (m_root e) T d"
    and st: "states_ok (heap_of e)"
  note K = tree_okD [OF ok]
  have "0 < h_next (heap_of e)" using K(2,4) K(5) [of "m_root e"] by auto
  with f ok st K(5) show "memory_ok e" unfolding memory_ok_def by blast
qed

lemma new_root:
  assumes "memory_ok e" and "s_flying (m_search e) = []" and "reachable Z s0 k H b"
  obtains T where "has_tree c Z s0 k b T (m_search (change_root A nullptr e)) (m_root (change_root A nullptr e))
      (m_delete_queue (change_root A nullptr e))"
    "expand_state (h_node (heap_of (change_root A nullptr e)) (m_root (change_root A nullptr e))) = k_unexpanded"
proof -
  from assms(1) obtain T d where m: "\<And>a. a \<in> h_live (heap_of e) \<Longrightarrow> a < h_next (heap_of e)" "0 < h_next (heap_of e)"
    "forest (heap_of e) (h_live (heap_of e) - T) (m_delete_queue e)"
    "m_root e = 0 \<and> T = {} \<or> tree_ok (heap_of e) (m_root e) T d" and st: "states_ok (heap_of e)" unfolding memory_ok_def by auto
  let ?e = "change_root A nullptr e"
  have s: "s_heap (m_search ?e) = snd (snd (ChangeRoot A 0 (m_root e) (m_delete_queue e) (heap_of e)))"
    "s_flying (m_search ?e) = []" using assms(2) by (simp_all add: change_root_result)
  note R = ChangeRoot_null [OF m assms(3) s]
  have rt: "m_root ?e = h_next (heap_of e)" using R(2) by (simp add: change_root_result)
  show thesis
    by (rule that [of "{h_next (heap_of e)}"])
      (use R rt states_ChangeRoot [OF st] in \<open>auto intro!: has_treeI simp: change_root_result\<close>)
qed

text \<open>A move goes down to its child, if there is one.\<close>

lemma next_root:
  assumes ht: "has_tree c Z s0 k b T (m_search e) (m_root e) (m_delete_queue e)" and fl: "s_flying (m_search e) = []"
    and m: "Move Z m b = Some (0, b')" and r: "reachable Z s0 (Suc k) H b'"
  obtains T' where "has_tree c Z s0 (Suc k) b' T' (m_search (change_root A (FindChild (heap_of e) (m_root e) m) e))
      (m_root (change_root A (FindChild (heap_of e) (m_root e) m) e))
      (m_delete_queue (change_root A (FindChild (heap_of e) (m_root e) m) e))"
proof -
  let ?h = "heap_of e" and ?rt = "m_root e" and ?c = "FindChild (heap_of e) (m_root e) m"
  consider "?c = nullptr" | "?c \<in> set (kids ?h ?rt)" "mv ?h ?c = m" using FindChild_spec [of ?h ?rt m] by auto
  then show thesis
  proof cases
    case 1
    from new_root [OF memory_of_tree [OF ht] fl r, of c A] 1 that show thesis by metis
  next
    case 2
    from ht obtain v d where i: "sim_inv c Z s0 k b ?rt v T (m_search e)" "forest ?h (h_live ?h - T) (m_delete_queue e)"
      "tree_ok ?h ?rt T d" "states_ok ?h" by (rule has_treeE)
    note K = tree_okD [OF i(3)]
    have c: "?c \<in> T" using K(8) [OF K(2) 2(1)] by simp
    have fresh: "h_next ?h \<notin> T" using K(4,5) by blast
    have nz: "?c \<noteq> 0" "?c \<noteq> h_next ?h" "?rt \<noteq> 0" using c fresh K(2,3) by metis+
    have kc: "?c \<notin> set (kids ?h ?c)" "h_next ?h \<notin> set (kids ?h ?c)" using K(8) [OF c] fresh by fastforce+
    from ChangeRoot_child [OF nz(1,2) kc nz(3)] obtain h' where
      h': "ChangeRoot A ?c ?rt (m_delete_queue e) ?h = (h_next ?h, m_delete_queue e @ [?rt], h')"
      "moved_down ?c (h_next ?h) ?h h'" by blast
    let ?e = "change_root A ?c e"
    have e: "m_root ?e = h_next ?h" "m_delete_queue ?e = m_delete_queue e @ [?rt]" "heap_of ?e = h'"
      using h'(1) by (simp_all add: change_root_result)
    have fl': "s_flying (m_search ?e) = []" using fl by simp
    have "sim_inv c Z s0 (Suc k) b' (h_next ?h) 0 (insert (h_next ?h) (desc ?h ?c - {?c})) (m_search ?e)"
      by (rule moved_inv [OF i(1) fl h'(2) 2(1) _ e(3) fl']) (use 2(2) m in simp)
    moreover have "forest h' (h_live h' - insert (h_next ?h) (desc ?h ?c - {?c})) (m_delete_queue e @ [?rt])"
      by (rule moved_forest [OF h'(2) i(3) 2(1) i(2)])
    moreover have "states_ok h'" using states_ChangeRoot [OF i(4), of A ?c ?rt "m_delete_queue e"] h'(1) by simp
    ultimately show thesis by (intro that has_treeI) (simp_all only: e, simp_all)
  qed
qed

subsection \<open>Evaluating the root\<close>

lemma root_loop_returns:
  assumes inv: "sim_inv c Z (GoState_new sk raw) k b rt v T s" and fl: "s_flying s = []" and ne: "permutes_moves ne"
    and un: "expand_state (h_node (s_heap s) rt) = k_unexpanded"
    and dp: "\<not> (\<not> disable_double_pass_scoring c \<and> is_double_pass b)" and k: "k \<le> 253" and ans: "fst (answers i) = 0"
  shows "j \<le> i \<Longrightarrow> \<exists>h2 T2. root_loop A c ne rt b answers j (s_heap s) = Some h2 \<and> frame T (s_heap s) T2 h2 \<and>
    expand_state (h_node h2 rt) = k_expanded \<and>
    (\<forall>s'. s_heap s' = h2 \<longrightarrow> s_flying s' = [] \<longrightarrow> sim_inv c Z (GoState_new sk raw) k b rt (v - 1) T2 s')"
proof (induction "i - j" arbitrary: j)
  case 0
  obtain policy w where p: "answers j = (0, policy, w)" using ans 0 by (cases "answers j") auto
  obtain h1 N h2 where h: "Expand A c ne rt b policy (s_heap s) = (int (card N), h1)" "Backup A rt w (int (card N)) h1 = Some h2"
    "frame T (s_heap s) (T \<union> N) h2" "expand_state (h_node h2 rt) = k_expanded"
    "\<And>s'. s_heap s' = h2 \<Longrightarrow> s_flying s' = [] \<Longrightarrow> sim_inv c Z (GoState_new sk raw) k b rt (v - 1) (T \<union> N) s'"
    by (rule root_expanded [OF inv fl ne un dp refl k]) (rule that)
  have "root_loop A c ne rt b answers j (s_heap s) = Some h2"
    using un p h(1,2,4) by (simp add: root_loop.simps [of A c ne rt b answers j] root_loop.simps [of A c ne rt b answers "Suc j"])
  with h(3-5) show ?case by blast
next
  case (Suc n)
  show ?case
  proof (cases "fst (answers j) = 0")
    case True
    then obtain policy w where p: "answers j = (0, policy, w)" by (cases "answers j") auto
    obtain h1 N h2 where h: "Expand A c ne rt b policy (s_heap s) = (int (card N), h1)" "Backup A rt w (int (card N)) h1 = Some h2"
      "frame T (s_heap s) (T \<union> N) h2" "expand_state (h_node h2 rt) = k_expanded"
      "\<And>s'. s_heap s' = h2 \<Longrightarrow> s_flying s' = [] \<Longrightarrow> sim_inv c Z (GoState_new sk raw) k b rt (v - 1) (T \<union> N) s'"
      by (rule root_expanded [OF inv fl ne un dp refl k]) (rule that)
    have "root_loop A c ne rt b answers j (s_heap s) = Some h2"
      using un p h(1,2,4) by (simp add: root_loop.simps [of A c ne rt b answers j] root_loop.simps [of A c ne rt b answers "Suc j"])
    with h(3-5) show ?thesis by blast
  next
    case False
    then have "root_loop A c ne rt b answers j (s_heap s) = root_loop A c ne rt b answers (Suc j) (s_heap s)"
      using un by (cases "answers j") (simp add: root_loop.simps [of A c ne rt b answers j])
    with Suc.hyps(1) [of "Suc j"] Suc.hyps(2) show ?thesis by simp
  qed
qed

text \<open>It waits for an answer.\<close>

lemma root_loop_answer:
  assumes "root_loop A c ne rt b answers j h = Some h'" and "expand_state (h_node h rt) = k_unexpanded"
  shows "\<exists>i\<ge>j. fst (answers i) = 0"
proof -
  let ?P = "\<lambda>A c ne rt b answers j h h'. expand_state (h_node h rt) = k_unexpanded \<longrightarrow> (\<exists>i\<ge>j. fst (answers i) = (0::int))"
  have "?P A c ne rt b answers j h h'"
  proof (rule root_loop.raw_induct [where P = ?P, OF _ assms(1)])
    fix loop A c ne rt b answers j h h'
    assume IH: "\<And>A c ne rt b answers j h h'. loop A c ne rt b answers j h = Some h' \<Longrightarrow> ?P A c ne rt b answers j h h'"
      and eq: "(if expand_state (h_node h rt) = k_unexpanded then case answers j of (ret, policy, v) \<Rightarrow>
        if ret \<noteq> 0 then loop A c ne rt b answers (Suc j) h
        else case Expand A c ne rt b policy h of (len, h1) \<Rightarrow> Backup A rt v len h1 \<bind> loop A c ne rt b answers (Suc j)
        else Some h) = Some h'"
    show "?P A c ne rt b answers j h h'"
    proof (cases "fst (answers j) = 0")
      case False
      show ?thesis
      proof
        assume u: "expand_state (h_node h rt) = k_unexpanded"
        with eq False have "loop A c ne rt b answers (Suc j) h = Some h'" by (auto split: prod.splits)
        from IH [OF this] u show "\<exists>i\<ge>j. fst (answers i) = 0" by (auto intro: Suc_leD)
      qed
    qed auto
  qed
  with assms(2) show ?thesis by blast
qed

text \<open>In a position that ends the game by a double pass it waits for ever.\<close>

lemma root_loop_hangs:
  assumes dp: "\<not> disable_double_pass_scoring c" "is_double_pass b" and un: "expand_state (h_node h rt) = k_unexpanded"
  shows "root_loop A c ne rt b answers j h = None"
proof -
  let ?P = "\<lambda>A c ne rt b answers j h h'. \<not> disable_double_pass_scoring c \<and> is_double_pass b \<longrightarrow>
    expand_state (h_node h rt) \<noteq> k_unexpanded"
  have "?P A c ne rt b answers j h h'" if "root_loop A c ne rt b answers j h = Some h'" for h'
  proof (rule root_loop.raw_induct [where P = ?P, OF _ that])
    fix loop A c ne rt b answers j h h'
    assume IH: "\<And>A c ne rt b answers j h h'. loop A c ne rt b answers j h = Some h' \<Longrightarrow> ?P A c ne rt b answers j h h'"
      and eq: "(if expand_state (h_node h rt) = k_unexpanded then case answers j of (ret, policy, v) \<Rightarrow>
        if ret \<noteq> 0 then loop A c ne rt b answers (Suc j) h
        else case Expand A c ne rt b policy h of (len, h1) \<Rightarrow> Backup A rt v len h1 \<bind> loop A c ne rt b answers (Suc j)
        else Some h) = Some h'"
    show "?P A c ne rt b answers j h h'"
    proof (intro impI notI)
      assume d: "\<not> disable_double_pass_scoring c \<and> is_double_pass b" and u: "expand_state (h_node h rt) = k_unexpanded"
      obtain ret policy v where a: "answers j = (ret, policy, v)" by (cases "answers j") auto
      show False
      proof (cases "ret = 0")
        case True
        let ?h = "upd rt (\<lambda>x. x\<lparr>expand_state := k_unexpanded\<rparr>) h"
        from eq d u a True obtain h2 where h2: "Backup A rt v 0 ?h = Some h2" "loop A c ne rt b answers (Suc j) h2 = Some h'"
          by (auto simp: Expand_def bind_eq_Some_conv)
        from backup_state [OF h2(1) [unfolded Backup_def]] have "expand_state (h_node h2 rt) = k_unexpanded" by simp
        with IH [OF h2(2)] d show False by blast
      next
        case False
        with eq u a have "loop A c ne rt b answers (Suc j) h = Some h'" by simp
        with IH [OF this] d u show False by blast
      qed
    qed
  qed
  with dp un show ?thesis by (meson not_None_eq)
qed

text \<open>The noise changes priors only.\<close>

definition priors_only :: "addr set \<Rightarrow> 'f heap \<Rightarrow> 'f heap \<Rightarrow> bool" where
  "priors_only S h h' \<longleftrightarrow> h_live h' = h_live h \<and> h_next h' = h_next h \<and>
     (\<forall>a. \<exists>q. (a \<in> S \<or> q = prior_prob (h_node h a)) \<and> h_node h' a = (h_node h a)\<lparr>prior_prob := q\<rparr>)"

lemma priors_refl [simp]: "priors_only S h h"
  unfolding priors_only_def by (auto intro!: exI [of _ "prior_prob (h_node h _)"])

lemma priors_trans:
  assumes "priors_only S h h1" and "priors_only S h1 h2"
  shows "priors_only S h h2"
proof -
  have "\<exists>q. (a \<in> S \<or> q = prior_prob (h_node h a)) \<and> h_node h2 a = (h_node h a)\<lparr>prior_prob := q\<rparr>" for a
  proof -
    from assms obtain p q where "a \<in> S \<or> p = prior_prob (h_node h a)" "h_node h1 a = (h_node h a)\<lparr>prior_prob := p\<rparr>"
      "a \<in> S \<or> q = prior_prob (h_node h1 a)" "h_node h2 a = (h_node h1 a)\<lparr>prior_prob := q\<rparr>"
      unfolding priors_only_def by meson
    then show ?thesis by (intro exI [of _ q]) auto
  qed
  with assms show ?thesis unfolding priors_only_def by simp
qed

lemma priors_upd: "n \<in> S \<Longrightarrow> priors_only S h (upd n (\<lambda>x. x\<lparr>prior_prob := f x\<rparr>) h)"
  unfolding priors_only_def
proof (intro conjI allI)
  fix a assume "n \<in> S"
  then show "\<exists>q. (a \<in> S \<or> q = prior_prob (h_node h a)) \<and>
      h_node (upd n (\<lambda>x. x\<lparr>prior_prob := f x\<rparr>) h) a = (h_node h a)\<lparr>prior_prob := q\<rparr>"
    by (intro exI [of _ "if a = n then f (h_node h a) else prior_prob (h_node h a)"]) simp
qed simp_all

lemma priors_fold: "(\<And>x g. x \<in> set xs \<Longrightarrow> priors_only S g (step x g)) \<Longrightarrow> priors_only S h (fold step xs h)"
proof (induction xs arbitrary: h)
  case (Cons x xs)
  have "priors_only S h (step x h)" "priors_only S (step x h) (fold step xs (step x h))" using Cons by auto
  then show ?case using priors_trans by fastforce
qed simp

lemma noise_priors: "set (kids h rt) \<subseteq> T \<Longrightarrow> priors_only T h (add_noise A c noise rt h)"
  unfolding add_noise_def Let_def
proof (rule priors_fold)
  fix i g assume "set (kids h rt) \<subseteq> T" "i \<in> set [0..<nat (ch_len (h_node h rt))]"
  then have "kids h rt ! i \<in> T" by (auto intro: nth_mem)
  then show "priors_only T g (upd (kids h rt ! i) (\<lambda>x. x\<lparr>prior_prob :=
      f_add A (f_mul A (f_sub A (f_lit A 1) (dirichlet_noise_ratio c)) (prior_prob x))
        (f_div A (f_mul A (dirichlet_noise_ratio c) (noise i))
          (accumulate A (map noise [0..<nat (ch_len (h_node h rt))]) (f_lit A 0)))\<rparr>) g)" by (rule priors_upd)
qed

lemma damp_priors: "set (kids h rt) \<subseteq> T \<Longrightarrow> priors_only T h (damp_pass A rt h)"
  unfolding damp_pass_def by (rule priors_fold) (auto intro: priors_upd)

lemma priors_fields:
  assumes "priors_only S h h'"
  shows "kids h' a = kids h a" "expand_state (h_node h' a) = expand_state (h_node h a)" "mv h' a = mv h a"
    "visit_count (h_node h' a) = visit_count (h_node h a)"
proof -
  from assms obtain q where "h_node h' a = (h_node h a)\<lparr>prior_prob := q\<rparr>" unfolding priors_only_def by blast
  then show "kids h' a = kids h a" "expand_state (h_node h' a) = expand_state (h_node h a)" "mv h' a = mv h a"
    "visit_count (h_node h' a) = visit_count (h_node h a)" by (simp_all add: kids_def)
qed

lemma has_tree_priors:
  assumes "has_tree c Z s0 k b T s rt dq" and "priors_only T (s_heap s) (s_heap s')" and "s_flying s' = s_flying s"
  shows "has_tree c Z s0 k b T s' rt dq"
proof (rule has_tree_cong [OF assms(1,3)])
  fix a
  from assms(2) obtain q where "a \<in> T \<or> q = prior_prob (h_node (s_heap s) a)"
    "h_node (s_heap s') a = (h_node (s_heap s) a)\<lparr>prior_prob := q\<rparr>" unfolding priors_only_def by blast
  then show "\<exists>m q. (a = rt \<or> m = mv (s_heap s) a) \<and> (a \<in> T \<or> q = prior_prob (h_node (s_heap s) a)) \<and>
      h_node (s_heap s') a = (h_node (s_heap s) a)\<lparr>node_move := m, prior_prob := q\<rparr>"
    by (intro exI [of _ "mv (s_heap s) a"] exI [of _ q]) simp
qed (use assms(2) in \<open>simp_all add: priors_only_def\<close>)

text \<open>The game goes on, so that a search can start.\<close>

definition not_over :: "'f MCTSConfig \<Rightarrow> GoState \<Rightarrow> bool" where
  "not_over c b \<longleftrightarrow> disable_double_pass_scoring c \<or> \<not> is_double_pass b"

lemma root_reachable: "has_tree c Z s0 k b T s rt dq \<Longrightarrow> \<exists>H. reachable Z s0 k H b"
proof (erule has_treeE)
  fix v assume "sim_inv c Z s0 k b rt v T s"
  then have "played Z s0 k b rt (s_heap s)" by (simp add: sim_inv_def)
  from this [unfolded played_def, rule_format, of "[]"] show "\<exists>H. reachable Z s0 k H b" by simp
qed

lemma states_root_loop:
  assumes "root_loop A c ne rt b answers j h = Some h'" and "states_ok h"
  shows "states_ok h'"
proof -
  let ?P = "\<lambda>A c ne rt b answers j h h'. states_ok h \<longrightarrow> states_ok h'"
  have "?P A c ne rt b answers j h h'"
  proof (rule root_loop.raw_induct [where P = ?P, OF _ assms(1)])
    fix loop A c ne rt b answers j h h'
    assume IH: "\<And>A c ne rt b answers j h h'. loop A c ne rt b answers j h = Some h' \<Longrightarrow> ?P A c ne rt b answers j h h'"
      and eq: "(if expand_state (h_node h rt) = k_unexpanded then case answers j of (ret, policy, v) \<Rightarrow>
        if ret \<noteq> 0 then loop A c ne rt b answers (Suc j) h
        else case Expand A c ne rt b policy h of (len, h1) \<Rightarrow> Backup A rt v len h1 \<bind> loop A c ne rt b answers (Suc j)
        else Some h) = Some h'"
    show "states_ok h \<longrightarrow> states_ok h'"
    proof
      assume ok: "states_ok h"
      obtain ret policy v where a: "answers j = (ret, policy, v)" by (cases "answers j") auto
      obtain len h1 where e: "Expand A c ne rt b policy h = (len, h1)" by (cases "Expand A c ne rt b policy h") auto
      with states_Expand [OF ok, of A c ne rt b policy] have ok1: "states_ok h1" by simp
      show "states_ok h'"
      proof (cases "expand_state (h_node h rt) = k_unexpanded")
        case False
        with eq ok show ?thesis by simp
      next
        case True
        show ?thesis
        proof (cases "ret = 0")
          case False
          with eq True a have "loop A c ne rt b answers (Suc j) h = Some h'" by simp
          from IH [OF this] ok show ?thesis by blast
        next
          case ret: True
          from eq True a e ret obtain h2 where "Backup A rt v len h1 = Some h2" "loop A c ne rt b answers (Suc j) h2 = Some h'"
            by (simp add: bind_eq_Some_conv) blast
          from IH [OF this(2)] states_Backup [OF this(1) ok1] show ?thesis by blast
        qed
      qed
    qed
  qed
  with assms(2) show ?thesis by blast
qed

lemma root_loop_ok:
  assumes ht: "has_tree c Z (GoState_new sk raw) k b T s rt dq" and fl: "s_flying s = []" and ne: "permutes_moves ne" and k: "k \<le> 253"
    and go: "not_over c b \<and> fst (answers i) = 0 \<or> expand_state (h_node (s_heap s) rt) = k_expanded"
  obtains h T' where "root_loop A c ne rt b answers 0 (s_heap s) = Some h" "expand_state (h_node h rt) = k_expanded"
    "\<And>s'. s_heap s' = h \<Longrightarrow> s_flying s' = [] \<Longrightarrow> has_tree c Z (GoState_new sk raw) k b T' s' rt dq"
proof (cases "expand_state (h_node (s_heap s) rt) = k_unexpanded")
  case True
  with go have go: "\<not> (\<not> disable_double_pass_scoring c \<and> is_double_pass b)" "fst (answers i) = 0" by (auto simp: not_over_def)
  from ht obtain v where v: "sim_inv c Z (GoState_new sk raw) k b rt v T s" "forest (s_heap s) (h_live (s_heap s) - T) dq"
    "v = 0 \<or> v = - 1 \<and> expand_state (h_node (s_heap s) rt) = k_expanded" "states_ok (s_heap s)" by (rule has_treeE)
  with True have v0: "v = 0" by simp
  from root_loop_returns [where j = 0 and answers = answers and A = A, OF v(1) fl ne True go(1) k go(2)] obtain h T' where h:
    "root_loop A c ne rt b answers 0 (s_heap s) = Some h" "frame T (s_heap s) T' h" "expand_state (h_node h rt) = k_expanded"
    "\<And>s'. s_heap s' = h \<Longrightarrow> s_flying s' = [] \<Longrightarrow> sim_inv c Z (GoState_new sk raw) k b rt (v - 1) T' s'" by blast
  show thesis
    by (rule that [OF h(1,3)]) (use h(3,4) v0 forest_step [OF h(2) v(2)] states_root_loop [OF h(1) v(4)] in \<open>auto intro!: has_treeI\<close>)
next
  case False
  from ht obtain v d where v: "sim_inv c Z (GoState_new sk raw) k b rt v T s" "tree_ok (s_heap s) rt T d" "states_ok (s_heap s)"
    by (rule has_treeE)
  with fl have "expand_state (h_node (s_heap s) rt) \<noteq> k_expanding"
    using tree_okD(2) [OF v(2)] by (auto simp: sim_inv_def flights_ok_def)
  show thesis
  proof (rule that)
    show "root_loop A c ne rt b answers 0 (s_heap s) = Some (s_heap s)" using False by (simp add: root_loop.simps [of A c ne rt b answers 0])
    show "expand_state (h_node (s_heap s) rt) = k_expanded" using \<open>_ \<noteq> k_expanding\<close> False v(3) unfolding states_ok_def by blast
  qed (use has_tree_search [OF ht] fl in simp)
qed

lemma InitRoot_ok:
  assumes ht: "has_tree (m_config e) Z (GoState_new sk raw) k (m_board e) T (m_search e) (m_root e) (m_delete_queue e)"
    and fl: "s_flying (m_search e) = []" and ne: "permutes_moves ne" and k: "k \<le> 253"
    and go: "not_over (m_config e) (m_board e) \<and> fst (answers i) = 0 \<or> expand_state (h_node (heap_of e) (m_root e)) = k_expanded"
  obtains h T' where "InitRoot A ne answers noise e = Some (set_heap h e)" "expand_state (h_node h (m_root e)) = k_expanded"
    "\<And>s'. s_heap s' = h \<Longrightarrow> s_flying s' = [] \<Longrightarrow>
       has_tree (m_config e) Z (GoState_new sk raw) k (m_board e) T' s' (m_root e) (m_delete_queue e)"
proof -
  let ?c = "m_config e" and ?rt = "m_root e" and ?b = "m_board e"
  obtain h T' where h: "root_loop A ?c ne ?rt ?b answers 0 (heap_of e) = Some h" "expand_state (h_node h ?rt) = k_expanded"
    "\<And>s'. s_heap s' = h \<Longrightarrow> s_flying s' = [] \<Longrightarrow> has_tree ?c Z (GoState_new sk raw) k ?b T' s' ?rt (m_delete_queue e)"
    by (rule root_loop_ok [where answers = answers, OF ht fl ne k go]) (rule that)
  let ?s = "(m_search e)\<lparr>s_heap := h\<rparr>"
  have t: "has_tree ?c Z (GoState_new sk raw) k ?b T' ?s ?rt (m_delete_queue e)" by (rule h(3)) (simp_all add: fl)
  then obtain d where ok: "tree_ok h ?rt T' d" by (auto elim: has_treeE)
  note K = tree_okD [OF ok]
  have rt: "?rt \<noteq> nullptr" using K(2,3) by (metis nullptr_def)
  have kids: "set (kids h ?rt) \<subseteq> T'" using K(8) [OF K(2)] by blast
  have len: "\<not> ch_len (h_node h ?rt) > 362" using K(10) [OF K(2)] by simp
  obtain H where "reachable Z (GoState_new sk raw) k H ?b" using root_reachable [OF ht] by blast
  from reachable_eval(2) [OF this] k obtain d where d: "dumb_pass ?b = Some d" by (auto simp: dumb_pass_def)
  have noisy: "priors_only T' h (add_noise A ?c noise ?rt h)" by (rule noise_priors [OF kids])
  have damped: "priors_only T' h (damp_pass A ?rt (add_noise A ?c noise ?rt h))"
    by (rule priors_trans [OF noisy damp_priors]) (use kids priors_fields(1) [OF noisy] in simp)
  note goal = that
  have fin: thesis if i: "InitRoot A ne answers noise e = Some (set_heap g e)" and p: "priors_only T' h g" for g
  proof (rule goal [OF i])
    show "expand_state (h_node g ?rt) = k_expanded" using h(2) priors_fields(2) [OF p] by simp
    fix s' :: "'a search"
    assume "s_heap s' = g" "s_flying s' = []"
    with has_tree_priors [OF t, of s'] p fl show "has_tree ?c Z (GoState_new sk raw) k ?b T' s' ?rt (m_delete_queue e)" by simp
  qed
  show thesis
  proof (cases "enable_dirichlet_noise ?c")
    case False
    then show thesis by (intro fin [of h]) (use rt h(1) in \<open>simp_all add: InitRoot_def Let_def\<close>)
  next
    case True
    let ?n = "add_noise A ?c noise ?rt h"
    show thesis
    proof (cases "d \<and> f_lt A (node_value (h_node ?n ?rt)) (f_lit A (1/2)) \<and> \<not> disable_double_pass_scoring ?c")
      case dd: True
      show thesis by (rule fin [OF _ damped]) (use True dd rt h(1) len d in \<open>simp add: InitRoot_def Let_def\<close>)
    next
      case dd: False
      have "InitRoot A ne answers noise e = Some (set_heap ?n e)"
        using True dd rt h(1) len d by (simp only: InitRoot_def Let_def if_True if_False Option.bind.bind_lunit simp_thms)
      then show thesis by (rule fin [OF _ noisy])
    qed
  qed
qed

lemma InitRoot_go:
  assumes "InitRoot A ne answers noise e = Some e'" and "expand_state (h_node (heap_of e) (m_root e)) = k_unexpanded"
  shows "not_over (m_config e) (m_board e) \<and> (\<exists>i. fst (answers i) = 0)"
proof -
  from assms(1) obtain h where h: "root_loop A (m_config e) ne (m_root e) (m_board e) answers 0 (heap_of e) = Some h"
    by (auto simp: InitRoot_def Let_def bind_eq_Some_conv split: if_splits)
  with root_loop_hangs [of "m_config e" "m_board e" "heap_of e" "m_root e" A ne answers 0] assms(2) root_loop_answer [OF h assms(2)]
  show ?thesis unfolding not_over_def by auto
qed

end
