(* ===== verification/Mcts_Commands.thy ===== *)
theory Mcts_Commands
  imports Mcts_Inv
begin

text \<open>
  The commands of the engine keep its invariant: after the moves \<open>hist\<close> the board is the board of
  the game, the search tree belongs to it, and every node in memory is in the tree or waits to be
  deleted.
\<close>

subsection \<open>The invariant\<close>

abbreviation start_board :: "'f MCTSConfig \<Rightarrow> GoState \<Rightarrow> GoState" where
  "start_board c raw \<equiv> GoState_new (\<not> disable_positional_superko c) raw"

text \<open>A configuration may be replaced during the game; the rules of the game stay.\<close>

definition same_rules :: "'f MCTSConfig \<Rightarrow> 'f MCTSConfig \<Rightarrow> bool" where
  "same_rules c c' \<longleftrightarrow> disable_double_pass_scoring c' = disable_double_pass_scoring c \<and>
     disable_positional_superko c' = disable_positional_superko c"

definition engine_ok :: "zobrist \<Rightarrow> GoState \<Rightarrow> GoCoordId list \<Rightarrow> addr set \<Rightarrow> 'f engine \<Rightarrow> bool" where
  "engine_ok Z raw hist T e \<longleftrightarrow> (\<forall>m\<in>set hist. playable m) \<and>
     play_moves Z hist (start_board (m_config e) raw) = Some (m_board e) \<and>
     m_num_moves e = int (length hist) \<and> m_moves_str e = moves_str hist \<and>
     has_tree (m_config e) Z (start_board (m_config e) raw) (length hist) (m_board e) T (m_search e) (m_root e) (m_delete_queue e) \<and>
     (m_is_searching e \<longrightarrow> expand_state (h_node (heap_of e) (m_root e)) = k_expanded) \<and>
     (\<not> m_is_searching e \<longrightarrow> s_flying (m_search e) = [] \<and> \<not> s_running (m_search e)) \<and>
     (\<forall>c. m_pending_config e = Some c \<longrightarrow> same_rules (m_config e) c)"

lemma engine_okD:
  assumes "engine_ok Z raw hist T e"
  shows "\<forall>m\<in>set hist. playable m" "play_moves Z hist (start_board (m_config e) raw) = Some (m_board e)"
    "m_num_moves e = int (length hist)" "m_moves_str e = moves_str hist"
    "has_tree (m_config e) Z (start_board (m_config e) raw) (length hist) (m_board e) T (m_search e) (m_root e) (m_delete_queue e)"
    "m_is_searching e \<Longrightarrow> expand_state (h_node (heap_of e) (m_root e)) = k_expanded"
    "\<not> m_is_searching e \<Longrightarrow> s_flying (m_search e) = []" "\<not> m_is_searching e \<Longrightarrow> \<not> s_running (m_search e)"
    "\<And>c. m_pending_config e = Some c \<Longrightarrow> same_rules (m_config e) c"
  using assms unfolding engine_ok_def by blast+

lemma engine_okI:
  assumes "\<forall>m\<in>set hist. playable m" "play_moves Z hist (start_board (m_config e) raw) = Some (m_board e)"
    "m_num_moves e = int (length hist)" "m_moves_str e = moves_str hist"
    "has_tree (m_config e) Z (start_board (m_config e) raw) (length hist) (m_board e) T (m_search e) (m_root e) (m_delete_queue e)"
    "m_is_searching e \<Longrightarrow> expand_state (h_node (heap_of e) (m_root e)) = k_expanded"
    "\<not> m_is_searching e \<Longrightarrow> s_flying (m_search e) = [] \<and> \<not> s_running (m_search e)"
    "\<And>c. m_pending_config e = Some c \<Longrightarrow> same_rules (m_config e) c"
  shows "engine_ok Z raw hist T e"
  unfolding engine_ok_def using assms by blast

text \<open>What the invariant does not read.\<close>

lemma engine_ok_other:
  assumes "engine_ok Z raw hist T e" and "m_config e' = m_config e" "m_board e' = m_board e" "m_num_moves e' = m_num_moves e"
    "m_moves_str e' = m_moves_str e" "m_root e' = m_root e" "m_delete_queue e' = m_delete_queue e"
    "m_is_searching e' = m_is_searching e" "m_pending_config e' = m_pending_config e" "heap_of e' = heap_of e"
    "s_flying (m_search e') = s_flying (m_search e)" "s_running (m_search e') = s_running (m_search e)"
  shows "engine_ok Z raw hist T e'"
  using assms has_tree_search [of _ _ _ _ _ _ "m_search e" _ _ "m_search e'"] unfolding engine_ok_def by simp

lemma ensure_clock_ok: "engine_ok Z raw hist T e \<Longrightarrow> engine_ok Z raw hist T (ensure_clock A now e)"
  by (erule engine_ok_other) (simp_all add: ensure_clock_def Let_def)

lemma ensure_clock_fields [simp]:
  "m_config (ensure_clock A now e) = m_config e" "m_board (ensure_clock A now e) = m_board e"
  "m_search (ensure_clock A now e) = m_search e" "m_gen_passes (ensure_clock A now e) = m_gen_passes e"
  "m_pending_config (ensure_clock A now e) = m_pending_config e" "m_num_moves (ensure_clock A now e) = m_num_moves e"
  "m_is_searching (ensure_clock A now e) = m_is_searching e" "m_root (ensure_clock A now e) = m_root e"
  by (simp_all add: ensure_clock_def Let_def)

lemma engine_reachable: "engine_ok Z raw hist T e \<Longrightarrow> \<exists>H. reachable Z (start_board (m_config e) raw) (length hist) H (m_board e)"
  using root_reachable engine_okD(5) by blast

subsection \<open>Starting and stopping\<close>

lemma SearchPause_ok:
  assumes ok: "engine_ok Z raw hist T e" and fl: "s_flying (m_search e) = []"
  shows "engine_ok Z raw hist T (SearchPause e)" "\<not> m_is_searching (SearchPause e)"
proof -
  have "has_tree (m_config e) Z (start_board (m_config e) raw) (length hist) (m_board e) T ((m_search e)\<lparr>s_running := False\<rparr>) (m_root e) (m_delete_queue e)"
    by (rule has_tree_search [OF engine_okD(5) [OF ok]]) simp_all
  with engine_okD [OF ok] fl show "engine_ok Z raw hist T (SearchPause e)"
    by (cases "m_is_searching e") (auto intro!: engine_okI simp: SearchPause_def)
qed (simp add: SearchPause_def)

lemma SearchPause_fields [simp]:
  "m_config (SearchPause e) = m_config e" "m_board (SearchPause e) = m_board e" "m_root (SearchPause e) = m_root e"
  "heap_of (SearchPause e) = heap_of e" "s_flying (m_search (SearchPause e)) = s_flying (m_search e)"
  "m_num_moves (SearchPause e) = m_num_moves e" "m_pending_config (SearchPause e) = m_pending_config e"
  "m_gen_passes (SearchPause e) = m_gen_passes e" "m_delete_queue (SearchPause e) = m_delete_queue e"
  "m_moves_str (SearchPause e) = m_moves_str e"
  by (simp_all add: SearchPause_def)

text \<open>The search of the current position can start: it has been expanded already, or the game goes
  on and an evaluation succeeds.\<close>

definition can_search :: "(nat \<Rightarrow> int \<times> 'f list \<times> 'f) \<Rightarrow> 'f engine \<Rightarrow> bool" where
  "can_search answers e \<longleftrightarrow> m_is_searching e \<or> not_over (m_config e) (m_board e) \<and> (\<exists>i. fst (answers i) = 0) \<or>
     expand_state (h_node (heap_of e) (m_root e)) = k_expanded \<and> \<not> clear_search_tree_per_move (m_config e)"

lemma resume_ok:
  assumes ok: "engine_ok Z raw hist T e" and ne: "permutes_moves ne" and k: "length hist \<le> 253" and go: "can_search answers e"
  obtains e' T' where "SearchResume A ne answers noise now e = Some e'" "engine_ok Z raw hist T' e'" "m_is_searching e'"
    "m_config e' = m_config e" "m_board e' = m_board e"
proof (cases "m_is_searching e")
  case True
  then show thesis using that [of e T] ok by (simp add: SearchResume_def)
next
  case False
  note D = engine_okD [OF ok]
  define e1 where "e1 = e\<lparr>m_search := (m_search e)\<lparr>s_counter := 0\<rparr>, m_search_timer := Timer_Reset now (m_search_timer e)\<rparr>"
  have ok1: "engine_ok Z raw hist T e1" by (rule engine_ok_other [OF ok]) (simp_all add: e1_def)
  define e2 where "e2 = (if clear_search_tree_per_move (m_config e1) then change_root A nullptr e1 else e1)"
  have same: "m_config e2 = m_config e" "m_board e2 = m_board e" "m_num_moves e2 = m_num_moves e" "m_moves_str e2 = m_moves_str e"
    "m_pending_config e2 = m_pending_config e" "s_flying (m_search e2) = []" "m_is_searching e2 = False"
    using D(7) False by (simp_all add: e2_def e1_def)
  obtain H where H: "reachable Z (start_board (m_config e) raw) (length hist) H (m_board e)" using engine_reachable [OF ok] by blast
  obtain T2 where t2: "has_tree (m_config e2) Z (start_board (m_config e) raw) (length hist) (m_board e2) T2 (m_search e2) (m_root e2) (m_delete_queue e2)"
  proof (cases "clear_search_tree_per_move (m_config e1)")
    case True
    have fl1: "s_flying (m_search e1) = []" using D(7) False by (simp add: e1_def)
    from new_root [OF memory_of_tree [OF engine_okD(5) [OF ok1]] fl1 H, of "m_config e" A] same True that show thesis by (metis e2_def)
  next
    case F: False
    then show thesis using that [of T] engine_okD(5) [OF ok1] by (simp add: e2_def e1_def)
  qed
  from go False obtain i where go': "not_over (m_config e2) (m_board e2) \<and> fst (answers i) = 0 \<or>
      expand_state (h_node (heap_of e2) (m_root e2)) = k_expanded"
    unfolding can_search_def same by (auto simp: e2_def e1_def)
  obtain h T3 where h: "InitRoot A ne answers noise e2 = Some (set_heap h e2)" "expand_state (h_node h (m_root e2)) = k_expanded"
    "\<And>s'. s_heap s' = h \<Longrightarrow> s_flying s' = [] \<Longrightarrow>
       has_tree (m_config e2) Z (start_board (m_config e) raw) (length hist) (m_board e2) T3 s' (m_root e2) (m_delete_queue e2)"
    by (rule InitRoot_ok [where answers = answers, OF t2 same(6) ne k go']) (rule that)
  let ?e3 = "set_heap h e2" let ?e = "?e3\<lparr>m_search := (m_search ?e3)\<lparr>s_running := True\<rparr>, m_is_searching := True\<rparr>"
  have r: "SearchResume A ne answers noise now e = Some ?e"
    using False h(1) unfolding SearchResume_def e2_def e1_def Let_def by simp
  have s: "s_heap (m_search ?e) = h" "s_flying (m_search ?e) = []" using same(6) by (simp_all add: set_heap_def)
  have "engine_ok Z raw hist T3 ?e"
    by (rule engine_okI) (use D same h(2) h(3) [OF s] in \<open>simp_all add: set_heap_def\<close>)
  then show thesis by (rule that [OF r]) (use same in \<open>simp_all add: set_heap_def\<close>)
qed

lemma resume_go:
  assumes ok: "engine_ok Z raw hist T e" and r: "SearchResume A ne answers noise now e = Some e'"
  shows "can_search answers e"
proof (cases "m_is_searching e")
  case False
  define e1 where "e1 = e\<lparr>m_search := (m_search e)\<lparr>s_counter := 0\<rparr>, m_search_timer := Timer_Reset now (m_search_timer e)\<rparr>"
  define e2 where "e2 = (if clear_search_tree_per_move (m_config e1) then change_root A nullptr e1 else e1)"
  have "InitRoot A ne answers noise e2 \<noteq> None"
    using r False unfolding SearchResume_def e2_def e1_def Let_def by auto
  then obtain e3 where e3: "InitRoot A ne answers noise e2 = Some e3" by blast
  have same: "m_config e2 = m_config e" "m_board e2 = m_board e" by (simp_all add: e2_def e1_def)
  show ?thesis
  proof (cases "expand_state (h_node (heap_of e2) (m_root e2)) = k_unexpanded")
    case True
    from InitRoot_go [OF e3 True] show ?thesis unfolding can_search_def same by blast
  next
    case expanded: False
    from engine_okD(5) [OF ok] obtain d where t: "tree_ok (heap_of e) (m_root e) T d" "states_ok (heap_of e)"
      and v: "flights_ok Z (m_board e) (m_root e) T (s_flying (m_search e)) (heap_of e)"
      by (elim has_treeE) (auto simp: sim_inv_def)
    have "\<not> clear_search_tree_per_move (m_config e)"
    proof
      assume "clear_search_tree_per_move (m_config e)"
      then have "e2 = change_root A nullptr e1" by (simp add: e2_def e1_def)
      with expanded show False
        by (simp add: change_root_result ChangeRoot_def new_nodes_def InitNode_def fresh_node_def)
    qed
    moreover from this have "heap_of e2 = heap_of e" "m_root e2 = m_root e" by (simp_all add: e2_def e1_def)
    moreover have "expand_state (h_node (heap_of e) (m_root e)) \<noteq> k_expanding"
      using v engine_okD(7) [OF ok False] tree_okD(2) [OF t(1)] by (auto simp: flights_ok_def)
    ultimately show ?thesis using expanded t(2) unfolding can_search_def states_ok_def by auto
  qed
qed (simp add: can_search_def)

subsection \<open>Starting again, moving, taking back\<close>

lemma set_root_move_fields [simp]:
  "m_config (set_root_move m e) = m_config e" "m_board (set_root_move m e) = m_board e"
  "m_num_moves (set_root_move m e) = m_num_moves e" "m_moves_str (set_root_move m e) = m_moves_str e"
  "m_pending_config (set_root_move m e) = m_pending_config e" "m_is_searching (set_root_move m e) = m_is_searching e"
  "m_root (set_root_move m e) = m_root e" "m_delete_queue (set_root_move m e) = m_delete_queue e"
  "s_flying (m_search (set_root_move m e)) = s_flying (m_search e)"
  "s_running (m_search (set_root_move m e)) = s_running (m_search e)"
  "m_byo_yomi_timer (set_root_move m e) = m_byo_yomi_timer e"
  "expand_state (h_node (heap_of (set_root_move m e)) a) = expand_state (h_node (heap_of e) a)"
  by (simp_all add: set_root_move_def set_heap_def)

lemma set_root_move_ok:
  assumes ok: "engine_ok Z raw hist T e"
  shows "engine_ok Z raw hist T (set_root_move m e)"
proof -
  have "has_tree (m_config e) Z (start_board (m_config e) raw) (length hist) (m_board e) T (m_search (set_root_move m e)) (m_root e) (m_delete_queue e)"
  proof (rule has_tree_cong [OF engine_okD(5) [OF ok]])
    fix a
    show "\<exists>m' q. (a = m_root e \<or> m' = mv (heap_of e) a) \<and> (a \<in> T \<or> q = prior_prob (h_node (heap_of e) a)) \<and>
        h_node (heap_of (set_root_move m e)) a = (h_node (heap_of e) a)\<lparr>node_move := m', prior_prob := q\<rparr>"
      by (intro exI [of _ "if a = m_root e then m else mv (heap_of e) a"] exI [of _ "prior_prob (h_node (heap_of e) a)"])
        (simp add: set_root_move_def set_heap_def)
  qed (simp_all add: set_root_move_def set_heap_def)
  with engine_okD [OF ok] show ?thesis by (intro engine_okI) simp_all
qed

text \<open>The engine after a reset to the moves \<open>hist\<close>, before the search starts in the background.\<close>

definition fresh_engine :: "zobrist \<Rightarrow> GoState \<Rightarrow> GoCoordId list \<Rightarrow> 'f engine \<Rightarrow> bool" where
  "fresh_engine Z raw hist e \<longleftrightarrow> (\<exists>T. engine_ok Z raw hist T e) \<and> \<not> m_is_searching e \<and>
     expand_state (h_node (heap_of e) (m_root e)) = k_unexpanded"

lemma reset_engine:
  assumes mem: "memory_ok e" and fl: "s_flying (m_search e) = []" and run: "\<not> s_running (m_search e) \<or> m_is_searching e"
    and p: "\<forall>m\<in>set hist. playable m" "play_moves Z hist (start_board (m_config e) raw) = Some b"
    and pend: "\<And>c. m_pending_config e = Some c \<Longrightarrow> same_rules (m_config e) c"
  obtains e3 where "fresh_engine Z raw hist e3" "m_config e3 = m_config e" "m_board e3 = b"
    "Reset A Z ne answers noise raw now (moves_str hist) e =
       (if enable_background_search (m_config e) then SearchResume A ne answers noise now e3 else Some e3)"
proof -
  let ?p = "SearchPause e"
  have mem': "memory_ok ?p" using mem by (simp add: memory_ok_def)
  obtain H where H: "reachable Z (start_board (m_config e) raw) (length hist) H b" using play_reachable [OF p(2,1)] by blast
  obtain T where t: "has_tree (m_config e) Z (start_board (m_config e) raw) (length hist) b T (m_search (change_root A nullptr ?p))
      (m_root (change_root A nullptr ?p)) (m_delete_queue (change_root A nullptr ?p))"
    "expand_state (h_node (heap_of (change_root A nullptr ?p)) (m_root (change_root A nullptr ?p))) = k_unexpanded"
    by (rule new_root [OF mem' _ H, of "m_config e" A]) (use fl in simp_all)
  define e2 where "e2 = (change_root A nullptr ?p)\<lparr>m_search := (m_search (change_root A nullptr ?p))\<lparr>s_counter := 0\<rparr>,
    m_num_moves := int ((length (moves_str hist) + 1) div 3), m_moves_str := moves_str hist, m_gen_passes := 0,
    m_byo_yomi_timer := ByoYomi_Reset A (m_byo_yomi_timer (change_root A nullptr ?p))\<rparr>"
  let ?m0 = "mv (heap_of e2) (m_root e2)"
  let ?e3 = "set_root_move (last (?m0 # hist)) (e2\<lparr>m_board := b\<rparr>)"
  have srch: "s_heap (m_search (e2\<lparr>m_board := b\<rparr>)) = s_heap (m_search (change_root A nullptr ?p))"
    "s_flying (m_search (e2\<lparr>m_board := b\<rparr>)) = s_flying (m_search (change_root A nullptr ?p))" by (simp_all add: e2_def)
  have n: "(length (moves_str hist) + 1) div 3 = length hist" by (cases hist) (simp_all add: length_moves_str)
  have f2: "m_config e2 = m_config e" "m_num_moves e2 = int (length hist)" "m_moves_str e2 = moves_str hist"
    "m_pending_config e2 = m_pending_config e" "m_is_searching e2 = False" "s_flying (m_search e2) = []"
    "\<not> s_running (m_search e2)" "m_root e2 = m_root (change_root A nullptr ?p)"
    "m_delete_queue e2 = m_delete_queue (change_root A nullptr ?p)"
    using n fl run by (simp_all add: e2_def, auto simp: SearchPause_def)
  have "engine_ok Z raw hist T (e2\<lparr>m_board := b\<rparr>)"
    by (rule engine_okI) (use p pend f2 has_tree_search [OF t(1) srch] in \<open>simp_all del: change_root_fields SearchPause_fields\<close>)
  from set_root_move_ok [OF this] have ok: "engine_ok Z raw hist T ?e3" .
  have fresh: "fresh_engine Z raw hist ?e3"
    unfolding fresh_engine_def using ok t(2) by (auto simp: e2_def SearchPause_def)
  have reset: "Reset A Z ne answers noise raw now (moves_str hist) e =
      (if enable_background_search (m_config e) then SearchResume A ne answers noise now ?e3 else Some ?e3)"
    using replay_moves [OF p, of ?m0]
    unfolding Reset_def Let_def e2_def [symmetric] by (simp add: e2_def)
  show thesis by (rule that [OF fresh _ _ reset]) (simp_all add: f2)
qed

lemma next_engine:
  assumes ok: "engine_ok Z raw hist T e" and fl: "s_flying (m_search e) = []"
    and m: "playable (CoordToId x y)" "Move Z (CoordToId x y) (m_board e) = Some (0, b)"
  obtains e5 T' where "engine_ok Z raw (hist @ [CoordToId x y]) T' e5" "m_board e5 = b" "\<not> m_is_searching e5"
    "m_config e5 = (case m_pending_config e of None \<Rightarrow> m_config e | Some c \<Rightarrow> c)" "m_pending_config e5 = None"
    "engine_Move A Z ne answers noise now x y e =
       (if not_over (m_config e5) b \<and> enable_background_search (m_config e5) then SearchResume A ne answers noise now e5
        else Some (if not_over (m_config e5) b then e5\<lparr>m_search := (m_search e5)\<lparr>s_counter := 0\<rparr>\<rparr> else e5))"
proof -
  let ?m = "CoordToId x y"
  define e1 where "e1 = SearchPause (ensure_clock A now e)"
  have ok1: "engine_ok Z raw hist T e1" "\<not> m_is_searching e1"
    unfolding e1_def by (rule SearchPause_ok [OF ensure_clock_ok [OF ok]]; use fl in simp)+
  note D = engine_okD [OF ok1(1)]
  have f1: "m_config e1 = m_config e" "m_board e1 = m_board e" "m_pending_config e1 = m_pending_config e"
    "s_flying (m_search e1) = []" using fl by (simp_all add: e1_def)
  define e2 where "e2 = e1\<lparr>m_board := b, m_num_moves := m_num_moves e1 + 1, m_moves_str := append_move (m_moves_str e1) (CoordToStr x y),
    m_show_moves_str := append_move (m_show_moves_str e1) (CoordToMoveStr x y)\<rparr>"
  define e3 where "e3 = change_root A (FindChild (heap_of e2) (m_root e2) ?m) e2"
  define e4 where "e4 = (set_root_move ?m e3)\<lparr>m_byo_yomi_timer := ByoYomi_HandOff A now (m_byo_yomi_timer (set_root_move ?m e3))\<rparr>"
  define e5 where "e5 = (case m_pending_config e4 of None \<Rightarrow> e4 | Some c \<Rightarrow> e4\<lparr>m_config := c, m_pending_config := None\<rparr>)"
  have p: "\<forall>m\<in>set (hist @ [?m]). playable m" "play_moves Z (hist @ [?m]) (start_board (m_config e) raw) = Some b"
    using D(1,2) m f1 by (simp_all add: play_moves_append)
  obtain H where H: "reachable Z (start_board (m_config e) raw) (Suc (length hist)) H b" using play_reachable [OF p(2,1)] by auto
  have mv: "Move Z ?m (m_board e1) = Some (0, b)" using m(2) f1 by simp
  have same: "m_search e2 = m_search e1" "m_root e2 = m_root e1" "m_delete_queue e2 = m_delete_queue e1" by (simp_all add: e2_def)
  have t2: "has_tree (m_config e) Z (start_board (m_config e) raw) (length hist) (m_board e1) T (m_search e2) (m_root e2) (m_delete_queue e2)"
    using D(5) f1 same by simp
  have fl2: "s_flying (m_search e2) = []" using f1(4) same by simp
  obtain T' where t3: "has_tree (m_config e) Z (start_board (m_config e) raw) (Suc (length hist)) b T' (m_search e3) (m_root e3) (m_delete_queue e3)"
    by (rule next_root [OF t2 fl2 mv H, of A]) (rule that [unfolded e3_def])
  have f3: "m_config e3 = m_config e" "m_board e3 = b" "m_num_moves e3 = int (length (hist @ [?m]))"
    "m_moves_str e3 = moves_str (hist @ [?m])" "m_pending_config e3 = m_pending_config e" "m_is_searching e3 = False"
    "s_flying (m_search e3) = []" "\<not> s_running (m_search e3)"
    using D(3,4,8) ok1(2) f1 m(1) by (simp_all add: e3_def e2_def moves_str_snoc CoordToStr_id)
  have ok3: "engine_ok Z raw (hist @ [?m]) T' e3"
    by (rule engine_okI) (use p f3 t3 engine_okD(9) [OF ok] in simp_all)
  have ok4: "engine_ok Z raw (hist @ [?m]) T' e4"
    by (rule engine_ok_other [OF set_root_move_ok [OF ok3, of ?m]]) (simp_all add: e4_def)
  have f4: "m_config e4 = m_config e" "m_board e4 = b" "m_pending_config e4 = m_pending_config e" "m_is_searching e4 = False"
    using f3 by (simp_all add: e4_def)
  have ok5: "engine_ok Z raw (hist @ [?m]) T' e5"
  proof (cases "m_pending_config e4")
    case (Some c)
    with engine_okD(9) [OF ok4] have r: "same_rules (m_config e4) c" by simp
    note D4 = engine_okD [OF ok4]
    have "engine_ok Z raw (hist @ [?m]) T' (e4\<lparr>m_config := c, m_pending_config := None\<rparr>)"
      by (rule engine_okI) (use D4 r has_tree_config [OF D4(5), of c] in \<open>simp_all add: same_rules_def\<close>)
    with Some show ?thesis by (simp add: e5_def)
  qed (use ok4 in \<open>simp add: e5_def\<close>)
  have nr: "IsResignXY x y = False" using m(1) by (auto simp: point_defs)
  have mv': "Move Z ?m (m_board (SearchPause (ensure_clock A now e))) = Some (0, b)" using mv by (simp add: e1_def)
  have zero: "((0::int) \<noteq> 0) = False" by simp
  have "engine_Move A Z ne answers noise now x y e =
      (if \<not> disable_double_pass_scoring (m_config e5) \<and> is_double_pass (m_board e5) then Some e5
       else if enable_background_search (m_config e5) then SearchResume A ne answers noise now e5
       else Some (e5\<lparr>m_search := (m_search e5)\<lparr>s_counter := 0\<rparr>\<rparr>))"
    by (simp only: engine_Move_def Let_def MoveXY_def nr mv' zero Option.bind.bind_lunit split_conv if_False
        e5_def e4_def e3_def e2_def e1_def)
  moreover have b5: "m_board e5 = b" using f4 by (simp add: e5_def split: option.split)
  ultimately have "engine_Move A Z ne answers noise now x y e =
      (if not_over (m_config e5) b \<and> enable_background_search (m_config e5) then SearchResume A ne answers noise now e5
       else Some (if not_over (m_config e5) b then e5\<lparr>m_search := (m_search e5)\<lparr>s_counter := 0\<rparr>\<rparr> else e5))"
    by (simp add: not_over_def)
  then show thesis
    by (intro that [OF ok5]) (use f4 in \<open>simp_all add: e5_def split: option.split\<close>)
qed

end
