(* ===== verification/Mcts_Safety.thy ===== *)
theory Mcts_Safety
  imports Mcts_Commands
begin

text \<open>
  Every run of the engine: the commands in any order, the steps of the search threads and of the
  delete thread between them. The invariant holds throughout, so that no step of the search fails
  and no memory is lost or deleted twice.
\<close>

subsection \<open>Runs\<close>

text \<open>The bound on moves: a game and a line of the tree below it stay within 253 moves, for which the
  block pool of the positions is large enough.\<close>

definition shallow :: "'f engine \<Rightarrow> bool" where
  "shallow e \<longleftrightarrow> (\<forall>p. seg (heap_of e) (m_root e) p \<longrightarrow> m_num_moves e + int (length p) \<le> 253)"

text \<open>No simulation is in flight. With synchronous evaluation \<open>SearchPause\<close> returns in such a state only, for
  a search thread acknowledges the pause between its simulations. With asynchronous evaluation
  the wait for the evaluations is commented out (mcts_engine.cc:810): there \<open>parked\<close> is an assumption
  on the runs below, not a fact, and callbacks that come after a command are not covered.\<close>

abbreviation parked :: "'f engine \<Rightarrow> bool" where
  "parked e \<equiv> s_flying (m_search e) = []"

text \<open>\<open>engine_run A Z ne raw hist e\<close>: the engine \<open>e\<close> is reached, the game has the moves \<open>hist\<close>; \<open>raw\<close> is
  the memory in which its first board was created. A reset is to the moves of a game that can be
  played. \<open>Undo\<close> takes the last move back, in a game of at least two moves; taking back the only move
  is not a step of a run, since what the program does then is a reset to the same game (see
  \<open>undo_of_the_only_move\<close>).\<close>

inductive engine_run :: "'f arith \<Rightarrow> zobrist \<Rightarrow> (nat \<Rightarrow> 'f list \<Rightarrow> nat list \<Rightarrow> nat list) \<Rightarrow> GoState \<Rightarrow> GoCoordId list \<Rightarrow> 'f engine \<Rightarrow> bool"
  for A Z ne where
  init: "Init A ne answers noise now (MCTSEngine_new A raw now0 config) = Some e \<Longrightarrow> engine_run A Z ne raw [] e"
| reset: "engine_run A Z ne raw hist e \<Longrightarrow> parked e \<Longrightarrow> length hist' \<le> 253 \<Longrightarrow> \<forall>m\<in>set hist'. playable m \<Longrightarrow>
    play_moves Z hist' (start_board (m_config e) raw') = Some b \<Longrightarrow>
    Reset A Z ne answers noise raw' now (moves_str hist') e = Some e' \<Longrightarrow> engine_run A Z ne raw' hist' e'"
| play: "engine_run A Z ne raw hist e \<Longrightarrow> parked e \<Longrightarrow> length hist < 253 \<Longrightarrow> playable (CoordToId x y) \<Longrightarrow>
    engine_Move A Z ne answers noise now x y e = Some e' \<Longrightarrow> engine_run A Z ne raw (hist @ [CoordToId x y]) e'"
| resigned: "engine_run A Z ne raw hist e \<Longrightarrow> parked e \<Longrightarrow> IsResignXY x y \<Longrightarrow>
    engine_Move A Z ne answers noise now x y e = Some e' \<Longrightarrow> engine_run A Z ne raw hist e'"
| undo: "engine_run A Z ne raw hist e \<Longrightarrow> parked e \<Longrightarrow> length hist \<le> 253 \<Longrightarrow> length hist \<noteq> 1 \<Longrightarrow>
    Undo A Z ne answers noise raw now e = Some (r, e') \<Longrightarrow> engine_run A Z ne raw (butlast hist) e'"
| clock: "engine_run A Z ne raw hist e \<Longrightarrow> engine_run A Z ne raw hist (e\<lparr>m_byo_yomi_timer := t\<rparr>)"
| resume: "engine_run A Z ne raw hist e \<Longrightarrow> length hist \<le> 253 \<Longrightarrow> SearchResume A ne answers noise now e = Some e' \<Longrightarrow>
    engine_run A Z ne raw hist e'"
| pause: "engine_run A Z ne raw hist e \<Longrightarrow> parked e \<Longrightarrow> engine_run A Z ne raw hist (SearchPause e)"
| sim: "engine_run A Z ne raw hist e \<Longrightarrow> m_is_searching e \<Longrightarrow> shallow e \<Longrightarrow>
    sim_step A (m_config e) ne Z (m_root e) (m_board e) (m_search e) s' \<Longrightarrow> engine_run A Z ne raw hist (e\<lparr>m_search := s'\<rparr>)"
| failed: "engine_run A Z ne raw hist e \<Longrightarrow> m_is_searching e \<Longrightarrow> s_flying (m_search e) = fs @ (n, b') # gs \<Longrightarrow> ret \<noteq> 0 \<Longrightarrow>
    simulation_answer A (m_config e) ne (m_root e) n b' ret policy v ((m_search e)\<lparr>s_flying := fs @ gs\<rparr>) = Some s' \<Longrightarrow>
    engine_run A Z ne raw hist (e\<lparr>m_search := s'\<rparr>)"
| delete: "engine_run A Z ne raw hist e \<Longrightarrow> delete_step e = Some (n, e') \<Longrightarrow> engine_run A Z ne raw hist e'"
| config: "engine_run A Z ne raw hist e \<Longrightarrow> same_rules (m_config e) c \<Longrightarrow>
    engine_run A Z ne raw hist (e\<lparr>m_pending_config := Some c\<rparr>)"
| passes: "engine_run A Z ne raw hist e \<Longrightarrow> engine_run A Z ne raw hist (e\<lparr>m_gen_passes := n\<rparr>)"

lemma run_ensure_clock: "engine_run A Z ne raw hist e \<Longrightarrow> engine_run A Z ne raw hist (ensure_clock A now e)"
  by (simp add: ensure_clock_def Let_def engine_run.clock)

subsection \<open>The steps of the search\<close>

lemma root_stays:
  assumes "sim_inv c Z s0 k b rt v T s" and "expand_state (h_node (s_heap s) rt) = k_expanded"
    and "begin_simulation A c Z rt b s = Some s'"
  shows "expand_state (h_node (s_heap s') rt) = k_expanded"
proof -
  from assms(3) obtain n b' h where sel: "Select A c Z rt b (s_heap s) = Some (n, b', h)"
    by (auto simp: begin_simulation_def bind_eq_Some_conv)
  with assms(3) have s': "s_heap s' = set_state k_expanding n h \<and> expand_state (h_node h n) = k_unexpanded \<or>
      UndoVirtualLoss n h = Some (s_heap s')"
    by (auto simp: begin_simulation_def split: if_splits)
  have "expand_state (h_node h rt) = k_expanded"
    using select_state [OF sel [unfolded Select_def], of rt] assms(2) by (simp add: add_virtual_loss_def)
  with s' show ?thesis by (auto simp: set_state_def dest: undo_state [of _ _ _ rt])
qed

lemma begin_keeps:
  assumes ok: "engine_ok Z raw hist T e" and s: "m_is_searching e"
    and b: "begin_simulation A (m_config e) Z (m_root e) (m_board e) (m_search e) = Some s'"
  shows "engine_ok Z raw hist T (e\<lparr>m_search := s'\<rparr>)"
proof -
  note D = engine_okD [OF ok]
  from D(5) obtain v where v: "sim_inv (m_config e) Z (start_board (m_config e) raw) (length hist) (m_board e) (m_root e) v T (m_search e)"
    "v = 0 \<or> v = - 1 \<and> expand_state (h_node (heap_of e) (m_root e)) = k_expanded"
    "forest (heap_of e) (h_live (heap_of e) - T) (m_delete_queue e)" "states_ok (heap_of e)" by (rule has_treeE)
  from begin_ok [OF v(1), of A] b have s': "sim_inv (m_config e) Z (start_board (m_config e) raw) (length hist) (m_board e) (m_root e) v T s'"
    "frame T (heap_of e) T (s_heap s')" by auto
  have ex: "expand_state (h_node (s_heap s') (m_root e)) = k_expanded" by (rule root_stays [OF v(1) D(6) [OF s] b])
  have "has_tree (m_config e) Z (start_board (m_config e) raw) (length hist) (m_board e) T s' (m_root e) (m_delete_queue e)"
    by (rule has_treeI [OF s'(1)]) (use v(2) ex forest_step [OF s'(2) v(3)] states_begin [OF b v(4)] in auto)
  with D ex s show ?thesis by (intro engine_okI) simp_all
qed

lemma Expand_other:
  assumes "a \<noteq> n" and "a < h_next h" "n < h_next h"
  shows "h_node (snd (Expand A c ne n b policy h)) a = h_node h a"
proof (cases "\<not> disable_double_pass_scoring c \<and> is_double_pass b")
  case False
  from Expand_grown [OF False assms(3), of A ne policy] obtain h' F where
    "Expand A c ne n b policy h = (int (length (expand_moves c ne policy b)), h')"
    "grown n (h_next h) (length (expand_moves c ne policy b)) F h h'" by blast
  with assms(1,2) show ?thesis by (simp add: grown_def)
qed (use assms(1) in \<open>simp add: Expand_def\<close>)

lemma answer_root:
  assumes inv: "sim_inv c Z s0 k b rt w T s" and fl: "s_flying s = fs @ (n, b') # gs"
    and a: "simulation_answer A c ne rt n b' ret policy v (s\<lparr>s_flying := fs @ gs\<rparr>) = Some s'"
    and ex: "expand_state (h_node (s_heap s) rt) = k_expanded"
  shows "expand_state (h_node (s_heap s') rt) = k_expanded"
proof -
  from inv obtain d where ok: "tree_ok (s_heap s) rt T d" and fo: "flights_ok Z b rt T (s_flying s) (s_heap s)"
    by (auto simp: sim_inv_def)
  from fo fl have n: "n \<in> T" "expand_state (h_node (s_heap s) n) = k_expanding"
    unfolding flights_ok_def by (auto simp: set_eq_iff)
  with ex have ne: "n \<noteq> rt" by auto
  have less: "rt < h_next (s_heap s)" "n < h_next (s_heap s)" using tree_okD(2,4,5) [OF ok] n(1) by blast+
  show ?thesis
  proof (cases "ret = 0")
    case False
    with a have "UndoVirtualLoss n (set_state k_unexpanded n (s_heap s)) = Some (s_heap s')" by (auto simp: simulation_answer_def)
    from undo_state [OF this, of rt] ne ex show ?thesis by (simp add: set_state_def)
  next
    case True
    obtain len h1 where e: "Expand A c ne n b' policy (s_heap s) = (len, h1)" by (cases "Expand A c ne n b' policy (s_heap s)") auto
    with Expand_other [OF ne [symmetric] less, of A c ne b' policy] ex have "expand_state (h_node h1 rt) = k_expanded" by simp
    moreover from a True e have "Backup A n v len h1 = Some (s_heap s')" by (auto simp: simulation_answer_def Let_def)
    then have "expand_state (h_node (s_heap s') rt) = expand_state (h_node h1 rt)"
      unfolding Backup_def by (simp add: backup_state [of _ _ _ _ _ rt])
    ultimately show ?thesis by simp
  qed
qed

lemma answer_keeps:
  assumes ok: "engine_ok Z raw hist T e" and s: "m_is_searching e" and ne: "permutes_moves ne" and sh: "ret = 0 \<Longrightarrow> shallow e"
    and fl: "s_flying (m_search e) = fs @ (n, b') # gs"
  obtains s' T' where "simulation_answer A (m_config e) ne (m_root e) n b' ret policy v ((m_search e)\<lparr>s_flying := fs @ gs\<rparr>) = Some s'"
    "engine_ok Z raw hist T' (e\<lparr>m_search := s'\<rparr>)" "s_flying s' = fs @ gs"
proof -
  let ?c = "m_config e" and ?b = "m_board e" and ?rt = "m_root e" and ?s = "m_search e" and ?start = "start_board (m_config e) raw"
  note D = engine_okD [OF ok]
  from D(5) obtain w where w: "sim_inv ?c Z ?start (length hist) ?b ?rt w T ?s"
    "w = 0 \<or> w = - 1 \<and> expand_state (h_node (heap_of e) ?rt) = k_expanded"
    "forest (heap_of e) (h_live (heap_of e) - T) (m_delete_queue e)" "states_ok (heap_of e)" by (rule has_treeE)
  obtain s' T' where s': "simulation_answer A ?c ne ?rt n b' ret policy v (?s\<lparr>s_flying := fs @ gs\<rparr>) = Some s'"
    "sim_inv ?c Z ?start (length hist) ?b ?rt w T' s'" "frame T (heap_of e) T' (s_heap s')" "s_flying s' = fs @ gs"
  proof (cases "ret = 0")
    case False
    from answer_failed [OF w(1) fl False, of A ne policy v] that show thesis by blast
  next
    case True
    show thesis
    proof (cases "\<not> disable_double_pass_scoring ?c \<and> is_double_pass b'")
      case dp: True
      from answer_scored [OF w(1) fl, of A ne policy v] dp True obtain h2 where
        "simulation_answer A ?c ne ?rt n b' ret policy v (?s\<lparr>s_flying := fs @ gs\<rparr>) = Some (answered_state ?c ?rt (fs @ gs) h2 ?s)"
        "sim_inv ?c Z ?start (length hist) ?b ?rt w T (answered_state ?c ?rt (fs @ gs) h2 ?s)" "frame T (heap_of e) T h2" by blast
      then show thesis using that by simp
    next
      case dp: False
      have deep: "length hist + length p \<le> 253" if "seg (heap_of e) ?rt p" for p
        using sh [OF True] that D(3) unfolding shallow_def by fastforce
      from answer_expanded [OF w(1) fl ne dp refl deep, of A policy v] True obtain T' h2 where
        "simulation_answer A ?c ne ?rt n b' ret policy v (?s\<lparr>s_flying := fs @ gs\<rparr>) = Some (answered_state ?c ?rt (fs @ gs) h2 ?s)"
        "sim_inv ?c Z ?start (length hist) ?b ?rt w T' (answered_state ?c ?rt (fs @ gs) h2 ?s)" "frame T (heap_of e) T' h2" by blast
      then show thesis using that by simp
    qed
  qed
  have st: "states_ok (s_heap s')" by (rule states_answer [OF s'(1)]) (use w(4) in simp)
  have ex: "expand_state (h_node (s_heap s') ?rt) = k_expanded"
    by (rule answer_root [OF w(1) fl s'(1) D(6) [OF s]])
  have "has_tree ?c Z ?start (length hist) ?b T' s' ?rt (m_delete_queue e)"
    by (rule has_treeI [OF s'(2)]) (use w(2) ex forest_step [OF s'(3) w(3)] st in auto)
  with D ex s have "engine_ok Z raw hist T' (e\<lparr>m_search := s'\<rparr>)" by (intro engine_okI) simp_all
  then show thesis by (rule that [OF s'(1) _ s'(4)])
qed

text \<open>The delete thread.\<close>

lemma delete_keeps:
  assumes ok: "engine_ok Z raw hist T e" and q: "m_delete_queue e = q # qs"
  obtains n L where "delete_step e = Some (n, set_heap (with_live L (heap_of e)) (e\<lparr>m_delete_queue := qs\<rparr>))"
    "engine_ok Z raw hist T (set_heap (with_live L (heap_of e)) (e\<lparr>m_delete_queue := qs\<rparr>))" "L \<subseteq> h_live (heap_of e)"
    "n = int (card (h_live (heap_of e) - L))"
proof -
  note D = engine_okD [OF ok]
  from D(5) obtain w where w: "sim_inv (m_config e) Z (start_board (m_config e) raw) (length hist) (m_board e) (m_root e) w T (m_search e)"
    "w = 0 \<or> w = - 1 \<and> expand_state (h_node (heap_of e) (m_root e)) = k_expanded"
    "forest (heap_of e) (h_live (heap_of e) - T) (q # qs)" "states_ok (heap_of e)" and T: "T \<subseteq> h_live (heap_of e)"
    by (rule has_treeE) (use tree_okD(4) q in metis)
  from forest_delete [OF w(3)] obtain n L where L: "delete_round q (heap_of e) = Some (n, with_live L (heap_of e))"
    "L \<subseteq> h_live (heap_of e)" "h_live (heap_of e) \<inter> T \<subseteq> L" "forest (with_live L (heap_of e)) (L - T) qs"
    "n = int (card (h_live (heap_of e) - L))" by blast
  have TL: "T \<subseteq> L" using L(3) T by blast
  let ?s = "(m_search e)\<lparr>s_heap := with_live L (heap_of e)\<rparr>" and ?e = "set_heap (with_live L (heap_of e)) (e\<lparr>m_delete_queue := qs\<rparr>)"
  have "has_tree (m_config e) Z (start_board (m_config e) raw) (length hist) (m_board e) T ?s (m_root e) qs"
    by (rule has_treeI [OF sim_inv_live [OF w(1) TL L(2)]]) (use w(2,4) L(4) in \<open>simp_all add: states_ok_def\<close>)
  then have "engine_ok Z raw hist T ?e"
    by (intro engine_okI) (use D in \<open>simp_all add: set_heap_def\<close>)
  then show thesis using that [of n L] L(1,2,5) q by (simp add: delete_step_def)
qed

subsection \<open>The invariant holds in every run\<close>

lemma new_engine_memory: "memory_ok (MCTSEngine_new A raw now config)"
  unfolding memory_ok_def
  by (intro conjI exI [of _ "{}"]) (auto simp: MCTSEngine_new_def empty_heap_def states_ok_def fresh_node_def)

lemma init_keeps:
  assumes i: "Init A ne answers noise now (MCTSEngine_new A raw now0 config) = Some e" and ne: "permutes_moves ne"
  shows "\<exists>T. engine_ok Z raw [] T e"
proof -
  let ?n = "MCTSEngine_new A raw now0 config" let ?e = "change_root A nullptr ?n"
  have r: "reachable Z (start_board config raw) 0 {} (start_board config raw)" by (rule reachable.start)
  have fl: "s_flying (m_search ?n) = []" by (simp add: MCTSEngine_new_def)
  obtain T where t: "has_tree config Z (start_board config raw) 0 (start_board config raw) T (m_search ?e) (m_root ?e) (m_delete_queue ?e)"
    by (rule new_root [OF new_engine_memory fl r, of config A])
  have ok: "engine_ok Z raw [] T ?e"
    by (rule engine_okI) (use t in \<open>simp_all add: MCTSEngine_new_def\<close>)
  show ?thesis
  proof (cases "enable_background_search config")
    case True
    with i have res: "SearchResume A ne answers noise now ?e = Some e" by (simp add: Init_def MCTSEngine_new_def)
    obtain e1 T1 where e1: "SearchResume A ne answers noise now ?e = Some e1" "engine_ok Z raw [] T1 e1"
      by (rule resume_ok [OF ok ne _ resume_go [OF ok res]]) auto
    with res show ?thesis by auto
  next
    case False
    with i ok show ?thesis by (auto simp: Init_def MCTSEngine_new_def)
  qed
qed

lemma resume_keeps:
  assumes "engine_ok Z raw hist T e" and "permutes_moves ne" and "length hist \<le> 253" and "SearchResume A ne answers noise now e = Some e'"
  shows "\<exists>T. engine_ok Z raw hist T e'"
  using resume_ok [OF assms(1-3) resume_go [OF assms(1,4)], of A noise now] assms(4) by (metis option.inject)

lemma reset_keeps:
  assumes ok: "engine_ok Z raw hist T e" and fl: "parked e" and ne: "permutes_moves ne" and k: "length hist' \<le> 253"
    and p: "\<forall>m\<in>set hist'. playable m" "play_moves Z hist' (start_board (m_config e) raw') = Some b"
    and r: "Reset A Z ne answers noise raw' now (moves_str hist') e = Some e'"
  shows "\<exists>T. engine_ok Z raw' hist' T e'"
proof -
  have run: "\<not> s_running (m_search e) \<or> m_is_searching e" using engine_okD(8) [OF ok] by blast
  obtain e3 where e3: "fresh_engine Z raw' hist' e3"
    "Reset A Z ne answers noise raw' now (moves_str hist') e =
       (if enable_background_search (m_config e) then SearchResume A ne answers noise now e3 else Some e3)"
    by (rule reset_engine [OF memory_of_tree [OF engine_okD(5) [OF ok]] fl run p]) (use engine_okD(9) [OF ok] in auto)
  with r resume_keeps [OF _ ne k] show ?thesis unfolding fresh_engine_def by (auto split: if_splits)
qed

lemma move_keeps:
  assumes ok: "engine_ok Z raw hist T e" and fl: "parked e" and ne: "permutes_moves ne" and k: "length hist < 253"
    and m: "playable (CoordToId x y)" and r: "engine_Move A Z ne answers noise now x y e = Some e'"
  shows "\<exists>T. engine_ok Z raw (hist @ [CoordToId x y]) T e'"
proof -
  have "IsResignXY x y = False" using m by (auto simp: point_defs)
  with r obtain b where b: "Move Z (CoordToId x y) (m_board e) = Some (0, b)"
    by (auto simp: engine_Move_def Let_def MoveXY_def bind_eq_Some_conv split: if_splits)
  obtain e5 T' where e5: "engine_ok Z raw (hist @ [CoordToId x y]) T' e5"
    "engine_Move A Z ne answers noise now x y e =
       (if not_over (m_config e5) b \<and> enable_background_search (m_config e5) then SearchResume A ne answers noise now e5
        else Some (if not_over (m_config e5) b then e5\<lparr>m_search := (m_search e5)\<lparr>s_counter := 0\<rparr>\<rparr> else e5))"
    by (rule next_engine [OF ok fl m b]) (rule that)
  have "engine_ok Z raw (hist @ [CoordToId x y]) T' (e5\<lparr>m_search := (m_search e5)\<lparr>s_counter := 0\<rparr>\<rparr>)"
    by (rule engine_ok_other [OF e5(1)]) simp_all
  moreover have "length (hist @ [CoordToId x y]) \<le> 253" using k by simp
  ultimately show ?thesis using r e5 resume_keeps [OF e5(1) ne] by (auto split: if_splits)
qed

lemma InitRoot_config: "InitRoot A ne answers noise e = Some e' \<Longrightarrow> m_config e' = m_config e"
  by (auto simp: InitRoot_def Let_def bind_eq_Some_conv set_heap_def split: if_splits)

lemma resume_config: "SearchResume A ne answers noise now e = Some e' \<Longrightarrow> m_config e' = m_config e"
  unfolding SearchResume_def Let_def by (auto dest!: InitRoot_config split: if_splits)

lemma move_rules:
  assumes ok: "engine_ok Z raw hist T e" and fl: "parked e" and m: "playable (CoordToId x y)"
    and r: "engine_Move A Z ne answers noise now x y e = Some e'"
  shows "same_rules (m_config e) (m_config e')"
proof -
  have "IsResignXY x y = False" using m by (auto simp: point_defs)
  with r obtain b where b: "Move Z (CoordToId x y) (m_board e) = Some (0, b)"
    by (auto simp: engine_Move_def Let_def MoveXY_def bind_eq_Some_conv split: if_splits)
  obtain e5 T' where e5: "m_config e5 = (case m_pending_config e of None \<Rightarrow> m_config e | Some c \<Rightarrow> c)"
    "engine_Move A Z ne answers noise now x y e =
       (if not_over (m_config e5) b \<and> enable_background_search (m_config e5) then SearchResume A ne answers noise now e5
        else Some (if not_over (m_config e5) b then e5\<lparr>m_search := (m_search e5)\<lparr>s_counter := 0\<rparr>\<rparr> else e5))"
    by (rule next_engine [OF ok fl m b]) (rule that)
  have "same_rules (m_config e) (m_config e5)"
    using engine_okD(9) [OF ok] e5(1) by (auto simp: same_rules_def split: option.splits)
  moreover have "m_config e' = m_config e5" using r e5(2) resume_config by (auto split: if_splits)
  ultimately show ?thesis by simp
qed

text \<open>Taking back: the string of the moves loses its last three characters, but if there is one move only
  the subtraction wraps around and the whole string is kept.\<close>

lemma undo_string:
  assumes "hist \<noteq> []" and "length hist \<le> 253"
  shows "substr (moves_str hist) 0 (nat ((int (length (moves_str hist)) - 3) mod 2 ^ 64)) =
    Inr (moves_str (if length hist = 1 then hist else butlast hist))"
proof (cases "length hist = 1")
  case True
  then obtain m where "hist = [m]" by (cases hist) auto
  then show ?thesis by (simp add: substr_def)
next
  case False
  obtain ys m where h: "hist = ys @ [m]" "ys \<noteq> []" using assms(1) False by (cases hist rule: rev_cases) auto
  have "moves_str hist = moves_str ys @ CHR '','' # IdToStr m" using h by (simp add: moves_str_snoc append_move_def)
  moreover have l: "int (length (moves_str hist)) - 3 = int (length (moves_str ys))"
    using h by (cases ys) (simp_all add: length_moves_str)
  moreover have "int (length (moves_str ys)) mod 2 ^ 64 = int (length (moves_str ys))"
    using assms(2) h by (intro mod_pos_pos_trivial) (simp_all add: length_moves_str)
  ultimately show ?thesis using h by (simp add: substr_def)
qed

lemma butlast_ok:
  assumes "\<forall>m\<in>set hist. playable m" and "play_moves Z hist b0 = Some b"
  obtains b' where "\<forall>m\<in>set (butlast hist). playable m" "play_moves Z (butlast hist) b0 = Some b'"
proof (cases hist rule: rev_cases)
  case Nil
  then show thesis using that [of b] assms by simp
next
  case (snoc ys m)
  with assms(2) obtain b' where "play_moves Z ys b0 = Some b'" by (auto simp: play_moves_append split: option.splits)
  then show thesis using that [of b'] assms(1) snoc by simp
qed

lemma undo_reset:
  assumes ok: "engine_ok Z raw hist T e" and k: "length hist \<le> 253" and h: "hist \<noteq> []"
  shows "Undo A Z ne answers noise raw' now e = map_option (Pair True)
    (Reset A Z ne answers noise raw' now (moves_str (if length hist = 1 then hist else butlast hist)) e)"
  using engine_okD(3,4) [OF ok] undo_string [OF h k] h by (simp add: Undo_def)

lemma undo_keeps:
  assumes ok: "engine_ok Z raw hist T e" and fl: "parked e" and ne: "permutes_moves ne" and k: "length hist \<le> 253" "length hist \<noteq> 1"
    and u: "Undo A Z ne answers noise raw now e = Some (r, e')"
  shows "\<exists>T. engine_ok Z raw (butlast hist) T e'"
proof (cases "hist = []")
  case True
  with u engine_okD(3) [OF ok] ok show ?thesis by (auto simp: Undo_def)
next
  case False
  have r: "Reset A Z ne answers noise raw now (moves_str (butlast hist)) e = Some e'"
    using u k(2) unfolding undo_reset [OF ok k(1) False, of A ne answers noise raw now] by auto
  obtain b where b: "\<forall>m\<in>set (butlast hist). playable m" "play_moves Z (butlast hist) (start_board (m_config e) raw) = Some b"
    by (rule butlast_ok [OF engine_okD(1,2) [OF ok]])
  show ?thesis by (rule reset_keeps [OF ok fl ne _ b r]) (use k(1) in simp)
qed

theorem run_ok:
  assumes "engine_run A Z ne raw hist e" and ne: "permutes_moves ne"
  shows "\<exists>T. engine_ok Z raw hist T e"
  using assms(1)
proof induction
  case (init answers noise now raw now0 config e)
  then show ?case by (rule init_keeps [OF _ ne])
next
  case (reset raw hist e hist' raw' b answers noise now e')
  then obtain T where T: "engine_ok Z raw hist T e" by blast
  show ?case by (rule reset_keeps [OF T reset.hyps(2) ne reset.hyps(3,4,5,6)])
next
  case (play raw hist e x y answers noise now e')
  then show ?case using move_keeps [OF _ play.hyps(2) ne play.hyps(3,4,5)] by blast
next
  case (resigned raw hist e x y answers noise now e')
  then obtain T where T: "engine_ok Z raw hist T e" by blast
  have "e' = SearchPause (ensure_clock A now e)" using resigned.hyps(3,4) by (simp add: engine_Move_def Let_def)
  with SearchPause_ok [OF ensure_clock_ok [OF T]] resigned.hyps(2) show ?case by auto
next
  case (undo raw hist e answers noise now r e')
  then show ?case using undo_keeps [OF _ undo.hyps(2) ne undo.hyps(3,4,5)] by blast
next
  case (clock raw hist e t)
  then obtain T where T: "engine_ok Z raw hist T e" by blast
  have "engine_ok Z raw hist T (e\<lparr>m_byo_yomi_timer := t\<rparr>)" by (rule engine_ok_other [OF T]) simp_all
  then show ?case by blast
next
  case (resume raw hist e answers noise now e')
  then show ?case using resume_keeps [OF _ ne resume.hyps(2,3)] by blast
next
  case (pause raw hist e)
  then show ?case using SearchPause_ok(1) by blast
next
  case (sim raw hist e s')
  then obtain T where T: "engine_ok Z raw hist T e" by blast
  from sim.hyps(4) show ?case
  proof (rule sim_stepE)
    assume "begin_simulation A (m_config e) Z (m_root e) (m_board e) (m_search e) = Some s'"
    with begin_keeps [OF T sim.hyps(2)] show ?thesis by blast
  next
    fix fs n b' gs policy ret v
    assume fl: "s_flying (m_search e) = fs @ (n, b') # gs"
      and a: "simulation_answer A (m_config e) ne (m_root e) n b' ret policy v ((m_search e)\<lparr>s_flying := fs @ gs\<rparr>) = Some s'"
    show ?thesis by (rule answer_keeps [OF T sim.hyps(2) ne _ fl, of ret A policy v]) (use a sim.hyps(3) in auto)
  qed
next
  case (failed raw hist e fs n b' gs ret policy v s')
  then obtain T where T: "engine_ok Z raw hist T e" by blast
  show ?case by (rule answer_keeps [OF T failed.hyps(2) ne _ failed.hyps(3), of ret A policy v]) (use failed.hyps(4,5) in auto)
next
  case (delete raw hist e n e')
  then obtain T where T: "engine_ok Z raw hist T e" by blast
  obtain q qs where q: "m_delete_queue e = q # qs" using delete.hyps(2) by (cases "m_delete_queue e") (simp_all add: delete_step_def)
  show ?case by (rule delete_keeps [OF T q]) (use delete.hyps(2) in auto)
next
  case (config raw hist e c)
  then obtain T where T: "engine_ok Z raw hist T e" by blast
  note D = engine_okD [OF T]
  have "engine_ok Z raw hist T (e\<lparr>m_pending_config := Some c\<rparr>)"
    by (rule engine_okI) (use D(1-8) config.hyps(2) in simp_all)
  then show ?case by blast
next
  case (passes raw hist e n)
  then obtain T where T: "engine_ok Z raw hist T e" by blast
  have "engine_ok Z raw hist T (e\<lparr>m_gen_passes := n\<rparr>)" by (rule engine_ok_other [OF T]) simp_all
  then show ?case by blast
qed

end
