(* ===== verification/Mcts_Example.thy ===== *)
theory Mcts_Example
  imports Mcts_Safety
begin

text \<open>
  A small run with real numbers for floats: the engine before its first search, and during it.
\<close>

definition keep_order :: "nat \<Rightarrow> real list \<Rightarrow> nat list \<Rightarrow> nat list" where
  "keep_order m policy moves = moves"

lemma keep_order_permutes: "permutes_moves keep_order"
  by (simp add: permutes_moves_def keep_order_def)

abbreviation plain_config :: "real MCTSConfig" where
  "plain_config \<equiv> (default_config 0)\<lparr>num_search_threads := 1\<rparr>"

definition idle_engine :: "real engine" where
  "idle_engine = change_root real_arith nullptr (MCTSEngine_new real_arith raw_memory 0 plain_config)"

abbreviation first_answer :: "nat \<Rightarrow> int \<times> real list \<times> real" where
  "first_answer \<equiv> \<lambda>_. (0, replicate 362 (1/362), 0)"

lemma idle_fields [simp]:
  "m_config idle_engine = plain_config" "m_board idle_engine = new_game" "m_is_searching idle_engine = False"
  "s_flying (m_search idle_engine) = []" "m_num_moves idle_engine = 0" "m_pending_config idle_engine = None"
  "m_root idle_engine = 1" "m_delete_queue idle_engine = []" "h_live (heap_of idle_engine) = {1}" "m_moves_str idle_engine = []"
  by (simp_all add: idle_engine_def MCTSEngine_new_def default_config_def change_root_result ChangeRoot_def new_nodes_def
      InitNode_def empty_heap_def)

lemma idle_root: "h_node (heap_of idle_engine) (Suc 0) = fresh_node real_arith 0 (- 1) 0"
  by (simp add: idle_engine_def MCTSEngine_new_def change_root_result ChangeRoot_def new_nodes_def InitNode_def empty_heap_def)

lemma idle_run: "engine_run real_arith flat_weights keep_order raw_memory [] idle_engine"
proof (rule engine_run.init)
  show "Init real_arith keep_order first_answer (\<lambda>_. 1) 0 (MCTSEngine_new real_arith raw_memory 0 plain_config) = Some idle_engine"
    by (simp add: Init_def idle_engine_def MCTSEngine_new_def default_config_def Let_def)
qed

lemma new_game_goes_on: "not_over plain_config new_game"
  by (simp add: not_over_def GoState_new_def)

text \<open>The first search: the root has children, which are not expanded.\<close>

lemma first_search:
  obtains e N where "engine_run real_arith flat_weights keep_order raw_memory [] e" "m_is_searching e" "shallow e" "parked e"
    "m_config e = plain_config" "m_board e = new_game" "N \<noteq> {}" "s_running (m_search e)"
    "\<And>p. seg (heap_of e) (m_root e) p \<Longrightarrow> p = [] \<or> (\<exists>y\<in>N. p = [y])"
    "\<And>y. y \<in> N \<Longrightarrow> expand_state (h_node (heap_of e) y) = k_unexpanded"
    "SearchResume real_arith keep_order first_answer (\<lambda>_. 1) 0 idle_engine = Some e"
proof -
  let ?A = real_arith and ?b = new_game and ?c = plain_config and ?h = "heap_of idle_engine" and ?pol = "replicate 362 (1/362) :: real list"
  obtain T where T: "engine_ok flat_weights raw_memory [] T idle_engine" using run_ok [OF idle_run keep_order_permutes] by blast
  from engine_okD(5) [OF T] obtain d where d: "tree_ok ?h 1 T d" by (auto elim: has_treeE)
  have kids: "kids ?h 1 = []" by (simp add: kids_def idle_root fresh_node_def)
  have seg0: "seg ?h 1 p \<longleftrightarrow> p = []" for p using kids by (cases p) simp_all
  have root: "1 \<in> T" by (rule tree_okD(2) [OF d])
  have dp: "\<not> (\<not> disable_double_pass_scoring ?c \<and> is_double_pass ?b)" using new_game_goes_on by (simp add: not_over_def)
  obtain h1 N d1 where h1: "Expand ?A ?c keep_order 1 ?b ?pol ?h = (int (card N), h1)" "opens T 1 N ?h h1" "tree_ok h1 1 (T \<union> N) d1"
    "\<And>q. seg h1 1 q \<longleftrightarrow> seg ?h 1 q \<or> (\<exists>p y. q = p @ [y] \<and> y \<in> N \<and> seg ?h 1 p \<and> last (1 # p) = 1)"
    by (rule Expand_opens [where A = ?A and policy = ?pol, OF d root kids keep_order_permutes dp]) (rule that)
  from Backup_result [OF h1(3), of "[]" 1 ?A 0 "int (card N)"] obtain h2 where h2: "Backup ?A 1 0 (int (card N)) h1 = Some h2"
    "same_links h1 h2" "\<And>a. expand_state (h_node h2 a) = expand_state (h_node h1 a)" by auto
  note O = opensD [OF h1(2)]
  have ex: "expand_state (h_node h2 1) = k_expanded" using h2(3) O(6) [OF root] by simp
  have len: "0 < ch_len (h_node h1 1)" using tree_okD(11) [OF h1(3), of 1] root O(6) [OF root] by simp
  then have "N \<noteq> {}" using O(4) by (auto simp: kids_def)
  have un: "expand_state (h_node ?h 1) = k_unexpanded" by (simp add: idle_root fresh_node_def)
  have "root_loop ?A ?c keep_order 1 ?b first_answer (Suc 0) h2 = Some h2"
    by (subst root_loop.simps) (use ex in simp)
  then have loop: "root_loop ?A ?c keep_order 1 ?b first_answer 0 ?h = Some h2"
    by (subst root_loop.simps) (use un h1(1) h2(1) in simp)
  define e where "e = (set_heap h2 (idle_engine\<lparr>m_search := (m_search idle_engine)\<lparr>s_counter := 0\<rparr>, m_search_timer := Timer_Reset 0 (m_search_timer idle_engine)\<rparr>))
    \<lparr>m_search := (m_search idle_engine)\<lparr>s_counter := 0, s_heap := h2, s_running := True\<rparr>, m_is_searching := True\<rparr>"
  have resume: "SearchResume ?A keep_order first_answer (\<lambda>_. 1) 0 idle_engine = Some e"
    using loop by (simp add: SearchResume_def InitRoot_def Let_def e_def set_heap_def default_config_def)
  from engine_run.resume [OF idle_run _ resume] have run: "engine_run ?A flat_weights keep_order raw_memory [] e" by simp
  have f: "heap_of e = h2" "m_root e = 1" "m_is_searching e" "m_config e = ?c" "m_board e = ?b" "parked e" "m_num_moves e = 0" "s_running (m_search e)"
    by (simp_all add: e_def set_heap_def)
  have seg: "seg h2 1 p \<Longrightarrow> p = [] \<or> (\<exists>y\<in>N. p = [y])" for p
    using h1(4) [of p] seg_cong [OF h2(2)] seg0 by auto
  have "shallow e" unfolding shallow_def f using seg by fastforce
  show thesis
    by (rule that [OF run f(3) \<open>shallow e\<close> f(6,4,5) \<open>N \<noteq> {}\<close> f(8)]) (use seg f h2(3) O(5) resume in simp_all)
qed

text \<open>Then a simulation is started, and one is in flight.\<close>

lemma first_simulation:
  obtains e n b where "engine_run real_arith flat_weights keep_order raw_memory [] e" "m_is_searching e" "shallow e"
    "m_config e = plain_config" "s_flying (m_search e) = [(n, b)]"
proof -
  let ?A = real_arith
  obtain e N where e: "engine_run ?A flat_weights keep_order raw_memory [] e" "m_is_searching e" "shallow e" "parked e"
    "m_config e = plain_config" "m_board e = new_game" "s_running (m_search e)"
    "\<And>p. seg (heap_of e) (m_root e) p \<Longrightarrow> p = [] \<or> (\<exists>y\<in>N. p = [y])"
    "\<And>y. y \<in> N \<Longrightarrow> expand_state (h_node (heap_of e) y) = k_unexpanded" by (rule first_search) (rule that)
  obtain T where T: "engine_ok flat_weights raw_memory [] T e" using run_ok [OF e(1) keep_order_permutes] by blast
  note D = engine_okD [OF T]
  from D(5) obtain d v where d: "tree_ok (heap_of e) (m_root e) T d" and v: "played flat_weights (start_board (m_config e) raw_memory) (length []) (m_board e) (m_root e) (heap_of e)"
    by (elim has_treeE) (auto simp: sim_inv_def)
  from Select_spec [OF d played_fits [OF v], of ?A "m_config e"] obtain p b where p: "seg (heap_of e) (m_root e) p"
    "expand_state (h_node (heap_of e) (last (m_root e # p))) \<noteq> k_expanded"
    "Select ?A (m_config e) flat_weights (m_root e) (m_board e) (heap_of e) = Some (last (m_root e # p), b, touch vl_add (m_root e # p) (heap_of e))"
    by blast
  let ?n = "last (m_root e # p)" and ?h = "heap_of e" and ?t = "touch vl_add (m_root e # p) (heap_of e)"
  have "p \<noteq> []" using p(2) D(6) [OF e(2)] by auto
  with e(8) [OF p(1)] e(9) have "expand_state (h_node ?h ?n) = k_unexpanded" by auto
  moreover have "expand_state (h_node ?t ?n) = expand_state (h_node ?h ?n)"
    using select_state [OF p(3) [unfolded Select_def], of ?n]
    by (simp add: add_virtual_loss_def del: touch_simps last.simps)
  ultimately have u: "expand_state (h_node ?t ?n) = k_unexpanded" by simp
  define s where "s = (m_search e)\<lparr>s_heap := set_state k_expanding ?n ?t, s_flying := [(?n, b)]\<rparr>"
  have "begin_simulation ?A (m_config e) flat_weights (m_root e) (m_board e) (m_search e) = Some s"
    using p(3) u e(4) by (simp add: begin_simulation_def s_def del: last.simps touch_simps)
  then have "sim_step ?A (m_config e) keep_order flat_weights (m_root e) (m_board e) (m_search e) s"
    by (intro sim_step.start) (simp_all add: e(4,5,7))
  from engine_run.sim [OF e(1-3) this] have run: "engine_run ?A flat_weights keep_order raw_memory [] (e\<lparr>m_search := s\<rparr>)" .
  have links: "same_links ?h (set_state k_expanding ?n ?t)"
    by (rule same_links_trans [OF touch_links [OF keeps_vl(1)] same_links_state]) (use u in simp_all)
  then have "shallow (e\<lparr>m_search := s\<rparr>)" using e(3) by (simp add: shallow_def s_def seg_cong)
  then show thesis using that [OF run] e by (simp add: s_def)
qed

end
