(* ===== verification/Mcts_Threads.thy ===== *)
theory Mcts_Threads
  imports Mcts_Example Mcts_Search
begin

text \<open>
  What the threads may do while \<open>Search\<close> waits and until they are parked: any steps of a run.
\<close>

definition joins_run :: "'f arith \<Rightarrow> zobrist \<Rightarrow> (nat \<Rightarrow> 'f list \<Rightarrow> nat list \<Rightarrow> nat list) \<Rightarrow> 'f waits \<Rightarrow> bool" where
  "joins_run A Z ne w \<longleftrightarrow> (\<forall>raw hist e k j d b st. engine_run A Z ne raw hist e \<longrightarrow> w_join w k j d e = Some (b, st) \<longrightarrow>
     engine_run A Z ne raw hist (worked st e))"

definition parks :: "'f arith \<Rightarrow> zobrist \<Rightarrow> (nat \<Rightarrow> 'f list \<Rightarrow> nat list \<Rightarrow> nat list) \<Rightarrow> ('f engine \<Rightarrow> 'f search \<times> addr list) \<Rightarrow> bool" where
  "parks A Z ne r \<longleftrightarrow> (\<forall>raw hist e. engine_run A Z ne raw hist e \<longrightarrow>
     engine_run A Z ne raw hist (worked (r e) e) \<and> parked (worked (r e) e))"

definition searching_runs :: "'f arith \<Rightarrow> zobrist \<Rightarrow> (nat \<Rightarrow> 'f list \<Rightarrow> nat list \<Rightarrow> nat list) \<Rightarrow> 'f searching \<Rightarrow> bool" where
  "searching_runs A Z ne W \<longleftrightarrow> joins_run A Z ne (wait_in W) \<and> joins_run A Z ne (wait_over W) \<and> parks A Z ne (rest W)"

lemma worked_fields [simp]:
  "m_config (worked st e) = m_config e" "m_board (worked st e) = m_board e" "m_root (worked st e) = m_root e"
  "m_num_moves (worked st e) = m_num_moves e" "m_is_searching (worked st e) = m_is_searching e"
  "m_search_timer (worked st e) = m_search_timer e" "m_gen_passes (worked st e) = m_gen_passes e"
  "m_pending_config (worked st e) = m_pending_config e" "m_moves_str (worked st e) = m_moves_str e"
  "m_byo_yomi_timer (worked st e) = m_byo_yomi_timer e" "m_search (worked st e) = fst st"
  by (simp_all add: worked_def)

lemma joins_runD: "joins_run A Z ne w \<Longrightarrow> engine_run A Z ne raw hist e \<Longrightarrow> w_join w k j d e = Some (b, st) \<Longrightarrow>
    engine_run A Z ne raw hist (worked st e)"
  unfolding joins_run_def by blast

lemma parksD:
  "parks A Z ne r \<Longrightarrow> engine_run A Z ne raw hist e \<Longrightarrow> engine_run A Z ne raw hist (worked (r e) e)"
  "parks A Z ne r \<Longrightarrow> engine_run A Z ne raw hist e \<Longrightarrow> s_flying (fst (r e)) = []"
  unfolding parks_def by (blast, fastforce)

subsection \<open>Searching is part of a run\<close>

lemma wait_loop_run:
  assumes w: "joins_run A Z ne w" and l: "wait_loop A w ov t check k e = Some r" and run: "engine_run A Z ne raw hist e"
  shows "engine_run A Z ne raw hist (snd (snd r)) \<and> m_is_searching (snd (snd r)) = m_is_searching e \<and>
    m_config (snd (snd r)) = m_config e \<and> m_search_timer (snd (snd r)) = m_search_timer e"
proof -
  let ?G = "\<lambda>A e (r :: bool \<times> nat \<times> 'a engine). engine_run A Z ne raw hist (snd (snd r)) \<and>
    m_is_searching (snd (snd r)) = m_is_searching e \<and> m_config (snd (snd r)) = m_config e \<and> m_search_timer (snd (snd r)) = m_search_timer e"
  let ?P = "\<lambda>A w ov t check k e r. joins_run A Z ne w \<longrightarrow> engine_run A Z ne raw hist e \<longrightarrow> ?G A e r"
  have "?P A w ov t check k e r"
  proof (rule wait_loop.raw_induct [where P = ?P, OF _ l])
    fix loop A w ov t check k e r
    assume IH: "\<And>A w ov t check k e r. loop A w ov t check k e = Some r \<Longrightarrow> ?P A w ov t check k e r"
      and eq: "(if waited_us w k 0 e + check < t then
        Option.bind (w_join w k 0 (Some check) e) (\<lambda>(paused, st).
          let e1 = worked st e
          in if paused then Some (True, k, e1)
             else if stops_early A w k 1 t e1 then
               (if ov then Some (True, k, e1)
                else Option.bind (overtime_us A t e1) (\<lambda>o'.
                  Some (\<not> (o' > 0 \<and> \<not> stops_early A w k 2 (t + o') e1), k, e1)))
             else loop A w ov t check (Suc k) e1)
      else Some (False, k, e)) = Some r"
    show "?P A w ov t check k e r"
    proof (intro impI)
      assume w: "joins_run A Z ne w" and run: "engine_run A Z ne raw hist e"
      show "?G A e r"
      proof (cases "waited_us w k 0 e + check < t")
        case True
        with eq obtain paused st where j: "w_join w k 0 (Some check) e = Some (paused, st)"
          by (auto simp: bind_eq_Some_conv)
        let ?e = "worked st e"
        have run1: "engine_run A Z ne raw hist ?e" by (rule joins_runD [OF w run j])
        from eq True j have "snd (snd r) = ?e \<or> loop A w ov t check (Suc k) ?e = Some r"
          by (auto simp: Let_def bind_eq_Some_conv split: if_splits)
        then show ?thesis
        proof
          assume "loop A w ov t check (Suc k) ?e = Some r"
          from IH [OF this] w run1 show ?thesis by simp
        qed (use run1 in simp)
      qed (use eq run in auto)
    qed
  qed
  with w run show ?thesis by blast
qed

lemma SearchWait_run:
  assumes w: "joins_run A Z ne w" and s: "SearchWait A w t ov e = Some e'" and run: "engine_run A Z ne raw hist e"
  shows "engine_run A Z ne raw hist e' \<and> m_is_searching e' = m_is_searching e \<and> m_config e' = m_config e"
proof -
  consider "e' = e" | k j d b st where "w_join w k j d e = Some (b, st)" "e' = worked st e"
    | c t' r where "wait_loop A w ov t' c 1 e = Some r" "e' = snd (snd r)"
    | c t' r k j d b st where "wait_loop A w ov t' c 1 e = Some r" "w_join w k j d (snd (snd r)) = Some (b, st)" "e' = worked st (snd (snd r))"
  proof (cases "t \<le> 0 \<or> \<not> es_enable (early_stop (m_config e))")
    case True
    then consider "t = 0" | "t < 0" | "\<not> t \<le> 0" "\<not> es_enable (early_stop (m_config e))" by linarith
    then have "e' = e \<or> (\<exists>d. map_option (\<lambda>(_, st). worked st e) (w_join w 0 0 d e) = Some e')"
      by cases (use s in \<open>auto simp: SearchWait_def\<close>)
    then show thesis using that(1,2) by (elim disjE exE) (simp, auto)
  next
    case False
    then have f: "(t = 0) = False" "(t < 0) = False" "(\<not> es_enable (early_stop (m_config e))) = False" by auto
    from s obtain t' c stop k e1 where l: "wait_loop A w ov t' c 1 e = Some (stop, k, e1)"
      and rest: "(if stop \<or> t' - waited_us w k 3 e1 \<le> 0 then Some e1
        else map_option (\<lambda>(_, st). worked st e1) (w_join w k 3 (Some (t' - waited_us w k 3 e1)) e1)) = Some e'"
      unfolding SearchWait_def Let_def f if_False by (auto simp: bind_eq_Some_conv)
    show thesis
    proof (cases "stop \<or> t' - waited_us w k 3 e1 \<le> 0")
      case True
      with rest that(3) [OF l] show thesis by simp
    next
      case False
      with rest obtain b st where "w_join w k 3 (Some (t' - waited_us w k 3 e1)) e1 = Some (b, st)" "e' = worked st e1" by auto
      with that(4) [OF l] show thesis by simp
    qed
  qed
  then show ?thesis
  proof cases
    case 2
    with joins_runD [OF w run] show ?thesis by simp
  next
    case 3
    with wait_loop_run [OF w _ run] show ?thesis by blast
  next
    case 4
    from wait_loop_run [OF w 4(1) run] 4(2,3) show ?thesis using joins_runD [OF w] by fastforce
  qed (use run in simp)
qed

lemma Search_run:
  assumes W: "searching_runs A Z ne W" and s: "Search A ne answers noise now W e = Some e'"
    and run: "engine_run A Z ne raw hist e" and k: "length hist \<le> 253"
  shows "engine_run A Z ne raw hist e' \<and> parked e' \<and> m_config e' = m_config e"
proof -
  from s obtain e1 t ov e2 e3 where e1: "SearchResume A ne answers noise now e = Some e1"
    "SearchWait A (wait_in W) t False e1 = Some e2" "SearchWait A (wait_over W) ov True e2 = Some e3"
    "e' = SearchPause (worked (rest W e3) e3)"
    unfolding Search_def Let_def by (auto simp: bind_eq_Some_conv)
  from W have w: "joins_run A Z ne (wait_in W)" "joins_run A Z ne (wait_over W)" "parks A Z ne (rest W)"
    by (simp_all add: searching_runs_def)
  have "engine_run A Z ne raw hist e1" by (rule engine_run.resume [OF run k e1(1)])
  with SearchWait_run [OF w(1) e1(2)] have e2: "engine_run A Z ne raw hist e2" "m_config e2 = m_config e1" by blast+
  with SearchWait_run [OF w(2) e1(3)] have e3: "engine_run A Z ne raw hist e3" "m_config e3 = m_config e1" by auto
  with parksD [OF w(3) e3(1)] have "engine_run A Z ne raw hist (worked (rest W e3) e3)" "parked (worked (rest W e3) e3)" by simp_all
  then show ?thesis unfolding e1(4) using e3(2) resume_config [OF e1(1)] by (simp add: engine_run.pause)
qed

subsection \<open>Parking\<close>

text \<open>A way to park: every evaluation in flight fails.\<close>

fun give_up :: "'f arith \<Rightarrow> 'f MCTSConfig \<Rightarrow> (nat \<Rightarrow> 'f list \<Rightarrow> nat list \<Rightarrow> nat list) \<Rightarrow> addr \<Rightarrow> nat \<Rightarrow> 'f search \<Rightarrow> 'f search" where
  "give_up A c ne rt 0 s = s"
| "give_up A c ne rt (Suc n) s = (case s_flying s of [] \<Rightarrow> s
     | (x, b) # gs \<Rightarrow> (case simulation_answer A c ne rt x b (- 1) [] (f_lit A 0) (s\<lparr>s_flying := gs\<rparr>) of None \<Rightarrow> s
         | Some s' \<Rightarrow> give_up A c ne rt n s'))"

definition all_fail :: "'f arith \<Rightarrow> (nat \<Rightarrow> 'f list \<Rightarrow> nat list \<Rightarrow> nat list) \<Rightarrow> 'f engine \<Rightarrow> 'f search \<times> addr list" where
  "all_fail A ne e = (give_up A (m_config e) ne (m_root e) (length (s_flying (m_search e))) (m_search e), m_delete_queue e)"

lemma give_up_run:
  assumes ne: "permutes_moves ne"
  shows "engine_run A Z ne raw hist e \<Longrightarrow> length (s_flying (m_search e)) = n \<Longrightarrow>
    engine_run A Z ne raw hist (e\<lparr>m_search := give_up A (m_config e) ne (m_root e) n (m_search e)\<rparr>) \<and>
    s_flying (give_up A (m_config e) ne (m_root e) n (m_search e)) = []"
proof (induction n arbitrary: e)
  case (Suc n)
  obtain x b gs where fl: "s_flying (m_search e) = (x, b) # gs" using Suc.prems(2) by (cases "s_flying (m_search e)") auto
  from run_ok [OF Suc.prems(1) ne] obtain T where T: "engine_ok Z raw hist T e" by blast
  have s: "m_is_searching e" using engine_okD(7) [OF T] fl by auto
  have fl': "s_flying (m_search e) = [] @ (x, b) # gs" using fl by simp
  obtain s' T' where a: "simulation_answer A (m_config e) ne (m_root e) x b (- 1) [] (f_lit A 0) ((m_search e)\<lparr>s_flying := [] @ gs\<rparr>) = Some s'"
    "s_flying s' = [] @ gs" by (rule answer_keeps [OF T s ne _ fl']) auto
  from engine_run.failed [OF Suc.prems(1) s fl' _ a(1)] have run: "engine_run A Z ne raw hist (e\<lparr>m_search := s'\<rparr>)" by simp
  have "length gs = n" using Suc.prems(2) fl by simp
  with Suc.IH [OF run] a show ?case by (simp add: fl)
qed simp

lemma all_fail_parks: "permutes_moves ne \<Longrightarrow> parks A Z ne (all_fail A ne)"
proof -
  assume ne: "permutes_moves ne"
  have "worked (all_fail A ne e) e = e\<lparr>m_search := fst (all_fail A ne e)\<rparr>" for e :: "'a engine" by (simp add: worked_def all_fail_def)
  then show ?thesis unfolding parks_def using give_up_run [OF ne] by (simp add: all_fail_def)
qed

text \<open>Joining finds the threads paused at once.\<close>

definition no_wait :: "'f waits" where
  "no_wait = \<lparr>w_now = (\<lambda>_ _. 0), w_join = (\<lambda>_ _ _ e. Some (True, m_search e, m_delete_queue e))\<rparr>"

definition short_search :: "'f arith \<Rightarrow> (nat \<Rightarrow> 'f list \<Rightarrow> nat list \<Rightarrow> nat list) \<Rightarrow> 'f searching" where
  "short_search A ne = \<lparr>time_at = 0, wait_in = no_wait, wait_over = no_wait, rest = all_fail A ne\<rparr>"

lemma no_wait_runs: "joins_run A Z ne no_wait"
  by (auto simp: joins_run_def no_wait_def worked_def)

lemma short_search_runs: "permutes_moves ne \<Longrightarrow> searching_runs A Z ne (short_search A ne)"
  by (simp add: searching_runs_def short_search_def no_wait_runs all_fail_parks)

end
