(* ===== verification/Mcts_Properties.thy ===== *)
theory Mcts_Properties
  imports Mcts_Threads
begin

text \<open>
  What the engine promises in every run: it plays the game it was told, its search does not
  fail, its counters mean what they say, and its memory is neither lost nor freed twice.
\<close>

subsection \<open>The game\<close>



subsection \<open>The search\<close>



lemma desc_kids_facts:
  assumes ok: "tree_ok h rt T d" and n: "n \<in> T"
  shows "desc h n \<subseteq> T" "finite (desc h n)" "c \<in> set (kids h n) \<Longrightarrow> n \<notin> desc h c"
    "c \<in> set (kids h n) \<Longrightarrow> c' \<in> set (kids h n) \<Longrightarrow> c \<noteq> c' \<Longrightarrow> desc h c \<inter> desc h c' = {}"
proof -
  note del = tree_deletable [OF ok] and K = tree_okD [OF ok]
  show sub: "desc h n \<subseteq> T" using desc_sub(1) [OF del n] by blast
  then show "finite (desc h n)" using K(1) finite_subset by blast
  show "n \<notin> desc h c" if "c \<in> set (kids h n)" using desc_sub(2) [OF del, of c n] K(8) [OF n that] by auto
  show "desc h c \<inter> desc h c' = {}" if "c \<in> set (kids h n)" "c' \<in> set (kids h n)" "c \<noteq> c'"
    using desc_disjoint [OF del, of c c'] K(8) [OF n that(1)] K(8) [OF n that(2)] that(3) by auto
qed

lemma card_desc:
  assumes ok: "tree_ok h rt T d" and n: "n \<in> T"
  shows "card (desc h n) = 1 + (\<Sum>c\<in>set (kids h n). card (desc h c))"
proof -
  note F = desc_kids_facts [OF ok n] and K = tree_okD [OF ok]
  have fin: "finite (desc h c)" if "c \<in> set (kids h n)" for c using desc_kids_facts(2) [OF ok] K(8) [OF n that] by blast
  have "card (\<Union>c\<in>set (kids h n). desc h c) = (\<Sum>c\<in>set (kids h n). card (desc h c))"
    by (rule card_UN_disjoint) (use fin F(4) in auto)
  moreover have "n \<notin> (\<Union>c\<in>set (kids h n). desc h c)" using F(3) by blast
  ultimately show ?thesis unfolding desc_kids [of h n] using fin by (simp add: card_insert_if)
qed

lemma size_is_card:
  assumes ok: "tree_ok h rt T d" and sz: "sizes_ok T h"
  shows "n \<in> T \<Longrightarrow> node_size (h_node h n) = wrap32 (int (card (desc h n)))"
proof (induction "card (desc h n)" arbitrary: n rule: less_induct)
  case less
  note K = tree_okD [OF ok]
  have IH: "node_size (h_node h c) = wrap32 (int (card (desc h c)))" if c: "c \<in> set (kids h n)" for c
  proof -
    have cT: "c \<in> T" using K(8) [OF less.prems c] by simp
    have "desc h c \<subset> desc h n"
      using desc_kids [of h n] c desc_kids_facts(3) [OF ok less.prems c] by auto
    then have "card (desc h c) < card (desc h n)" using desc_kids_facts(2) [OF ok less.prems] psubset_card_mono by blast
    from less.hyps [OF this cT] show ?thesis .
  qed
  have "node_size (h_node h n) = wrap32 (1 + (\<Sum>c\<in>set (kids h n). node_size (h_node h c)))"
    using sz less.prems unfolding sizes_ok_def by blast
  also have "(\<Sum>c\<in>set (kids h n). node_size (h_node h c)) = (\<Sum>c\<in>set (kids h n). wrap32 (int (card (desc h c))))"
    by (rule sum.cong) (use IH in auto)
  also have "wrap32 (1 + \<dots>) = wrap32 (1 + (\<Sum>c\<in>set (kids h n). int (card (desc h c))))" by (rule wrap32_sum) simp
  also have "1 + (\<Sum>c\<in>set (kids h n). int (card (desc h c))) = int (card (desc h n))"
    unfolding card_desc [OF ok less.prems] by simp
  finally show ?case .
qed

lemma tree_is_desc: "tree_ok h rt T d \<Longrightarrow> desc h rt = T"
  using desc_all tree_deletable by blast

text \<open>Claim C21. The counters of the tree: the size of a node is the number of nodes at and below it, its
  visits are one more than those of its children once it is expanded, and its virtual loss is the
  number of simulations in flight through it, except that the root, which is evaluated once
  without a simulation, may be one short. Counters are 32 bits wide.\<close>

theorem counters_add_up:
  assumes "engine_run A Z ne raw hist e" and "permutes_moves ne" and "a \<in> desc (heap_of e) (m_root e)"
  shows "node_size (h_node (heap_of e) a) = wrap32 (int (card (desc (heap_of e) a))) \<and>
    (expand_state (h_node (heap_of e) a) = k_expanded \<longrightarrow>
      visit_count (h_node (heap_of e) a) = wrap32 (1 + (\<Sum>c\<in>set (kids (heap_of e) a). visit_count (h_node (heap_of e) c)))) \<and>
    virtual_loss_count (h_node (heap_of e) a) \<in>
      (\<lambda>x. wrap32 (x + int (length (filter (\<lambda>f. on_way (heap_of e) a (fst f)) (s_flying (m_search e)))))) ` (if a = m_root e then {0, - 1} else {0})"
proof -
  let ?h = "heap_of e"
  from run_ok [OF assms(1,2)] obtain T where T: "engine_ok Z raw hist T e" by blast
  from engine_okD(5) [OF T] obtain w d where
    w: "sim_inv (m_config e) Z (start_board (m_config e) raw) (length hist) (m_board e) (m_root e) w T (m_search e)"
    "w = 0 \<or> w = - 1 \<and> expand_state (h_node ?h (m_root e)) = k_expanded" "tree_ok ?h (m_root e) T d" by (rule has_treeE)
  have a: "a \<in> T" using assms(3) tree_is_desc [OF w(3)] by simp
  have parts: "losses_ok (m_root e) w T (s_flying (m_search e)) ?h" "sizes_ok T ?h"
    "visits_ok (m_config e) Z (m_board e) (m_root e) T ?h" using w(1) by (simp_all add: sim_inv_def)
  have "virtual_loss_count (h_node ?h a) =
      wrap32 ((if a = m_root e then w else 0) + int (length (filter (\<lambda>f. on_way ?h a (fst f)) (s_flying (m_search e)))))"
    using parts(1) a unfolding losses_ok_def by blast
  then have "virtual_loss_count (h_node ?h a) \<in>
      (\<lambda>x. wrap32 (x + int (length (filter (\<lambda>f. on_way ?h a (fst f)) (s_flying (m_search e)))))) ` (if a = m_root e then {0, - 1} else {0})"
    using w(2) by (cases "a = m_root e") auto
  moreover have "expand_state (h_node ?h a) = k_expanded \<longrightarrow>
      visit_count (h_node ?h a) = wrap32 (1 + (\<Sum>c\<in>set (kids ?h a). visit_count (h_node ?h c)))"
    using parts(3) a unfolding visits_ok_def by metis
  ultimately show ?thesis using size_is_card [OF w(3) parts(2) a] by blast
qed

theorem counters_add_up_witness:
  "node_size (h_node (heap_of idle_engine) 1) = wrap32 (int (card (desc (heap_of idle_engine) 1)))"
proof -
  have "1 \<in> desc (heap_of idle_engine) (m_root idle_engine)" by simp
  from counters_add_up [OF idle_run keep_order_permutes this] show ?thesis by blast
qed

subsection \<open>Memory\<close>

lemma queue_drains:
  assumes "engine_ok Z raw hist T e"
  shows "\<exists>e'. delete_rounds (length (m_delete_queue e)) e = Some (int (card (h_live (heap_of e) - T)), e') \<and>
    m_delete_queue e' = [] \<and> h_live (heap_of e') = T \<and> h_node (heap_of e') = h_node (heap_of e) \<and> m_root e' = m_root e"
  using assms
proof (induction "m_delete_queue e" arbitrary: e)
  case Nil
  from engine_okD(5) [OF Nil.prems] obtain d where "tree_ok (heap_of e) (m_root e) T d"
    "forest (heap_of e) (h_live (heap_of e) - T) (m_delete_queue e)" by (auto elim: has_treeE)
  then have "h_live (heap_of e) = T" using Nil.hyps [symmetric] tree_okD(4) by fastforce
  then show ?case using Nil.hyps [symmetric] by simp
next
  case (Cons q qs)
  from engine_okD(5) [OF Cons.prems] obtain d0 where d0: "tree_ok (heap_of e) (m_root e) T d0" by (auto elim: has_treeE)
  obtain n L where L: "delete_step e = Some (n, set_heap (with_live L (heap_of e)) (e\<lparr>m_delete_queue := qs\<rparr>))"
    "engine_ok Z raw hist T (set_heap (with_live L (heap_of e)) (e\<lparr>m_delete_queue := qs\<rparr>))" "L \<subseteq> h_live (heap_of e)"
    "n = int (card (h_live (heap_of e) - L))" by (rule delete_keeps [OF Cons.prems Cons.hyps(2) [symmetric]])
  let ?e = "set_heap (with_live L (heap_of e)) (e\<lparr>m_delete_queue := qs\<rparr>)"
  have q: "qs = m_delete_queue ?e" by (simp add: set_heap_def)
  from Cons.hyps(1) [OF q L(2)] obtain e' where e': "delete_rounds (length qs) ?e = Some (int (card (L - T)), e')"
    "m_delete_queue e' = []" "h_live (heap_of e') = T" "h_node (heap_of e') = h_node (heap_of e)" "m_root e' = m_root e"
    by (auto simp: set_heap_def)
  from engine_okD(5) [OF L(2)] obtain d where "tree_ok (heap_of ?e) (m_root ?e) T d" by (auto elim: has_treeE)
  then have T: "T \<subseteq> L" using tree_okD(4) [of "heap_of ?e"] by (simp add: set_heap_def)
  have "h_live (heap_of e) \<subseteq> {..<h_next (heap_of e)}" using tree_okD(5) [OF d0] by auto
  then have fin: "finite (h_live (heap_of e))" by (rule finite_subset) simp
  have "h_live (heap_of e) - T = (h_live (heap_of e) - L) \<union> (L - T)" using T L(3) by blast
  then have "card (h_live (heap_of e) - T) = card (h_live (heap_of e) - L) + card (L - T)"
    using card_Un_disjoint [of "h_live (heap_of e) - L" "L - T"] fin finite_subset [OF L(3) fin] by auto
  then have "delete_rounds (length (m_delete_queue e)) e = Some (int (card (h_live (heap_of e) - T)), e')"
    using L(1,4) e'(1) by (simp add: Cons.hyps(2) [symmetric])
  with e'(2-5) show ?case by blast
qed



subsection \<open>Taking back\<close>

lemma move_then_undo:
  assumes run: "engine_run A Z ne raw hist e" and ne: "permutes_moves ne" and fl: "parked e" and k: "0 < length hist" "length hist < 253"
    and m: "playable (CoordToId x y)" and mv: "engine_Move A Z ne answers noise now x y e = Some e1" and fl1: "parked e1"
    and bg: "\<not> enable_background_search (m_config e1)"
  shows "\<exists>e2. Undo A Z ne answers' noise' raw now' e1 = Some (True, e2) \<and> m_board e2 = m_board e \<and>
    m_num_moves e2 = m_num_moves e \<and> m_moves_str e2 = m_moves_str e"
proof -
  let ?m = "CoordToId x y"
  from run_ok [OF run ne] obtain T where T: "engine_ok Z raw hist T e" by blast
  from run_ok [OF engine_run.play [OF run fl k(2) m mv] ne] obtain T1 where T1: "engine_ok Z raw (hist @ [?m]) T1 e1" by blast
  note D = engine_okD [OF T] and D1 = engine_okD [OF T1]
  have w: "(if length (hist @ [?m]) = 1 then hist @ [?m] else butlast (hist @ [?m])) = hist" using k(1) by simp
  have p1: "\<forall>m\<in>set hist. playable m" using D(1) .
  have p2: "play_moves Z hist (start_board (m_config e1) raw) = Some (m_board e)"
  proof -
    from move_rules [OF T fl m mv] have "start_board (m_config e1) raw = start_board (m_config e) raw" by (simp add: same_rules_def)
    with D(2) show ?thesis by simp
  qed
  have go: "\<not> s_running (m_search e1) \<or> m_is_searching e1" using D1(8) by blast
  obtain e3 where e3: "fresh_engine Z raw hist e3" "m_board e3 = m_board e"
    "Reset A Z ne answers' noise' raw now' (moves_str hist) e1 =
      (if enable_background_search (m_config e1) then SearchResume A ne answers' noise' now' e3 else Some e3)"
    by (rule reset_engine [OF memory_of_tree [OF D1(5)] fl1 go p1 p2]) (use D1(9) in auto)
  from e3(1) obtain T3 where T3: "engine_ok Z raw hist T3 e3" by (auto simp: fresh_engine_def)
  have len: "length (hist @ [?m]) \<le> 253" using k(2) by simp
  have "Undo A Z ne answers' noise' raw now' e1 = Some (True, e3)"
    using undo_reset [OF T1 len, of A ne answers' noise' raw now'] bg e3(3) unfolding w by simp
  with e3(2) engine_okD(3,4) [OF T3] D(3,4) show ?thesis by simp
qed


lemma pass_accepted:
  assumes "reachable Z (GoState_new sk raw) n H b" and "n \<le> 253"
  shows "\<exists>b'. Move Z COORD_PASS b = Some (0, b')"
  using Move_contract_helper [OF reachable_gs_inv [OF assms(1)] reachable_room [OF assms], of COORD_PASS] assms(2) by auto

text \<open>A first move: the pass.\<close>

lemma first_pass:
  obtains e where "engine_run real_arith flat_weights keep_order raw_memory [COORD_PASS] e" "parked e"
    "m_pending_config e = None" "m_config e = plain_config" "m_num_moves e = 1"
proof -
  obtain b where b: "Move flat_weights COORD_PASS new_game = Some (0, b)"
    using Move_contract_helper [OF new_state_inv [of flat_weights True raw_memory] new_game_room, of COORD_PASS] by auto
  from run_ok [OF idle_run keep_order_permutes] obtain T where T: "engine_ok flat_weights raw_memory [] T idle_engine" by blast
  have m: "playable (CoordToId (- 1) (- 1))" "CoordToId (- 1) (- 1) = COORD_PASS" by (simp_all add: point_defs)
  obtain e5 T' where e5: "engine_ok flat_weights raw_memory ([] @ [CoordToId (- 1) (- 1)]) T' e5" "\<not> m_is_searching e5"
    "m_config e5 = (case m_pending_config idle_engine of None \<Rightarrow> m_config idle_engine | Some c \<Rightarrow> c)" "m_pending_config e5 = None"
    "engine_Move real_arith flat_weights keep_order first_answer (\<lambda>_. 1) 0 (- 1) (- 1) idle_engine =
       (if not_over (m_config e5) b \<and> enable_background_search (m_config e5) then SearchResume real_arith keep_order first_answer (\<lambda>_. 1) 0 e5
        else Some (if not_over (m_config e5) b then e5\<lparr>m_search := (m_search e5)\<lparr>s_counter := 0\<rparr>\<rparr> else e5))"
    by (rule next_engine [where A = real_arith and ne = keep_order, OF T _ m(1)]) (use b m(2) in auto)
  have c: "m_config e5 = plain_config" using e5(3) by simp
  then obtain e1 where e1: "engine_Move real_arith flat_weights keep_order first_answer (\<lambda>_. 1) 0 (- 1) (- 1) idle_engine = Some e1"
    "parked e1" "m_pending_config e1 = None" "m_config e1 = plain_config" "m_num_moves e1 = 1"
    using e5(2,4,5) engine_okD(3,7) [OF e5(1)] by (auto simp: default_config_def)
  have "engine_run real_arith flat_weights keep_order raw_memory ([] @ [CoordToId (- 1) (- 1)]) e1"
    by (rule engine_run.play [OF idle_run _ _ m(1) e1(1)]) simp_all
  then show thesis using that e1 m(2) by simp
qed


text \<open>Taking back the only move does nothing: the length of the string less three wraps around, the
  whole string is replayed, and \<open>Undo\<close> reports success on an unchanged game.\<close>

theorem undo_of_the_only_move:
  assumes run: "engine_run A Z ne raw hist e" and ne: "permutes_moves ne" and fl: "parked e" and k: "length hist = 1"
    and bg: "\<not> enable_background_search (m_config e)"
  shows "\<exists>e'. Undo A Z ne answers noise raw now e = Some (True, e') \<and> m_num_moves e' = 1 \<and> m_board e' = m_board e \<and>
    m_moves_str e' = m_moves_str e"
proof -
  from run_ok [OF run ne] obtain T where T: "engine_ok Z raw hist T e" by blast
  note D = engine_okD [OF T]
  have go: "\<not> s_running (m_search e) \<or> m_is_searching e" using D(8) by blast
  have w: "(if length hist = 1 then hist else butlast hist) = hist" "hist \<noteq> []" "length hist \<le> 253" using k by auto
  obtain e3 where e3: "fresh_engine Z raw hist e3" "m_board e3 = m_board e"
    "Reset A Z ne answers noise raw now (moves_str hist) e =
      (if enable_background_search (m_config e) then SearchResume A ne answers noise now e3 else Some e3)"
    by (rule reset_engine [OF memory_of_tree [OF D(5)] fl go D(1,2)]) (use D(9) in auto)
  from e3(1) obtain T3 where T3: "engine_ok Z raw hist T3 e3" by (auto simp: fresh_engine_def)
  have "Undo A Z ne answers noise raw now e = Some (True, e3)"
    using undo_reset [OF T w(3,2), of A ne answers noise raw now] bg e3(3) unfolding w(1) by simp
  with e3(2) engine_okD(3,4) [OF T3] D(4) k show ?thesis by simp
qed

theorem undo_of_the_only_move_witness:
  "\<exists>(e :: real engine) e'. m_num_moves e = 1 \<and>
    Undo real_arith flat_weights keep_order first_answer (\<lambda>_. 1) raw_memory 0 e = Some (True, e') \<and> m_num_moves e' = 1 \<and> m_board e' = m_board e"
proof -
  obtain e where e: "engine_run real_arith flat_weights keep_order raw_memory [COORD_PASS] e" "parked e"
    "m_pending_config e = None" "m_config e = plain_config" "m_num_moves e = 1" by (rule first_pass) (rule that)
  have bg: "\<not> enable_background_search (m_config e)" using e(4) by (simp add: default_config_def)
  have one: "length [COORD_PASS] = 1" by simp
  from undo_of_the_only_move [where answers = first_answer and noise = "\<lambda>_. 1" and now = 0, OF e(1) keep_order_permutes e(2) one bg] e(5)
  show ?thesis by blast
qed

subsection \<open>Generating a move\<close>

text \<open>Claim C20. A search starts, that is, the evaluation of the root ends, exactly when the root has been expanded
  already and is kept, or the game goes on and some evaluation of it succeeds. After a double pass, with
  scoring on, \<open>InitRoot\<close> evaluates for ever.\<close>

theorem search_starts_iff:
  assumes run: "engine_run A Z ne raw hist e" and ne: "permutes_moves ne" and k: "length hist \<le> 253"
  shows "SearchResume A ne answers noise now e \<noteq> None \<longleftrightarrow> m_is_searching e \<or>
    (disable_double_pass_scoring (m_config e) \<or> \<not> is_double_pass (m_board e)) \<and> (\<exists>i. fst (answers i) = 0) \<or>
    expand_state (h_node (heap_of e) (m_root e)) = k_expanded \<and> \<not> clear_search_tree_per_move (m_config e)"
proof -
  from run_ok [OF run ne] obtain T where T: "engine_ok Z raw hist T e" by blast
  have "SearchResume A ne answers noise now e \<noteq> None \<longleftrightarrow> can_search answers e"
    using resume_go [OF T] resume_ok [OF T ne k] by (metis not_None_eq)
  then show ?thesis by (simp add: can_search_def not_over_def)
qed

theorem search_starts_iff_witness:
  "SearchResume real_arith keep_order first_answer (\<lambda>_. 1) 0 idle_engine \<noteq> None \<and>
   SearchResume real_arith keep_order (\<lambda>_. (- 1, [], 0)) (\<lambda>_. 1) 0 idle_engine = None"
  using search_starts_iff [OF idle_run keep_order_permutes, of first_answer "\<lambda>_. 1" 0]
    search_starts_iff [OF idle_run keep_order_permutes, of "\<lambda>_. (- 1, [], 0)" "\<lambda>_. 1" 0]
    new_game_goes_on idle_root by (simp add: not_over_def fresh_node_def)

lemma Move_playable: "Move Z m b = Some r \<Longrightarrow> playable m"
  by (auto simp: Move_def IsLegal_def IsPass_def split: if_splits)

lemma child_legal:
  assumes ok: "engine_ok Z raw hist T e" and a: "a \<in> set (kids (heap_of e) (m_root e))"
  shows "\<exists>b. Move Z (mv (heap_of e) a) (m_board e) = Some (0, b)"
proof -
  from engine_okD(5) [OF ok] obtain w where
    "sim_inv (m_config e) Z (start_board (m_config e) raw) (length hist) (m_board e) (m_root e) w T (m_search e)" by (rule has_treeE)
  then have "fits (heap_of e) Z (m_root e) (m_board e)" unfolding sim_inv_def using played_fits by blast
  from fits_child [OF this a] show ?thesis by blast
qed

lemma best_choice_less: "xs \<noteq> [] \<Longrightarrow> best_choice A mode xs = Some i \<Longrightarrow> i < length xs"
  using max_element_less [of "map st_visits xs" "(<)"] max_element_less [of "map st_total xs" "f_lt A"]
    max_element_less [of "map st_mean xs" "f_lt A"] max_element_less [of "map st_prior xs" "f_lt A"]
    max_element_less [of "map st_value xs" "f_lt A"]
  by (auto simp: best_choice_def split: if_splits)

lemma guarded_choice: "(if a \<or> length xs \<le> i then None else Some (f (xs ! i))) = Some m \<Longrightarrow> \<exists>i. i < length xs \<and> m = f (xs ! i)"
  by (cases "a \<or> length xs \<le> i") (auto intro!: exI [of _ i])

lemma chosen_child:
  "GetBestMove A c g h rt = Some (m, v) \<Longrightarrow> m = COORD_RESIGN \<or> (\<exists>a\<in>set (kids h rt). m = mv h a)"
  "GetSamplingMove A c g sample t h rt = Some m \<Longrightarrow> \<exists>a\<in>set (kids h rt). m = mv h a"
proof -
  assume g: "GetBestMove A c g h rt = Some (m, v)"
  let ?xs = "map (stats_of A (IsPassDisable c g)) (map (h_node h) (kids h rt))"
  from g have ne: "kids h rt \<noteq> []" by (auto simp: GetBestMove_def split: if_splits)
  from g obtain i where i: "best_choice A (get_best_move_mode c) ?xs = Some i" "m = COORD_RESIGN \<or> m = node_move (map (h_node h) (kids h rt) ! i)"
    by (auto simp: GetBestMove_def Let_def bind_eq_Some_conv split: if_splits)
  have "i < length (kids h rt)" using best_choice_less [OF _ i(1)] ne by (simp del: length_kids)
  then have "kids h rt ! i \<in> set (kids h rt)" "map (h_node h) (kids h rt) ! i = h_node h (kids h rt ! i)" by simp_all
  with i(2) show "m = COORD_RESIGN \<or> (\<exists>a\<in>set (kids h rt). m = mv h a)" by metis
next
  assume g: "GetSamplingMove A c g sample t h rt = Some m"
  then have "\<exists>i. i < length (map (h_node h) (kids h rt)) \<and> m = node_move (map (h_node h) (kids h rt) ! i)"
    unfolding GetSamplingMove_def Let_def by (rule guarded_choice)
  then obtain i where i: "i < length (kids h rt)" "m = node_move (map (h_node h) (kids h rt) ! i)"
    unfolding length_map by blast
  then have "kids h rt ! i \<in> set (kids h rt)" "m = mv h (kids h rt ! i)" by (simp_all del: length_kids)
  then show "\<exists>a\<in>set (kids h rt). m = mv h a" by blast
qed

lemma accepted_coords: "playable m \<Longrightarrow> CoordToId (fst (IdToCoord m)) (snd (IdToCoord m)) = m"
  by (auto simp: point_defs)

lemma GenMove_keeps:
  assumes run: "engine_run A Z ne raw hist e" and ne: "permutes_moves ne" and k: "length hist \<le> 253"
    and W: "searching_runs A Z ne W" and g: "GenMove A ne answers noise now W sample e = Some (((x, y), counts, v), e')"
  shows "engine_run A Z ne raw hist e' \<and> (parked e \<longrightarrow> parked e') \<and> m_config e' = m_config e \<and>
    (IsResignXY x y \<or> (\<exists>b. Move Z (CoordToId x y) (m_board e') = Some (0, b)))"
proof -
  define e0 where "e0 = ensure_clock A now e"
  have run0: "engine_run A Z ne raw hist e0" unfolding e0_def by (rule run_ensure_clock [OF run])
  have fl0: "m_search e0 = m_search e" "m_config e0 = m_config e" by (simp_all add: e0_def)
  show ?thesis
  proof (cases "enable_pass_pass (m_config e0) \<and> last_position (m_board e0) = COORD_PASS \<and> \<not> IsPassDisable (m_config e0) (m_gen_passes e0)")
    case True
    with g have xy: "x = COORD_PASS" "y = COORD_PASS" "e' = e0\<lparr>m_gen_passes := m_gen_passes e0 + 1\<rparr>"
      unfolding GenMove_def Let_def e0_def [symmetric] by simp_all
    from run_ok [OF run0 ne] obtain T where "engine_ok Z raw hist T e0" by blast
    from engine_reachable [OF this] obtain H where "reachable Z (start_board (m_config e0) raw) (length hist) H (m_board e0)" by blast
    from pass_accepted [OF this k] xy engine_run.passes [OF run0] fl0 show ?thesis by (simp add: point_defs)
  next
    case False
    with g obtain e2 where e2: "Search A ne answers noise now W e0 = Some e2"
      unfolding GenMove_def Let_def e0_def [symmetric] by (auto simp: bind_eq_Some_conv split: if_splits)
    from Search_run [OF W e2 run0 k] have run2: "engine_run A Z ne raw hist e2" "parked e2" "m_config e2 = m_config e" by (simp_all add: e0_def)
    let ?X = "if f_eq A (genmove_temperature (m_config e0)) (f_lit A 0)
      then GetBestMove A (m_config e0) (m_gen_passes e2) (heap_of e2) (m_root e2)
      else map_option (\<lambda>m. (m, f_lit A 1)) (GetSamplingMove A (m_config e0) (m_gen_passes e2) sample
        (genmove_temperature (m_config e0)) (heap_of e2) (m_root e2))"
    from g have "map_option (\<lambda>(m, v). ((IdToCoord m, GetVisitCount (heap_of e2) (m_root e2), v),
        if m = COORD_PASS then e2\<lparr>m_gen_passes := m_gen_passes e2 + 1\<rparr> else e2)) ?X = Some (((x, y), counts, v), e')"
      unfolding GenMove_def Let_def e0_def [symmetric] by (simp only: False if_False e2 Option.bind.bind_lunit)
    then obtain m w where X: "?X = Some (m, w)" and m: "IdToCoord m = (x, y)"
      "e' = (if m = COORD_PASS then e2\<lparr>m_gen_passes := m_gen_passes e2 + 1\<rparr> else e2)" by (cases ?X) auto
    have chosen: "m = COORD_RESIGN \<or> (\<exists>a\<in>set (kids (heap_of e2) (m_root e2)). m = mv (heap_of e2) a)"
    proof (cases "f_eq A (genmove_temperature (m_config e0)) (f_lit A 0)")
      case True
      with X chosen_child(1) show ?thesis by simp
    next
      case False
      with X have "GetSamplingMove A (m_config e0) (m_gen_passes e2) sample (genmove_temperature (m_config e0)) (heap_of e2) (m_root e2) = Some m"
        by auto
      from chosen_child(2) [OF this] show ?thesis by blast
    qed
    have run': "engine_run A Z ne raw hist e'" "parked e'" "m_config e' = m_config e" using m(2) run2 engine_run.passes by auto
    have board: "m_board e' = m_board e2" using m(2) by simp
    from run_ok [OF run2(1) ne] obtain T where T: "engine_ok Z raw hist T e2" by blast
    from chosen have "m = COORD_RESIGN \<or> (\<exists>b. Move Z m (m_board e2) = Some (0, b))" using child_legal [OF T] by blast
    then show ?thesis
    proof
      assume "m = COORD_RESIGN"
      with m(1) run' show ?thesis by (auto simp: point_defs)
    next
      assume b: "\<exists>b. Move Z m (m_board e2) = Some (0, b)"
      then have "CoordToId x y = m" using accepted_coords [of m] Move_playable m(1) by (metis fst_conv snd_conv)
      with b run' board show ?thesis by simp
    qed
  qed
qed

lemma resume_num: "SearchResume A ne answers noise now e = Some e' \<Longrightarrow> m_num_moves e' = m_num_moves e \<and> m_board e' = m_board e"
  unfolding SearchResume_def InitRoot_def Let_def
  by (auto simp: bind_eq_Some_conv set_heap_def change_root_def split: if_splits prod.splits)

lemma move_result:
  assumes "engine_Move A Z ne answers noise now x y e = Some e'" and False: "\<not> IsResignXY x y"
  shows "Move Z (CoordToId x y) (m_board e) = Some (0, m_board e') \<and> m_num_moves e' = m_num_moves e + 1"
proof -
  from assms obtain b where b: "Move Z (CoordToId x y) (m_board e) = Some (0, b)"
    by (auto simp: engine_Move_def Let_def MoveXY_def bind_eq_Some_conv split: if_splits)
  define e1 where "e1 = SearchPause (ensure_clock A now e)"
  define e2 where "e2 = e1\<lparr>m_board := b, m_num_moves := m_num_moves e1 + 1, m_moves_str := append_move (m_moves_str e1) (CoordToStr x y),
    m_show_moves_str := append_move (m_show_moves_str e1) (CoordToMoveStr x y)\<rparr>"
  define e3 where "e3 = set_root_move (CoordToId x y) (change_root A (FindChild (heap_of e2) (m_root e2) (CoordToId x y)) e2)"
  define e4 where "e4 = e3\<lparr>m_byo_yomi_timer := ByoYomi_HandOff A now (m_byo_yomi_timer e3)\<rparr>"
  define e5 where "e5 = (case m_pending_config e4 of None \<Rightarrow> e4 | Some c \<Rightarrow> e4\<lparr>m_config := c, m_pending_config := None\<rparr>)"
  have n: "m_num_moves e5 = m_num_moves e + 1" "m_board e5 = b"
    by (simp_all add: e5_def e4_def e3_def e2_def e1_def split: option.split)
  have nr: "IsResignXY x y = False" and zero: "((0::int) \<noteq> 0) = False" using False by simp_all
  have b': "Move Z (CoordToId x y) (m_board (SearchPause (ensure_clock A now e))) = Some (0, b)" using b by simp
  have "engine_Move A Z ne answers noise now x y e =
      (if \<not> disable_double_pass_scoring (m_config e5) \<and> is_double_pass (m_board e5) then Some e5
       else if enable_background_search (m_config e5) then SearchResume A ne answers noise now e5
       else Some (e5\<lparr>m_search := (m_search e5)\<lparr>s_counter := 0\<rparr>\<rparr>))"
    by (simp only: engine_Move_def Let_def MoveXY_def nr b' zero Option.bind.bind_lunit split_conv if_False
        e5_def e4_def e3_def e2_def e1_def)
  with assms have "e' = e5 \<or> SearchResume A ne answers noise now e5 = Some e' \<or> e' = e5\<lparr>m_search := (m_search e5)\<lparr>s_counter := 0\<rparr>\<rparr>"
    by (auto split: if_splits)
  with n b show ?thesis by (auto dest: resume_num)
qed

lemma move_num:
  assumes "engine_Move A Z ne answers noise now x y e = Some e'"
  shows "m_num_moves e' = m_num_moves e + (if IsResignXY x y then 0 else 1)"
  using move_result [OF assms] assms by (auto simp: engine_Move_def Let_def split: if_splits)

lemma resume_pending: "SearchResume A ne answers noise now e = Some e' \<Longrightarrow> m_pending_config e' = m_pending_config e"
  unfolding SearchResume_def InitRoot_def Let_def
  by (auto simp: bind_eq_Some_conv set_heap_def change_root_def split: if_splits prod.splits)

lemma example_genmove:
  obtains x y counts v e' where "GenMove real_arith keep_order first_answer (\<lambda>_. 1) 0 (short_search real_arith keep_order) (\<lambda>_. 0) idle_engine =
      Some (((x, y), counts, v), e')" "m_pending_config e' = None"
proof -
  have e0: "ensure_clock real_arith 0 idle_engine = idle_engine" by (simp add: ensure_clock_def default_config_def f_gt_def)
  obtain e where e: "engine_run real_arith flat_weights keep_order raw_memory [] e" "m_is_searching e" "parked e" "m_config e = plain_config"
    "SearchResume real_arith keep_order first_answer (\<lambda>_. 1) 0 idle_engine = Some e" by (rule first_search) (rule that)
  obtain T where T: "engine_ok flat_weights raw_memory [] T e" using run_ok [OF e(1) keep_order_permutes] by blast
  from engine_okD(5) [OF T] obtain d where d: "tree_ok (heap_of e) (m_root e) T d" by (auto elim: has_treeE)
  note K = tree_okD [OF d]
  have kids: "kids (heap_of e) (m_root e) \<noteq> []" "length (kids (heap_of e) (m_root e)) \<le> 362"
    using K(10,11) [OF K(2)] engine_okD(6) [OF T e(2)] by (simp_all add: kids_def)
  have mode: "get_best_move_mode plain_config \<in> {0, 1, 2, 3, 4}" "resign_mode plain_config \<in> {0, 1, 2, 3}" by (simp_all add: default_config_def)
  have pf: "\<not> enable_pass_pass plain_config" "genmove_temperature plain_config = 0" by (simp_all add: default_config_def)
  obtain m v where b: "GetBestMove real_arith plain_config (m_gen_passes e) (heap_of e) (m_root e) = Some (m, v)"
    using GetBestMove_spec [OF kids mode refl refl] by blast
  obtain x y where xy: "IdToCoord m = (x, y)" by fastforce
  have t: "GetSearchTimeoutUs real_arith plain_config now n c clock = - 1" for now n c clock
    by (simp add: GetSearchTimeoutUs_def default_config_def)
  have "Search real_arith keep_order first_answer (\<lambda>_. 1) 0 (short_search real_arith keep_order) idle_engine = Some (SearchPause e)"
    using e(3,4,5) t by (simp add: Search_def short_search_def SearchWait_def no_wait_def overtime_us_def GetSearchOvertimeUs_def all_fail_def worked_def)
  then have "\<exists>counts e'. GenMove real_arith keep_order first_answer (\<lambda>_. 1) 0 (short_search real_arith keep_order) (\<lambda>_. 0) idle_engine =
      Some (((x, y), counts, v), e') \<and> m_pending_config e' = m_pending_config e"
    using b xy pf by (simp add: GenMove_def e0 Let_def)
  then show thesis using that resume_pending [OF e(5)] by (metis idle_fields(6))
qed

text \<open>Claim C13. A generated move is a resignation or a move the board accepts, so that \<open>Move\<close> does not abort on it.
  The threads may do any steps of a run while the search waits, and the random choice may be any.\<close>

theorem generated_move_is_legal:
  assumes "engine_run A Z ne raw hist e" and "permutes_moves ne" and "length hist \<le> 253" and "searching_runs A Z ne W"
    and "GenMove A ne answers noise now W sample e = Some (((x, y), counts, v), e')"
  shows "engine_run A Z ne raw hist e' \<and>
    (IsResignXY x y \<or> (\<exists>b. Move Z (CoordToId x y) (m_board e') = Some (0, b)))"
  using GenMove_keeps [OF assms] by blast

theorem generated_move_is_legal_witness:
  "\<exists>x y counts v e'. GenMove real_arith keep_order first_answer (\<lambda>_. 1) 0 (short_search real_arith keep_order) (\<lambda>_. 0) idle_engine = Some (((x, y), counts, v), e') \<and>
    (IsResignXY x y \<or> (\<exists>b. Move flat_weights (CoordToId x y) (m_board e') = Some (0, b)))"
proof -
  obtain x y counts v e' where g: "GenMove real_arith keep_order first_answer (\<lambda>_. 1) 0 (short_search real_arith keep_order) (\<lambda>_. 0) idle_engine =
      Some (((x, y), counts, v), e')" by (rule example_genmove)
  have k: "length [] \<le> 253" by simp
  from generated_move_is_legal [OF idle_run keep_order_permutes k short_search_runs [OF keep_order_permutes] g] g show ?thesis by blast
qed

end
