(* ===== verification/Mcts_Walks.thy ===== *)
theory Mcts_Walks
  imports Mcts_Properties
begin

text \<open>
  What one simulation does to the tree: the way down, the way up, and how many there are.
\<close>

subsection \<open>The child that is chosen\<close>

text \<open>The score of a child \<open>y\<close> of \<open>x\<close> as the rule has it, \<open>Q + U\<close>: \<open>Q\<close> is the mean value, or the
  default for a child not yet tried, \<open>U\<close> the prior times the square root of the visits of all the
  children over one more than its own. Virtual losses count as lost visits, in \<open>Q\<close> unless
  the mode has bit 1 and in \<open>U\<close> unless it has bit 0.\<close>

definition puct :: "'f arith \<Rightarrow> 'f MCTSConfig \<Rightarrow> 'f TreeNode \<Rightarrow> 'f TreeNode list \<Rightarrow> 'f TreeNode \<Rightarrow> 'f" where
  "puct A c x ys y =
     (let loss = (\<lambda>z. f_mul A (f_of_int A (virtual_loss_count z)) (virtual_loss c));
          mean = (\<lambda>z w. f_div A (f_div A w (f_of_int A (2 ^ 16))) (f_of_int A (visit_count z)));
          parent_mean = mean x (f_neg A (f_of_int A (total_action x)));
          untried = (if \<not> inherit_default_act c \<or> visit_count x = 0 then default_act c
                     else if f_lt A (f_lit A 0) (inherit_default_act_factor c)
                     then f_mul A parent_mean (inherit_default_act_factor c) else parent_mean);
          Q = (if visit_count y = 0 \<and> f_eq A (loss y) (f_lit A 0) then untried
               else if odd (virtual_loss_mode c div 2) then mean y (f_of_int A (total_action y))
               else f_div A (f_sub A (f_div A (f_of_int A (total_action y)) (f_of_int A (2 ^ 16))) (loss y))
                      (f_add A (f_of_int A (visit_count y)) (loss y)));
          visits = f_of_int A (\<Sum>z\<leftarrow>ys. visit_count z);
          tries = (if odd (virtual_loss_mode c) then visits
                   else f_add A visits (foldl (f_add A) (f_lit A 0) (map loss ys)));
          own = f_of_int A (1 + visit_count y);
          U = f_div A (f_mul A (f_mul A (c_puct c) (prior_prob y)) (f_max A (f_sqrt A tries) (f_lit A 1)))
                (if odd (virtual_loss_mode c) then own else f_add A own (loss y))
      in f_add A Q U)"

lemma bits_clear: "bit_clear m 1 \<longleftrightarrow> even m" "bit_clear m 2 \<longleftrightarrow> even (m div 2)"
  using and_exp_eq_0_iff_not_bit [of m 1] by (simp_all add: bit_clear_def and_one_eq even_iff_mod_2_eq_zero bit_iff_odd)

lemma fold_sum: "fold (\<lambda>x s. s + f x) xs (s :: int) = s + (\<Sum>x\<leftarrow>xs. f x)"
  by (induction xs arbitrary: s) auto

lemma accumulate_foldl: "accumulate A xs s = foldl (f_add A) s xs"
  by (simp add: accumulate_def foldl_conv_fold)

lemma child_score_puct: "child_score A c (default_action A c x) (sqrt_visits A c ys) y = puct A c x ys y"
  unfolding child_score_def default_action_def sqrt_visits_def puct_def Let_def
  by (simp add: child_loss_def [abs_def] child_action_def bits_clear fold_sum accumulate_foldl f_gt_def)

text \<open>With exact arithmetic, in the default mode, for a child that has been tried.\<close>

lemma puct_real:
  assumes "virtual_loss_mode c = 0" and "0 < visit_count y" "0 \<le> virtual_loss_count y" "0 < virtual_loss c"
  shows "puct real_arith c x ys y =
    (total_action y / 65536 - virtual_loss_count y * virtual_loss c) / (visit_count y + virtual_loss_count y * virtual_loss c) +
    c_puct c * prior_prob y * max (sqrt ((\<Sum>z\<leftarrow>ys. visit_count z) + (\<Sum>z\<leftarrow>ys. virtual_loss_count z * virtual_loss c))) 1 /
      (1 + visit_count y + virtual_loss_count y * virtual_loss c)"
proof -
  have f: "foldl (+) s xs = s + sum_list xs" for s :: real and xs by (induction xs arbitrary: s) auto
  have p16: "real_of_int (2 ^ 16) = 65536" by simp
  have n: "visit_count y \<noteq> 0" "\<not> odd (virtual_loss_mode c)" "\<not> odd (virtual_loss_mode c div 2)" using assms by simp_all
  show ?thesis
    unfolding puct_def Let_def real_arith_simps f_max_real f using n
    by (simp only: if_False simp_thms of_rat_0 of_rat_1 add_0_left of_int_add of_int_1 add.assoc p16)
qed

text \<open>The child kept by the loop of \<open>SelectChild\<close> is the first with the largest score.\<close>

lemma better_first_max:
  assumes "strict_weak (f_lt A) (s ` set cs)" and "cs \<noteq> []"
  shows "\<exists>i < length cs. fold (better A s) cs None = Some (cs ! i) \<and> best_index (f_lt A) (map s cs) (length cs) i"
  using assms
proof (induction cs rule: rev_induct)
  case (snoc x cs)
  have sw: "strict_weak (f_lt A) (set (map s (cs @ [x])))" using snoc.prems(1) by simp
  show ?case
  proof (cases "cs = []")
    case True
    with strict_weak_irrefl [OF sw, of "s x"] show ?thesis by (simp add: better_def best_index_def)
  next
    case False
    have "s ` set cs \<subseteq> s ` set (cs @ [x])" by auto
    with snoc.prems(1) have "strict_weak (f_lt A) (s ` set cs)" unfolding strict_weak_def by (meson subsetD)
    with snoc.IH False obtain i where i: "i < length cs" "fold (better A s) cs None = Some (cs ! i)"
      "best_index (f_lt A) (map s cs) (length cs) i" by blast
    from i(1,3) have "best_index (f_lt A) (map s (cs @ [x])) (length cs) i"
      by (auto simp: best_index_def nth_append)
    from best_index_step [OF sw this] have "best_index (f_lt A) (map s (cs @ [x])) (length (cs @ [x]))
        (if f_lt A (s (cs ! i)) (s x) then length cs else i)" using i(1) by (simp add: nth_append)
    moreover have "fold (better A s) (cs @ [x]) None = (if f_lt A (s (cs ! i)) (s x) then Some x else Some (cs ! i))"
      using i(2) by (simp add: better_def [of A s x] f_gt_def)
    ultimately show ?thesis using i(1)
      by (intro exI [of _ "if f_lt A (s (cs ! i)) (s x) then length cs else i"]) (auto simp: nth_append)
  qed
qed simp

definition best_child :: "'f arith \<Rightarrow> 'f MCTSConfig \<Rightarrow> 'f heap \<Rightarrow> addr \<Rightarrow> addr \<Rightarrow> bool" where
  "best_child A c h x y \<longleftrightarrow>
     (let ys = kids h x; score = (\<lambda>z. puct A c (h_node h x) (map (h_node h) ys) (h_node h z))
      in y \<in> set ys \<and> (strict_weak (f_lt A) (score ` set ys) \<longrightarrow>
           (\<exists>i < length ys. y = ys ! i \<and> (\<forall>j < length ys. \<not> f_lt A (score y) (score (ys ! j))) \<and>
              (\<forall>j < i. f_lt A (score (ys ! j)) (score y)))))"

lemma SelectChild_best:
  assumes "SelectChild A c h n = Some y" and y: "y \<in> set (kids h n)"
  shows "best_child A c h n y"
proof -
  let ?s = "\<lambda>z. puct A c (h_node h n) (map (h_node h) (kids h n)) (h_node h z)"
  from assms(1) have ne: "kids h n \<noteq> []" and f: "fold (better A ?s) (kids h n) None = Some y"
    by (auto simp: SelectChild_def Let_def child_score_puct kids_def split: if_splits)
  have "\<exists>i < length (kids h n). y = kids h n ! i \<and> (\<forall>j < length (kids h n). \<not> f_lt A (?s y) (?s (kids h n ! j))) \<and>
      (\<forall>j < i. f_lt A (?s (kids h n ! j)) (?s y))" if sw: "strict_weak (f_lt A) (?s ` set (kids h n))"
  proof -
    from better_first_max [OF sw ne] f obtain i where "i < length (kids h n)" "y = kids h n ! i"
      "best_index (f_lt A) (map ?s (kids h n)) (length (kids h n)) i" by auto
    then show ?thesis by (intro exI [of _ i]) (auto simp: best_index_def simp del: length_kids)
  qed
  with y show ?thesis by (simp add: best_child_def Let_def del: length_kids)
qed

lemma seg_step: "seg h n p \<Longrightarrow> k < length p \<Longrightarrow> p ! k \<in> set (kids h ((n # p) ! k))"
proof (induction p arbitrary: n k)
  case (Cons x p)
  then show ?case by (cases k) auto
qed simp

lemma follows_nth: "follows A c h n p \<Longrightarrow> k < length p \<Longrightarrow> SelectChild A c h ((n # p) ! k) = Some (p ! k)"
proof (induction p arbitrary: n k)
  case (Cons x p)
  then show ?case by (cases k) auto
qed simp

subsection \<open>Down and back\<close>

text \<open>Claim C22. \<open>Select\<close> walks down from the root, over expanded nodes, to the first node that is not expanded. At
  every node of the way it goes to a child with the largest score \<open>puct\<close>, the first of these (where the scores of the
  children are ordered, which fails only for NaN); it plays the moves of the way, all of them legal, and adds a
  virtual loss to every node of the way, changing nothing else. \<open>UndoVirtualLoss\<close> from the end of
  the way restores the tree.\<close>

theorem select_and_undo:
  assumes "engine_run A Z ne raw hist e" and "permutes_moves ne"
  shows "\<exists>p b h. Select A (m_config e) Z (m_root e) (m_board e) (heap_of e) = Some (last (m_root e # p), b, h) \<and>
    (\<forall>k < length p. expand_state (h_node (heap_of e) ((m_root e # p) ! k)) = k_expanded \<and>
      best_child A (m_config e) (heap_of e) ((m_root e # p) ! k) (p ! k)) \<and>
    expand_state (h_node (heap_of e) (last (m_root e # p))) \<noteq> k_expanded \<and>
    play_moves Z (map (mv (heap_of e)) p) (m_board e) = Some b \<and>
    h = (heap_of e)\<lparr>h_node := (\<lambda>a. if a \<in> set (m_root e # p)
       then (h_node (heap_of e) a)\<lparr>virtual_loss_count := wrap32 (virtual_loss_count (h_node (heap_of e) a) + 1)\<rparr>
       else h_node (heap_of e) a)\<rparr> \<and>
    UndoVirtualLoss (last (m_root e # p)) h = Some (heap_of e)"
proof -
  let ?h = "heap_of e" and ?rt = "m_root e"
  from run_ok [OF assms] obtain T where T: "engine_ok Z raw hist T e" by blast
  from engine_okD(5) [OF T] obtain w d where
    w: "sim_inv (m_config e) Z (start_board (m_config e) raw) (length hist) (m_board e) ?rt w T (m_search e)" and ok: "tree_ok ?h ?rt T d"
    by (rule has_treeE)
  from w have pl: "played Z (start_board (m_config e) raw) (length hist) (m_board e) ?rt ?h"
    and vl: "losses_ok ?rt w T (s_flying (m_search e)) ?h" by (simp_all add: sim_inv_def)
  from Select_spec [OF ok played_fits [OF pl], of A "m_config e"] obtain p b where p: "seg ?h ?rt p"
    "play_moves Z (map (mv ?h) p) (m_board e) = Some b" "expand_state (h_node ?h (last (?rt # p))) \<noteq> k_expanded"
    "follows A (m_config e) ?h ?rt p"
    "Select A (m_config e) Z ?rt (m_board e) ?h = Some (last (?rt # p), b, touch vl_add (?rt # p) ?h)" by blast
  from seg_tree [OF ok tree_okD(2) [OF ok] p(1)] have sub: "set (?rt # p) \<subseteq> T" and dist: "distinct (?rt # p)" by blast+
  have "\<exists>g. \<forall>a\<in>set (?rt # p). virtual_loss_count (h_node ?h a) = wrap32 (g a)"
    by (intro bchoice) (use losses_range [OF vl] sub in blast)
  then obtain g where "\<And>a. a \<in> set (?rt # p) \<Longrightarrow> virtual_loss_count (h_node ?h a) = wrap32 (g a)" by blast
  from undo_after_select [OF ok p(1) this] have undo: "UndoVirtualLoss (last (?rt # p)) (touch vl_add (?rt # p) ?h) = Some ?h" .
  have "h_node (touch vl_add (?rt # p) ?h) = (\<lambda>a. if a \<in> set (?rt # p)
       then (h_node ?h a)\<lparr>virtual_loss_count := wrap32 (virtual_loss_count (h_node ?h a) + 1)\<rparr> else h_node ?h a)"
    unfolding touch_node [OF dist] by simp
  then have h: "touch vl_add (?rt # p) ?h = ?h\<lparr>h_node := (\<lambda>a. if a \<in> set (?rt # p)
       then (h_node ?h a)\<lparr>virtual_loss_count := wrap32 (virtual_loss_count (h_node ?h a) + 1)\<rparr> else h_node ?h a)\<rparr>"
    by (simp del: touch_simps)
  have step: "expand_state (h_node ?h ((?rt # p) ! k)) = k_expanded \<and> best_child A (m_config e) ?h ((?rt # p) ! k) (p ! k)"
    if k: "k < length p" for k
  proof -
    have kid: "p ! k \<in> set (kids ?h ((?rt # p) ! k))" using seg_step [OF p(1) k] .
    have "(?rt # p) ! k \<in> set (?rt # p)" by (rule nth_mem) (use k in simp)
    then have "(?rt # p) ! k \<in> T" using sub by blast
    with kid tree_okD(11) [OF ok] have "expand_state (h_node ?h ((?rt # p) ! k)) = k_expanded" by (auto simp: kids_def)
    with SelectChild_best [OF follows_nth [OF p(4) k] kid] show ?thesis by blast
  qed
  show ?thesis
    by (intro exI [of _ p] exI [of _ b] exI [of _ "touch vl_add (?rt # p) ?h"] conjI allI impI p(2,3,5) h undo step)
qed

theorem select_and_undo_witness:
  "\<exists>(e :: real engine) x b h. m_is_searching e \<and> x \<noteq> m_root e \<and> x \<in> set (kids (heap_of e) (m_root e)) \<and>
    Select real_arith plain_config flat_weights (m_root e) new_game (heap_of e) = Some (x, b, h) \<and>
    (\<forall>y\<in>set (kids (heap_of e) (m_root e)).
      puct real_arith plain_config (h_node (heap_of e) (m_root e)) (map (h_node (heap_of e)) (kids (heap_of e) (m_root e))) (h_node (heap_of e) y)
      \<le> puct real_arith plain_config (h_node (heap_of e) (m_root e)) (map (h_node (heap_of e)) (kids (heap_of e) (m_root e))) (h_node (heap_of e) x)) \<and>
    UndoVirtualLoss x h = Some (heap_of e)"
proof -
  obtain e N where e: "engine_run real_arith flat_weights keep_order raw_memory [] e" "m_is_searching e" "m_config e = plain_config"
    "m_board e = new_game" "\<And>p. seg (heap_of e) (m_root e) p \<Longrightarrow> p = [] \<or> (\<exists>y\<in>N. p = [y])"
    "\<And>y. y \<in> N \<Longrightarrow> expand_state (h_node (heap_of e) y) = k_unexpanded" by (rule first_search) (rule that)
  from run_ok [OF e(1) keep_order_permutes] obtain T where T: "engine_ok flat_weights raw_memory [] T e" by blast
  note ex = engine_okD(6) [OF T e(2)]
  from engine_okD(5) [OF T] obtain d where ok: "tree_ok (heap_of e) (m_root e) T d" by (rule has_treeE)
  let ?h = "heap_of e" and ?rt = "m_root e"
  let ?s = "\<lambda>y. puct real_arith plain_config (h_node ?h ?rt) (map (h_node ?h) (kids ?h ?rt)) (h_node ?h y)"
  have sw: "strict_weak (f_lt real_arith) S" for S using strict_weak_linorder [of S] by simp
  from select_and_undo [OF e(1) keep_order_permutes] obtain p b h where
    p: "Select real_arith plain_config flat_weights ?rt new_game ?h = Some (last (?rt # p), b, h)"
      "\<forall>k < length p. expand_state (h_node ?h ((?rt # p) ! k)) = k_expanded \<and> best_child real_arith plain_config ?h ((?rt # p) ! k) (p ! k)"
      "UndoVirtualLoss (last (?rt # p)) h = Some ?h" "expand_state (h_node ?h (last (?rt # p))) \<noteq> k_expanded"
    unfolding e(3,4) by blast
  from p(4) ex have "p \<noteq> []" by auto
  then obtain y q where y: "p = y # q" by (cases p) auto
  with p(2) have b0: "best_child real_arith plain_config ?h ?rt y" by fastforce
  then have kid: "y \<in> set (kids ?h ?rt)" by (simp add: best_child_def Let_def)
  have "q = []"
  proof (rule ccontr)
    assume "q \<noteq> []"
    then have "0 < length q" by simp
    with p(2) y have "expand_state (h_node ?h y) = k_expanded" by (metis Suc_less_eq length_Cons nth_Cons_Suc nth_Cons_0)
    moreover have "y \<in> N" using e(5) [of "[y]"] kid by auto
    ultimately show False using e(6) by simp
  qed
  moreover have "\<forall>z\<in>set (kids ?h ?rt). ?s z \<le> ?s y"
    using b0 sw by (simp add: best_child_def Let_def del: length_kids) (metis in_set_conv_nth not_less)
  moreover have "y \<noteq> ?rt" using tree_okD(8) [OF ok tree_okD(2) [OF ok] kid] by auto
  ultimately show ?thesis using p(1,3) e(2) y kid by auto
qed

lemma backed_up_fields: "h_live (backed_up len w p h) = h_live h" "h_next (backed_up len w p h) = h_next h"
  by (induction p arbitrary: h w) simp_all

text \<open>Claim C23. \<open>Backup\<close> from a node of the tree ends. At the node it sets the value; there and at every node on
  the way up to the root it adds the number of new children to the size, counts a visit, takes off
  a virtual loss and adds the value to the total, with a sign that alternates from node to node;
  nothing else of these nodes changes, no other node, and nothing is allocated or freed. (The
  value, scaled, fits 64 bits; the counters wrap.)\<close>

theorem backup_alternates:
  assumes ok: "tree_ok h rt T d" and p: "seg h rt p" and w: "w = f_scale A k_action_value_base v" "\<bar>w\<bar> < 2 ^ 63"
  shows "\<exists>h'. Backup A (last (rt # p)) v len h = Some h' \<and>
    (\<forall>k < length (rt # p). let a = rev (rt # p) ! k; x = h_node h a in
      h_node h' a = x\<lparr>node_size := wrap32 (node_size x + len), visit_count := wrap32 (visit_count x + 1),
        virtual_loss_count := wrap32 (virtual_loss_count x - 1),
        total_action := wrap64 (total_action x + (if even k then w else - w)),
        node_value := (if k = 0 then v else node_value x)\<rparr>) \<and>
    (\<forall>a. a \<notin> set (rt # p) \<longrightarrow> h_node h' a = h_node h a) \<and> h_live h' = h_live h \<and> h_next h' = h_next h"
proof -
  let ?n = "last (rt # p)" and ?P = "rev (rt # p)"
  let ?h = "upd ?n (\<lambda>x. x\<lparr>node_value := v\<rparr>) h"
  have links: "same_links h ?h" by (rule same_links_upd) (simp add: keeps_links_def)
  have "up ?h ?P" using seg_up [of ?h rt T d p] ok p tree_ok_cong [OF links] seg_cong [OF links] by simp
  moreover have hd: "hd ?P = ?n" by (simp only: hd_rev)
  ultimately have b: "Backup A ?n v len h = Some (backed_up len w ?P ?h)"
    using backup_up [of ?h ?P len w] w(1) by (simp only: Backup_def)
  have dist: "distinct ?P" using seg_tree [OF ok tree_okD(2) [OF ok] p] by (simp only: distinct_rev)
  have first: "?P ! k = ?n \<longleftrightarrow> k = 0" if "k < length ?P" for k
    using nth_eq_iff_index_eq [OF dist that, of 0] hd hd_conv_nth [of ?P] by simp
  have on: "let a = ?P ! k; x = h_node h a in
      h_node (backed_up len w ?P ?h) a = x\<lparr>node_size := wrap32 (node_size x + len), visit_count := wrap32 (visit_count x + 1),
        virtual_loss_count := wrap32 (virtual_loss_count x - 1),
        total_action := wrap64 (total_action x + (if even k then w else - w)),
        node_value := (if k = 0 then v else node_value x)\<rparr>" if "k < length (rt # p)" for k
  proof -
    have k': "k < length ?P" using that by simp
    have fl: "flipped w k = (if even k then w else - w)" by (rule flipped_small) (use w(2) in auto)
    have "h_node (backed_up len w ?P ?h) (?P ! k) = backup_node len (if even k then w else - w) (h_node ?h (?P ! k))"
      using backed_up_node [OF dist k', of len w ?h] fl by simp
    also have "h_node ?h (?P ! k) = (if k = 0 then (h_node h (?P ! k))\<lparr>node_value := v\<rparr> else h_node h (?P ! k))"
      using first [OF k'] by (cases "k = 0") (simp_all only: upd_fields fun_upd_def if_True if_False simp_thms)
    finally show ?thesis unfolding Let_def by (simp add: backup_node_def)
  qed
  have "h_node (backed_up len w ?P ?h) a = h_node h a" if "a \<notin> set (rt # p)" for a
  proof -
    have "?n \<in> set (rt # p)" by (rule last_in_set) simp
    then have "a \<noteq> ?n" using that by blast
    moreover have "a \<notin> set ?P" using that unfolding set_rev .
    ultimately show ?thesis using backed_up_other [of a ?P len w ?h] by simp
  qed
  with b on backed_up_fields [of len w ?P ?h] show ?thesis
    by (intro exI [of _ "backed_up len w ?P ?h"] conjI allI impI) (simp_all only: upd_fields)
qed

subsection \<open>How many simulations\<close>


theorem backup_alternates_witness:
  "\<exists>(e :: real engine) y h'. m_is_searching e \<and> y \<in> set (kids (heap_of e) (m_root e)) \<and>
    Backup real_arith y (1/2) 7 (heap_of e) = Some h' \<and>
    total_action (h_node h' y) = wrap64 (total_action (h_node (heap_of e) y) + 32768) \<and>
    total_action (h_node h' (m_root e)) = wrap64 (total_action (h_node (heap_of e) (m_root e)) - 32768)"
proof -
  obtain e N where e: "engine_run real_arith flat_weights keep_order raw_memory [] e" "m_is_searching e" by (rule first_search) (rule that)
  from run_ok [OF e(1) keep_order_permutes] obtain T where T: "engine_ok flat_weights raw_memory [] T e" by blast
  from engine_okD(5) [OF T] obtain d where ok: "tree_ok (heap_of e) (m_root e) T d" by (rule has_treeE)
  let ?h = "heap_of e" and ?rt = "m_root e"
  have "0 < ch_len (h_node ?h ?rt)" using tree_okD(11) [OF ok tree_okD(2) [OF ok]] engine_okD(6) [OF T e(2)] by simp
  then have "kids ?h ?rt \<noteq> []" by (simp add: kids_def)
  then have y: "hd (kids ?h ?rt) \<in> set (kids ?h ?rt)" by (rule hd_in_set)
  let ?y = "hd (kids ?h ?rt)"
  from y have p: "seg ?h ?rt [?y]" by simp
  have w: "(32768::int) = f_scale real_arith k_action_value_base (1/2)" "\<bar>32768 :: int\<bar> < 2 ^ 63"
    by (simp_all add: k_action_value_base_def truncate_real_def)
  from backup_alternates [OF ok p w, of 7] obtain h' where h': "Backup real_arith ?y (1/2) 7 ?h = Some h'"
    and on: "\<And>k. k < 2 \<Longrightarrow> total_action (h_node h' ([?y, ?rt] ! k)) =
      wrap64 (total_action (h_node ?h ([?y, ?rt] ! k)) + (if even k then 32768 else - 32768))"
    by (auto simp: Let_def)
  from on [of 0] on [of 1] y h' e(2) show ?thesis by auto
qed


end
