(* ===== verification/Mcts_Time.thy ===== *)
theory Mcts_Time
  imports Mcts_Walks
begin

text \<open>
  Waiting for the search ends, in time, and a move is always generated.
\<close>

subsection \<open>The checks during a wait\<close>

definition known_modes :: "'f MCTSConfig \<Rightarrow> bool" where
  "known_modes c \<longleftrightarrow> get_best_move_mode c \<in> {0, 1, 2, 3, 4} \<and> resign_mode c \<in> {0, 1, 2, 3}"

lemma searched_root:
  assumes run: "engine_run A Z ne raw hist e" and ne: "permutes_moves ne" and s: "m_is_searching e"
  shows "kids (heap_of e) (m_root e) \<noteq> []" "length (kids (heap_of e) (m_root e)) \<le> 362" "0 \<notin> set (kids (heap_of e) (m_root e))"
proof -
  from run_ok [OF run ne] obtain T where T: "engine_ok Z raw hist T e" by blast
  from engine_okD(5) [OF T] obtain d where d: "tree_ok (heap_of e) (m_root e) T d" by (auto elim: has_treeE)
  note K = tree_okD [OF d]
  show "kids (heap_of e) (m_root e) \<noteq> []" "length (kids (heap_of e) (m_root e)) \<le> 362"
    using K(10,11) [OF K(2)] engine_okD(6) [OF T s] by (simp_all add: kids_def)
  show "0 \<notin> set (kids (heap_of e) (m_root e))" using K(8) [OF K(2), of 0] K(3) by blast
qed

lemma find_child_of_move:
  assumes "a \<in> set (kids h n)" and "0 \<notin> set (kids h n)"
  shows "FindChild h n (mv h a) \<noteq> nullptr"
proof -
  have "List.find (\<lambda>c. mv h c = mv h a) (kids h n) \<noteq> None" using assms(1) by (auto simp: find_None_iff)
  then obtain c where c: "List.find (\<lambda>c. mv h c = mv h a) (kids h n) = Some c" by blast
  then have "c \<in> set (kids h n)" by (auto simp: find_Some_iff)
  with assms(2) have "c \<noteq> 0" by metis
  with c show ?thesis by (simp add: FindChild_def)
qed

lemma overtime_known:
  assumes run: "engine_run A Z ne raw hist e" and ne: "permutes_moves ne" and s: "m_is_searching e" and m: "known_modes (m_config e)"
  shows "overtime_us A t e \<noteq> None"
proof -
  note R = searched_root [OF run ne s]
  let ?c = "m_config e" and ?h = "heap_of e" and ?rt = "m_root e"
  from m have m': "get_best_move_mode ?c \<in> {0, 1, 2, 3, 4}" "resign_mode ?c \<in> {0, 1, 2, 3}" by (simp_all add: known_modes_def)
  obtain bm v where b: "GetBestMove A ?c (m_gen_passes e) ?h ?rt = Some (bm, v)"
    using GetBestMove_spec [OF R(1,2) m' refl refl] by blast
  have "bm = COORD_RESIGN \<or> FindChild ?h ?rt bm \<noteq> nullptr"
    using chosen_child(1) [OF b] find_child_of_move [OF _ R(3)] by blast
  then have "CheckBehind A ?c (m_gen_passes e) ?h ?rt \<noteq> None" unfolding CheckBehind_def by (auto simp: Let_def b)
  then show ?thesis unfolding overtime_us_def GetSearchOvertimeUs_def by auto
qed

subsection \<open>The wait\<close>

lemma wait_loop_ends:
  assumes w: "joins_run A Z ne w" and ne: "permutes_moves ne" and m: "known_modes c"
    and J: "\<And>k d e'. us (w_now w k 0) tm + d \<le> t \<Longrightarrow> w_join w k 0 (Some d) e' \<noteq> None"
    and K: "t \<le> us (w_now w K 0) tm + check"
  shows "k \<le> K \<Longrightarrow> engine_run A Z ne raw hist e \<Longrightarrow> m_is_searching e \<Longrightarrow> m_search_timer e = tm \<Longrightarrow> m_config e = c \<Longrightarrow>
    wait_loop A w ov t check k e \<noteq> None"
proof (induction "K - k" arbitrary: k e)
  case 0
  with K show ?case by (subst wait_loop.simps) (simp add: waited_us_def)
next
  case (Suc n)
  show ?case
  proof (cases "waited_us w k 0 e + check < t")
    case True
    have "w_join w k 0 (Some check) e \<noteq> None" by (rule J) (use True Suc.prems in \<open>simp add: waited_us_def\<close>)
    then obtain paused st where j: "w_join w k 0 (Some check) e = Some (paused, st)" by auto
    have run: "engine_run A Z ne raw hist (worked st e)" by (rule joins_runD [OF w Suc.prems(2) j])
    have n: "n = K - Suc k" "Suc k \<le> K" using Suc.hyps(2) by linarith+
    from Suc.hyps(1) [OF n run] Suc.prems obtain r where r: "wait_loop A w ov t check (Suc k) (worked st e) = Some r"
      by (auto simp del: not_None_eq)
    have "overtime_us A t (worked st e) \<noteq> None" by (rule overtime_known [OF run ne]) (use Suc.prems m in auto)
    then obtain x where x: "overtime_us A t (worked st e) = Some x" by blast
    show ?thesis using True by (subst wait_loop.simps) (simp add: j r x Let_def del: not_None_eq)
  qed (subst wait_loop.simps, simp)
qed

lemma SearchWait_ends:
  assumes run: "engine_run A Z ne raw hist e" and ne: "permutes_moves ne" and s: "m_is_searching e" and m: "known_modes (m_config e)"
    and w: "joins_run A Z ne w" and t: "0 < timeout" "deadline = waited_us w 0 0 e + timeout"
    and J: "\<And>k j d e'. waited_us w k j e + d \<le> deadline \<Longrightarrow> w_join w k j (Some d) e' \<noteq> None"
    and K: "0 < K" "deadline \<le> waited_us w K 0 e + check_every_ms (early_stop (m_config e)) * 1000"
  shows "\<exists>e'. SearchWait A w timeout ov e = Some e' \<and> engine_run A Z ne raw hist e' \<and> m_is_searching e'"
proof -
  let ?check = "check_every_ms (early_stop (m_config e)) * 1000"
  have "SearchWait A w timeout ov e \<noteq> None"
  proof (cases "es_enable (early_stop (m_config e))")
    case False
    have "w_join w 0 0 (Some timeout) e \<noteq> None" by (rule J) (simp add: t)
    with False t(1) show ?thesis by (simp add: SearchWait_def)
  next
    case True
    have "wait_loop A w ov deadline ?check 1 e \<noteq> None"
      by (rule wait_loop_ends [OF w ne m _ _ _ run s refl refl, of _ K]) (use J K in \<open>simp_all add: waited_us_def\<close>)
    then obtain stop k e1 where l: "wait_loop A w ov deadline ?check 1 e = Some (stop, k, e1)" by auto
    from wait_loop_run [OF w l run] have "m_search_timer e1 = m_search_timer e" by simp
    then have "waited_us w k 3 e1 = waited_us w k 3 e" by (simp add: waited_us_def)
    moreover have "w_join w k 3 (Some (deadline - waited_us w k 3 e)) e1 \<noteq> None" by (rule J) simp
    ultimately show ?thesis using True t l by (auto simp: SearchWait_def Let_def add.commute)
  qed
  then obtain e' where "SearchWait A w timeout ov e = Some e'" by blast
  with SearchWait_run [OF w this run] s show ?thesis by blast
qed

text \<open>Every \<open>Join\<close> returns and the clock goes on.\<close>

definition joins_return :: "'f waits \<Rightarrow> bool" where
  "joins_return w \<longleftrightarrow> (\<forall>k j d e. w_join w k j d e \<noteq> None) \<and> (\<forall>t. \<exists>K>0. t \<le> w_now w K 0)"

lemma sdiv_1000: "0 \<le> (a::int) \<Longrightarrow> a sdiv 1000 = a div 1000"
  by (cases "a = 0") (simp_all add: signed_divide_int_def)

lemma SearchWait_timely:
  assumes run: "engine_run A Z ne raw hist e" and ne: "permutes_moves ne" and s: "m_is_searching e" and m: "known_modes (m_config e)"
    and w: "joins_run A Z ne w" and jr: "joins_return w"
  shows "SearchWait A w timeout ov e \<noteq> None"
proof (cases "0 < timeout")
  case True
  let ?c = "check_every_ms (early_stop (m_config e)) * 1000" and ?t = "m_start (m_search_timer e)"
  let ?d = "waited_us w 0 0 e + timeout"
  obtain K where K: "K > 0" "?t + 1000 * max 0 (?d - ?c) \<le> w_now w K 0" using jr unfolding joins_return_def by blast
  then have le: "1000 * max 0 (?d - ?c) \<le> w_now w K 0 - ?t" by simp
  then have "max 0 (?d - ?c) \<le> (w_now w K 0 - ?t) div 1000" using zdiv_mono1 [OF le, of 1000] by simp
  moreover have "0 \<le> 1000 * max 0 (?d - ?c)" by simp
  then have "0 \<le> w_now w K 0 - ?t" using le by (rule order_trans)
  ultimately have "?d \<le> waited_us w K 0 e + ?c" by (simp add: waited_us_def us_def sdiv_1000)
  moreover have "w_join w k j (Some d) e' \<noteq> None" for k j d e' using jr unfolding joins_return_def by blast
  ultimately show ?thesis using SearchWait_ends [OF run ne s m w True refl _ K(1)] by blast
next
  case False
  moreover have "w_join w 0 0 None e \<noteq> None" using jr unfolding joins_return_def by blast
  ultimately show ?thesis by (auto simp: SearchWait_def)
qed

text \<open>Claim C17. A wait with a time limit ends, and in time: if the clock goes on, it suffices that a timed \<open>Join\<close>
  returns whenever it would be over by the deadline, so that no \<open>Join\<close> is started that lasts longer
  than that, whatever the early-stop checks decide on the way.\<close>

theorem wait_ends_in_time:
  assumes "engine_run A Z ne raw hist e" and "permutes_moves ne" and "m_is_searching e" and "known_modes (m_config e)"
    and "joins_run A Z ne w" and "0 < timeout" and "deadline = waited_us w 0 0 e + timeout"
    and "\<And>k j d e'. waited_us w k j e + d \<le> deadline \<Longrightarrow> w_join w k j (Some d) e' \<noteq> None"
    and "0 < K" and "deadline \<le> waited_us w K 0 e + check_every_ms (early_stop (m_config e)) * 1000"
  shows "\<exists>e'. SearchWait A w timeout ov e = Some e' \<and> engine_run A Z ne raw hist e' \<and> m_is_searching e'"
  by (rule SearchWait_ends [OF assms])

lemma resume_timer:
  assumes "SearchResume A ne answers noise now e = Some e'" and "\<not> m_is_searching e"
  shows "m_start (m_search_timer e') = now"
proof -
  define e1 where "e1 = e\<lparr>m_search := (m_search e)\<lparr>s_counter := 0\<rparr>, m_search_timer := Timer_Reset now (m_search_timer e)\<rparr>"
  define e2 where "e2 = (if clear_search_tree_per_move (m_config e1) then change_root A nullptr e1 else e1)"
  have "m_search_timer e2 = Timer_Reset now (m_search_timer e)"
    by (simp add: e2_def e1_def change_root_def set_heap_def split: prod.split)
  moreover obtain e3 where "InitRoot A ne answers noise e2 = Some e3" "m_search_timer e' = m_search_timer e3"
    using assms unfolding SearchResume_def e2_def e1_def Let_def by auto
  ultimately show ?thesis by (auto simp: InitRoot_def Let_def bind_eq_Some_conv set_heap_def Timer_Reset_def split: if_splits)
qed

text \<open>A clock that ticks, threads that never pause by themselves, and a \<open>Join\<close> that refuses to go beyond 5 microseconds.\<close>

definition ticking :: "int \<Rightarrow> real waits" where
  "ticking limit = \<lparr>w_now = (\<lambda>k _. 1000 * int k),
     w_join = (\<lambda>k _ d e. case d of Some u \<Rightarrow> if int k + u \<le> limit then Some (False, m_search e, m_delete_queue e) else None
                          | None \<Rightarrow> Some (True, m_search e, m_delete_queue e))\<rparr>"

lemma ticking_runs: "joins_run A Z ne (ticking limit)"
  by (auto simp: joins_run_def ticking_def worked_def split: option.splits if_splits)

theorem wait_ends_in_time_witness:
  "\<exists>e e'. m_is_searching e \<and> SearchWait real_arith (ticking 5) 5 False e = Some e' \<and>
    engine_run real_arith flat_weights keep_order raw_memory [] e'"
proof -
  obtain e where e: "engine_run real_arith flat_weights keep_order raw_memory [] e" "m_is_searching e" "m_config e = plain_config"
    "SearchResume real_arith keep_order first_answer (\<lambda>_. 1) 0 idle_engine = Some e" by (rule first_search) (rule that)
  have "m_start (m_search_timer e) = 0" by (rule resume_timer [OF e(4)]) simp
  then have w: "waited_us (ticking 5) k j e = int k" for k j by (simp add: waited_us_def us_def ticking_def sdiv_1000)
  have m: "known_modes (m_config e)" using e(3) by (simp add: known_modes_def default_config_def)
  have t: "(0::int) < 5" "(5::int) = waited_us (ticking 5) 0 0 e + 5" "(0::nat) < 5"
    "5 \<le> waited_us (ticking 5) 5 0 e + check_every_ms (early_stop (m_config e)) * 1000"
    using e(3) by (simp_all add: w default_config_def)
  have J: "w_join (ticking 5) k j (Some d) e' \<noteq> None" if "waited_us (ticking 5) k j e + d \<le> 5" for k j d e'
    using that [unfolded w] by (simp add: ticking_def del: not_None_eq)
  from wait_ends_in_time [OF e(1) keep_order_permutes e(2) m ticking_runs t(1,2) J t(3,4), of False] e(2)
  show ?thesis by blast
qed

subsection \<open>A move is generated\<close>

text \<open>Claim C16. \<open>GenMove\<close> returns: if the search can start, every \<open>Join\<close> returns, the clock goes on, the modes
  are known ones and the random choice is one of the children, then it generates a move.\<close>

theorem genmove_returns:
  assumes run: "engine_run A Z ne raw hist e" and ne: "permutes_moves ne" and k: "length hist \<le> 253"
    and start: "SearchResume A ne answers noise now (ensure_clock A now e) \<noteq> None"
    and W: "searching_runs A Z ne W" and m: "known_modes (m_config e)"
    and w: "joins_return (wait_in W)" "joins_return (wait_over W)" and sample: "\<And>ps. ps \<noteq> [] \<Longrightarrow> sample ps < length ps"
  shows "GenMove A ne answers noise now W sample e \<noteq> None"
proof -
  define e0 where "e0 = ensure_clock A now e"
  have run0: "engine_run A Z ne raw hist e0" "m_config e0 = m_config e" unfolding e0_def using run_ensure_clock [OF run] by simp_all
  from W have W': "joins_run A Z ne (wait_in W)" "joins_run A Z ne (wait_over W)" "parks A Z ne (rest W)"
    by (simp_all add: searching_runs_def)
  from start obtain e1 where e1: "SearchResume A ne answers noise now e0 = Some e1" by (auto simp: e0_def)
  have run1: "engine_run A Z ne raw hist e1" by (rule engine_run.resume [OF run0(1) k e1])
  have s1: "m_is_searching e1" "m_config e1 = m_config e" using e1 resume_config [OF e1] run0(2)
    by (auto simp: SearchResume_def Let_def split: if_splits)
  define t where "t = GetSearchTimeoutUs A (m_config e1) (time_at W) (m_num_moves e1) (current_player (m_board e1)) (m_byo_yomi_timer e1)"
  obtain e2 where e2: "SearchWait A (wait_in W) t False e1 = Some e2"
    using SearchWait_timely [OF run1 ne s1(1) _ W'(1) w(1)] m s1(2) by auto
  from SearchWait_run [OF W'(1) e2 run1] s1 have run2: "engine_run A Z ne raw hist e2" "m_is_searching e2" "m_config e2 = m_config e" by auto
  obtain ov where ov: "overtime_us A t e2 = Some ov" using overtime_known [OF run2(1) ne run2(2)] m run2(3) by fastforce
  obtain e3 where e3: "SearchWait A (wait_over W) ov True e2 = Some e3"
    using SearchWait_timely [OF run2(1) ne run2(2) _ W'(2) w(2)] m run2(3) by auto
  from SearchWait_run [OF W'(2) e3 run2(1)] run2 have run3: "engine_run A Z ne raw hist e3" "m_is_searching e3" by auto
  define e4 where "e4 = worked (rest W e3) e3"
  have run4: "engine_run A Z ne raw hist e4" "m_is_searching e4"
    using parksD(1) [OF W'(3) run3(1)] run3(2) by (simp_all add: e4_def)
  note R = searched_root [OF run4(1) ne run4(2)]
  have S: "Search A ne answers noise now W e0 = Some (SearchPause e4)"
    by (simp add: Search_def e1 t_def [symmetric] e2 ov e3 e4_def)
  have R': "kids (heap_of (SearchPause e4)) (m_root (SearchPause e4)) \<noteq> []" "length (kids (heap_of (SearchPause e4)) (m_root (SearchPause e4))) \<le> 362"
    using R(1,2) by simp_all
  from m have m': "get_best_move_mode (m_config e) \<in> {0, 1, 2, 3, 4}" "resign_mode (m_config e) \<in> {0, 1, 2, 3}" by (simp_all add: known_modes_def)
  have "GetBestMove A (m_config e) (m_gen_passes (SearchPause e4)) (heap_of (SearchPause e4)) (m_root (SearchPause e4)) \<noteq> None"
    using GetBestMove_spec [OF R' m' refl refl] by blast
  moreover have "GetSamplingMove A (m_config e) (m_gen_passes (SearchPause e4)) sample tmp (heap_of (SearchPause e4)) (m_root (SearchPause e4)) \<noteq> None" for tmp
  proof -
    let ?cs = "map (h_node (heap_of (SearchPause e4))) (kids (heap_of (SearchPause e4)) (m_root (SearchPause e4)))"
    have "sample (map f ?cs) < length ?cs" for f using sample [of "map f ?cs"] R'(1) by (simp del: length_kids)
    moreover have "length ?cs \<le> 362" using R'(2) by simp
    ultimately show ?thesis unfolding GetSamplingMove_def Let_def by (simp del: length_kids length_map add: not_le)
  qed
  ultimately show ?thesis unfolding GenMove_def Let_def e0_def [symmetric] run0(2) S by (simp del: not_None_eq)
qed

text \<open>A clock that ticks, and threads that never pause by themselves.\<close>

definition ticking_on :: "real waits" where
  "ticking_on = \<lparr>w_now = (\<lambda>k _. 1000 * int k), w_join = (\<lambda>_ _ _ e. Some (False, m_search e, m_delete_queue e))\<rparr>"

theorem genmove_returns_witness:
  "GenMove real_arith keep_order first_answer (\<lambda>_. 1) 0 (short_search real_arith keep_order\<lparr>wait_in := ticking_on, wait_over := ticking_on\<rparr>)
     (\<lambda>_. 0) idle_engine \<noteq> None"
proof -
  have "SearchResume real_arith keep_order first_answer (\<lambda>_. 1) 0 (ensure_clock real_arith 0 idle_engine) \<noteq> None"
    by (rule first_search) (simp add: ensure_clock_def default_config_def f_gt_def)
  moreover have "searching_runs real_arith flat_weights keep_order (short_search real_arith keep_order\<lparr>wait_in := ticking_on, wait_over := ticking_on\<rparr>)"
    using all_fail_parks [OF keep_order_permutes] by (auto simp: searching_runs_def short_search_def joins_run_def ticking_on_def worked_def)
  moreover have "known_modes (m_config idle_engine)" by (simp add: known_modes_def default_config_def)
  moreover have "\<exists>K>0. t \<le> 1000 * int K" for t by (intro exI [of _ "Suc (nat t)"]) simp
  then have "joins_return ticking_on" by (simp add: joins_return_def ticking_on_def del: not_None_eq)
  ultimately show ?thesis using genmove_returns [OF idle_run keep_order_permutes] by simp
qed

end
