(* ===== verification/Gtp_Session.thy ===== *)
theory Gtp_Session
  imports Gtp Mcts_Time
begin

text \<open>
  What a GTP session promises: notation read back as written, one reply for each command, and an engine
  that stays in the runs of \<open>engine_run\<close>, so that all that is proved of them holds in every session.
\<close>

subsection \<open>The engine in a session\<close>

abbreviation gtp_run :: "'f platform \<Rightarrow> GoCoordId list \<Rightarrow> 'f engine \<Rightarrow> bool" where
  "gtp_run P hist e \<equiv> engine_run (p_arith P) (p_zobrist P) (p_nth P) (p_raw P) hist e"

text \<open>\<open>c0\<close> is a configuration with the rules in force.\<close>

definition engine_in :: "'f platform \<Rightarrow> 'f MCTSConfig \<Rightarrow> 'f engine \<Rightarrow> bool" where
  "engine_in P c0 e \<longleftrightarrow> same_rules c0 (m_config e) \<and> m_num_moves e \<le> 253 \<and> (\<exists>hist. gtp_run P hist e)"

definition safe_call :: "'f platform \<Rightarrow> 'f outside \<Rightarrow> bool" where
  "safe_call P x \<longleftrightarrow> parks (p_arith P) (p_zobrist P) (p_nth P) (x_before x) \<and>
     searching_runs (p_arith P) (p_zobrist P) (p_nth P) (x_search x)"

definition safe_world :: "'f platform \<Rightarrow> 'f MCTSConfig \<Rightarrow> 'f world \<Rightarrow> bool" where
  "safe_world P c0 W \<longleftrightarrow> (\<forall>i. safe_call P (x_call W i)) \<and> (\<forall>c. InitConfig P (config_file W) = Some c \<longrightarrow> same_rules c0 c)"

lemma run_length: "engine_run A Z ne raw hist e \<Longrightarrow> permutes_moves ne \<Longrightarrow> m_num_moves e = int (length hist)"
  by (meson engine_okD(3) run_ok)

lemma engine_inE:
  assumes "engine_in P c0 e" and "permutes_moves (p_nth P)"
  obtains hist where "gtp_run P hist e" "same_rules c0 (m_config e)" "length hist \<le> 253" "m_num_moves e = int (length hist)"
  using assms run_length unfolding engine_in_def by fastforce

lemma before_in:
  assumes "engine_in P c0 e" and "safe_call P x"
  shows "engine_in P c0 (before_call x e)" "parked (before_call x e)"
  using assms parksD [of "p_arith P" "p_zobrist P" "p_nth P" "x_before x"] unfolding engine_in_def safe_call_def by fastforce+

lemma do_move_num: "do_move P x m e = Some e' \<Longrightarrow> m_num_moves e \<le> m_num_moves e'"
  unfolding do_move_def by (drule move_num) simp

lemma do_move_in:
  assumes e: "engine_in P c0 e" and x: "safe_call P x" and ne: "permutes_moves (p_nth P)" and m: "do_move P x m e = Some e'"
    and k: "m_num_moves e' \<le> 253"
  shows "engine_in P c0 e'"
proof -
  note B = before_in [OF e x]
  from B(1) ne obtain hist where h: "gtp_run P hist (before_call x e)" "same_rules c0 (m_config e)" "length hist \<le> 253"
    "m_num_moves e = int (length hist)" by (rule engine_inE) simp
  note mv = m [unfolded do_move_def]
  show ?thesis
  proof (cases "IsResignXY (fst m) (snd m)")
    case True
    have "m_config e' = m_config e" using mv True by (auto simp: engine_Move_def Let_def)
    with engine_run.resigned [OF h(1) B(2) True mv] h(2) k show ?thesis unfolding engine_in_def by auto
  next
    case False
    with mv obtain b where "Move (p_zobrist P) (CoordToId (fst m) (snd m)) (m_board (before_call x e)) = Some (0, b)"
      by (auto simp: engine_Move_def Let_def MoveXY_def bind_eq_Some_conv split: if_splits)
    then have p: "playable (CoordToId (fst m) (snd m))" by (rule Move_playable)
    have len: "length hist < 253" using move_num [OF mv] False k h(4) by simp
    from run_ok [OF h(1) ne] obtain T where T: "engine_ok (p_zobrist P) (p_raw P) hist T (before_call x e)" by blast
    from move_rules [OF T B(2) p mv] h(2) have "same_rules c0 (m_config e')" by (simp add: same_rules_def)
    with engine_run.play [OF h(1) B(2) len p mv] k show ?thesis unfolding engine_in_def by blast
  qed
qed

lemma handicap_num: "handicap P xs i stones_list e = Some e' \<Longrightarrow> m_num_moves e \<le> m_num_moves e'"
proof (induction P xs i stones_list e rule: handicap.induct)
  case (2 P xs i m stones_list e)
  from "2.prems" obtain e1 p e2 where e: "(if i > 0 then do_move P (xs (2 * i)) (- 1, - 1) e else Some e) = Some e1" "m = Some p"
    "do_move P (xs (2 * i + 1)) p e1 = Some e2" "handicap P xs (Suc i) stones_list e2 = Some e'" by (auto simp: bind_eq_Some_conv)
  from "2.IH" [OF e] do_move_num [OF e(3)] e(1) show ?case by (fastforce dest: do_move_num split: if_splits)
qed simp

lemma handicap_in:
  assumes ne: "permutes_moves (p_nth P)" and x: "\<And>i. safe_call P (xs i)"
  shows "handicap P xs i stones_list e = Some e' \<Longrightarrow> engine_in P c0 e \<Longrightarrow> m_num_moves e' \<le> 253 \<Longrightarrow> engine_in P c0 e'"
proof (induction stones_list arbitrary: i e)
  case (Cons m stones_list)
  from Cons.prems(1) obtain e1 p e2 where e: "(if i > 0 then do_move P (xs (2 * i)) (- 1, - 1) e else Some e) = Some e1"
    "do_move P (xs (2 * i + 1)) p e1 = Some e2" "handicap P xs (Suc i) stones_list e2 = Some e'" by (auto simp: bind_eq_Some_conv)
  have n2: "m_num_moves e2 \<le> 253" using handicap_num [OF e(3)] Cons.prems(3) by simp
  then have n1: "m_num_moves e1 \<le> 253" using do_move_num [OF e(2)] by simp
  have "engine_in P c0 e1" using e(1) Cons.prems(2) do_move_in [OF Cons.prems(2) x ne _ n1] by (auto split: if_splits)
  from Cons.IH [OF e(3) do_move_in [OF this x ne e(2) n2] Cons.prems(3)] show ?case .
qed simp

lemma reset_config:
  assumes "Reset A Z ne answers noise raw now moves e = Some e'"
  shows "m_config e' = m_config e"
proof -
  define e2 where "e2 = (change_root A nullptr (SearchPause e))\<lparr>m_search := (m_search (change_root A nullptr (SearchPause e)))\<lparr>s_counter := 0\<rparr>,
    m_num_moves := int ((length moves + 1) div 3), m_moves_str := moves, m_gen_passes := 0,
    m_byo_yomi_timer := ByoYomi_Reset A (m_byo_yomi_timer (change_root A nullptr (SearchPause e)))\<rparr>"
  have c: "m_config e2 = m_config e" by (simp add: e2_def)
  have "\<exists>b m. (let e3 = set_root_move m (e2\<lparr>m_board := b\<rparr>)
      in if enable_background_search (m_config e3) then SearchResume A ne answers noise now e3 else Some e3) = Some e'"
    using assms unfolding Reset_def Let_def e2_def [symmetric] by (auto simp only: bind_eq_Some_conv split: prod.splits)
  then show ?thesis using c by (auto simp: Let_def dest: resume_config split: if_splits)
qed

lemma do_reset_in:
  assumes e: "engine_in P c0 e" and x: "safe_call P x" and ne: "permutes_moves (p_nth P)" and r: "do_reset P x [] e = Some e'"
  shows "engine_in P c0 e'"
proof -
  note B = before_in [OF e x]
  from B(1) ne obtain hist where h: "gtp_run P hist (before_call x e)" "same_rules c0 (m_config e)" by (rule engine_inE) simp
  have "gtp_run P [] e'"
    by (rule engine_run.reset [OF h(1) B(2) _ _ _ r [unfolded do_reset_def, folded moves_str_simps(1)]]) simp_all
  with run_length [OF this ne] reset_config [OF r [unfolded do_reset_def]] h(2) show ?thesis unfolding engine_in_def by auto
qed

lemma undo_in:
  assumes e: "engine_in P c0 e" and x: "safe_call P x" and ne: "permutes_moves (p_nth P)"
    and r: "Undo (p_arith P) (p_zobrist P) (p_nth P) (x_answers x) (x_noise x) (p_raw P) (x_now x) (before_call x e) = Some (ok, e')"
  shows "engine_in P c0 e'"
proof -
  note B = before_in [OF e x]
  from B(1) ne obtain hist where h: "gtp_run P hist (before_call x e)" "same_rules c0 (m_config e)" "length hist \<le> 253" by (rule engine_inE) simp
  obtain hist' where run: "gtp_run P hist' e'" "length hist' \<le> length hist"
  proof (cases "length hist = 1")
    case False
    from engine_run.undo [OF h(1) B(2) h(3) False r] show thesis by (rule that) simp
  next
    case True
    then have ne0: "hist \<noteq> []" by auto
    from run_ok [OF h(1) ne] obtain T where T: "engine_ok (p_zobrist P) (p_raw P) hist T (before_call x e)" by blast
    have "Reset (p_arith P) (p_zobrist P) (p_nth P) (x_answers x) (x_noise x) (p_raw P) (x_now x) (moves_str hist) (before_call x e) = Some e'"
      using r True unfolding undo_reset [OF T h(3) ne0, of "p_arith P" "p_nth P" "x_answers x" "x_noise x" "p_raw P" "x_now x"] by auto
    from engine_run.reset [OF h(1) B(2) h(3) engine_okD(1,2) [OF T] this] show thesis by (rule that) simp
  qed
  have "m_config e' = m_config e" using r by (auto simp: Undo_def dest: reset_config split: if_splits sum.splits)
  with run_length [OF run(1) ne] h run show ?thesis unfolding engine_in_def by auto
qed

lemma clock_in: "engine_in P c0 e \<Longrightarrow> engine_in P c0 (e\<lparr>m_byo_yomi_timer := t\<rparr>)"
  unfolding engine_in_def using engine_run.clock by fastforce

lemma wait_loop_num:
  assumes l: "wait_loop A w ov t check k e = Some r"
  shows "m_num_moves (snd (snd r)) = m_num_moves e"
proof -
  let ?P = "\<lambda>(A :: 'a arith) (w :: 'a waits) (ov :: bool) (t :: int) (check :: int) (k :: nat) (e :: 'a engine) (r :: bool \<times> nat \<times> 'a engine).
    m_num_moves (snd (snd r)) = m_num_moves e"
  show ?thesis
  proof (rule wait_loop.raw_induct [where P = ?P, OF _ l])
    fix loop A w ov t check k e r
    assume IH: "\<And>A w ov t check k e r. loop A w ov t check k e = Some r \<Longrightarrow> ?P A w ov t check k e r"
      and eq: "(if waited_us w k 0 e + check < t then
        Option.bind (w_join w k 0 (Some check) e) (\<lambda>(paused, st).
          let e1 = worked st e
          in if paused then Some (True, k, e1)
             else if stops_early A w k 1 t e1 then
               (if ov then Some (True, k, e1)
                else Option.bind (overtime_us A t e1) (\<lambda>o'.
                  Some (\<not> (o' > 0 \<and> \<not> stops_early A w k 2 (t + o') e1), k, e1)))
             else loop A w ov t check (Suc k) e1)
      else Some (False, k, e)) = Some r"
    show "?P A w ov t check k e r"
    proof (cases "waited_us w k 0 e + check < t")
      case True
      with eq obtain paused st where j: "w_join w k 0 (Some check) e = Some (paused, st)" by (auto simp: bind_eq_Some_conv)
      from eq True j have "snd (snd r) = worked st e \<or> loop A w ov t check (Suc k) (worked st e) = Some r"
        by (auto simp: Let_def bind_eq_Some_conv split: if_splits)
      then show ?thesis using IH by fastforce
    qed (use eq in auto)
  qed
qed

lemma SearchWait_num: "SearchWait A w t ov e = Some e' \<Longrightarrow> m_num_moves e' = m_num_moves e"
proof -
  assume s: "SearchWait A w t ov e = Some e'"
  consider "t = 0" | "t < 0" | "\<not> t \<le> 0" "\<not> es_enable (early_stop (m_config e))" | "\<not> t \<le> 0" "es_enable (early_stop (m_config e))" by linarith
  then show ?thesis
  proof cases
    case 4
    then have f: "(t = 0) = False" "(t < 0) = False" "(\<not> es_enable (early_stop (m_config e))) = False" by auto
    from s obtain t' c stop k e1 where l: "wait_loop A w ov t' c 1 e = Some (stop, k, e1)"
      and e': "(if stop \<or> t' - waited_us w k 3 e1 \<le> 0 then Some e1
        else map_option (\<lambda>(_, st). worked st e1) (w_join w k 3 (Some (t' - waited_us w k 3 e1)) e1)) = Some e'"
      unfolding SearchWait_def Let_def f if_False by (auto simp: bind_eq_Some_conv)
    from e' have "m_num_moves e' = m_num_moves e1" by (cases "stop \<or> t' - waited_us w k 3 e1 \<le> 0") auto
    with wait_loop_num [OF l] show ?thesis by simp
  qed (use s in \<open>auto simp: SearchWait_def\<close>)
qed

lemma Search_num:
  assumes "Search A ne answers noise now W e = Some e'"
  shows "m_num_moves e' = m_num_moves e"
proof -
  from assms obtain e1 t ov e2 e3 where e1: "SearchResume A ne answers noise now e = Some e1"
    "SearchWait A (wait_in W) t False e1 = Some e2" "SearchWait A (wait_over W) ov True e2 = Some e3"
    "e' = SearchPause (worked (rest W e3) e3)"
    unfolding Search_def Let_def by (auto simp: bind_eq_Some_conv)
  from conjunct1 [OF resume_num [OF e1(1)]] SearchWait_num [OF e1(2)] SearchWait_num [OF e1(3)] show ?thesis by (simp add: e1(4))
qed

lemma GenMove_num:
  assumes "GenMove A ne answers noise now W sample e = Some (r, e')"
  shows "m_num_moves e' = m_num_moves e"
proof -
  define e0 where "e0 = ensure_clock A now e"
  have n: "m_num_moves e0 = m_num_moves e" by (simp add: e0_def)
  have "m_num_moves e' = m_num_moves e0"
  proof (cases "enable_pass_pass (m_config e0) \<and> last_position (m_board e0) = COORD_PASS \<and> \<not> IsPassDisable (m_config e0) (m_gen_passes e0)")
    case True
    with assms show ?thesis unfolding GenMove_def Let_def e0_def [symmetric] by auto
  next
    case False
    with assms obtain e2 where e2: "Search A ne answers noise now W e0 = Some e2"
      unfolding GenMove_def Let_def e0_def [symmetric] by (auto simp: bind_eq_Some_conv split: if_splits)
    let ?X = "if f_eq A (genmove_temperature (m_config e0)) (f_lit A 0)
      then GetBestMove A (m_config e0) (m_gen_passes e2) (heap_of e2) (m_root e2)
      else map_option (\<lambda>m. (m, f_lit A 1)) (GetSamplingMove A (m_config e0) (m_gen_passes e2) sample
        (genmove_temperature (m_config e0)) (heap_of e2) (m_root e2))"
    from assms have "map_option (\<lambda>(m, v). ((IdToCoord m, GetVisitCount (heap_of e2) (m_root e2), v),
        if m = COORD_PASS then e2\<lparr>m_gen_passes := m_gen_passes e2 + 1\<rparr> else e2)) ?X = Some (r, e')"
      unfolding GenMove_def Let_def e0_def [symmetric] by (simp only: False if_False e2 Option.bind.bind_lunit)
    then have "m_num_moves e' = m_num_moves e2" by (cases ?X) auto
    with Search_num [OF e2] show ?thesis by simp
  qed
  with n show ?thesis by auto
qed

lemma genmove_in:
  assumes e: "engine_in P c0 e" and x: "safe_call P x" and ne: "permutes_moves (p_nth P)"
    and g: "GenMove (p_arith P) (p_nth P) (x_answers x) (x_noise x) (x_now x) (x_search x) (x_sample x) (before_call x e) = Some ((m, cv), e')"
  shows "engine_in P c0 e' \<and> (IsResignXY (fst m) (snd m) \<or> (\<exists>b. Move (p_zobrist P) (CoordToId (fst m) (snd m)) (m_board e') = Some (0, b))) \<and>
    m_num_moves e' = m_num_moves e \<and> m_board e' = m_board e"
proof -
  note B = before_in [OF e x]
  from B(1) ne obtain hist where h: "gtp_run P hist (before_call x e)" "same_rules c0 (m_config e)" "length hist \<le> 253" by (rule engine_inE) simp
  obtain mx my counts v where c: "m = (mx, my)" "cv = (counts, v)" by (cases m, cases cv) auto
  from x have "searching_runs (p_arith P) (p_zobrist P) (p_nth P) (x_search x)" by (simp add: safe_call_def)
  from GenMove_keeps [OF h(1) ne h(3) this g [unfolded c]] have G: "gtp_run P hist e'" "m_config e' = m_config e"
    "IsResignXY mx my \<or> (\<exists>b. Move (p_zobrist P) (CoordToId mx my) (m_board e') = Some (0, b))" by simp_all
  from run_ok [OF h(1) ne] run_ok [OF G(1) ne] obtain T T' where T: "engine_ok (p_zobrist P) (p_raw P) hist T (before_call x e)"
    "engine_ok (p_zobrist P) (p_raw P) hist T' e'" by blast
  have "m_board e' = m_board e" using engine_okD(2) [OF T(1)] engine_okD(2) [OF T(2)] G(2) by simp
  moreover have "m_num_moves e' = m_num_moves e" using engine_okD(3) [OF T(1)] engine_okD(3) [OF T(2)] by simp
  ultimately show ?thesis using G h(2) c e unfolding engine_in_def by auto
qed

lemma pass_first_in:
  assumes "engine_in P c0 e" "safe_call P x" "permutes_moves (p_nth P)" "pass_first P x c e = Some e'" "m_num_moves e' \<le> 253"
  shows "engine_in P c0 e'"
  using assms do_move_in [OF assms(1,2,3)] by (auto simp: pass_first_def split: if_splits)

lemma ReloadConfig_in:
  assumes "engine_in P c0 (the_engine sv)" and "safe_world P c0 W"
  shows "engine_in P c0 (the_engine (ReloadConfig P (config_file W) sv))"
proof -
  have "engine_in P c0 (SetPendingConfig c (the_engine sv))" if "same_rules c0 c" for c
  proof -
    from assms(1) that have "same_rules (m_config (the_engine sv)) c" by (simp add: engine_in_def same_rules_def)
    with assms(1) show ?thesis unfolding engine_in_def SetPendingConfig_def by (auto intro: engine_run.config)
  qed
  with assms show ?thesis by (auto simp: ReloadConfig_def safe_world_def split: option.split)
qed

lemma play_in:
  assumes e: "engine_in P c0 (the_engine sv)" and W: "safe_world P c0 W" and ne: "permutes_moves (p_nth P)"
    and r: "gtp_play P W ss sv = Some (res, sv')" and k: "m_num_moves (the_engine sv') \<le> 253"
  shows "engine_in P c0 (the_engine sv')"
proof -
  let ?sv = "ReloadConfig P (config_file W) sv"
  from W have x: "safe_call P (x_call W i)" for i by (simp add: safe_world_def)
  from r obtain c m e1 e2 where e1: "pass_first P (x_call W 0) c (the_engine ?sv) = Some e1"
    "do_move P (x_call W 1) m e1 = Some e2" "the_engine sv' = e2"
    unfolding gtp_play_def Let_def by (auto simp: bind_eq_Some_conv split: prod.splits)
  have n: "m_num_moves e1 \<le> 253" using do_move_num [OF e1(2)] k e1(3) by simp
  from do_move_in [OF pass_first_in [OF ReloadConfig_in [OF e W] x ne e1(1) n] x ne e1(2)] k e1(3) show ?thesis by simp
qed

lemma gtp_genmove_in:
  assumes e: "engine_in P c0 (the_engine sv)" and W: "safe_world P c0 W" and ne: "permutes_moves (p_nth P)"
    and r: "gtp_genmove P W ss sv = Some (res, sv')" and k: "m_num_moves (the_engine sv') \<le> 253"
  shows "engine_in P c0 (the_engine sv')"
proof -
  let ?sv = "ReloadConfig P (config_file W) sv" and ?x = "x_call W 1"
  from W have x: "safe_call P (x_call W i)" for i by (simp add: safe_world_def)
  from r obtain c e1 m cv e2 e3 where e1: "pass_first P (x_call W 0) c (the_engine ?sv) = Some e1"
    "GenMove (p_arith P) (p_nth P) (x_answers ?x) (x_noise ?x) (x_now ?x) (x_search ?x) (x_sample ?x) (before_call ?x e1) = Some ((m, cv), e2)"
    "do_move P (x_call W 2) m e2 = Some e3" "the_engine sv' = e3"
    unfolding gtp_genmove_def Let_def by (auto simp: bind_eq_Some_conv split: prod.splits)
  have n3: "m_num_moves e3 \<le> 253" using k e1(4) by simp
  have n2: "m_num_moves e2 \<le> 253" using do_move_num [OF e1(3)] n3 by simp
  have n1: "m_num_moves e1 \<le> 253" using GenMove_num [OF e1(2)] n2 by simp
  have "engine_in P c0 e1" by (rule pass_first_in [OF ReloadConfig_in [OF e W] x ne e1(1) n1])
  from genmove_in [OF this x ne e1(2)] have "engine_in P c0 e2" by blast
  from do_move_in [OF this x ne e1(3) n3] e1(4) show ?thesis by simp
qed

lemma lizzie_engine: "the_engine (sv\<lparr>FLAGS_lizzie := b\<rparr>) = the_engine sv"
  by simp

lemma execute_command:
  assumes op: "get_word (Some cmd) = (op, ss)" and sv1: "sv1 = sv\<lparr>FLAGS_lizzie := False\<rparr>" "e = the_engine sv" "x = x_call W 0"
  shows "op = ''clear_board'' \<Longrightarrow> GTPExecute P W cmd sv = with_engine sv1 (map_option (Pair (True, [])) (do_reset P x [] e))"
    "op = ''boardsize'' \<Longrightarrow> GTPExecute P W cmd sv = Option.bind (fst (get_int ss)) (\<lambda>n. if n \<noteq> 19 then Some ((False, ''unacceptable size''), sv1)
       else with_engine sv1 (map_option (Pair (True, [])) (do_reset P x [] e)))"
    "op = ''time_settings'' \<Longrightarrow> GTPExecute P W cmd sv = with_engine sv1 (map_option (Pair (True, [])) (gtp_time_settings P x ss e))"
    "op = ''time_left'' \<Longrightarrow> GTPExecute P W cmd sv = with_engine sv1 (map_option (Pair (True, [])) (gtp_time_left P x ss e))"
    "op = ''place_free_handicap'' \<Longrightarrow> GTPExecute P W cmd sv = with_engine sv1 (place_free_handicap P W ss e)"
    "op = ''set_free_handicap'' \<Longrightarrow> GTPExecute P W cmd sv = with_engine sv1 (set_free_handicap P W ss e)"
    "op = ''play'' \<Longrightarrow> GTPExecute P W cmd sv = gtp_play P W ss sv1"
    "op = ''genmove'' \<Longrightarrow> GTPExecute P W cmd sv = gtp_genmove P W ss sv1"
    "op = ''undo'' \<Longrightarrow> GTPExecute P W cmd sv = with_engine sv1 (map_option (\<lambda>(ok, e'). if ok then ((True, []), e') else ((False, ''stack empty''), e'))
       (Undo (p_arith P) (p_zobrist P) (p_nth P) (x_answers x) (x_noise x) (p_raw P) (x_now x) (before_call x e)))"
  unfolding sv1 GTPExecute_def constant_reply_def op Let_def split_conv lizzie_engine by simp_all

lemma with_engine_Some: "with_engine sv r = Some (res, sv') \<Longrightarrow> r = Some (res, the_engine sv')"
  by (auto simp: with_engine_def)

lemma execute_in:
  assumes e: "engine_in P c0 (the_engine sv)" and W: "safe_world P c0 W" and ne: "permutes_moves (p_nth P)"
    and r: "GTPExecute P W cmd sv = Some (res, sv')" and k: "m_num_moves (the_engine sv') \<le> 253"
  shows "engine_in P c0 (the_engine sv')"
proof -
  let ?sv = "sv\<lparr>FLAGS_lizzie := False\<rparr>" and ?e = "the_engine sv" and ?x = "x_call W 0"
  from W have x: "safe_call P (x_call W i)" for i by (simp add: safe_world_def)
  obtain op ss where op: "get_word (Some cmd) = (op, ss)" by fastforce
  have e': "engine_in P c0 (the_engine ?sv)" using e by simp
  consider "the_engine sv' = ?e" | "do_reset P ?x [] ?e = Some (the_engine sv')" | t where "the_engine sv' = ?e\<lparr>m_byo_yomi_timer := t\<rparr>"
    | i hs where "handicap P (x_call W) i hs ?e = Some (the_engine sv')"
    | "gtp_play P W ss ?sv = Some (res, sv')" | "gtp_genmove P W ss ?sv = Some (res, sv')"
    | ok where "Undo (p_arith P) (p_zobrist P) (p_nth P) (x_answers ?x) (x_noise ?x) (p_raw P) (x_now ?x) (before_call ?x ?e) = Some (ok, the_engine sv')"
  proof -
    note E = execute_command [OF op refl refl refl, of P W sv]
    consider "op = ''clear_board''" | "op = ''boardsize''" | "op = ''time_settings''" | "op = ''time_left''"
      | "op = ''place_free_handicap''" | "op = ''set_free_handicap''" | "op = ''play''" | "op = ''genmove''" | "op = ''undo''"
      | "op \<notin> set [''clear_board'', ''boardsize'', ''time_settings'', ''time_left'', ''place_free_handicap'', ''set_free_handicap'',
          ''play'', ''genmove'', ''undo'']" by auto
    then show thesis
    proof cases
      case 1
      from r [unfolded E(1) [OF 1]] show thesis by (intro that(2)) (auto dest: with_engine_Some)
    next
      case 2
      from r [unfolded E(2) [OF 2]] have "do_reset P ?x [] ?e = Some (the_engine sv') \<or> the_engine sv' = ?e"
        by (auto simp: bind_eq_Some_conv dest: with_engine_Some split: if_splits)
      then show thesis using that(1,2) by blast
    next
      case 3
      from with_engine_Some [OF r [unfolded E(3) [OF 3]]] have "\<exists>t. ?e\<lparr>m_byo_yomi_timer := t\<rparr> = the_engine sv'"
        by (auto simp: gtp_time_settings_def bind_eq_Some_conv split: prod.splits)
      then show thesis using that(3) by metis
    next
      case 4
      from with_engine_Some [OF r [unfolded E(4) [OF 4]]] have "\<exists>t. ?e\<lparr>m_byo_yomi_timer := t\<rparr> = the_engine sv'"
        by (auto simp: gtp_time_left_def bind_eq_Some_conv split: prod.splits)
      then show thesis using that(3) by metis
    next
      case 5
      from with_engine_Some [OF r [unfolded E(5) [OF 5]]]
      have "(\<exists>hs. handicap P (x_call W) 0 hs ?e = Some (the_engine sv')) \<or> the_engine sv' = ?e"
        by (auto simp: place_free_handicap_def Let_def split: if_splits)
      then show thesis using that(1,4) by blast
    next
      case 6
      from with_engine_Some [OF r [unfolded E(6) [OF 6]]] show thesis
        by (auto simp: set_free_handicap_def intro: that(4))
    next
      case 7
      from r [unfolded E(7) [OF 7]] show thesis by (rule that(5))
    next
      case 8
      from r [unfolded E(8) [OF 8]] show thesis by (rule that(6))
    next
      case 9
      from with_engine_Some [OF r [unfolded E(9) [OF 9]]]
      have "\<exists>ok. Undo (p_arith P) (p_zobrist P) (p_nth P) (x_answers ?x) (x_noise ?x) (p_raw P) (x_now ?x) (before_call ?x ?e) = Some (ok, the_engine sv')"
        by (auto split: if_splits)
      then show thesis using that(7) by blast
    next
      case 10
      then have f: "(op = ''clear_board'') = False" "(op = ''boardsize'') = False" "(op = ''time_settings'') = False"
        "(op = ''time_left'') = False" "(op = ''place_free_handicap'') = False" "(op = ''set_free_handicap'') = False"
        "(op = ''play'') = False" "(op = ''genmove'') = False" "(op = ''undo'') = False" by simp_all
      have "the_engine sv' = ?e"
      proof (cases "constant_reply op")
        case None
        show ?thesis
          using r unfolding GTPExecute_def Let_def op split_conv None option.case(1) f if_False
          by (auto simp: bind_eq_Some_conv split: if_splits)
      qed (use r op in \<open>auto simp: GTPExecute_def\<close>)
      then show thesis by (rule that(1))
    qed
  qed
  then show ?thesis
  proof cases
    case 2 then show ?thesis by (rule do_reset_in [OF e x ne])
  next
    case 3 then show ?thesis using clock_in [OF e] by simp
  next
    case 4 then show ?thesis using handicap_in [where xs = "x_call W", OF ne x _ e k] by blast
  next
    case 5 then show ?thesis by (rule play_in [OF e' W ne _ k])
  next
    case 6 then show ?thesis by (rule gtp_genmove_in [OF e' W ne _ k])
  next
    case 7 then show ?thesis by (rule undo_in [OF e x ne])
  qed (use e in simp)
qed

end
