(* ===== verification/Gtp_Properties.thy ===== *)
theory Gtp_Properties
  imports Gtp_Session
begin

text \<open>
  The promises of the front end as properties.
\<close>

subsection \<open>Notation\<close>

lemma of_char_to_char: "0 \<le> n \<Longrightarrow> n < 256 \<Longrightarrow> (of_char (to_char n) :: nat) = nat n"
  by (simp add: to_char_def of_char_of nat_less_iff)

lemma tolower_to_char: "65 \<le> n \<Longrightarrow> n \<le> 90 \<Longrightarrow> tolower (to_char n) = to_char (n + 32)"
proof -
  assume n: "65 \<le> n" "n \<le> 90"
  then have "(of_char (to_char n) :: nat) = nat n" by (intro of_char_to_char) simp_all
  with n show ?thesis by (simp add: tolower_def to_char_def nat_add_distrib le_nat_iff nat_le_iff)
qed

lemma tolower_digit: "isdigit c \<Longrightarrow> tolower c = c"
  by (simp add: tolower_def isdigit_def)

lemma tolower_number: "0 \<le> n \<Longrightarrow> map tolower (to_string n) = to_string n"
  by (auto simp: to_string_def intro!: map_idI tolower_digit nat_digits_isdigit)

lemma number_starts: "0 \<le> n \<Longrightarrow> \<exists>c cs. to_string n = c # cs \<and> isdigit c"
  using hd_nat_digits [of "nat n"] nat_digits_nonempty [of "nat n"] by (cases "nat_digits (nat n)") (auto simp: to_string_def)

lemma decode_written:
  assumes "InBoardXY x y \<or> IsPassXY x y \<or> IsResignXY x y"
  shows "DecodeMove (map tolower (EncodeMove x y)) = Some (x, y)"
proof (cases "InBoardXY x y")
  case False
  with assms have "(x, y) \<in> {(COORD_PASS, COORD_PASS), (COORD_RESIGN, COORD_RESIGN)}"
    by (auto simp: point_defs split: if_splits)
  moreover have "map tolower (EncodeMove COORD_PASS COORD_PASS) = ''pass''" "map tolower (EncodeMove COORD_RESIGN COORD_RESIGN) = ''resign''"
    by (simp_all add: EncodeMove_def point_defs tolower_def)
  ultimately show ?thesis by (auto simp: DecodeMove_def)
next
  case True
  then have xy: "0 \<le> x" "x < 19" "0 \<le> y" "y < 19" by (simp_all add: InBoardXY_def)
  have np: "\<not> IsPassXY x y" "\<not> IsResignXY x y" using xy by (auto simp: point_defs split: if_splits)
  define n where "n = (if x > 7 then 98 + x else 97 + x)"
  have n: "97 \<le> n" "n < 122" using xy by (simp_all add: n_def)
  have e: "map tolower (EncodeMove x y) = to_char n # to_string (y + 1)"
    using xy np by (auto simp: EncodeMove_def n_def tolower_to_char tolower_number algebra_simps)
  obtain c cs where c: "to_string (y + 1) = c # cs" "isdigit c" using number_starts [of "y + 1"] xy by auto
  have ns: "to_char n # to_string (y + 1) \<noteq> ''pass''" "to_char n # to_string (y + 1) \<noteq> ''resign''"
    using c by (auto simp: isdigit_def)
  have s: "schar (to_char n) = n" using n by (intro schar_to_char) simp_all
  have w: "wrap16 x = x" "wrap16 y = y" using xy by (intro wrap16_id; simp)+
  have "stoi (to_string (y + 1)) = Inr (y + 1)" using xy by (intro stoi_to_string) simp_all
  with ns s w xy show ?thesis unfolding e by (auto simp: DecodeMove_def str_at_def substr_def n_def)
qed

text \<open>Claim C18. The notation of moves is read back as written: \<open>DecodeMove\<close>, on the line turned to lower
  case, undoes \<open>EncodeMove\<close> for every point, the pass and the resignation. The letter i is skipped in
  writing; in reading, i and j are the same column.\<close>

theorem move_notation_roundtrip:
  assumes "InBoardXY x y \<or> IsPassXY x y \<or> IsResignXY x y"
  shows "DecodeMove (map tolower (EncodeMove x y)) = Some (x, y)"
  by (rule decode_written [OF assms])

theorem move_notation_roundtrip_witness: "DecodeMove (map tolower (EncodeMove 8 18)) = Some (8, 18)"
  by (rule move_notation_roundtrip) (simp add: InBoardXY_def)

subsection \<open>Replies\<close>

lemma isspace_char [simp]: "isspace (CHR '' '')" "\<not> isdigit (CHR '' '')"
  by (simp_all add: isspace_def isdigit_def)

lemma get_number:
  assumes "0 \<le> n" "n < 2 ^ 31" and "r = [] \<or> \<not> isdigit (hd r)"
  shows "get_int (Some (to_string n @ r)) = (Some n, Some r)"
proof -
  obtain c cs where c: "to_string n = c # cs" "isdigit c" using number_starts [OF assms(1)] by auto
  have d: "\<And>x. x \<in> set (to_string n) \<Longrightarrow> isdigit x" using assms(1) by (auto simp: to_string_def dest: nat_digits_isdigit)
  have "parse_digits 0 (to_string n @ r) = parse_digits (nat n) r"
    using parse_digits_append [OF d, where a = 0 and ys = r] assms(1) by (simp add: to_string_def parse_nat_digits)
  also have "\<dots> = nat n" using assms(3) by (cases r) auto
  finally have p: "parse_digits 0 (to_string n @ r) = nat n" .
  have w: "dropWhile isspace (to_string n @ r) = to_string n @ r" using c by (simp add: isdigit_not_space)
  have r: "dropWhile isdigit (to_string n @ r) = r" using d assms(3) by (subst dropWhile_append2) (auto simp: dropWhile_eq_self_iff)
  show ?thesis using w p r c assms(1,2) isdigit_not_sign [OF c(2)] by (simp add: Let_def)
qed

text \<open>A request is an optional number and a command. Written with its number it is the number, a
  blank and the command; a command without a number starts with none of a blank, a digit and a sign.\<close>

type_synonym request = "int option \<times> string"

fun request_ok :: "request \<Rightarrow> bool" where
  "request_ok (Some n, cmd) \<longleftrightarrow> 0 \<le> n \<and> n < 2 ^ 31"
| "request_ok (None, cmd) \<longleftrightarrow> cmd \<noteq> [] \<and> \<not> isspace (hd cmd) \<and> \<not> isdigit (hd cmd) \<and> hd cmd \<noteq> CHR ''-'' \<and> hd cmd \<noteq> CHR ''+''"

fun written :: "request \<Rightarrow> string" where
  "written (Some n, cmd) = to_string n @ '' '' @ cmd"
| "written (None, cmd) = cmd"

text \<open>What is carried out: the command without the number, in lower case.\<close>

fun command_of :: "request \<Rightarrow> string" where
  "command_of (Some n, cmd) = '' '' @ map tolower cmd"
| "command_of (None, cmd) = map tolower cmd"

definition quits :: "request \<Rightarrow> bool" where
  "quits q \<longleftrightarrow> (\<exists>u v. map tolower (snd q) = u @ ''quit'' @ v)"

lemma contains_iff: "contains w s \<longleftrightarrow> (\<exists>u v. s = u @ w @ v)"
proof (induction s)
  case (Cons c s)
  have "take (length w) (c # s) = w \<longleftrightarrow> (\<exists>v. c # s = w @ v)" by (metis append_eq_conv_conj append_take_drop_id)
  moreover have "(\<exists>u v. c # s = u @ w @ v) \<longleftrightarrow> (\<exists>v. c # s = w @ v) \<or> (\<exists>u v. s = u @ w @ v)"
    by (metis Cons_eq_append_conv append_Cons)
  ultimately show ?case using Cons.IH by simp
qed simp

lemma quits_command: "contains ''quit'' (command_of q) \<longleftrightarrow> quits q"
proof -
  obtain t cmd where q: "q = (t, cmd)" by fastforce
  have "contains ''quit'' ('' '' @ s) = contains ''quit'' s" for s by simp
  then have "contains ''quit'' (command_of q) = contains ''quit'' (map tolower cmd)" by (cases t) (simp_all add: q)
  then show ?thesis by (simp only: contains_iff quits_def q snd_conv)
qed

lemma tolower_kind:
  "isspace (tolower c) = isspace c" "isdigit (tolower c) = isdigit c" "tolower c = CHR ''-'' \<longleftrightarrow> c = CHR ''-''" "tolower c = CHR ''+'' \<longleftrightarrow> c = CHR ''+''"
proof -
  have "of_char (char_of (n + 32) :: char) = n + 32" if "n \<le> 90" for n :: nat using that by (simp add: of_char_of)
  then have low: "(of_char (tolower c) :: nat) = (if 65 \<le> (of_char c :: nat) \<and> (of_char c :: nat) \<le> 90 then of_char c + 32 else of_char c)"
    by (simp add: tolower_def Let_def)
  have eq: "c = d \<longleftrightarrow> (of_char c :: nat) = of_char d" for c d :: char by simp
  show "isspace (tolower c) = isspace c" "isdigit (tolower c) = isdigit c" "tolower c = CHR ''-'' \<longleftrightarrow> c = CHR ''-''" "tolower c = CHR ''+'' \<longleftrightarrow> c = CHR ''+''"
    unfolding isspace_def isdigit_def eq low by auto
qed

lemma read_written: "request_ok q \<Longrightarrow> read_id (map tolower (written q)) = (fst q, command_of q)"
proof -
  assume q: "request_ok q"
  obtain t cmd where t: "q = (t, cmd)" by fastforce
  show ?thesis
  proof (cases t)
    case (Some n)
    with q t have n: "0 \<le> n" "n < 2 ^ 31" by simp_all
    have sp: "tolower (CHR '' '') = CHR '' ''" by (simp add: tolower_def)
    have "get_int (Some (to_string n @ '' '' @ map tolower cmd)) = (Some n, Some ('' '' @ map tolower cmd))"
      using n by (intro get_number) simp_all
    with t Some show ?thesis by (simp add: read_id_def tolower_number [OF n(1)] sp del: get_int.simps)
  next
    case None
    with q t obtain c cs where "cmd = c # cs" "\<not> isspace c" "\<not> isdigit c" "c \<noteq> CHR ''-''" "c \<noteq> CHR ''+''" by (cases cmd) auto
    with t None show ?thesis by (simp add: read_id_def tolower_kind)
  qed
qed

text \<open>Up to the first request that quits.\<close>

definition requests_served :: "request list \<Rightarrow> nat" where
  "requests_served qs = length (takeWhile (\<lambda>q. \<not> quits q) qs) + (if \<exists>q\<in>set qs. quits q then 1 else 0)"

text \<open>\<open>answered P Ws qs rs svs\<close>: the servers \<open>svs\<close> are those after each request, \<open>rs\<close> the replies.\<close>

definition answered :: "'f platform \<Rightarrow> 'f world list \<Rightarrow> request list \<Rightarrow> string list \<Rightarrow> 'f server list \<Rightarrow> bool" where
  "answered P Ws qs rs svs \<longleftrightarrow> length svs = Suc (length rs) \<and>
     (\<forall>i < length rs. \<exists>ok answer. GTPExecute P (Ws ! i) (command_of (qs ! i)) (svs ! i) = Some ((ok, answer), svs ! Suc i) \<and>
        rs ! i = (if ok then ''='' else ''?'') @ (case fst (qs ! i) of None \<Rightarrow> [] | Some n \<Rightarrow> to_string n) @
          (if answer = [] then [] else '' '' @ answer) @ [CHR 0x0A, CHR 0x0A])"

lemma answered_Cons:
  assumes "GTPExecute P W (command_of q) sv = Some ((ok, answer), sv1)"
    and "r = (if ok then ''='' else ''?'') @ (case fst q of None \<Rightarrow> [] | Some n \<Rightarrow> to_string n) @
          (if answer = [] then [] else '' '' @ answer) @ [CHR 0x0A, CHR 0x0A]"
    and "answered P Ws qs rs (sv1 # svs)"
  shows "answered P (W # Ws) (q # qs) (r # rs) (sv # sv1 # svs)"
  unfolding answered_def
proof (intro conjI allI impI)
  show "length (sv # sv1 # svs) = Suc (length (r # rs))" using assms(3) by (simp add: answered_def)
  fix i assume "i < length (r # rs)"
  then show "\<exists>ok answer. GTPExecute P ((W # Ws) ! i) (command_of ((q # qs) ! i)) ((sv # sv1 # svs) ! i) = Some ((ok, answer), (sv # sv1 # svs) ! Suc i) \<and>
        (r # rs) ! i = (if ok then ''='' else ''?'') @ (case fst ((q # qs) ! i) of None \<Rightarrow> [] | Some n \<Rightarrow> to_string n) @
          (if answer = [] then [] else '' '' @ answer) @ [CHR 0x0A, CHR 0x0A]"
  proof (cases i)
    case 0
    with assms(1,2) show ?thesis by (intro exI [of _ ok] exI [of _ answer]) simp
  next
    case (Suc j)
    with \<open>i < _\<close> have "j < length rs" by simp
    with assms(3) Suc show ?thesis unfolding answered_def by simp
  qed
qed

lemma serve_replies:
  "serve P Ws (map written qs) sv = Some (rs, sv') \<Longrightarrow> length qs \<le> length Ws \<Longrightarrow> \<forall>q\<in>set qs. request_ok q \<Longrightarrow>
    length rs = requests_served qs \<and> (\<exists>svs. hd svs = sv \<and> last svs = sv' \<and> answered P Ws qs rs svs)"
proof (induction qs arbitrary: Ws sv rs)
  case Nil
  then show ?case by (cases Ws) (auto simp: requests_served_def answered_def intro!: exI [of _ "[sv]"])
next
  case (Cons q qs)
  from Cons.prems(2) obtain W Ws' where Ws: "Ws = W # Ws'" "length qs \<le> length Ws'" by (cases Ws) auto
  have id: "read_id (map tolower (written q)) = (fst q, command_of q)" using read_written Cons.prems(3) by simp
  with Cons.prems(1) Ws obtain ok answer sv1 where ex: "GTPExecute P W (command_of q) sv = Some ((ok, answer), sv1)"
    by (auto simp: bind_eq_Some_conv)
  have reply: "gtp_reply (fst q) (ok, answer) = (if ok then ''='' else ''?'') @ (case fst q of None \<Rightarrow> [] | Some n \<Rightarrow> to_string n) @
      (if answer = [] then [] else '' '' @ answer) @ [CHR 0x0A, CHR 0x0A]"
    by (simp add: gtp_reply_def newline_def)
  show ?case
  proof (cases "quits q")
    case True
    with Cons.prems(1) Ws id ex have "rs = [gtp_reply (fst q) (ok, answer)]" "sv' = sv1" "requests_served (q # qs) = 1"
      by (auto simp: requests_served_def quits_command)
    then show ?thesis using ex reply Ws by (intro conjI exI [of _ "[sv, sv1]"]) (auto simp: answered_def)
  next
    case False
    with Cons.prems(1) Ws id ex obtain rs' where rs: "serve P Ws' (map written qs) sv1 = Some (rs', sv')"
      "rs = gtp_reply (fst q) (ok, answer) # rs'" by (auto simp: quits_command)
    from Cons.IH [OF rs(1) Ws(2)] Cons.prems(3) obtain svs where svs: "length rs' = requests_served qs" "hd svs = sv1"
      "last svs = sv'" "answered P Ws' qs rs' svs" by auto
    then obtain svs' where "svs = sv1 # svs'" by (cases svs) (auto simp: answered_def)
    with svs(2,4) answered_Cons [OF ex reply, of Ws' qs rs' svs'] Ws rs(2) have "answered P Ws (q # qs) rs (sv # svs)" by simp
    moreover have "requests_served (q # qs) = Suc (requests_served qs)" using False by (simp add: requests_served_def)
    moreover have "svs \<noteq> []" using svs(4) by (auto simp: answered_def)
    ultimately show ?thesis using svs rs(2) by (intro conjI exI [of _ "sv # svs"]) auto
  qed
qed

text \<open>Claim C19. A server that is sent a list of requests, with or without numbers, and does not abort answers each
  of them once and in order, up to the first one that quits. A request is carried out in the state the one before
  left, without its number and in lower case, and its reply is \<open>=\<close> or \<open>?\<close> as it succeeded or not, the
  number if there was one, the answer, and an empty line. (A session in which the engine
  refuses a move aborts, and that request gets no reply.)\<close>

theorem one_reply_each:
  assumes "serve P Ws (map written qs) sv = Some (rs, sv')" and "length qs \<le> length Ws" and "\<forall>q\<in>set qs. request_ok q"
  shows "length rs = requests_served qs \<and> (\<exists>svs. hd svs = sv \<and> last svs = sv' \<and> answered P Ws qs rs svs)"
  using serve_replies [OF assms] .

text \<open>An example platform: exact arithmetic, a parser that fails.\<close>

definition example_platform :: "real platform" where
  "example_platform = \<lparr>p_arith = real_arith, p_zobrist = flat_weights, p_nth = keep_order,
     p_lib = \<lparr>ParseFromString = (\<lambda>_. (False, plain_config)), Equals = (=), read_float = (\<lambda>s. (None, s)), show_float = (\<lambda>_. [])\<rparr>,
     p_raw = raw_memory\<rparr>"

definition example_call :: "real outside" where
  "example_call = \<lparr>x_now = 0, x_answers = first_answer, x_noise = (\<lambda>_. 1), x_before = all_fail real_arith keep_order,
     x_search = short_search real_arith keep_order, x_sample = (\<lambda>_. 0), x_heights = (0, 0)\<rparr>"

definition example_world :: "real world" where
  "example_world = \<lparr>x_call = (\<lambda>_. example_call), config_file = Some ''''\<rparr>"

definition example_server :: "real server" where
  "example_server = \<lparr>the_engine = idle_engine, g_config = Some plain_config, FLAGS_lizzie = False\<rparr>"

lemma t7: "to_string 7 = ''7''"
  by code_simp

theorem one_reply_each_witness:
  "\<exists>rs sv'. serve example_platform [example_world, example_world] [''7 Name'', ''quit''] example_server = Some (rs, sv') \<and> length rs = 2 \<and>
    rs ! 0 = ''='' @ to_string 7 @ '' Leela Zero'' @ [CHR 0x0A, CHR 0x0A]"
proof -
  let ?qs = "[(Some 7, ''Name''), (None, ''quit'')]" and ?Ws = "[example_world, example_world]"
  have sp: "\<not> isdigit CHR ''q''" "\<not> isspace CHR ''q''" "\<not> isspace CHR ''u''" "\<not> isspace CHR ''i''" "\<not> isspace CHR ''t''"
    "\<not> isspace CHR ''n''" "\<not> isspace CHR ''a''" "\<not> isspace CHR ''m''" "\<not> isspace CHR ''e''" by (simp_all add: isdigit_def isspace_def)
  have ok: "\<forall>q\<in>set ?qs. request_ok q" using sp by simp
  have w: "map written ?qs = [''7 Name'', ''quit'']" using t7 by simp
  have cmd: "command_of (Some 7, ''Name'') = '' name''" "command_of (None, ''quit'') = ''quit''" by code_simp+
  have x: "GTPExecute example_platform example_world '' name'' sv = Some ((True, ''Leela Zero''), sv\<lparr>FLAGS_lizzie := False\<rparr>)"
    "GTPExecute example_platform example_world ''quit'' sv = Some ((True, []), sv\<lparr>FLAGS_lizzie := False\<rparr>)" for sv
    using sp by (simp_all add: GTPExecute_def constant_reply_def Let_def)
  have id: "read_id (map tolower (written (Some 7, ''Name''))) = (Some 7, '' name'')"
    "read_id (map tolower (written (None, ''quit''))) = (None, ''quit'')"
    using read_written [of "(Some 7, ''Name'')"] read_written [of "(None, ''quit'')"] ok unfolding cmd by simp_all
  have s: "\<exists>rs sv'. serve example_platform ?Ws (map written ?qs) example_server = Some (rs, sv')"
    using id x by (simp del: written.simps)
  then obtain rs sv' where s: "serve example_platform ?Ws (map written ?qs) example_server = Some (rs, sv')" by blast
  from one_reply_each [OF s _ ok] obtain svs where r: "length rs = requests_served ?qs" "answered example_platform ?Ws ?qs rs svs" by auto
  have "quits (None, ''quit'')" using quits_command [of "(None, ''quit'')"] unfolding cmd by simp
  moreover have "\<not> quits (Some 7, ''Name'')" using quits_command [of "(Some 7, ''Name'')"] unfolding cmd by simp
  ultimately have len: "length rs = 2" using r(1) by (simp add: requests_served_def)
  with r(2) have "\<exists>ok answer. GTPExecute example_platform (?Ws ! 0) (command_of (?qs ! 0)) (svs ! 0) = Some ((ok, answer), svs ! Suc 0) \<and>
        rs ! 0 = (if ok then ''='' else ''?'') @ (case fst (?qs ! 0) of None \<Rightarrow> [] | Some n \<Rightarrow> to_string n) @
          (if answer = [] then [] else '' '' @ answer) @ [CHR 0x0A, CHR 0x0A]"
    unfolding answered_def by (metis pos2)
  then have "rs ! 0 = ''='' @ to_string 7 @ '' Leela Zero'' @ [CHR 0x0A, CHR 0x0A]"
    using x(1) unfolding nth_Cons_0 cmd(1) by auto
  with s len show ?thesis unfolding w by blast
qed

subsection \<open>Sessions\<close>

lemma serve_in:
  "serve P Ws ls sv = Some (rs, sv') \<Longrightarrow> engine_in P c0 (the_engine sv) \<Longrightarrow> \<forall>W\<in>set Ws. safe_world P c0 W \<Longrightarrow>
    permutes_moves (p_nth P) \<Longrightarrow>
    (\<And>k rs' sv''. serve P Ws (take k ls) sv = Some (rs', sv'') \<Longrightarrow> m_num_moves (the_engine sv'') \<le> 253) \<Longrightarrow>
    engine_in P c0 (the_engine sv')"
proof (induction P Ws ls sv arbitrary: rs rule: serve.induct)
  case (1 P W Ws l ls sv)
  obtain tag cmd where id: "read_id (map tolower l) = (tag, cmd)" by fastforce
  with "1.prems"(1) obtain r sv1 where ex: "GTPExecute P W cmd sv = Some (r, sv1)" by (auto simp: bind_eq_Some_conv)
  have one: "serve P (W # Ws) (take 1 (l # ls)) sv = Some ([gtp_reply tag r], sv1)" using id ex by simp
  have n1: "m_num_moves (the_engine sv1) \<le> 253" by (rule "1.prems"(5) [OF one])
  have W: "safe_world P c0 W" using "1.prems"(3) by simp
  have in1: "engine_in P c0 (the_engine sv1)" by (rule execute_in [OF "1.prems"(2) W "1.prems"(4) ex n1])
  show ?case
  proof (cases "contains ''quit'' cmd")
    case True
    with "1.prems"(1) id ex in1 show ?thesis by simp
  next
    case False
    with "1.prems"(1) id ex obtain rs' where rs: "serve P Ws ls sv1 = Some (rs', sv')" by auto
    show ?thesis
    proof (rule "1.IH" [OF id [symmetric] ex refl False rs in1])
      show "\<forall>W\<in>set Ws. safe_world P c0 W" "permutes_moves (p_nth P)" using "1.prems"(3,4) by simp_all
      fix k rs' sv''
      assume "serve P Ws (take k ls) sv1 = Some (rs', sv'')"
      then have "serve P (W # Ws) (take (Suc k) (l # ls)) sv = Some (gtp_reply tag r # rs', sv'')" using id ex False by simp
      then show "m_num_moves (the_engine sv'') \<le> 253" by (rule "1.prems"(5))
    qed
  qed
qed simp_all

lemma start_in:
  assumes s: "start_engine P W [] = Some sv" and c: "InitConfig P (config_file W) = Some c0" and ne: "permutes_moves (p_nth P)"
  shows "engine_in P c0 (the_engine sv)"
proof -
  from s c obtain e where e: "Init (p_arith P) (p_nth P) (x_answers (x_call W 1)) (x_noise (x_call W 1)) (x_now (x_call W 1))
      (MCTSEngine_new (p_arith P) (p_raw P) (x_now (x_call W 0)) c0) = Some e" "the_engine sv = e"
    by (auto simp: start_engine_def InitEngine_def Let_def)
  have run: "gtp_run P [] e" by (rule engine_run.init [OF e(1)])
  have "m_config e = c0" using e(1) by (auto simp: Init_def MCTSEngine_new_def Let_def dest: resume_config split: if_splits)
  with run run_length [OF run ne] e(2) show ?thesis by (auto simp: engine_in_def same_rules_def)
qed


lemma example_calls: "safe_call example_platform example_call"
  using all_fail_parks [OF keep_order_permutes] short_search_runs [OF keep_order_permutes]
  by (simp add: safe_call_def example_platform_def example_call_def)


subsection \<open>Moves\<close>

lemma do_move_iff:
  assumes run: "engine_run (p_arith P) (p_zobrist P) (p_nth P) (p_raw P) hist e" and x: "safe_call P x"
    and ne: "permutes_moves (p_nth P)" and k: "length hist < 253" and bg: "\<not> enable_background_search (m_config e)"
    and pend: "\<And>c. m_pending_config e = Some c \<Longrightarrow> \<not> enable_background_search c"
  shows "do_move P x m e \<noteq> None \<longleftrightarrow>
    IsResignXY (fst m) (snd m) \<or> (\<exists>b. MoveXY (p_zobrist P) (fst m) (snd m) (m_board e) = Some (0, b))"
proof -
  let ?e = "before_call x e"
  from x have p: "parks (p_arith P) (p_zobrist P) (p_nth P) (x_before x)" by (simp add: safe_call_def)
  have B: "gtp_run P hist ?e" "parked ?e" using parksD [OF p run] by simp_all
  show ?thesis
  proof (cases "IsResignXY (fst m) (snd m)")
    case True
    then show ?thesis by (simp add: do_move_def engine_Move_def Let_def)
  next
    case False
    show ?thesis
    proof (cases "\<exists>b. MoveXY (p_zobrist P) (fst m) (snd m) (m_board e) = Some (0, b)")
      case True
      then obtain b where b: "Move (p_zobrist P) (CoordToId (fst m) (snd m)) (m_board ?e) = Some (0, b)" by (auto simp: MoveXY_def)
      from run_ok [OF B(1) ne] obtain T where T: "engine_ok (p_zobrist P) (p_raw P) hist T ?e" by blast
      obtain e5 where e5: "m_config e5 = (case m_pending_config ?e of None \<Rightarrow> m_config ?e | Some c \<Rightarrow> c)"
        "engine_Move (p_arith P) (p_zobrist P) (p_nth P) (x_answers x) (x_noise x) (x_now x) (fst m) (snd m) ?e =
          (if not_over (m_config e5) b \<and> enable_background_search (m_config e5)
           then SearchResume (p_arith P) (p_nth P) (x_answers x) (x_noise x) (x_now x) e5
           else Some (if not_over (m_config e5) b then e5\<lparr>m_search := (m_search e5)\<lparr>s_counter := 0\<rparr>\<rparr> else e5))"
        by (rule next_engine [where A = "p_arith P" and ne = "p_nth P" and answers = "x_answers x" and noise = "x_noise x" and now = "x_now x",
            OF T B(2) Move_playable [OF b] b]) (rule that)
      have "\<not> enable_background_search (m_config e5)" using e5(1) bg pend by (simp split: option.splits)
      with e5(2) True show ?thesis by (simp add: do_move_def)
    next
      case no: False
      have "engine_Move (p_arith P) (p_zobrist P) (p_nth P) (x_answers x) (x_noise x) (x_now x) (fst m) (snd m) ?e = None"
        using no move_result [OF _ False] by (metis MoveXY_def not_None_eq worked_fields(2))
      with no False show ?thesis by (simp add: do_move_def)
    qed
  qed
qed

text \<open>A move sent by a command is carried out exactly when it is a resignation or the board accepts it.
  Any other move is no error reply: it aborts the program.\<close>

theorem illegal_move_aborts:
  assumes "engine_run (p_arith P) (p_zobrist P) (p_nth P) (p_raw P) hist e" and "safe_call P x"
    and "permutes_moves (p_nth P)" and "length hist < 253" and "\<not> enable_background_search (m_config e)"
    and "\<And>c. m_pending_config e = Some c \<Longrightarrow> \<not> enable_background_search c"
  shows "do_move P x m e \<noteq> None \<longleftrightarrow>
    IsResignXY (fst m) (snd m) \<or> (\<exists>b. MoveXY (p_zobrist P) (fst m) (snd m) (m_board e) = Some (0, b))"
  by (rule do_move_iff [OF assms])

theorem illegal_move_aborts_witness:
  "do_move example_platform example_call (19, 0) idle_engine = None"
proof -
  have run: "gtp_run example_platform [] idle_engine" using idle_run by (simp add: example_platform_def)
  have ne: "permutes_moves (p_nth example_platform)" using keep_order_permutes by (simp add: example_platform_def)
  have bg: "\<not> enable_background_search (m_config idle_engine)" by (simp add: default_config_def)
  have k: "length [] < 253" by simp
  have "MoveXY Z 19 0 b = Some r \<Longrightarrow> False" for Z b r
    using Move_playable [of Z "CoordToId 19 0" b r] by (simp add: MoveXY_def point_defs)
  moreover have "\<not> IsResignXY 19 0" by (simp add: point_defs)
  ultimately show ?thesis using illegal_move_aborts [OF run example_calls ne k bg, of "(19, 0)"] by auto
qed

text \<open>Claim C15. \<open>genmove\<close> for the side to move replies with the move it has played: the reply decodes to a
  resignation, and the board is as before, or to a move the board accepts, and the board is the one after it.\<close>

theorem genmove_replies_its_move:
  assumes e: "engine_in P c0 (the_engine sv)" and W: "safe_world P c0 W" and ne: "permutes_moves (p_nth P)"
    and g: "gtp_genmove P W ss sv = Some ((ok, reply), sv')"
    and turn: "DecodeColor (fst (get_word ss)) = current_player (m_board (the_engine sv))"
  shows "\<exists>x y. ok \<and> reply = EncodeMove x y \<and> DecodeMove (map tolower reply) = Some (x, y) \<and>
    (IsResignXY x y \<and> m_board (the_engine sv') = m_board (the_engine sv) \<or>
     MoveXY (p_zobrist P) x y (m_board (the_engine sv)) = Some (0, m_board (the_engine sv')))"
proof -
  let ?sv = "ReloadConfig P (config_file W) sv" and ?x = "x_call W 1"
  have b: "m_board (the_engine ?sv) = m_board (the_engine sv)" by (auto simp: ReloadConfig_def SetPendingConfig_def split: option.split)
  from W have x: "safe_call P (x_call W i)" for i by (simp add: safe_world_def)
  from g turn b obtain mx my cv e2 where e2:
    "GenMove (p_arith P) (p_nth P) (x_answers ?x) (x_noise ?x) (x_now ?x) (x_search ?x) (x_sample ?x) (before_call ?x (the_engine ?sv)) =
       Some (((mx, my), cv), e2)"
    "do_move P (x_call W 2) (mx, my) e2 = Some (the_engine sv')" "ok" "reply = EncodeMove mx my"
    unfolding gtp_genmove_def pass_first_def Let_def by (auto simp: bind_eq_Some_conv split: prod.splits if_splits)
  from genmove_in [OF ReloadConfig_in [OF e W] x ne e2(1)] b have board: "m_board e2 = m_board (the_engine sv)" by simp
  note mv = e2(2) [unfolded do_move_def fst_conv snd_conv]
  show ?thesis
  proof (cases "IsResignXY mx my")
    case True
    have "the_engine sv' = SearchPause (ensure_clock (p_arith P) (x_now (x_call W 2)) (before_call (x_call W 2) e2))"
      using mv True by (simp add: engine_Move_def Let_def)
    then have "m_board (the_engine sv') = m_board e2" by simp
    with True board e2(3,4) decode_written [of mx my] show ?thesis by (intro exI [of _ mx] exI [of _ my]) simp
  next
    case False
    from move_result [OF mv False] board have m: "Move (p_zobrist P) (CoordToId mx my) (m_board (the_engine sv)) = Some (0, m_board (the_engine sv'))"
      by simp
    from Move_playable [OF this] have "InBoardXY mx my \<or> IsPassXY mx my" by (auto simp: point_defs split: if_splits)
    with m board e2(3,4) decode_written [of mx my] show ?thesis by (auto simp: MoveXY_def)
  qed
qed

theorem genmove_replies_its_move_witness:
  "\<exists>reply sv'. gtp_genmove example_platform example_world (Some ''b'') example_server = Some ((True, reply), sv') \<and>
    (\<exists>x y. DecodeMove (map tolower reply) = Some (x, y))"
proof -
  let ?P = example_platform and ?x = example_call
  obtain x y counts v e' where g: "GenMove real_arith keep_order first_answer (\<lambda>_. 1) 0 (short_search real_arith keep_order) (\<lambda>_. 0) idle_engine =
      Some (((x, y), counts, v), e')" and pe: "m_pending_config e' = None" by (rule example_genmove)
  have k: "length [] \<le> 253" "length [] < 253" by simp_all
  from GenMove_keeps [OF idle_run keep_order_permutes k(1) short_search_runs [OF keep_order_permutes] g]
  have e': "gtp_run ?P [] e'" "m_config e' = plain_config" "IsResignXY x y \<or> (\<exists>b. Move flat_weights (CoordToId x y) (m_board e') = Some (0, b))"
    by (simp_all add: example_platform_def)
  have ne: "permutes_moves (p_nth ?P)" using keep_order_permutes by (simp add: example_platform_def)
  have z: "p_zobrist ?P = flat_weights" by (simp add: example_platform_def)
  have bg: "\<not> enable_background_search (m_config e')" using e'(2) by (simp add: default_config_def)
  have "do_move ?P ?x (x, y) e' \<noteq> None"
    using do_move_iff [OF e'(1) example_calls ne k(2) bg, of "(x, y)"] pe e'(3) z by (auto simp: MoveXY_def)
  then obtain e'' where mv: "do_move ?P ?x (x, y) e' = Some e''" by blast
  have c: "InitConfig ?P (config_file example_world) = Some plain_config"
    by (simp add: InitConfig_def LoadConfig_def example_platform_def example_world_def)
  have W: "safe_world ?P plain_config example_world"
    using example_calls c by (simp add: safe_world_def same_rules_def) (simp add: example_world_def)
  have rc: "ReloadConfig ?P (config_file example_world) example_server = example_server"
    using c by (simp add: ReloadConfig_def example_server_def) (simp add: example_platform_def)
  have w: "get_word (Some ''b'') = (''b'', Some [])" by (simp add: isspace_def)
  have bc: "before_call ?x idle_engine = idle_engine" by (simp add: example_call_def all_fail_def worked_def)
  have f: "x_call example_world i = ?x" "the_engine example_server = idle_engine" for i by (simp_all add: example_world_def example_server_def)
  have pf: "pass_first ?P ?x BLACK idle_engine = Some idle_engine" by (simp add: pass_first_def GoState_new_def)
  have gm: "GenMove (p_arith ?P) (p_nth ?P) (x_answers ?x) (x_noise ?x) (x_now ?x) (x_search ?x) (x_sample ?x) idle_engine =
      Some (((x, y), counts, v), e')" using g by (simp add: example_platform_def example_call_def)
  have d: "DecodeColor ''b'' = BLACK" by (simp add: DecodeColor_def)
  have r: "gtp_genmove ?P example_world (Some ''b'') example_server =
      Some ((True, EncodeMove x y), example_server\<lparr>the_engine := e''\<rparr>)"
    unfolding gtp_genmove_def rc w Let_def f fst_conv d pf Option.bind.bind_lunit bc gm split_conv snd_conv mv option.map(2) ..
  have e: "engine_in ?P plain_config (the_engine example_server)"
    unfolding engine_in_def using idle_run by (auto simp: f same_rules_def example_platform_def)
  have t: "DecodeColor (fst (get_word (Some ''b''))) = current_player (m_board (the_engine example_server))"
    unfolding w fst_conv d f by (simp add: GoState_new_def)
  from genmove_replies_its_move [OF e W ne r t] r show ?thesis by blast
qed

end
