(* ===== verification/Mcts_Selfplay.thy ===== *)
theory Mcts_Selfplay
  imports Mcts_Properties Eval_Batch
begin

text \<open>
  Games of the engine against itself (\<open>RunOnce\<close> and \<open>RunSelfplay\<close> of mcts_engine.cc): each turn generates a move,
  writes down the position with the visits of the search as training data, and plays the move.
\<close>

text \<open>What a turn gets from outside: for \<open>GenMove\<close>, for the pause after it, and for \<open>Move\<close>.\<close>

record 'f turn =
  t_answers :: "nat \<Rightarrow> int \<times> 'f list \<times> 'f"
  t_noise :: "nat \<Rightarrow> 'f"
  t_now :: int
  t_searching :: "'f searching"
  t_sample :: "'f list \<Rightarrow> nat"
  t_rest :: "'f engine \<Rightarrow> 'f search \<times> addr list"
  t_answers' :: "nat \<Rightarrow> int \<times> 'f list \<times> 'f"
  t_noise' :: "nat \<Rightarrow> 'f"
  t_now' :: int

text \<open>The shares of the visits, by move. \<open>None\<close> is an index outside the vector.\<close>

definition visit_share :: "'f arith \<Rightarrow> int \<Rightarrow> 'f TreeNode \<Rightarrow> 'f list \<Rightarrow> 'f list option" where
  "visit_share A n x ps =
     (if visit_count x \<noteq> 0 then
        if 0 \<le> node_move x \<and> nat (node_move x) < length ps
        then Some (ps[nat (node_move x) := f_div A (f_of_int A (visit_count x)) (f_of_int A n)]) else None
      else Some ps)"

definition visit_policy :: "'f arith \<Rightarrow> 'f heap \<Rightarrow> addr \<Rightarrow> 'f list option" where
  "visit_policy A h rt = foldo (\<lambda>a. visit_share A (visit_count (h_node h rt)) (h_node h a)) (kids h rt) (replicate (361 + 1) (f_lit A 0))"

definition turn_winner :: "'f MCTSConfig \<Rightarrow> GoCoordId \<Rightarrow> GoCoordId \<Rightarrow> GoState \<Rightarrow> GoStoneColor option" where
  "turn_winner c x y b =
     (if IsResignXY x y then Some (Opponent COLOR_UNKNOWN b)
      else if \<not> disable_double_pass_scoring c \<and> is_double_pass b then map_option fst (GetWinner b)
      else Some COLOR_UNKNOWN)"

definition is_over :: "GoCoordId \<Rightarrow> GoCoordId \<Rightarrow> 'f engine \<Rightarrow> bool" where
  "is_over x y e \<longleftrightarrow> \<not> disable_double_pass_scoring (m_config e) \<and> is_double_pass (m_board e) \<or> IsResignXY x y"

definition turn_engine :: "'f turn \<Rightarrow> 'f engine \<Rightarrow> 'f engine" where
  "turn_engine k e = SearchPause (worked (t_rest k e) e)"

definition turn_move :: "'f arith \<Rightarrow> (nat \<Rightarrow> 'f list \<Rightarrow> nat list \<Rightarrow> nat list) \<Rightarrow> 'f turn \<Rightarrow> 'f engine \<Rightarrow> ((GoCoordId \<times> GoCoordId) \<times> 'f engine) option" where
  "turn_move A ne k e =
     map_option (\<lambda>((xy, _), e1). (xy, turn_engine k e1))
       (GenMove A ne (t_answers k) (t_noise k) (t_now k) (t_searching k) (t_sample k) e)"

definition RunOnce :: "'f arith \<Rightarrow> zobrist \<Rightarrow> (nat \<Rightarrow> 'f list \<Rightarrow> nat list \<Rightarrow> nat list) \<Rightarrow> 'f turn \<Rightarrow> 'f engine \<Rightarrow>
    ('f TrainData \<times> bool \<times> 'f engine) option" where
  "RunOnce A Z ne k e =
     do { ((x, y), e1) \<leftarrow> turn_move A ne k e;
          policy \<leftarrow> visit_policy A (heap_of e1) (m_root e1);
          feature \<leftarrow> GetFeature (m_board e1);
          w \<leftarrow> turn_winner (m_config e1) x y (m_board e1);
          td \<leftarrow> TrainData_new feature policy w;
          e2 \<leftarrow> engine_Move A Z ne (t_answers' k) (t_noise' k) (t_now' k) x y e1;
          Some (td, is_over x y e2, e2) }"

text \<open>A game of at most \<open>n\<close> turns, from turn \<open>i\<close> on.\<close>

fun play_game :: "'f arith \<Rightarrow> zobrist \<Rightarrow> (nat \<Rightarrow> 'f list \<Rightarrow> nat list \<Rightarrow> nat list) \<Rightarrow> (nat \<Rightarrow> 'f turn) \<Rightarrow> nat \<Rightarrow> nat \<Rightarrow> 'f engine \<Rightarrow>
    ('f TrainData list \<times> 'f engine) option" where
  "play_game A Z ne turn 0 i e = Some ([], e)"
| "play_game A Z ne turn (Suc n) i e =
     do { (td, over, e1) \<leftarrow> RunOnce A Z ne (turn i) e;
          if over then Some ([td], e1)
          else do { (tds, e2) \<leftarrow> play_game A Z ne turn n (Suc i) e1; Some (td # tds, e2) } }"

text \<open>One game of \<open>RunSelfplay\<close>. The winner goes into copies of the records, which are dropped: it changes nothing.\<close>

definition selfplay_game :: "'f arith \<Rightarrow> zobrist \<Rightarrow> (nat \<Rightarrow> 'f list \<Rightarrow> nat list \<Rightarrow> nat list) \<Rightarrow> (nat \<Rightarrow> 'f turn) \<Rightarrow> 'f engine \<Rightarrow>
    ('f TrainData list \<times> GoStoneColor \<times> 'f engine) option" where
  "selfplay_game A Z ne turn e =
     do { (tds, e1) \<leftarrow> play_game A Z ne turn 500 0 e;
          w \<leftarrow> (if td_winner (last tds) = COLOR_UNKNOWN then map_option fst (GetWinner (m_board e1)) else Some (td_winner (last tds)));
          Some (tds, w, e1) }"

text \<open>The games follow each other on the same engine, with no \<open>Reset\<close> between them.\<close>

definition RunSelfplay :: "'f arith \<Rightarrow> zobrist \<Rightarrow> (nat \<Rightarrow> 'f list \<Rightarrow> nat list \<Rightarrow> nat list) \<Rightarrow> (nat \<Rightarrow> nat \<Rightarrow> 'f turn) \<Rightarrow> int \<Rightarrow> 'f engine \<Rightarrow> 'f engine option" where
  "RunSelfplay A Z ne turn single_thread e =
     foldo (\<lambda>i e. map_option (\<lambda>(tds, w, e1). e1) (selfplay_game A Z ne (turn i) e)) [0..<nat single_thread] e"

subsection \<open>The training data of a turn\<close>

abbreviation visited :: "'f heap \<Rightarrow> addr \<Rightarrow> bool" where
  "visited h a \<equiv> visit_count (h_node h a) \<noteq> 0"

definition share_of :: "'f arith \<Rightarrow> 'f heap \<Rightarrow> addr \<Rightarrow> addr \<Rightarrow> 'f" where
  "share_of A h rt a = f_div A (f_of_int A (visit_count (h_node h a))) (f_of_int A (visit_count (h_node h rt)))"

text \<open>Every entry is zero, if no visited child has the move, or the share of such a child.\<close>

definition shares :: "'f arith \<Rightarrow> 'f heap \<Rightarrow> addr \<Rightarrow> addr list \<Rightarrow> 'f list \<Rightarrow> bool" where
  "shares A h rt as ps \<longleftrightarrow> length ps = 362 \<and> (\<forall>j < 362.
     if \<exists>a\<in>set as. visited h a \<and> mv h a = int j
     then \<exists>a\<in>set as. visited h a \<and> mv h a = int j \<and> ps ! j = share_of A h rt a
     else ps ! j = f_lit A 0)"

lemma shares_step:
  assumes "shares A h rt as ps" and "0 \<le> mv h a" "mv h a < 361"
  shows "visit_share A (visit_count (h_node h rt)) (h_node h a) ps =
      Some (if visited h a then ps[nat (mv h a) := share_of A h rt a] else ps)"
    "shares A h rt (as @ [a]) (if visited h a then ps[nat (mv h a) := share_of A h rt a] else ps)"
proof -
  show "visit_share A (visit_count (h_node h rt)) (h_node h a) ps =
      Some (if visited h a then ps[nat (mv h a) := share_of A h rt a] else ps)"
    using assms by (simp add: visit_share_def share_of_def shares_def nat_less_iff)
  show "shares A h rt (as @ [a]) (if visited h a then ps[nat (mv h a) := share_of A h rt a] else ps)"
  proof (cases "visited h a")
    case True
    have "ps[nat (mv h a) := share_of A h rt a] ! j = (if mv h a = int j then share_of A h rt a else ps ! j)" if "j < 362" for j
      using assms that by (auto simp: shares_def nth_list_update)
    with True assms show ?thesis by (fastforce simp: shares_def)
  qed (use assms in \<open>simp add: shares_def\<close>)
qed

lemma visit_policy_shares:
  assumes "\<forall>a\<in>set (kids h rt). visited h a \<longrightarrow> 0 \<le> mv h a \<and> mv h a < 361"
  shows "\<exists>ps. visit_policy A h rt = Some ps \<and> shares A h rt (kids h rt) ps"
  unfolding visit_policy_def
proof (rule foldo_rule [where P = "shares A h rt"])
  fix dn a rest ps assume l: "kids h rt = dn @ a # rest" and s: "shares A h rt dn ps"
  show "\<exists>ps'. visit_share A (visit_count (h_node h rt)) (h_node h a) ps = Some ps' \<and> shares A h rt (dn @ [a]) ps'"
  proof (cases "visited h a")
    case True
    with assms l shares_step [OF s, of a] show ?thesis by simp
  qed (use s in \<open>simp add: visit_share_def shares_def\<close>)
qed (simp add: shares_def)

lemma visit_policy_fails:
  assumes "a \<in> set (kids h rt)" "visited h a" "mv h a < 0"
  shows "visit_policy A h rt = None"
proof -
  have "foldo (\<lambda>a. visit_share A n (h_node h a)) as ps = None" if "a \<in> set as" for as ps n
    using that
  proof (induction as arbitrary: ps)
    case (Cons b as)
    then show ?case
      using assms by (cases "b = a") (auto simp: visit_share_def split: option.split)
  qed simp
  with assms(1) show ?thesis by (simp add: visit_policy_def)
qed

lemma kids_moves:
  assumes run: "engine_run A Z ne raw hist e" and ne: "permutes_moves ne" and a: "a \<in> set (kids (heap_of e) (m_root e))"
  shows "mv (heap_of e) a = COORD_PASS \<or> 0 \<le> mv (heap_of e) a \<and> mv (heap_of e) a < 361"
proof -
  from run_ok [OF run ne] obtain T where T: "engine_ok Z raw hist T e" by blast
  from child_legal [OF T a] Move_playable have "playable (mv (heap_of e) a)" by blast
  then show ?thesis by (auto simp: point_defs)
qed

lemma turn_move_run:
  assumes run: "engine_run A Z ne raw hist e" and ne: "permutes_moves ne" and k: "length hist < 253"
    and s: "searching_runs A Z ne (t_searching k)" and r: "parks A Z ne (t_rest k)" and g: "turn_move A ne k e = Some ((x, y), e1)"
  shows "engine_run A Z ne raw hist e1 \<and> parked e1 \<and> (IsResignXY x y \<or> (\<exists>b. Move Z (CoordToId x y) (m_board e1) = Some (0, b)))"
proof -
  from g obtain counts v e' where e': "GenMove A ne (t_answers k) (t_noise k) (t_now k) (t_searching k) (t_sample k) e = Some (((x, y), counts, v), e')"
    "e1 = turn_engine k e'" by (auto simp: turn_move_def)
  from k have k': "length hist \<le> 253" by simp
  note G = GenMove_keeps [OF run ne k' s e'(1)]
  have "engine_run A Z ne raw hist (worked (t_rest k e') e')" "parked (worked (t_rest k e') e')" using parksD [OF r, of raw hist e'] G by simp_all
  from engine_run.pause [OF this] this(2) G e'(2) show ?thesis by (simp add: turn_engine_def)
qed

text \<open>The move of a turn succeeds.\<close>

lemma turn_plays:
  assumes run: "engine_run A Z ne raw hist e" "parked e" and ne: "permutes_moves ne"
    and m: "IsResignXY x y \<or> (\<exists>b. Move Z (CoordToId x y) (m_board e) = Some (0, b))"
    and bg: "\<not> enable_background_search (m_config e)" "m_pending_config e = None"
  shows "\<exists>e'. engine_Move A Z ne answers noise now x y e = Some e'"
proof (cases "IsResignXY x y")
  case True
  then show ?thesis by (simp add: engine_Move_def Let_def)
next
  case False
  with m obtain b where b: "Move Z (CoordToId x y) (m_board e) = Some (0, b)" by blast
  from run_ok [OF run(1) ne] obtain T where T: "engine_ok Z raw hist T e" by blast
  obtain e5 where "m_config e5 = (case m_pending_config e of None \<Rightarrow> m_config e | Some c \<Rightarrow> c)"
    "engine_Move A Z ne answers noise now x y e =
       (if not_over (m_config e5) b \<and> enable_background_search (m_config e5) then SearchResume A ne answers noise now e5
        else Some (if not_over (m_config e5) b then e5\<lparr>m_search := (m_search e5)\<lparr>s_counter := 0\<rparr>\<rparr> else e5))"
    by (rule next_engine [where A = A and ne = ne and answers = answers and noise = noise and now = now,
        OF T run(2) Move_playable [OF b] b]) (rule that)
  with bg show ?thesis by simp
qed

lemma turn_kept:
  assumes run: "engine_run A Z ne raw hist e" "parked e" and k: "length hist < 253"
    and mv: "engine_Move A Z ne answers noise now x y e = Some e'"
  shows "if IsResignXY x y then engine_run A Z ne raw hist e'
    else engine_run A Z ne raw (hist @ [CoordToId x y]) e' \<and> Move Z (CoordToId x y) (m_board e) = Some (0, m_board e')"
proof (cases "IsResignXY x y")
  case True
  with engine_run.resigned [OF run True mv] show ?thesis by simp
next
  case False
  from move_result [OF mv False] have b: "Move Z (CoordToId x y) (m_board e) = Some (0, m_board e')" by simp
  with engine_run.play [OF run k Move_playable [OF b] mv] False show ?thesis by simp
qed

lemma turn_data:
  assumes run: "engine_run A Z ne raw hist e" and ne: "permutes_moves ne" and k: "length hist < 253"
  obtains f w where "GetFeature (m_board e) = Some f" "length f = 361 * 17" "turn_winner (m_config e) x y (m_board e) = Some w"
proof -
  from run_ok [OF run ne] obtain T where T: "engine_ok Z raw hist T e" by blast
  from engine_reachable [OF this] obtain H where "reachable Z (start_board (m_config e) raw) (length hist) H (m_board e)" by blast
  from reachable_eval [OF this] k obtain f w where "GetFeature (m_board e) = Some f" "length f = 361 * 17"
    "GetWinner (m_board e) = Some w" by auto
  moreover from this(3) obtain w' where "turn_winner (m_config e) x y (m_board e) = Some w'"
    by (cases "turn_winner (m_config e) x y (m_board e)") (auto simp: turn_winner_def split: if_splits)
  ultimately show thesis by (intro that)
qed


definition example_turn :: "real turn" where
  "example_turn = \<lparr>t_answers = first_answer, t_noise = (\<lambda>_. 1), t_now = 0, t_searching = short_search real_arith keep_order,
     t_sample = (\<lambda>_. 0), t_rest = all_fail real_arith keep_order, t_answers' = first_answer, t_noise' = (\<lambda>_. 1), t_now' = 0\<rparr>"


end
