(* ===== verification/Mcts_Analysis.thy ===== *)
theory Mcts_Analysis
  imports Mcts_Debug Mcts_Properties
begin

text \<open>
  The analysis lists the children of the root by visits, each with a line of play that follows the most
  visited children down to a leaf.
\<close>

text \<open>\<open>best_line h n p\<close>: from \<open>n\<close> down to a leaf along children with the most visits.\<close>

fun best_line :: "'f heap \<Rightarrow> addr \<Rightarrow> addr list \<Rightarrow> bool" where
  "best_line h n [] \<longleftrightarrow> kids h n = []"
| "best_line h n (c # p) \<longleftrightarrow> c \<in> set (kids h n) \<and>
     (\<forall>b\<in>set (kids h n). visit_count (h_node h b) \<le> visit_count (h_node h c)) \<and> best_line h c p"

definition line_str :: "'f heap \<Rightarrow> addr list \<Rightarrow> string" where
  "line_str h p = concat (map (\<lambda>a. IdToMoveStr (mv h a) @ '' '') p)"

lemma line_str_simps [simp]:
  "line_str h [] = []" "line_str h (a # p) = IdToMoveStr (mv h a) @ '' '' @ line_str h p"
  by (simp_all add: line_str_def)

lemma best_line_seg: "best_line h n p \<Longrightarrow> seg h n p"
  by (induction p arbitrary: n) auto

lemma picked_child:
  assumes "pick_ok pick" and "r < length (kids h n)"
  shows "picked pick h r n \<in> set (kids h n)"
    "visit_count (h_node h (picked pick h r n)) = rev (sort (map (\<lambda>a. visit_count (h_node h a)) (kids h n))) ! r"
proof -
  let ?vs = "map (\<lambda>a. visit_count (h_node h a)) (kids h n)"
  have p: "pick r ?vs < length ?vs" "?vs ! pick r ?vs = rev (sort ?vs) ! r"
    using assms(1) [unfolded pick_ok_def, rule_format, of r ?vs] assms(2) by simp_all
  then show "picked pick h r n \<in> set (kids h n)" by (simp add: picked_def)
  show "visit_count (h_node h (picked pick h r n)) = rev (sort ?vs) ! r"
    using p by (simp add: picked_def del: length_kids)
qed

lemma rev_sort_first: "x \<in> set xs \<Longrightarrow> (x :: int) \<le> rev (sort xs) ! 0"
proof -
  assume x: "x \<in> set xs"
  then obtain i where i: "i < length xs" "sort xs ! i = x" by (metis in_set_conv_nth length_sort set_sort)
  have "sort xs ! i \<le> sort xs ! (length xs - 1)" using i by (intro sorted_nth_mono) auto
  moreover have "rev (sort xs) ! 0 = sort xs ! (length xs - 1)" using i(1) by (subst rev_nth) auto
  ultimately show ?thesis using i(2) by simp
qed

lemma picked_best:
  assumes "pick_ok pick" and "kids h n \<noteq> []" and "b \<in> set (kids h n)"
  shows "visit_count (h_node h b) \<le> visit_count (h_node h (picked pick h 0 n))"
proof -
  from assms(2) have l: "0 < length (kids h n)" by (simp del: length_kids)
  show ?thesis unfolding picked_child(2) [OF assms(1) l] using assms(3) by (intro rev_sort_first) simp
qed

text \<open>The line ends: in a tree a line is not longer than there are nodes.\<close>

lemma pv_loop_line:
  assumes ok: "tree_ok h r T d" and p: "pick_ok pick"
  shows "n \<in> T \<Longrightarrow> \<exists>p. best_line h n p \<and> pv_loop pick h n pv = Some (pv @ line_str h p)"
proof (induction "card {x \<in> T. d n < d x}" arbitrary: n pv rule: less_induct)
  case less
  show ?case
  proof (cases "kids h n = []")
    case True
    then have "\<not> 0 < ch_len (h_node h n)" by (simp add: kids_def)
    then have "pv_loop pick h n pv = Some pv" by (subst pv_loop.simps) simp
    then show ?thesis using True by (intro exI [of _ "[]"]) simp
  next
    case False
    then have len: "0 < ch_len (h_node h n)" "0 < length (kids h n)" by (auto simp: kids_def simp del: length_kids)
    let ?b = "picked pick h 0 n"
    note b = picked_child(1) [OF p len(2)]
    with tree_okD(8) [OF ok less.prems] have bT: "?b \<in> T" "d ?b = Suc (d n)" by blast+
    have "?b \<in> {x \<in> T. d n < d x} - {x \<in> T. d ?b < d x}" "{x \<in> T. d ?b < d x} \<subseteq> {x \<in> T. d n < d x}"
      using bT(1) by (simp_all add: bT(2) Collect_mono_iff)
    then have "{x \<in> T. d ?b < d x} \<subset> {x \<in> T. d n < d x}" by blast
    then have "card {x \<in> T. d ?b < d x} < card {x \<in> T. d n < d x}"
      using tree_okD(1) [OF ok] by (intro psubset_card_mono) simp_all
    from less.hyps [OF this bT(1), of "pv @ IdToMoveStr (mv h ?b) @ '' ''"] obtain q where
      q: "best_line h ?b q" "pv_loop pick h ?b (pv @ IdToMoveStr (mv h ?b) @ '' '') = Some ((pv @ IdToMoveStr (mv h ?b) @ '' '') @ line_str h q)"
      by blast
    have "pv_loop pick h n pv = Some (pv @ line_str h (?b # q))"
      using len(1) q(2) by (subst pv_loop.simps) (simp add: Let_def)
    with q(1) b picked_best [OF p False] show ?thesis by (intro exI [of _ "?b # q"]) simp
  qed
qed

text \<open>What is printed of a child, with a line below it.\<close>

definition child_data :: "'f arith \<Rightarrow> 'f heap \<Rightarrow> addr \<Rightarrow> addr list \<Rightarrow> 'f OutputAnalysisData" where
  "child_data A h c p =
     \<lparr>m_move = IdToMoveStr (mv h c), m_visits = visit_count (h_node h c),
      m_winrate = (let mean = f_div A (f_div A (f_of_int A (total_action (h_node h c))) (f_of_int A (2 ^ 16))) (f_of_int A (visit_count (h_node h c)))
        in f_mul A (f_mul A (f_add A mean (f_lit A 1)) (f_lit A 50)) (f_lit A 100)),
      m_policy_prior = f_mul A (prior_prob (h_node h c)) (f_lit A 100), m_pv = line_str h (c # p)\<rparr>"

lemma analyse_child_data:
  assumes ok: "tree_ok h r T d" and p: "pick_ok pick" and i: "i < length (kids h r)"
  shows "\<exists>q. best_line h (picked pick h i r) q \<and> analyse_child A pick h r i = Some (child_data A h (picked pick h i r) q)"
proof -
  let ?b = "picked pick h i r"
  from tree_okD(8) [OF ok tree_okD(2) [OF ok] picked_child(1) [OF p i]] have "?b \<in> T" by blast
  from pv_loop_line [OF ok p this, of "IdToMoveStr (mv h ?b) @ '' ''"] show ?thesis
    by (auto simp: analyse_child_def child_data_def mean_action_def child_action_def Let_def)
qed

lemma analyse_children_data:
  assumes ok: "tree_ok h r T d" and p: "pick_ok pick"
  shows "\<forall>i\<in>set js. i < length (kids h r) \<Longrightarrow> \<exists>ds. analyse_children A pick h r js = Some ds \<and>
    list_all2 (\<lambda>i d. \<exists>q. best_line h (picked pick h i r) q \<and> d = child_data A h (picked pick h i r) q) js ds"
proof (induction js)
  case (Cons i js)
  from Cons obtain ds where ds: "analyse_children A pick h r js = Some ds"
    "list_all2 (\<lambda>i d. \<exists>q. best_line h (picked pick h i r) q \<and> d = child_data A h (picked pick h i r) q) js ds" by auto
  from analyse_child_data [OF ok p, of i A] Cons.prems obtain q where
    "best_line h (picked pick h i r) q" "analyse_child A pick h r i = Some (child_data A h (picked pick h i r) q)" by auto
  with ds show ?case by auto
qed simp

subsection \<open>Sorting\<close>

lemma mset_insert_stable [simp]: "mset (insert_stable lt x xs) = add_mset x (mset xs)"
  by (induction xs) simp_all

lemma mset_stable_sort [simp]: "mset (stable_sort lt xs) = mset xs"
  by (induction xs) (simp_all add: stable_sort_def)

lemma insert_stable_sorted:
  assumes "sorted (map (\<lambda>d. - m_visits d) ds)"
  shows "sorted (map (\<lambda>d. - m_visits d) (insert_stable (analysis_before A) d ds))"
  using assms
proof (induction ds)
  case (Cons e ds)
  have s: "set (insert_stable lt x xs) = insert x (set xs)" for lt and x :: "'a OutputAnalysisData" and xs
    using mset_insert_stable [of lt x xs] by (metis set_mset_add_mset_insert set_mset_mset)
  from Cons show ?case by (auto simp: s analysis_before_def split: if_splits)
qed simp

lemma stable_sort_sorted: "sorted (map (\<lambda>d. - m_visits d) (stable_sort (analysis_before A) ds))"
  by (induction ds) (simp_all add: stable_sort_def insert_stable_sorted)

lemma sorted_rev_sort:
  assumes "sorted (map uminus xs)" and "mset xs = mset (ys :: int list)"
  shows "xs = rev (sort ys)"
proof -
  have "sorted (rev xs)" using assms(1) by (auto simp: sorted_iff_nth_mono rev_nth)
  with assms(2) have "rev xs = sort ys" by (intro properties_for_sort [symmetric]) simp_all
  then show ?thesis by (metis rev_rev_ident)
qed

subsection \<open>The analysis\<close>

text \<open>A choice among equals that the standard allows: always the first.\<close>

definition first_pick :: "nat \<Rightarrow> int list \<Rightarrow> nat" where
  "first_pick r vs = length (takeWhile (\<lambda>v. v \<noteq> rev (sort vs) ! r) vs)"

lemma first_pick_ok: "pick_ok first_pick"
proof -
  have "first_pick r vs < length vs \<and> vs ! first_pick r vs = rev (sort vs) ! r" if r: "r < length vs" for r vs
  proof -
    from r have "rev (sort vs) ! r \<in> set (rev (sort vs))" by (intro nth_mem) simp
    then have m: "rev (sort vs) ! r \<in> set vs" by simp
    have "x \<in> set xs \<Longrightarrow> length (takeWhile (\<lambda>v. v \<noteq> x) xs) < length xs" for x :: int and xs by (induction xs) auto
    from this [OF m] have l: "length (takeWhile (\<lambda>v. v \<noteq> rev (sort vs) ! r) vs) < length vs" .
    from nth_length_takeWhile [OF l] l show ?thesis by (simp add: first_pick_def)
  qed
  then show ?thesis by (simp add: pick_ok_def)
qed

text \<open>The ranks are looked up one by one, so that with equal visits one child may be listed twice and another not at all.\<close>

lemma analysis_may_repeat: "\<exists>pick. pick_ok pick \<and> pick 0 [v, v] = pick 1 [v, v]"
  using first_pick_ok by (intro exI [of _ first_pick]) (simp add: first_pick_def)



end
