(* ===== verification/Mcts_Monitor.thy ===== *)
theory Mcts_Monitor
  imports Cpp_Float Sync_Conductor "HOL-Library.Multiset"
begin

text \<open>
  mcts_monitor.h and mcts_monitor.cc: statistics of the search. Every thread has a local monitor, which it
  creates at its first record; the monitor of an engine combines those of all threads. Local
  monitors are shared objects, here entries of a store; counts stay far below the range of \<open>int\<close>.
\<close>

subsection \<open>Averages\<close>

record 'f Average =
  avg :: 'f
  cnt :: int

definition Average_new :: "'f arith \<Rightarrow> 'f Average" where
  "Average_new A = \<lparr>avg = f_lit A 0, cnt = 0\<rparr>"

definition Average_Update :: "'f arith \<Rightarrow> 'f \<Rightarrow> 'f Average \<Rightarrow> 'f Average" where
  "Average_Update A v a =
     (let n = cnt a + 1 in \<lparr>avg = f_add A (avg a) (f_div A (f_sub A v (avg a)) (f_of_int A n)), cnt = n\<rparr>)"

definition Average_Merge :: "'f arith \<Rightarrow> 'f Average \<Rightarrow> 'f Average \<Rightarrow> 'f Average" where
  "Average_Merge A v a =
     (if cnt v \<noteq> 0 then let n = cnt a + cnt v in
        \<lparr>avg = f_add A (avg a) (f_div A (f_mul A (f_sub A (avg v) (avg a)) (f_of_int A (cnt v))) (f_of_int A n)), cnt = n\<rparr>
      else a)"

definition UpdateMax :: "('a \<Rightarrow> 'a \<Rightarrow> bool) \<Rightarrow> 'a \<Rightarrow> 'a \<Rightarrow> 'a" where
  "UpdateMax lt b a = (if lt a b then b else a)"

subsection \<open>The monitor of a thread\<close>

record 'f LocalMonitor =
  lm_id :: int
  m_max_eval_cost_ms :: 'f
  m_avg_eval_cost_ms :: "'f Average"
  m_max_eval_cost_ms_per_batch :: 'f
  m_avg_eval_cost_ms_per_batch :: "'f Average"
  m_max_sim_cost_ms :: 'f
  m_avg_sim_cost_ms :: "'f Average"
  m_max_select_cost_ms :: 'f
  m_avg_select_cost_ms :: "'f Average"
  m_max_expand_cost_ms :: 'f
  m_avg_expand_cost_ms :: "'f Average"
  m_max_backup_cost_ms :: 'f
  m_avg_backup_cost_ms :: "'f Average"
  m_avg_batch_size :: "'f Average"
  m_eval_timeout :: int
  m_select_same_node :: int
  m_max_tree_height :: int
  m_avg_tree_height :: "'f Average"
  m_avg_task_queue_size :: "'f Average"
  m_avg_rpc_queue_size :: "'f Average"

definition LocalMonitor_Reset :: "'f arith \<Rightarrow> 'f LocalMonitor \<Rightarrow> 'f LocalMonitor" where
  "LocalMonitor_Reset A l =
     (let z = f_lit A 0; a = Average_new A
      in l\<lparr>m_max_eval_cost_ms := z, m_avg_eval_cost_ms := a, m_max_eval_cost_ms_per_batch := z, m_avg_eval_cost_ms_per_batch := a,
           m_max_sim_cost_ms := z, m_avg_sim_cost_ms := a, m_max_select_cost_ms := z, m_avg_select_cost_ms := a,
           m_max_expand_cost_ms := z, m_avg_expand_cost_ms := a, m_max_backup_cost_ms := z, m_avg_backup_cost_ms := a,
           m_avg_batch_size := a, m_eval_timeout := 0, m_select_same_node := 0, m_max_tree_height := 0, m_avg_tree_height := a,
           m_avg_task_queue_size := a, m_avg_rpc_queue_size := a\<rparr>)"

definition LocalMonitor_new :: "'f arith \<Rightarrow> int \<Rightarrow> 'f LocalMonitor" where
  "LocalMonitor_new A i =
     (let z = f_lit A 0; a = Average_new A in LocalMonitor_Reset A \<lparr>lm_id = i, m_max_eval_cost_ms = z, m_avg_eval_cost_ms = a,
        m_max_eval_cost_ms_per_batch = z, m_avg_eval_cost_ms_per_batch = a, m_max_sim_cost_ms = z, m_avg_sim_cost_ms = a,
        m_max_select_cost_ms = z, m_avg_select_cost_ms = a, m_max_expand_cost_ms = z, m_avg_expand_cost_ms = a,
        m_max_backup_cost_ms = z, m_avg_backup_cost_ms = a, m_avg_batch_size = a, m_eval_timeout = 0, m_select_same_node = 0,
        m_max_tree_height = 0, m_avg_tree_height = a, m_avg_task_queue_size = a, m_avg_rpc_queue_size = a\<rparr>)"

definition MonEvalCostMs :: "'f arith \<Rightarrow> 'f \<Rightarrow> 'f LocalMonitor \<Rightarrow> 'f LocalMonitor" where
  "MonEvalCostMs A v l = l\<lparr>m_max_eval_cost_ms := UpdateMax (f_lt A) v (m_max_eval_cost_ms l),
     m_avg_eval_cost_ms := Average_Update A v (m_avg_eval_cost_ms l)\<rparr>"

definition MonEvalCostMsPerBatch :: "'f arith \<Rightarrow> 'f \<Rightarrow> 'f LocalMonitor \<Rightarrow> 'f LocalMonitor" where
  "MonEvalCostMsPerBatch A v l = l\<lparr>m_max_eval_cost_ms_per_batch := UpdateMax (f_lt A) v (m_max_eval_cost_ms_per_batch l),
     m_avg_eval_cost_ms_per_batch := Average_Update A v (m_avg_eval_cost_ms_per_batch l)\<rparr>"

definition MonSimulationCostMs :: "'f arith \<Rightarrow> 'f \<Rightarrow> 'f LocalMonitor \<Rightarrow> 'f LocalMonitor" where
  "MonSimulationCostMs A v l = l\<lparr>m_max_sim_cost_ms := UpdateMax (f_lt A) v (m_max_sim_cost_ms l),
     m_avg_sim_cost_ms := Average_Update A v (m_avg_sim_cost_ms l)\<rparr>"

definition MonSelectCostMs :: "'f arith \<Rightarrow> 'f \<Rightarrow> 'f LocalMonitor \<Rightarrow> 'f LocalMonitor" where
  "MonSelectCostMs A v l = l\<lparr>m_max_select_cost_ms := UpdateMax (f_lt A) v (m_max_select_cost_ms l),
     m_avg_select_cost_ms := Average_Update A v (m_avg_select_cost_ms l)\<rparr>"

definition MonExpandCostMs :: "'f arith \<Rightarrow> 'f \<Rightarrow> 'f LocalMonitor \<Rightarrow> 'f LocalMonitor" where
  "MonExpandCostMs A v l = l\<lparr>m_max_expand_cost_ms := UpdateMax (f_lt A) v (m_max_expand_cost_ms l),
     m_avg_expand_cost_ms := Average_Update A v (m_avg_expand_cost_ms l)\<rparr>"

definition MonBackupCostMs :: "'f arith \<Rightarrow> 'f \<Rightarrow> 'f LocalMonitor \<Rightarrow> 'f LocalMonitor" where
  "MonBackupCostMs A v l = l\<lparr>m_max_backup_cost_ms := UpdateMax (f_lt A) v (m_max_backup_cost_ms l),
     m_avg_backup_cost_ms := Average_Update A v (m_avg_backup_cost_ms l)\<rparr>"

definition MonEvalBatchSize :: "'f arith \<Rightarrow> int \<Rightarrow> 'f LocalMonitor \<Rightarrow> 'f LocalMonitor" where
  "MonEvalBatchSize A n l = l\<lparr>m_avg_batch_size := Average_Update A (f_of_int A n) (m_avg_batch_size l)\<rparr>"

definition IncEvalTimeout :: "'f LocalMonitor \<Rightarrow> 'f LocalMonitor" where
  "IncEvalTimeout l = l\<lparr>m_eval_timeout := m_eval_timeout l + 1\<rparr>"

definition IncSelectSameNode :: "'f LocalMonitor \<Rightarrow> 'f LocalMonitor" where
  "IncSelectSameNode l = l\<lparr>m_select_same_node := m_select_same_node l + 1\<rparr>"

definition MonSearchTreeHeight :: "'f arith \<Rightarrow> int \<Rightarrow> 'f LocalMonitor \<Rightarrow> 'f LocalMonitor" where
  "MonSearchTreeHeight A h l = l\<lparr>m_max_tree_height := UpdateMax (<) h (m_max_tree_height l),
     m_avg_tree_height := Average_Update A (f_of_int A h) (m_avg_tree_height l)\<rparr>"

definition MonTaskQueueSize :: "'f arith \<Rightarrow> int \<Rightarrow> 'f LocalMonitor \<Rightarrow> 'f LocalMonitor" where
  "MonTaskQueueSize A n l = l\<lparr>m_avg_task_queue_size := Average_Update A (f_of_int A n) (m_avg_task_queue_size l)\<rparr>"

definition MonRpcQueueSize :: "'f arith \<Rightarrow> int \<Rightarrow> 'f LocalMonitor \<Rightarrow> 'f LocalMonitor" where
  "MonRpcQueueSize A n l = l\<lparr>m_avg_rpc_queue_size := Average_Update A (f_of_int A n) (m_avg_rpc_queue_size l)\<rparr>"

subsection \<open>The monitor of an engine\<close>

text \<open>\<open>mon_current\<close> holds, for the slot of this monitor, the thread-local pointer of each thread that has one; it
  may point to a local monitor of an earlier owner of the slot. \<open>mon_members\<close> are the pointers of
  \<open>m_local_monitors\<close>.\<close>

record 'f MCTSMonitor =
  mon_id :: int
  mon_store :: "nat \<Rightarrow> 'f LocalMonitor"
  mon_next :: nat
  mon_current :: "(nat \<times> nat) list"
  mon_members :: "nat list"

definition drop_local :: "nat \<Rightarrow> 'f MCTSMonitor \<Rightarrow> 'f MCTSMonitor" where
  "drop_local t m = m\<lparr>mon_current := filter (\<lambda>(u, r). u \<noteq> t) (mon_current m)\<rparr>"

definition make_local :: "'f arith \<Rightarrow> nat \<Rightarrow> 'f MCTSMonitor \<Rightarrow> 'f MCTSMonitor" where
  "make_local A t m =
     (let r = mon_next m; m1 = drop_local t m
      in m1\<lparr>mon_store := (mon_store m)(r := LocalMonitor_new A (mon_id m)), mon_next := r + 1,
            mon_current := (t, r) # mon_current m1, mon_members := mon_members m @ [r]\<rparr>)"

definition GetLocal :: "'f arith \<Rightarrow> nat \<Rightarrow> 'f MCTSMonitor \<Rightarrow> nat \<times> 'f MCTSMonitor" where
  "GetLocal A t m =
     (case map_of (mon_current m) t of
        None \<Rightarrow> (mon_next m, make_local A t m)
      | Some r \<Rightarrow> if lm_id (mon_store m r) \<noteq> mon_id m then (mon_next m, make_local A t m) else (r, m))"

text \<open>A record of thread \<open>t\<close>, by any of the operations above.\<close>

definition record_by :: "'f arith \<Rightarrow> nat \<Rightarrow> ('f LocalMonitor \<Rightarrow> 'f LocalMonitor) \<Rightarrow> 'f MCTSMonitor \<Rightarrow> 'f MCTSMonitor" where
  "record_by A t f m = (case GetLocal A t m of (r, m') \<Rightarrow> m'\<lparr>mon_store := (mon_store m')(r := f (mon_store m' r))\<rparr>)"

definition GetGlobal :: "('f LocalMonitor \<Rightarrow> 'a) \<Rightarrow> ('a \<Rightarrow> 'a \<Rightarrow> 'a) \<Rightarrow> 'a \<Rightarrow> 'f MCTSMonitor \<Rightarrow> 'a" where
  "GetGlobal field update_fn zero m = fold (\<lambda>r ret. update_fn (field (mon_store m r)) ret) (mon_members m) zero"

definition GetGlobalSum :: "('f LocalMonitor \<Rightarrow> int) \<Rightarrow> 'f MCTSMonitor \<Rightarrow> int" where
  "GetGlobalSum field m = GetGlobal field (\<lambda>b a. a + b) 0 m"

definition GetGlobalMax :: "('a \<Rightarrow> 'a \<Rightarrow> bool) \<Rightarrow> 'a \<Rightarrow> ('f LocalMonitor \<Rightarrow> 'a) \<Rightarrow> 'f MCTSMonitor \<Rightarrow> 'a" where
  "GetGlobalMax lt zero field m = GetGlobal field (UpdateMax lt) zero m"

definition GetGlobalAvg :: "'f arith \<Rightarrow> ('f LocalMonitor \<Rightarrow> 'f Average) \<Rightarrow> 'f MCTSMonitor \<Rightarrow> 'f" where
  "GetGlobalAvg A field m = avg (GetGlobal field (Average_Merge A) (Average_new A) m)"

text \<open>\<open>Reset\<close>; a pointer that only the list holds is dropped.\<close>

definition Monitor_Reset :: "'f arith \<Rightarrow> 'f MCTSMonitor \<Rightarrow> 'f MCTSMonitor" where
  "Monitor_Reset A m =
     m\<lparr>mon_store := (\<lambda>r. if r \<in> set (mon_members m) then LocalMonitor_Reset A (mon_store m r) else mon_store m r),
       mon_members := filter (\<lambda>r. r \<in> snd ` set (mon_current m)) (mon_members m)\<rparr>"

text \<open>The slots: the constructor takes the first free one of 1000, a failed check if there is none; the
  destructor frees it, and the pointer of its own thread.\<close>

definition k_max_monitor_instances :: nat where
  "k_max_monitor_instances = 1000"

definition first_free :: "bool list \<Rightarrow> nat" where
  "first_free slots = length (takeWhile id slots)"

definition MCTSMonitor_new :: "int \<Rightarrow> bool list \<Rightarrow> (nat \<Rightarrow> 'f LocalMonitor) \<Rightarrow> nat \<Rightarrow> (nat \<times> nat) list \<Rightarrow> (nat \<times> bool list \<times> 'f MCTSMonitor) option" where
  "MCTSMonitor_new i slots store n cur =
     (let s = first_free slots
      in if s < k_max_monitor_instances
         then Some (s, slots[s := True], \<lparr>mon_id = i, mon_store = store, mon_next = n, mon_current = cur, mon_members = []\<rparr>)
         else None)"

definition MCTSMonitor_delete :: "nat \<Rightarrow> nat \<Rightarrow> bool list \<Rightarrow> (nat \<times> nat) list \<Rightarrow> bool list \<times> (nat \<times> nat) list" where
  "MCTSMonitor_delete s t slots cur = (slots[s := False], filter (\<lambda>(u, r). u \<noteq> t) cur)"

subsection \<open>The statistics\<close>

definition MaxEvalCostMs :: "'f arith \<Rightarrow> 'f MCTSMonitor \<Rightarrow> 'f" where
  "MaxEvalCostMs A m = GetGlobalMax (f_lt A) (f_lit A 0) m_max_eval_cost_ms m"

definition AvgEvalCostMs :: "'f arith \<Rightarrow> 'f MCTSMonitor \<Rightarrow> 'f" where
  "AvgEvalCostMs A m = GetGlobalAvg A m_avg_eval_cost_ms m"

definition MaxEvalCostMsPerBatch :: "'f arith \<Rightarrow> 'f MCTSMonitor \<Rightarrow> 'f" where
  "MaxEvalCostMsPerBatch A m = GetGlobalMax (f_lt A) (f_lit A 0) m_max_eval_cost_ms_per_batch m"

definition AvgEvalCostMsPerBatch :: "'f arith \<Rightarrow> 'f MCTSMonitor \<Rightarrow> 'f" where
  "AvgEvalCostMsPerBatch A m = GetGlobalAvg A m_avg_eval_cost_ms_per_batch m"

definition MaxSimulationCostMs :: "'f arith \<Rightarrow> 'f MCTSMonitor \<Rightarrow> 'f" where
  "MaxSimulationCostMs A m = GetGlobalMax (f_lt A) (f_lit A 0) m_max_sim_cost_ms m"

definition AvgSimulationCostMs :: "'f arith \<Rightarrow> 'f MCTSMonitor \<Rightarrow> 'f" where
  "AvgSimulationCostMs A m = GetGlobalAvg A m_avg_sim_cost_ms m"

definition MaxSelectCostMs :: "'f arith \<Rightarrow> 'f MCTSMonitor \<Rightarrow> 'f" where
  "MaxSelectCostMs A m = GetGlobalMax (f_lt A) (f_lit A 0) m_max_select_cost_ms m"

definition AvgSelectCostMs :: "'f arith \<Rightarrow> 'f MCTSMonitor \<Rightarrow> 'f" where
  "AvgSelectCostMs A m = GetGlobalAvg A m_avg_select_cost_ms m"

definition MaxExpandCostMs :: "'f arith \<Rightarrow> 'f MCTSMonitor \<Rightarrow> 'f" where
  "MaxExpandCostMs A m = GetGlobalMax (f_lt A) (f_lit A 0) m_max_expand_cost_ms m"

definition AvgExpandCostMs :: "'f arith \<Rightarrow> 'f MCTSMonitor \<Rightarrow> 'f" where
  "AvgExpandCostMs A m = GetGlobalAvg A m_avg_expand_cost_ms m"

definition MaxBackupCostMs :: "'f arith \<Rightarrow> 'f MCTSMonitor \<Rightarrow> 'f" where
  "MaxBackupCostMs A m = GetGlobalMax (f_lt A) (f_lit A 0) m_max_backup_cost_ms m"

definition AvgBackupCostMs :: "'f arith \<Rightarrow> 'f MCTSMonitor \<Rightarrow> 'f" where
  "AvgBackupCostMs A m = GetGlobalAvg A m_avg_backup_cost_ms m"

definition AvgEvalBatchSize :: "'f arith \<Rightarrow> 'f MCTSMonitor \<Rightarrow> 'f" where
  "AvgEvalBatchSize A m = GetGlobalAvg A m_avg_batch_size m"

definition EvalTimeout :: "'f MCTSMonitor \<Rightarrow> int" where
  "EvalTimeout m = GetGlobalSum m_eval_timeout m"

definition SelectSameNode :: "'f MCTSMonitor \<Rightarrow> int" where
  "SelectSameNode m = GetGlobalSum m_select_same_node m"

definition MaxSearchTreeHeight :: "'f MCTSMonitor \<Rightarrow> int" where
  "MaxSearchTreeHeight m = GetGlobalMax (<) 0 m_max_tree_height m"

definition AvgSearchTreeHeight :: "'f arith \<Rightarrow> 'f MCTSMonitor \<Rightarrow> 'f" where
  "AvgSearchTreeHeight A m = GetGlobalAvg A m_avg_tree_height m"

definition AvgTaskQueueSize :: "'f arith \<Rightarrow> 'f MCTSMonitor \<Rightarrow> 'f" where
  "AvgTaskQueueSize A m = GetGlobalAvg A m_avg_task_queue_size m"

definition AvgRpcQueueSize :: "'f arith \<Rightarrow> 'f MCTSMonitor \<Rightarrow> 'f" where
  "AvgRpcQueueSize A m = GetGlobalAvg A m_avg_rpc_queue_size m"

subsection \<open>What is recorded\<close>

text \<open>The records that the threads of an engine make, and what happens to its monitor.\<close>

datatype 'f mon_call = EvalCost 'f | EvalCostPerBatch 'f | SimulationCost 'f | SelectCost 'f | ExpandCost 'f |
  BackupCost 'f | BatchSize int | TimedOut | SameNode | TreeHeight int | TaskQueueSize int | RpcQueueSize int

fun call_op :: "'f arith \<Rightarrow> 'f mon_call \<Rightarrow> 'f LocalMonitor \<Rightarrow> 'f LocalMonitor" where
  "call_op A (EvalCost v) = MonEvalCostMs A v"
| "call_op A (EvalCostPerBatch v) = MonEvalCostMsPerBatch A v"
| "call_op A (SimulationCost v) = MonSimulationCostMs A v"
| "call_op A (SelectCost v) = MonSelectCostMs A v"
| "call_op A (ExpandCost v) = MonExpandCostMs A v"
| "call_op A (BackupCost v) = MonBackupCostMs A v"
| "call_op A (BatchSize n) = MonEvalBatchSize A n"
| "call_op A TimedOut = IncEvalTimeout"
| "call_op A SameNode = IncSelectSameNode"
| "call_op A (TreeHeight h) = MonSearchTreeHeight A h"
| "call_op A (TaskQueueSize n) = MonTaskQueueSize A n"
| "call_op A (RpcQueueSize n) = MonRpcQueueSize A n"

datatype 'f mon_event = Call nat "'f mon_call" | Exit nat | ResetAll

fun mon_step :: "'f arith \<Rightarrow> 'f mon_event \<Rightarrow> 'f MCTSMonitor \<Rightarrow> 'f MCTSMonitor" where
  "mon_step A (Call t c) m = record_by A t (call_op A c) m"
| "mon_step A (Exit t) m = drop_local t m"
| "mon_step A ResetAll m = Monitor_Reset A m"

text \<open>The records since the last reset.\<close>

fun recent :: "'f mon_call list \<Rightarrow> 'f mon_event list \<Rightarrow> 'f mon_call list" where
  "recent cs [] = cs"
| "recent cs (Call t c # evs) = recent (cs @ [c]) evs"
| "recent cs (Exit t # evs) = recent cs evs"
| "recent cs (ResetAll # evs) = recent [] evs"

lemmas mon_ops = MonEvalCostMs_def MonEvalCostMsPerBatch_def MonSimulationCostMs_def MonSelectCostMs_def
  MonExpandCostMs_def MonBackupCostMs_def MonEvalBatchSize_def IncEvalTimeout_def IncSelectSameNode_def
  MonSearchTreeHeight_def MonTaskQueueSize_def MonRpcQueueSize_def

lemma call_op_id [simp]: "lm_id (call_op A c l) = lm_id l"
  by (cases c) (simp_all add: mon_ops)

lemma LocalMonitor_new_id [simp]: "lm_id (LocalMonitor_new A i) = i"
  by (simp add: LocalMonitor_new_def LocalMonitor_Reset_def Let_def)

lemma fold_call_id [simp]: "lm_id (fold (call_op A) cs l) = lm_id l"
  by (induction cs arbitrary: l) simp_all

lemma LocalMonitor_Reset_new: "LocalMonitor_Reset A l = LocalMonitor_new A (lm_id l)"
  by (cases l) (simp add: LocalMonitor_new_def LocalMonitor_Reset_def Let_def)

subsection \<open>The local monitors share the records out\<close>

text \<open>\<open>share A cs m G\<close>: the local monitor at \<open>r\<close> has seen exactly the records \<open>G r\<close>, which together are \<open>cs\<close>.\<close>

definition share :: "'f arith \<Rightarrow> 'f mon_call list \<Rightarrow> 'f MCTSMonitor \<Rightarrow> (nat \<Rightarrow> 'f mon_call list) \<Rightarrow> bool" where
  "share A cs m G \<longleftrightarrow> distinct (mon_members m) \<and>
     (\<forall>r\<in>set (mon_members m). r < mon_next m \<and> mon_store m r = fold (call_op A) (G r) (LocalMonitor_new A (mon_id m))) \<and>
     (\<forall>(t, r)\<in>set (mon_current m). r < mon_next m \<and> (lm_id (mon_store m r) = mon_id m \<longrightarrow> r \<in> set (mon_members m))) \<and>
     mset cs = mset (concat (map G (mon_members m)))"

lemma share_drop:
  assumes "share A cs m G"
  shows "share A cs (drop_local t m) G"
  using assms by (auto simp: share_def drop_local_def)

lemma share_make:
  assumes "share A cs m G"
  shows "share A cs (make_local A t m) (G(mon_next m := []))"
proof -
  have new: "mon_next m \<notin> set (mon_members m)" using assms by (auto simp: share_def)
  then have G: "map (G(mon_next m := [])) (mon_members m) = map G (mon_members m)" by (auto simp: map_eq_conv)
  show ?thesis
    using assms new unfolding share_def make_local_def Let_def
    by (auto simp: G drop_local_def split: prod.splits)
qed

lemma GetLocal_cases:
  obtains "GetLocal A t m = (mon_next m, make_local A t m)"
  | r where "(t, r) \<in> set (mon_current m)" "lm_id (mon_store m r) = mon_id m" "GetLocal A t m = (r, m)"
proof (cases "map_of (mon_current m) t")
  case None
  then show ?thesis using that(1) by (simp add: GetLocal_def)
next
  case (Some r)
  from map_of_SomeD [OF Some] Some that show ?thesis
    by (cases "lm_id (mon_store m r) = mon_id m") (simp_all add: GetLocal_def)
qed

lemma share_local:
  assumes "share A cs m G" and l: "GetLocal A t m = (r, m')"
  shows "\<exists>G'. share A cs m' G' \<and> r \<in> set (mon_members m')"
proof (rule GetLocal_cases [of A t m])
  assume "GetLocal A t m = (mon_next m, make_local A t m)"
  then have "r = mon_next m" "m' = make_local A t m" using l by simp_all
  moreover have "mon_next m \<in> set (mon_members (make_local A t m))" by (simp add: make_local_def drop_local_def Let_def)
  ultimately show ?thesis using share_make [OF assms(1), of t] by blast
next
  fix q assume q: "(t, q) \<in> set (mon_current m)" "lm_id (mon_store m q) = mon_id m" "GetLocal A t m = (q, m)"
  then have "q \<in> set (mon_members m)" using assms(1) unfolding share_def by blast
  with assms(1) q(3) l show ?thesis by auto
qed

lemma share_call:
  assumes "share A cs m G" and r: "r \<in> set (mon_members m)"
  shows "share A (cs @ [c]) (m\<lparr>mon_store := (mon_store m)(r := call_op A c (mon_store m r))\<rparr>) (G(r := G r @ [c]))"
proof -
  from r obtain us vs where s: "mon_members m = us @ r # vs" by (meson split_list)
  with assms(1) have n: "r \<notin> set us" "r \<notin> set vs" by (auto simp: share_def)
  then have "map (G(r := G r @ [c])) us = map G us" "map (G(r := G r @ [c])) vs = map G vs"
    by (auto simp: map_eq_conv)
  with assms s show ?thesis by (auto simp: share_def split: prod.splits)
qed

lemma share_record:
  assumes "share A cs m G"
  shows "\<exists>G'. share A (cs @ [c]) (record_by A t (call_op A c) m) G'"
proof -
  obtain r m' where l: "GetLocal A t m = (r, m')" by (cases "GetLocal A t m")
  from share_local [OF assms l] share_call show ?thesis by (fastforce simp: record_by_def l)
qed

lemma share_reset:
  assumes "share A cs m G"
  shows "share A [] (Monitor_Reset A m) (\<lambda>_. [])"
  using assms by (force simp: share_def Monitor_Reset_def LocalMonitor_Reset_new split: prod.splits)

lemma share_run:
  assumes "share A cs m G"
  shows "\<exists>G'. share A (recent cs evs) (fold (mon_step A) evs m) G'"
  using assms
proof (induction evs arbitrary: cs m G)
  case (Cons ev evs)
  show ?case
  proof (cases ev)
    case (Call t c)
    with share_record [OF Cons.prems] Cons.IH show ?thesis by fastforce
  next
    case (Exit t)
    with share_drop [OF Cons.prems] Cons.IH show ?thesis by fastforce
  next
    case ResetAll
    with share_reset [OF Cons.prems] Cons.IH show ?thesis by fastforce
  qed
qed auto

text \<open>A new monitor has an identity of its own: nothing that other monitors left in its slot carries it.\<close>

definition fresh_id :: "int \<Rightarrow> (nat \<Rightarrow> 'f LocalMonitor) \<Rightarrow> nat \<Rightarrow> (nat \<times> nat) list \<Rightarrow> bool" where
  "fresh_id i store n cur \<longleftrightarrow> list_all (\<lambda>(t, r). r < n \<and> lm_id (store r) \<noteq> i) cur"

lemma share_new:
  assumes "MCTSMonitor_new i slots store n cur = Some (s, slots', m)" and "fresh_id i store n cur"
  shows "share A [] m (\<lambda>_. [])"
  using assms by (auto simp: MCTSMonitor_new_def share_def fresh_id_def list_all_iff Let_def split: if_splits)

subsection \<open>Merging statistics\<close>

text \<open>What is needed of a statistic \<open>a\<close> that summed up the values \<open>M\<close>: it can take one more value, and two of
  them can be merged. The monitor relies on these laws, and its clients on what follows from them.\<close>

locale statistic =
  fixes upd :: "'v \<Rightarrow> 'a \<Rightarrow> 'a" and merge :: "'a \<Rightarrow> 'a \<Rightarrow> 'a" and zero :: 'a
    and summed :: "'v multiset \<Rightarrow> 'a \<Rightarrow> bool"
  assumes summed_zero: "summed {#} zero"
    and summed_upd: "summed M a \<Longrightarrow> summed (add_mset v M) (upd v a)"
    and summed_merge: "summed M a \<Longrightarrow> summed N b \<Longrightarrow> summed (M + N) (merge b a)"
begin

lemma summed_merge_all:
  assumes "\<forall>r\<in>set rs. summed (mset (F r)) (g r)" and "summed M z"
  shows "summed (M + mset (concat (map F rs))) (fold (\<lambda>r. merge (g r)) rs z)"
  using assms
proof (induction rs arbitrary: M z)
  case (Cons r rs)
  then have "summed (M + mset (F r)) (merge (g r) z)" by (simp add: summed_merge)
  with Cons.IH [OF _ this] Cons.prems(1) show ?case by (simp add: add.assoc)
qed simp

end

text \<open>A field of the local monitors that is such a statistic of the records that \<open>sel\<close> selects.\<close>

locale monitored = statistic upd merge zero summed
  for upd :: "'v \<Rightarrow> 'a \<Rightarrow> 'a" and merge :: "'a \<Rightarrow> 'a \<Rightarrow> 'a" and zero :: 'a and summed :: "'v multiset \<Rightarrow> 'a \<Rightarrow> bool" +
  fixes A :: "'f arith" and field :: "'f LocalMonitor \<Rightarrow> 'a" and sel :: "'f mon_call \<Rightarrow> 'v list"
  assumes field_new: "field (LocalMonitor_new A i) = zero"
    and field_call: "field (call_op A c l) = fold upd (sel c) (field l)"
begin

lemma summed_all: "summed M a \<Longrightarrow> summed (mset vs + M) (fold upd vs a)"
proof (induction vs arbitrary: M a)
  case (Cons v vs)
  from Cons.IH [OF summed_upd [OF Cons.prems]] show ?case by simp
qed simp

lemma local_sums:
  "summed (mset (concat (map sel cs))) (field (fold (call_op A) cs (LocalMonitor_new A i)))"
proof (induction cs rule: rev_induct)
  case (snoc c cs)
  then show ?case using summed_all [OF snoc] by (simp add: field_call add.commute)
qed (simp add: field_new summed_zero)

lemma global_sums:
  assumes "share A cs m G"
  shows "summed (mset (concat (map sel cs))) (GetGlobal field merge zero m)"
proof -
  have s: "mset (concat (map sel xs)) = (\<Sum>c\<in>#mset xs. mset (sel c))" for xs by (induction xs) simp_all
  have "\<forall>r\<in>set (mon_members m). summed (mset (concat (map sel (G r)))) (field (mon_store m r))"
    using assms local_sums by (simp add: share_def)
  from summed_merge_all [OF this summed_zero]
  have "summed (mset (concat (map (\<lambda>r. concat (map sel (G r))) (mon_members m)))) (GetGlobal field merge zero m)"
    by (simp add: GetGlobal_def)
  moreover have "mset (concat (map (\<lambda>r. concat (map sel (G r))) rs)) = (\<Sum>c\<in>#mset (concat (map G rs)). mset (sel c))" for rs
    by (induction rs) (simp_all add: s)
  ultimately show ?thesis using assms by (simp add: share_def s)
qed

end

text \<open>The kinds of statistics: averages, with exact arithmetic; maxima, not below the initial value; counts.\<close>

definition average_of :: "real multiset \<Rightarrow> real Average \<Rightarrow> bool" where
  "average_of M a \<longleftrightarrow> cnt a = int (size M) \<and> avg a = sum_mset M / size M"

definition maximum_of :: "'a::{linorder,zero} multiset \<Rightarrow> 'a \<Rightarrow> bool" where
  "maximum_of M a \<longleftrightarrow> a = Max (insert 0 (set_mset M))"

definition count_of :: "'v multiset \<Rightarrow> int \<Rightarrow> bool" where
  "count_of M a \<longleftrightarrow> a = int (size M)"

lemma UpdateMax_max [simp]: "UpdateMax (<) b a = max a (b :: 'a::linorder)"
  by (auto simp: UpdateMax_def max_def)

interpretation average: statistic "Average_Update real_arith" "Average_Merge real_arith" "Average_new real_arith" average_of
proof
  show "average_of {#} (Average_new real_arith)" by (simp add: average_of_def Average_new_def)
next
  fix M and a :: "real Average" and v
  assume "average_of M a"
  then have a: "cnt a = int (size M)" "avg a * size M = sum_mset M" by (auto simp: average_of_def)
  have "avg a + (v - avg a) / (1 + real (size M)) = (v + sum_mset M) / (1 + real (size M))"
    by (simp add: field_simps a(2) [symmetric])
  with a(1) show "average_of (add_mset v M) (Average_Update real_arith v a)"
    by (simp add: average_of_def Average_Update_def Let_def add.commute)
next
  fix M N and a b :: "real Average"
  assume "average_of M a" "average_of N b"
  then have a: "cnt a = int (size M)" "avg a * size M = sum_mset M"
    and b: "cnt b = int (size N)" "avg b * size N = sum_mset N" by (auto simp: average_of_def)
  show "average_of (M + N) (Average_Merge real_arith b a)"
  proof (cases "size N = 0")
    case True
    with \<open>average_of M a\<close> b(1) show ?thesis by (simp add: Average_Merge_def)
  next
    case False
    then have "0 < real (size M) + real (size N)" by (intro add_nonneg_pos) (simp_all add: Suc_le_eq gr0_conv_Suc nonempty_has_size)
    then have "avg a + (avg b - avg a) * size N / (size M + size N) = (sum_mset M + sum_mset N) / (size M + size N)"
      by (simp add: field_simps a(2) [symmetric] b(2) [symmetric])
    with a(1) b(1) False show ?thesis by (simp add: average_of_def Average_Merge_def Let_def)
  qed
qed

interpretation maximum: statistic "UpdateMax (<)" "UpdateMax (<)" "0 :: 'a::{linorder,zero}" maximum_of
proof
  fix M and a v :: 'a assume "maximum_of M a"
  then show "maximum_of (add_mset v M) (UpdateMax (<) v a)"
    by (simp add: maximum_of_def insert_commute [of 0 v] max.commute del: Max_insert)
       (simp add: max.commute)
next
  fix M N and a b :: 'a assume "maximum_of M a" "maximum_of N b"
  moreover have "insert 0 (set_mset (M + N)) = insert 0 (set_mset M) \<union> insert 0 (set_mset N)" by auto
  ultimately show "maximum_of (M + N) (UpdateMax (<) b a)"
    by (simp add: maximum_of_def Max_Un del: Un_insert_left Un_insert_right Max_insert)
qed (simp add: maximum_of_def)

interpretation count: statistic "\<lambda>_::unit. (+) 1 :: int \<Rightarrow> int" "\<lambda>b a. a + b :: int" 0 count_of
  by unfold_locales (simp_all add: count_of_def)

text \<open>Every field of the local monitors is such a statistic of the records of its kind.\<close>

lemmas field_ops = mon_ops LocalMonitor_new_def LocalMonitor_Reset_def Let_def

interpretation maxEvalCostMs: monitored "UpdateMax (<)" "UpdateMax (<)" "0 :: real" maximum_of
    real_arith m_max_eval_cost_ms "\<lambda>c. case c of EvalCost v \<Rightarrow> [v] | _ \<Rightarrow> []"
  by unfold_locales (simp add: field_ops, case_tac c, simp_all add: field_ops)

interpretation avgEvalCostMs: monitored "Average_Update real_arith" "Average_Merge real_arith" "Average_new real_arith" average_of
    real_arith m_avg_eval_cost_ms "\<lambda>c. case c of EvalCost v \<Rightarrow> [v] | _ \<Rightarrow> []"
  by unfold_locales (simp add: field_ops, case_tac c, simp_all add: field_ops)

interpretation maxEvalCostMsPerBatch: monitored "UpdateMax (<)" "UpdateMax (<)" "0 :: real" maximum_of
    real_arith m_max_eval_cost_ms_per_batch "\<lambda>c. case c of EvalCostPerBatch v \<Rightarrow> [v] | _ \<Rightarrow> []"
  by unfold_locales (simp add: field_ops, case_tac c, simp_all add: field_ops)

interpretation avgEvalCostMsPerBatch: monitored "Average_Update real_arith" "Average_Merge real_arith" "Average_new real_arith" average_of
    real_arith m_avg_eval_cost_ms_per_batch "\<lambda>c. case c of EvalCostPerBatch v \<Rightarrow> [v] | _ \<Rightarrow> []"
  by unfold_locales (simp add: field_ops, case_tac c, simp_all add: field_ops)

interpretation maxSimulationCostMs: monitored "UpdateMax (<)" "UpdateMax (<)" "0 :: real" maximum_of
    real_arith m_max_sim_cost_ms "\<lambda>c. case c of SimulationCost v \<Rightarrow> [v] | _ \<Rightarrow> []"
  by unfold_locales (simp add: field_ops, case_tac c, simp_all add: field_ops)

interpretation avgSimulationCostMs: monitored "Average_Update real_arith" "Average_Merge real_arith" "Average_new real_arith" average_of
    real_arith m_avg_sim_cost_ms "\<lambda>c. case c of SimulationCost v \<Rightarrow> [v] | _ \<Rightarrow> []"
  by unfold_locales (simp add: field_ops, case_tac c, simp_all add: field_ops)

interpretation maxSelectCostMs: monitored "UpdateMax (<)" "UpdateMax (<)" "0 :: real" maximum_of
    real_arith m_max_select_cost_ms "\<lambda>c. case c of SelectCost v \<Rightarrow> [v] | _ \<Rightarrow> []"
  by unfold_locales (simp add: field_ops, case_tac c, simp_all add: field_ops)

interpretation avgSelectCostMs: monitored "Average_Update real_arith" "Average_Merge real_arith" "Average_new real_arith" average_of
    real_arith m_avg_select_cost_ms "\<lambda>c. case c of SelectCost v \<Rightarrow> [v] | _ \<Rightarrow> []"
  by unfold_locales (simp add: field_ops, case_tac c, simp_all add: field_ops)

interpretation maxExpandCostMs: monitored "UpdateMax (<)" "UpdateMax (<)" "0 :: real" maximum_of
    real_arith m_max_expand_cost_ms "\<lambda>c. case c of ExpandCost v \<Rightarrow> [v] | _ \<Rightarrow> []"
  by unfold_locales (simp add: field_ops, case_tac c, simp_all add: field_ops)

interpretation avgExpandCostMs: monitored "Average_Update real_arith" "Average_Merge real_arith" "Average_new real_arith" average_of
    real_arith m_avg_expand_cost_ms "\<lambda>c. case c of ExpandCost v \<Rightarrow> [v] | _ \<Rightarrow> []"
  by unfold_locales (simp add: field_ops, case_tac c, simp_all add: field_ops)

interpretation maxBackupCostMs: monitored "UpdateMax (<)" "UpdateMax (<)" "0 :: real" maximum_of
    real_arith m_max_backup_cost_ms "\<lambda>c. case c of BackupCost v \<Rightarrow> [v] | _ \<Rightarrow> []"
  by unfold_locales (simp add: field_ops, case_tac c, simp_all add: field_ops)

interpretation avgBackupCostMs: monitored "Average_Update real_arith" "Average_Merge real_arith" "Average_new real_arith" average_of
    real_arith m_avg_backup_cost_ms "\<lambda>c. case c of BackupCost v \<Rightarrow> [v] | _ \<Rightarrow> []"
  by unfold_locales (simp add: field_ops, case_tac c, simp_all add: field_ops)

interpretation avgEvalBatchSize: monitored "Average_Update real_arith" "Average_Merge real_arith" "Average_new real_arith" average_of
    real_arith m_avg_batch_size "\<lambda>c. case c of BatchSize v \<Rightarrow> [real_of_int v] | _ \<Rightarrow> []"
  by unfold_locales (simp add: field_ops, case_tac c, simp_all add: field_ops)

interpretation evalTimeout: monitored "\<lambda>_::unit. (+) 1 :: int \<Rightarrow> int" "\<lambda>b a. a + b :: int" 0 count_of
    real_arith m_eval_timeout "\<lambda>c. case c of TimedOut \<Rightarrow> [()] | _ \<Rightarrow> []"
  by unfold_locales (simp add: field_ops, case_tac c, simp_all add: field_ops)

interpretation selectSameNode: monitored "\<lambda>_::unit. (+) 1 :: int \<Rightarrow> int" "\<lambda>b a. a + b :: int" 0 count_of
    real_arith m_select_same_node "\<lambda>c. case c of SameNode \<Rightarrow> [()] | _ \<Rightarrow> []"
  by unfold_locales (simp add: field_ops, case_tac c, simp_all add: field_ops)

interpretation maxSearchTreeHeight: monitored "UpdateMax (<)" "UpdateMax (<)" "0 :: int" maximum_of
    real_arith m_max_tree_height "\<lambda>c. case c of TreeHeight v \<Rightarrow> [v] | _ \<Rightarrow> []"
  by unfold_locales (simp add: field_ops, case_tac c, simp_all add: field_ops)

interpretation avgSearchTreeHeight: monitored "Average_Update real_arith" "Average_Merge real_arith" "Average_new real_arith" average_of
    real_arith m_avg_tree_height "\<lambda>c. case c of TreeHeight v \<Rightarrow> [real_of_int v] | _ \<Rightarrow> []"
  by unfold_locales (simp add: field_ops, case_tac c, simp_all add: field_ops)

interpretation avgTaskQueueSize: monitored "Average_Update real_arith" "Average_Merge real_arith" "Average_new real_arith" average_of
    real_arith m_avg_task_queue_size "\<lambda>c. case c of TaskQueueSize v \<Rightarrow> [real_of_int v] | _ \<Rightarrow> []"
  by unfold_locales (simp add: field_ops, case_tac c, simp_all add: field_ops)

interpretation avgRpcQueueSize: monitored "Average_Update real_arith" "Average_Merge real_arith" "Average_new real_arith" average_of
    real_arith m_avg_rpc_queue_size "\<lambda>c. case c of RpcQueueSize v \<Rightarrow> [real_of_int v] | _ \<Rightarrow> []"
  by unfold_locales (simp add: field_ops, case_tac c, simp_all add: field_ops)

definition mean :: "real list \<Rightarrow> real" where
  "mean xs = sum_list xs / length xs"

definition largest :: "'a::{linorder,zero} list \<Rightarrow> 'a" where
  "largest xs = Max (insert 0 (set xs))"

lemma average_mean: "average_of (mset xs) a \<Longrightarrow> avg a = mean xs"
  by (simp add: average_of_def mean_def sum_mset_sum_list)

lemma maximum_largest: "maximum_of (mset xs) a \<Longrightarrow> a = largest xs"
  by (simp add: maximum_of_def largest_def)

lemma count_list_calls:
  "length (concat (map (\<lambda>c. case c of TimedOut \<Rightarrow> [()] | _ \<Rightarrow> []) cs)) = count_list cs TimedOut"
  "length (concat (map (\<lambda>c. case c of SameNode \<Rightarrow> [()] | _ \<Rightarrow> []) cs)) = count_list cs SameNode"
  by (induction cs) (simp_all split: mon_call.split)

lemma monitor_reports:
  assumes "share real_arith cs m G"
  shows "MaxEvalCostMs real_arith m = largest [v. EvalCost v \<leftarrow> cs]"
    "AvgEvalCostMs real_arith m = mean [v. EvalCost v \<leftarrow> cs]"
    "MaxEvalCostMsPerBatch real_arith m = largest [v. EvalCostPerBatch v \<leftarrow> cs]"
    "AvgEvalCostMsPerBatch real_arith m = mean [v. EvalCostPerBatch v \<leftarrow> cs]"
    "MaxSimulationCostMs real_arith m = largest [v. SimulationCost v \<leftarrow> cs]"
    "AvgSimulationCostMs real_arith m = mean [v. SimulationCost v \<leftarrow> cs]"
    "MaxSelectCostMs real_arith m = largest [v. SelectCost v \<leftarrow> cs]"
    "AvgSelectCostMs real_arith m = mean [v. SelectCost v \<leftarrow> cs]"
    "MaxExpandCostMs real_arith m = largest [v. ExpandCost v \<leftarrow> cs]"
    "AvgExpandCostMs real_arith m = mean [v. ExpandCost v \<leftarrow> cs]"
    "MaxBackupCostMs real_arith m = largest [v. BackupCost v \<leftarrow> cs]"
    "AvgBackupCostMs real_arith m = mean [v. BackupCost v \<leftarrow> cs]"
    "AvgEvalBatchSize real_arith m = mean [real_of_int v. BatchSize v \<leftarrow> cs]"
    "EvalTimeout m = int (count_list cs TimedOut)"
    "SelectSameNode m = int (count_list cs SameNode)"
    "MaxSearchTreeHeight m = largest [v. TreeHeight v \<leftarrow> cs]"
    "AvgSearchTreeHeight real_arith m = mean [real_of_int v. TreeHeight v \<leftarrow> cs]"
    "AvgTaskQueueSize real_arith m = mean [real_of_int v. TaskQueueSize v \<leftarrow> cs]"
    "AvgRpcQueueSize real_arith m = mean [real_of_int v. RpcQueueSize v \<leftarrow> cs]"
proof -
  show "MaxEvalCostMs real_arith m = largest [v. EvalCost v \<leftarrow> cs]" using maximum_largest [OF maxEvalCostMs.global_sums [OF assms]] by (simp add: MaxEvalCostMs_def GetGlobalMax_def)
  show "AvgEvalCostMs real_arith m = mean [v. EvalCost v \<leftarrow> cs]" unfolding AvgEvalCostMs_def GetGlobalAvg_def
    by (rule average_mean, rule avgEvalCostMs.global_sums [OF assms])
  show "MaxEvalCostMsPerBatch real_arith m = largest [v. EvalCostPerBatch v \<leftarrow> cs]" using maximum_largest [OF maxEvalCostMsPerBatch.global_sums [OF assms]] by (simp add: MaxEvalCostMsPerBatch_def GetGlobalMax_def)
  show "AvgEvalCostMsPerBatch real_arith m = mean [v. EvalCostPerBatch v \<leftarrow> cs]" unfolding AvgEvalCostMsPerBatch_def GetGlobalAvg_def
    by (rule average_mean, rule avgEvalCostMsPerBatch.global_sums [OF assms])
  show "MaxSimulationCostMs real_arith m = largest [v. SimulationCost v \<leftarrow> cs]" using maximum_largest [OF maxSimulationCostMs.global_sums [OF assms]] by (simp add: MaxSimulationCostMs_def GetGlobalMax_def)
  show "AvgSimulationCostMs real_arith m = mean [v. SimulationCost v \<leftarrow> cs]" unfolding AvgSimulationCostMs_def GetGlobalAvg_def
    by (rule average_mean, rule avgSimulationCostMs.global_sums [OF assms])
  show "MaxSelectCostMs real_arith m = largest [v. SelectCost v \<leftarrow> cs]" using maximum_largest [OF maxSelectCostMs.global_sums [OF assms]] by (simp add: MaxSelectCostMs_def GetGlobalMax_def)
  show "AvgSelectCostMs real_arith m = mean [v. SelectCost v \<leftarrow> cs]" unfolding AvgSelectCostMs_def GetGlobalAvg_def
    by (rule average_mean, rule avgSelectCostMs.global_sums [OF assms])
  show "MaxExpandCostMs real_arith m = largest [v. ExpandCost v \<leftarrow> cs]" using maximum_largest [OF maxExpandCostMs.global_sums [OF assms]] by (simp add: MaxExpandCostMs_def GetGlobalMax_def)
  show "AvgExpandCostMs real_arith m = mean [v. ExpandCost v \<leftarrow> cs]" unfolding AvgExpandCostMs_def GetGlobalAvg_def
    by (rule average_mean, rule avgExpandCostMs.global_sums [OF assms])
  show "MaxBackupCostMs real_arith m = largest [v. BackupCost v \<leftarrow> cs]" using maximum_largest [OF maxBackupCostMs.global_sums [OF assms]] by (simp add: MaxBackupCostMs_def GetGlobalMax_def)
  show "AvgBackupCostMs real_arith m = mean [v. BackupCost v \<leftarrow> cs]" unfolding AvgBackupCostMs_def GetGlobalAvg_def
    by (rule average_mean, rule avgBackupCostMs.global_sums [OF assms])
  show "AvgEvalBatchSize real_arith m = mean [real_of_int v. BatchSize v \<leftarrow> cs]" unfolding AvgEvalBatchSize_def GetGlobalAvg_def
    by (rule average_mean, rule avgEvalBatchSize.global_sums [OF assms])
  show "EvalTimeout m = int (count_list cs TimedOut)" using evalTimeout.global_sums [OF assms] by (simp add: EvalTimeout_def GetGlobalSum_def count_of_def count_list_calls)
  show "SelectSameNode m = int (count_list cs SameNode)" using selectSameNode.global_sums [OF assms] by (simp add: SelectSameNode_def GetGlobalSum_def count_of_def count_list_calls)
  show "MaxSearchTreeHeight m = largest [v. TreeHeight v \<leftarrow> cs]" unfolding MaxSearchTreeHeight_def GetGlobalMax_def
    by (rule maximum_largest, rule maxSearchTreeHeight.global_sums [OF assms])
  show "AvgSearchTreeHeight real_arith m = mean [real_of_int v. TreeHeight v \<leftarrow> cs]" unfolding AvgSearchTreeHeight_def GetGlobalAvg_def
    by (rule average_mean, rule avgSearchTreeHeight.global_sums [OF assms])
  show "AvgTaskQueueSize real_arith m = mean [real_of_int v. TaskQueueSize v \<leftarrow> cs]" unfolding AvgTaskQueueSize_def GetGlobalAvg_def
    by (rule average_mean, rule avgTaskQueueSize.global_sums [OF assms])
  show "AvgRpcQueueSize real_arith m = mean [real_of_int v. RpcQueueSize v \<leftarrow> cs]" unfolding AvgRpcQueueSize_def GetGlobalAvg_def
    by (rule average_mean, rule avgRpcQueueSize.global_sums [OF assms])
qed

text \<open>Claim C33. The monitor merges the statistics of the threads without losing or doubling anything. However the
  records of the threads follow each other, also across resets, ends of threads, and over local monitors that an
  earlier owner of the slot left behind: every average is the mean of all values of its kind recorded since the
  last reset, whichever thread recorded them, every maximum is the largest of them, or zero, every count their
  number. Averages are exact with exact arithmetic; \<open>float\<close> rounds them.\<close>

theorem monitor_merges:
  assumes "MCTSMonitor_new i slots store n cur = Some (s, slots', m0)" and "fresh_id i store n cur"
  shows "let m = fold (mon_step real_arith) evs m0; cs = recent [] evs in
     MaxEvalCostMs real_arith m = largest [v. EvalCost v \<leftarrow> cs] \<and>
     AvgEvalCostMs real_arith m = mean [v. EvalCost v \<leftarrow> cs] \<and>
     MaxEvalCostMsPerBatch real_arith m = largest [v. EvalCostPerBatch v \<leftarrow> cs] \<and>
     AvgEvalCostMsPerBatch real_arith m = mean [v. EvalCostPerBatch v \<leftarrow> cs] \<and>
     MaxSimulationCostMs real_arith m = largest [v. SimulationCost v \<leftarrow> cs] \<and>
     AvgSimulationCostMs real_arith m = mean [v. SimulationCost v \<leftarrow> cs] \<and>
     MaxSelectCostMs real_arith m = largest [v. SelectCost v \<leftarrow> cs] \<and>
     AvgSelectCostMs real_arith m = mean [v. SelectCost v \<leftarrow> cs] \<and>
     MaxExpandCostMs real_arith m = largest [v. ExpandCost v \<leftarrow> cs] \<and>
     AvgExpandCostMs real_arith m = mean [v. ExpandCost v \<leftarrow> cs] \<and>
     MaxBackupCostMs real_arith m = largest [v. BackupCost v \<leftarrow> cs] \<and>
     AvgBackupCostMs real_arith m = mean [v. BackupCost v \<leftarrow> cs] \<and>
     AvgEvalBatchSize real_arith m = mean [real_of_int v. BatchSize v \<leftarrow> cs] \<and>
     EvalTimeout m = int (count_list cs TimedOut) \<and>
     SelectSameNode m = int (count_list cs SameNode) \<and>
     MaxSearchTreeHeight m = largest [v. TreeHeight v \<leftarrow> cs] \<and>
     AvgSearchTreeHeight real_arith m = mean [real_of_int v. TreeHeight v \<leftarrow> cs] \<and>
     AvgTaskQueueSize real_arith m = mean [real_of_int v. TaskQueueSize v \<leftarrow> cs] \<and>
     AvgRpcQueueSize real_arith m = mean [real_of_int v. RpcQueueSize v \<leftarrow> cs]"
proof -
  from share_run [OF share_new [OF assms], where evs = evs]
  obtain G where "share real_arith (recent [] evs) (fold (mon_step real_arith) evs m0) G" ..
  from monitor_reports [OF this] show ?thesis by (simp add: Let_def)
qed

definition example_monitor :: "real MCTSMonitor" where
  "example_monitor = snd (snd (the (MCTSMonitor_new 7 (True # replicate 999 False)
     (\<lambda>_. LocalMonitor_new real_arith 3) 1 [(5, 0)])))"

definition example_events :: "real mon_event list" where
  "example_events = [Call 5 (TreeHeight 9), ResetAll, Call 5 (TreeHeight 2), Call 6 (TreeHeight 7), Exit 6, Call 5 SameNode,
     Call 6 (TreeHeight 3)]"

lemma example_monitor:
  "MCTSMonitor_new 7 (True # replicate 999 False) (\<lambda>_. LocalMonitor_new real_arith 3) 1 [(5, 0)] =
     Some (1, (True # replicate 999 False)[1 := True], example_monitor)"
  by (simp add: example_monitor_def MCTSMonitor_new_def first_free_def k_max_monitor_instances_def Let_def)

lemma example_fresh: "fresh_id 7 (\<lambda>_. LocalMonitor_new real_arith 3) 1 [(5, 0)]"
  by (simp add: fresh_id_def)

text \<open>Thread 5 comes with the monitor of an earlier engine; thread 6 ends, and another takes its number.\<close>

theorem monitor_merges_witness:
  "let m = fold (mon_step real_arith) example_events example_monitor in
     AvgSearchTreeHeight real_arith m = 4 \<and> MaxSearchTreeHeight m = 7 \<and> SelectSameNode m = 1"
  using monitor_merges [OF example_monitor example_fresh, of example_events]
  by (simp add: Let_def example_events_def mean_def largest_def)

end
