(* ===== verification/Monitor_Thread.thy ===== *)
theory Monitor_Thread
  imports Mcts_Monitor
begin

text \<open>
  The monitor's own thread, \<open>MonitorRoutine\<close> of mcts_monitor.cc, on a conductor of its own: the engine
  resumes it with the search (\<open>Resume\<close>), pauses it (\<open>Pause\<close>) and ends it in the destructor. It is the protocol of the
  search threads but for one test: the first \<open>Wait\<close> is not followed by a test for the end.
\<close>

text \<open>The flag is true at the first \<open>Wait\<close>.\<close>

datatype routine = R_wait bool | R_done bool | R_term | R_check | R_sleep | R_log | R_ack | R_exit | R_error

inductive routine_step :: "ThreadConductor \<Rightarrow> routine \<Rightarrow> ThreadConductor \<Rightarrow> routine \<Rightarrow> bool" where
  wait_run: "Wait_locked c = Some True \<Longrightarrow> routine_step c (R_wait b) c (R_done b)"
| wait_term: "Wait_locked c = Some False \<Longrightarrow> routine_step c (R_wait b) c (if b then R_check else R_term)"
| wait_done: "Wait_done c = Some (Inr c') \<Longrightarrow> routine_step c (R_done b) c' (if b then R_check else R_term)"
| wait_error: "Wait_done c = Some (Inl e) \<Longrightarrow> routine_step c (R_done b) c R_error"
| check_run: "IsRunning c \<Longrightarrow> routine_step c R_check c R_sleep"
| check_stop: "\<not> IsRunning c \<Longrightarrow> routine_step c R_check c R_ack"
| ack: "AckPause c = Some (Inr c') \<Longrightarrow> routine_step c R_ack c' (R_wait False)"
| ack_error: "AckPause c = Some (Inl e) \<Longrightarrow> routine_step c R_ack c R_error"
| is_term: "IsTerminate c \<Longrightarrow> routine_step c R_term c R_exit"
| resumed: "\<not> IsTerminate c \<Longrightarrow> routine_step c R_term c R_sleep"
| slept: "Sleep_returns expired c \<Longrightarrow> routine_step c R_sleep c R_log"
| logged: "routine_step c R_log c R_check"

inductive_cases routine_stepE: "routine_step c r c' r'"

text \<open>The engine's side is \<open>engine_step\<close> with one thread; \<open>m_resumed\<close> records whether \<open>Resume\<close> was ever called.\<close>

record monitor_sys =
  m_conductor :: ThreadConductor
  m_owner :: engine
  m_routine :: routine
  m_resumed :: bool

definition monitor_start :: monitor_sys where
  "monitor_start = \<lparr>m_conductor = ThreadConductor_new, m_owner = M_idle, m_routine = R_wait True, m_resumed = False\<rparr>"

inductive monitor_step :: "monitor_sys \<Rightarrow> monitor_sys \<Rightarrow> bool" where
  thread: "routine_step (m_conductor s) (m_routine s) c' r' \<Longrightarrow> monitor_step s (s\<lparr>m_conductor := c', m_routine := r'\<rparr>)"
| owner: "engine_step 1 (m_conductor s) (m_owner s) c' e' \<Longrightarrow>
    monitor_step s (s\<lparr>m_conductor := c', m_owner := e', m_resumed := m_resumed s \<or> e' = M_resuming\<rparr>)"

inductive monitor_reach :: "monitor_sys \<Rightarrow> bool" where
  start: "monitor_reach monitor_start"
| step: "monitor_reach s \<Longrightarrow> monitor_step s s' \<Longrightarrow> monitor_reach s'"

text \<open>The place of a search thread that corresponds to a place of the monitor thread.\<close>

fun as_worker :: "routine \<Rightarrow> worker" where
  "as_worker (R_wait b) = W_wait b"
| "as_worker (R_done b) = W_done b"
| "as_worker R_term = W_term False"
| "as_worker R_check = W_check"
| "as_worker R_sleep = W_body"
| "as_worker R_log = W_body"
| "as_worker R_ack = W_ack"
| "as_worker R_exit = W_exit"
| "as_worker R_error = W_error"

text \<open>Before the first \<open>Resume\<close> nothing has happened, unless the monitor is already being ended.\<close>

definition untouched :: "monitor_sys \<Rightarrow> bool" where
  "untouched s \<longleftrightarrow> resume_count (m_conductor s) = 0 \<and> pause_count (m_conductor s) = 0 \<and>
     (m_owner s \<in> {M_idle, T_pause1, T_pause2, T_join, T_set} \<and> m_state (m_conductor s) = k_pause \<and> m_routine s = R_wait True \<or>
      m_owner s = M_end \<and> m_state (m_conductor s) = k_terminate \<and> m_routine s \<in> {R_wait True, R_check, R_ack, R_error})"

definition monitor_inv :: "monitor_sys \<Rightarrow> bool" where
  "monitor_inv s \<longleftrightarrow>
     (if m_resumed s then workers_inv (m_conductor s) [as_worker (m_routine s)] \<and> engine_inv (m_conductor s) (m_owner s) \<and>
        (m_routine s = R_wait True \<or> m_routine s = R_done True \<longrightarrow> m_state (m_conductor s) = k_running)
      else untouched s)"

lemma routine_as_worker:
  assumes "routine_step c r c' r'" and "r \<noteq> R_done True" and "r = R_wait True \<longrightarrow> m_state c = k_running"
  shows "worker_step c (as_worker r) c' (as_worker r') \<or> (c' = c \<and> as_worker r' = as_worker r)"
  using assms by cases (auto intro: worker_step.intros simp: Wait_locked_def)

lemma routine_keeps:
  assumes inv: "workers_inv c [as_worker r]" and eng: "engine_inv c e"
    and first: "r = R_wait True \<or> r = R_done True \<longrightarrow> m_state c = k_running" and st: "routine_step c r c' r'"
  shows "workers_inv c' [as_worker r'] \<and> engine_inv c' e \<and> (r' = R_wait True \<or> r' = R_done True \<longrightarrow> m_state c' = k_running)"
proof (cases "r = R_done True")
  case False
  have keep: "r' = R_wait True \<or> r' = R_done True \<longrightarrow> m_state c' = k_running"
    using st by cases (use first in auto)
  from routine_as_worker [OF st] False first
  consider (step) "worker_step c (as_worker r) c' (as_worker r')" | (same) "c' = c" "as_worker r' = as_worker r" by blast
  then show ?thesis
  proof cases
    case step
    from worker_keeps [OF inv eng, of 0 c' "as_worker r'"] step keep show ?thesis by simp
  qed (use inv eng keep in simp)
next
  case True
  with inv first have run: "m_state c = k_running" "resume_count c = 1" by (simp_all add: workers_inv_def)
  from st True obtain w where w: "Wait_done c = Some w" by (auto elim: routine_stepE)
  have d: "Wait_done c = Some (Inr (c\<lparr>m_resume_wg := (m_resume_wg c)\<lparr>m_counter := 0\<rparr>\<rparr>))"
    using run by (simp add: Wait_done_def Done_pos)
  with st True have r': "r' = R_check" "c' = c\<lparr>m_resume_wg := (m_resume_wg c)\<lparr>m_counter := 0\<rparr>\<rparr>"
    by (auto elim: routine_stepE)
  have "worker_step c (W_done True) c' (W_term True)" using worker_step.wait_done d r' by simp
  from worker_keeps [OF inv eng, of 0 c' "W_term True"] this True
  have k: "workers_inv c' [W_term True]" "engine_inv c' e" by simp_all
  have "worker_step c' (W_term True) c' W_check"
    using run(1) r' by (intro worker_step.first_check) (simp add: IsTerminate_def)
  from worker_keeps [OF k, of 0 c' W_check] this r' show ?thesis by simp
qed

lemma owner_keeps:
  assumes inv: "workers_inv c [as_worker r]" and eng: "engine_inv c e"
    and first: "r = R_wait True \<or> r = R_done True \<longrightarrow> m_state c = k_running" and st: "engine_step 1 c e c' e'"
  shows "workers_inv c' [as_worker r] \<and> engine_inv c' e' \<and> (r = R_wait True \<or> r = R_done True \<longrightarrow> m_state c' = k_running)"
proof -
  have "m_state c' = k_running" if r: "r = R_wait True \<or> r = R_done True"
  proof -
    from r first inv have c: "m_state c = k_running" "resume_count c = 1" by (auto simp: workers_inv_def)
    from st c eng show ?thesis by cases (simp_all add: Resume_locked_def)
  qed
  moreover have "workers_inv c' [as_worker r] \<and> engine_inv c' e'" using engine_keeps [OF inv eng] st by simp
  ultimately show ?thesis by blast
qed

lemma untouched_idle:
  assumes "untouched s" and "m_owner s = M_idle"
  shows "workers_inv (m_conductor s) [as_worker (m_routine s)]" "engine_inv (m_conductor s) (m_owner s)"
  using assms by (auto simp: untouched_def workers_inv_def)

lemma monitor_step_inv:
  assumes inv: "monitor_inv s" and st: "monitor_step s s'"
  shows "monitor_inv s'"
  using st
proof cases
  case (thread c' r')
  show ?thesis
  proof (cases "m_resumed s")
    case True
    with inv routine_keeps [OF _ _ _ thread(2)] thread(1) show ?thesis by (auto simp: monitor_inv_def)
  next
    case False
    with inv have u: "untouched s" by (simp add: monitor_inv_def)
    from thread(2) have "untouched s'"
      by cases (use u thread(1) in \<open>auto simp: untouched_def conductor_ops Done_def Add_def Let_def\<close>)
    with False thread(1) show ?thesis by (simp add: monitor_inv_def)
  qed
next
  case (owner c' e')
  show ?thesis
  proof (cases "m_resumed s")
    case True
    with inv owner_keeps [OF _ _ _ owner(2)] owner(1) show ?thesis by (auto simp: monitor_inv_def)
  next
    case False
    with inv have u: "untouched s" by (simp add: monitor_inv_def)
    show ?thesis
    proof (cases "e' = M_resuming")
      case True
      with owner(2) have i: "m_owner s = M_idle" and r: "Resume_locked 1 (m_conductor s) = Some (True, c')"
        by (auto elim: engine_stepE)
      from r have "m_state c' = k_running"
        by (auto simp: Resume_locked_def split: if_splits option.splits prod.splits sum.splits)
      moreover have "engine_step (int (length [as_worker (m_routine s)])) (m_conductor s) (m_owner s) c' e'" using owner(2) by simp
      from engine_keeps [OF untouched_idle [OF u i] _ this] have "workers_inv c' [as_worker (m_routine s)] \<and> engine_inv c' e'" by simp
      ultimately show ?thesis using owner(1) True by (simp add: monitor_inv_def)
    next
      case no: False
      from owner(2) have "untouched s'"
        by cases (use u owner(1) no in \<open>auto simp: untouched_def conductor_ops Add_def Let_def\<close>)
      with False no owner(1) show ?thesis by (simp add: monitor_inv_def)
    qed
  qed
qed

lemma monitor_reach_inv: "monitor_reach s \<Longrightarrow> monitor_inv s"
proof (induction rule: monitor_reach.induct)
  case start
  show ?case by (simp add: monitor_inv_def untouched_def monitor_start_def ThreadConductor_new_def WaitGroup_new_def)
qed (rule monitor_step_inv)

text \<open>The run to the failure: the monitor of an engine that never searched is ended.\<close>

definition after_terminate :: ThreadConductor where
  "after_terminate = ThreadConductor_new\<lparr>m_state := k_terminate\<rparr>"

lemma crash_run:
  "monitor_reach \<lparr>m_conductor = after_terminate, m_owner = M_end, m_routine = R_error, m_resumed = False\<rparr>"
proof -
  let ?s = "\<lambda>c e r. \<lparr>m_conductor = c, m_owner = e, m_routine = r, m_resumed = False\<rparr>"
  let ?c = ThreadConductor_new
  note new = ThreadConductor_new_def WaitGroup_new_def after_terminate_def conductor_ops
  have own: "engine_step 1 c e c' e' \<Longrightarrow> e' \<noteq> M_resuming \<Longrightarrow> monitor_step (?s c e r) (?s c' e' r)" for c e c' e' r
    using monitor_step.owner [of "?s c e r" c' e'] by simp
  have thr: "routine_step c r c' r' \<Longrightarrow> monitor_step (?s c e r) (?s c' e r')" for c e c' r r'
    using monitor_step.thread [of "?s c e r" c' r'] by simp
  have "monitor_reach (?s ?c M_idle (R_wait True))" using monitor_reach.start by (simp add: monitor_start_def)
  then have "monitor_reach (?s ?c T_pause1 (R_wait True))"
    by (rule monitor_reach.step) (rule own [OF engine_step.term_idle], simp)
  then have "monitor_reach (?s ?c T_pause2 (R_wait True))"
    by (rule monitor_reach.step) (rule own [OF engine_step.term_wait], simp_all add: new)
  then have "monitor_reach (?s (set_pause ?c) T_join (R_wait True))"
    by (rule monitor_reach.step) (rule own [OF engine_step.term_pause], simp)
  then have "monitor_reach (?s (set_pause ?c) T_set (R_wait True))"
    by (rule monitor_reach.step) (rule own [OF engine_step.term_join], simp_all add: new)
  then have "monitor_reach (?s (set_terminate (set_pause ?c)) M_end (R_wait True))"
    by (rule monitor_reach.step) (rule own [OF engine_step.term_set], simp)
  then have "monitor_reach (?s after_terminate M_end (R_wait True))" by (simp add: new)
  then have "monitor_reach (?s after_terminate M_end R_check)"
    by (rule monitor_reach.step) (rule thr, use routine_step.wait_term [of after_terminate True] in \<open>simp add: new\<close>)
  then have "monitor_reach (?s after_terminate M_end R_ack)"
    by (rule monitor_reach.step) (rule thr [OF routine_step.check_stop], simp add: new)
  then show ?thesis
    by (rule monitor_reach.step) (rule thr [OF routine_step.ack_error], simp add: new Done_def Add_def)
qed

text \<open>Claim C34. When the monitor's thread fails: its acknowledgement throws, which ends the program, exactly when
  the monitor is ended before its first \<open>Resume\<close>, that is when an engine with a monitor log is deleted before it ever
  searched; such a run exists. In every other run nothing throws, and whenever \<open>Pause\<close> has returned the thread is
  parked in \<open>Wait\<close>, so that \<open>Reset\<close> meets no log.\<close>

theorem monitor_thread_fails_iff:
  "(\<forall>s. monitor_reach s \<longrightarrow> m_resumed s \<longrightarrow> m_routine s \<noteq> R_error \<and>
      (m_owner s \<in> {M_idle, T_set} \<longrightarrow> (\<exists>b. m_routine s = R_wait b))) \<and>
   (\<forall>s. monitor_reach s \<longrightarrow> m_routine s = R_error \<longrightarrow> \<not> m_resumed s \<and> m_owner s = M_end) \<and>
   (\<exists>s. monitor_reach s \<and> m_routine s = R_error)"
proof -
  have err: "m_routine s \<noteq> R_error" if "monitor_reach s" "m_resumed s" for s
    using monitor_reach_inv [OF that(1)] that(2) by (auto simp: monitor_inv_def workers_inv_def)
  have parked: "\<exists>b. m_routine s = R_wait b" if r: "monitor_reach s" "m_resumed s" "m_owner s \<in> {M_idle, T_set}" for s
  proof -
    from monitor_reach_inv [OF r(1)] r(2,3) have "pause_worker (as_worker (m_routine s))" "\<not> busy (as_worker (m_routine s))"
      by (auto simp: monitor_inv_def workers_inv_def split: if_splits)
    then show ?thesis by (cases "m_routine s") simp_all
  qed
  have "m_owner s = M_end" if "monitor_reach s" "m_routine s = R_error" for s
    using err [OF that(1)] that monitor_reach_inv [OF that(1)] by (auto simp: monitor_inv_def untouched_def split: if_splits)
  with err parked crash_run show ?thesis by (metis monitor_sys.select_convs(3))
qed

definition resumed_state :: monitor_sys where
  "resumed_state = \<lparr>m_conductor = \<lparr>m_state = k_running, m_resume_wg = \<lparr>m_counter = 1\<rparr>, m_pause_wg = \<lparr>m_counter = 1\<rparr>\<rparr>,
     m_owner = M_resuming, m_routine = R_wait True, m_resumed = True\<rparr>"

lemma resumed_run: "monitor_reach resumed_state"
proof -
  have "engine_step 1 (m_conductor monitor_start) (m_owner monitor_start) (m_conductor resumed_state) M_resuming"
    using engine_step.resume [of 1 ThreadConductor_new "m_conductor resumed_state"]
    by (simp add: monitor_start_def resumed_state_def Resume_locked_def ThreadConductor_new_def WaitGroup_new_def Add_def)
  from monitor_step.owner [OF this] have "monitor_step monitor_start resumed_state"
    by (simp add: monitor_start_def resumed_state_def)
  then show ?thesis using monitor_reach.start by (rule monitor_reach.step [rotated])
qed

theorem monitor_thread_fails_iff_witness:
  "m_routine resumed_state \<noteq> R_error \<and> (\<exists>s. monitor_reach s \<and> m_routine s = R_error)"
  using monitor_thread_fails_iff resumed_run by (simp add: resumed_state_def)

end
