(* ===== verification/Spec2Isabelle.thy ===== *)
theory Spec2Isabelle
  imports Go_Score Go_Feature Sync_Conductor Eval_Cache Eval_Batch Dist_Async Gtp_Properties Mcts_Selfplay Mcts_Analysis Monitor_Thread
begin

text \<open>
  A verification library for PhoenixGo, a Go engine in C++ (src/src/): the rules of Go, Monte Carlo tree search
  with a neural network, and the GTP front end. Every definition is translated from the file and the function it
  is named after.

  \<^bold>\<open>The program.\<close> \<open>mcts_main.cc\<close> reads GTP commands and calls one \<open>MCTSEngine\<close>, which owns the board
  (\<open>GoState\<close>), the search tree, the timers and the search threads. A search thread runs simulations: it walks
  from the root to a leaf (\<open>Select\<close>), asks for an evaluation of the leaf's position (\<open>Eval\<close>: a cache, else a task in
  a queue that the evaluation threads of \<open>eval_routine.cc\<close> turn into batches for a model, local or on a server),
  and the callback adds the leaf's children (\<open>Expand\<close>) and its value (\<open>Backup\<close>). A delete thread frees the parts of
  the tree that a move made unreachable. The engine thread pauses the search threads (\<open>ThreadConductor\<close>)
  before it changes the board or the tree.

  \<^bold>\<open>Foundations.\<close> \<open>Go_Prelude\<close>: option-valued loops and their rules, machine integers. \<open>Cpp_String\<close>: the
  string functions of C++ in use, and \<open>str_utils.cc\<close>. \<open>Cpp_Float\<close>: floats as an argument.

  \<^bold>\<open>The board\<close> (\<open>go_comm\<close>, \<open>go_state\<close>). \<open>Go_Comm\<close>, \<open>Go_Block\<close>, \<open>Go_State\<close>, \<open>Go_Score\<close> and \<open>Go_Feature\<close> hold the
  program: points and tables, a block of stones as three bitmaps, \<open>GoState\<close> with \<open>Move\<close>, \<open>TryMove\<close>, \<open>GetSensibleMove\<close>,
  the union-find \<open>FindCoord\<close>, the scoring flood fill, the input planes of the network. \<open>Go_Rules\<close> is the
  specification: groups, liberties, captures on a plain board. \<open>Go_Links\<close>, \<open>Go_Inv\<close>, \<open>Go_Try\<close>, \<open>Go_Join\<close>,
  \<open>Go_Capture\<close>, \<open>Go_Sensible\<close>, \<open>Go_Move\<close> and \<open>Go_Play\<close> prove that the block pool represents the board through
  the phases of a move; \<open>Go_Correct\<close> and \<open>Go_Game\<close> state the refinement of the rules by \<open>Move\<close>, and what holds in
  every game. Theorems on games are bounded by 253 moves, the number of blocks that the pool can give out
  less those that a trial move borrows; up to there allocation cannot fail.

  \<^bold>\<open>The search\<close> (\<open>mcts_engine.cc\<close>). \<open>Mcts_Config\<close> is \<open>mcts_config.proto\<close>. \<open>Mcts_Tree\<close>: nodes in a store, \<open>Select\<close>,
  \<open>Expand\<close>, \<open>Backup\<close>, \<open>UndoVirtualLoss\<close>, \<open>ChangeRoot\<close>, \<open>DeleteTree\<close>. \<open>Mcts_Walk\<close>, \<open>Mcts_Expand\<close>,
  \<open>Mcts_Root\<close>: trees, walks, growth, and giving up a subtree. \<open>Mcts_Sim\<close>: simulations of several threads in flight, as
  steps, with the invariant of the counters; \<open>Mcts_States\<close>: the states of a node. \<open>Mcts_Eval\<close>: \<open>Eval\<close> with the
  cache, the symmetries and the temperature. \<open>Mcts_Choice\<close>: choice of the move, resignation, early stop and time
  control. \<open>Mcts_Engine\<close>: the engine's state and commands; \<open>Mcts_Search\<close>: \<open>SearchWait\<close>, \<open>Search\<close>, \<open>GenMove\<close>;
  \<open>Mcts_Selfplay\<close>: games of the engine against itself; \<open>Mcts_Debug\<close>: \<open>mcts_debugger.cc\<close>, \<open>analyze.cc\<close> and
  \<open>OutputAnalysis\<close>; \<open>Mcts_Monitor\<close>, \<open>Monitor_Thread\<close>: the statistics of \<open>mcts_monitor.cc\<close> and its thread. \<open>Mcts_Record\<close>, \<open>Mcts_Inv\<close>, \<open>Mcts_Commands\<close>,
  \<open>Mcts_Safety\<close>, \<open>Mcts_Threads\<close>: every run of the engine (\<open>engine_run\<close>: commands, and between them steps of the
  search threads and the delete thread in any order) keeps its invariant. \<open>Mcts_Properties\<close>, \<open>Mcts_Walks\<close>, \<open>Mcts_Time\<close>
  and \<open>Mcts_Analysis\<close> hold the properties, \<open>Mcts_Example\<close> a run with real numbers for their witnesses.

  \<^bold>\<open>Services.\<close> \<open>Sync_WaitGroup\<close>, \<open>Sync_Conductor\<close> (\<open>wait_group.cc\<close>, \<open>thread_conductor.cc\<close> and the protocol of the
  threads on it), \<open>Task_Queue\<close> (\<open>task_queue.h\<close>, the locale \<open>fifo_queue\<close>), \<open>Timers\<close> (\<open>timer.cc\<close>, \<open>byo_yomi_timer.cc\<close>,
  \<open>leaky_bucket.cc\<close>), \<open>Eval_Cache\<close> (\<open>config.h\<close>, the locale \<open>bounded_cache\<close>), \<open>Eval_Batch\<close> (\<open>eval_routine.cc\<close>),
  \<open>Dist_Model\<close> and \<open>Dist_Async\<close> (the remote model, synchronous and asynchronous, and the server).

  \<^bold>\<open>The front end.\<close> \<open>Gtp\<close>: notation, configuration and commands of \<open>mcts_main.cc\<close> and \<open>mcts_config.cc\<close>.
  \<open>Gtp_Session\<close>, \<open>Gtp_Properties\<close>: a session keeps the engine within \<open>engine_run\<close>, so that what is proved of the engine
  and of the board holds in every session.

  \<^bold>\<open>Conventions.\<close> \<open>None\<close> is an execution that C++ leaves undefined (a read outside an array, a null pointer, a
  double free), a failed \<open>CHECK\<close>, or a loop that does not end; theorems that an operation works say that it is
  \<open>Some\<close>. Error codes and exceptions are values. Fuel: chains and lists of stones are followed with fuel 361, the
  number of points, which \<open>Go_Inv\<close> shows to be enough; the loops on the tree, of \<open>SearchWait\<close> and of the root's
  evaluation are partial functions. \<open>int16_t\<close>, \<open>int32_t\<close> and \<open>uint64_t\<close> values that grow wrap around; the others are
  shown to be small.

  \<^bold>\<open>Arguments of the model.\<close> Float arithmetic (\<open>arith\<close>; theorems name the laws they need, the examples take real
  numbers); the clock; random numbers; the network and the RPC library; the order that \<open>std::nth_element\<close> chooses
  among equals; what other threads do while a thread waits, limited by hypotheses to steps of the model.

  \<^bold>\<open>Granularity.\<close> Critical sections and accesses to atomics are atomic steps and interleave freely. The walk of a
  simulation to its leaf is one step, so is its answer: the code's counters are atomics that only add up, but
  a walk that sees the half-done walk of another is not covered. Memory is sequentially consistent.

  \<^bold>\<open>Not modelled.\<close> The TensorRT runtime (\<open>trt_zero_model.cc\<close>, \<open>build_tensorrt_model.cc\<close>): calls of CUDA
  libraries, which are not part of the sources; the network is an argument instead. \<open>address_sorting.c\<close>: third-party
  code. \<open>debug_tool.cc\<close>: a stand-alone printer of boards. Text that is only logged (\<open>Show\<close> functions, \<open>PrintTree\<close>,
  \<open>Log\<close>). Sockets, processes and the command line of \<open>mcts_main.cc\<close>.
\<close>

end
